(* ===== verification/Prelude.thy ===== *)
theory Prelude
  imports Main "HOL-Library.Word" "HOL-Library.Multiset"
begin

text \<open>
  The prelude of the development: the machine types of the C++ code, the rule collections
  the component theories feed, the error sum used for every early return, the
  little-endian codecs of \<^verbatim>\<open>crypto/common.h\<close>, and the generic lemmas on lists, words and
  numbers that several components share.
\<close>

unbundle bit_operations_syntax

section \<open>Machine types\<close>

text \<open>
  \<^verbatim>\<open>unsigned char\<close>, \<^verbatim>\<open>uint16_t\<close>, \<^verbatim>\<open>uint32_t\<close> and \<^verbatim>\<open>uint64_t\<close> are words of their width.
  Signed quantities (\<^verbatim>\<open>int\<close>, \<^verbatim>\<open>int64_t\<close>, \<^verbatim>\<open>CAmount\<close>) are integers together with the range
  predicates \<open>int32_ok\<close> and \<open>int64_ok\<close>: signed overflow is undefined in C++, so the
  development proves that results stay in range instead of giving it a meaning.
\<close>

type_synonym byte = "8 word"
type_synonym u16 = "16 word"
type_synonym u32 = "32 word"
type_synonym u64 = "64 word"
type_synonym valtype = "byte list"

definition int32_ok :: "int \<Rightarrow> bool" where
  "int32_ok n \<longleftrightarrow> - (2 ^ 31) \<le> n \<and> n < 2 ^ 31"

definition int64_ok :: "int \<Rightarrow> bool" where
  "int64_ok n \<longleftrightarrow> - (2 ^ 63) \<le> n \<and> n < 2 ^ 63"

named_theorems bytes_simps \<open>lengths and decodings of byte codecs\<close>
named_theorems le_simps \<open>unsigned values of words built by the code\<close>

section \<open>Results with errors\<close>

text \<open>An early return or a thrown exception is \<open>Inl\<close>; \<open>andThen\<close> sequences two steps.\<close>

definition andThen :: "'e + 'a \<Rightarrow> ('a \<Rightarrow> 'e + 'b) \<Rightarrow> 'e + 'b" where
  "andThen r f = (case r of Inl e \<Rightarrow> Inl e | Inr a \<Rightarrow> f a)"

lemma andThen_simps [simp]:
  "andThen (Inl e) f = Inl e"
  "andThen (Inr a) f = f a"
  by (simp_all add: andThen_def)

lemma andThen_Inr_iff: "andThen r f = Inr b \<longleftrightarrow> (\<exists>a. r = Inr a \<and> f a = Inr b)"
  by (cases r) auto

lemma andThen_Inl_iff: "andThen r f = Inl e \<longleftrightarrow> r = Inl e \<or> (\<exists>a. r = Inr a \<and> f a = Inl e)"
  by (cases r) auto

definition guardE :: "bool \<Rightarrow> 'e \<Rightarrow> 'e + unit" where
  "guardE b e = (if b then Inr () else Inl e)"

lemma guardE_Inr_iff [simp]: "guardE b e = Inr u \<longleftrightarrow> b"
  by (simp add: guardE_def)

lemma guardE_True [simp]: "guardE True e = Inr ()"
  by (simp add: guardE_def)

lemma guardE_False [simp]: "guardE False e = Inl e"
  by (simp add: guardE_def)

text \<open>A loop whose body may fail, over the elements of a list.\<close>

fun foldE :: "('a \<Rightarrow> 's \<Rightarrow> 'e + 's) \<Rightarrow> 'a list \<Rightarrow> 's \<Rightarrow> 'e + 's" where
  "foldE f [] s = Inr s"
| "foldE f (x # xs) s = andThen (f x s) (foldE f xs)"

lemma foldE_append: "foldE f (xs @ ys) s = andThen (foldE f xs s) (foldE f ys)"
proof (induction xs arbitrary: s)
  case (Cons x xs)
  then show ?case by (cases "f x s") auto
qed simp

lemma foldE_invariant:
  assumes "foldE f xs s = Inr t" "P s"
    and "\<And>x u v. x \<in> set xs \<Longrightarrow> P u \<Longrightarrow> f x u = Inr v \<Longrightarrow> P v"
  shows "P t"
  using assms
proof (induction xs arbitrary: s)
  case (Cons x xs)
  from Cons.prems(1) obtain u where u: "f x s = Inr u" "foldE f xs u = Inr t"
    by (auto simp: andThen_Inr_iff)
  have "P u" by (rule Cons.prems(3)[OF _ Cons.prems(2) u(1)]) simp
  moreover have "\<And>y u v. y \<in> set xs \<Longrightarrow> P u \<Longrightarrow> f y u = Inr v \<Longrightarrow> P v"
    using Cons.prems(3) by (meson list.set_intros(2))
  ultimately show ?case using Cons.IH[OF u(2)] by blast
qed simp

section \<open>Word lemmas\<close>

lemma unat_ucast_up: "LENGTH('a::len) \<le> LENGTH('b::len) \<Longrightarrow> unat (ucast (x :: 'a word) :: 'b word) = unat x"
  by (metis order_less_le_trans power_increasing_iff take_bit_nat_eq_self_iff one_less_numeral_iff
      semiring_norm(76) unsigned_less unsigned_ucast_eq)

lemma unat_ucast_mod: "unat (ucast (x :: 'a::len word) :: 'b::len word) = unat x mod 2 ^ LENGTH('b)"
  by (simp add: unsigned_ucast_eq take_bit_eq_mod)

lemma unat_and_mask: "unat (x AND mask n) = unat (x :: 'a::len word) mod 2 ^ n"
  by (simp only: unsigned_take_bit_eq [symmetric] take_bit_eq_mask [symmetric] take_bit_eq_mod [symmetric])

lemma unat_shiftr: "unat (drop_bit n (x :: 'a::len word)) = unat x div 2 ^ n"
  by (simp only: unat_drop_bit_eq drop_bit_eq_div [of n "unat x"])

lemma unat_shiftl: "unat (push_bit n (x :: 'a::len word)) = (unat x * 2 ^ n) mod 2 ^ LENGTH('a)"
  by (simp only: unsigned_push_bit_eq take_bit_eq_mod push_bit_eq_mult [of n "unat x"])

lemma unat_lt_pow: "unat (x :: 'a::len word) < 2 ^ LENGTH('a)"
  by (rule unsigned_less)

lemma unat_byte_less: "unat (b :: byte) < 256"
  using unsigned_less[of b] by simp

lemma unat_u32_less: "unat (b :: u32) < 4294967296"
  using unsigned_less[of b] by simp

lemma unat_u64_less: "unat (b :: u64) < 18446744073709551616"
  using unsigned_less[of b] by simp

lemma unat_or_disjoint:
  "x AND y = 0 \<Longrightarrow> unat (x OR y) = unat x + unat (y :: 'a::len word)"
  by (metis disjunctive_add_eq_or unsigned_0 unsigned_and_eq unsigned_or_eq)

lemma word_eq_unatI: "unat x = unat (y :: 'a::len word) \<Longrightarrow> x = y"
  by (simp add: word_unat_eq_iff)

lemma unat_of_nat_small: "n < 2 ^ LENGTH('a) \<Longrightarrow> unat (word_of_nat n :: 'a::len word) = n"
  by (simp add: unat_of_nat)

section \<open>Little-endian codecs\<close>

text \<open>
  \<open>le_bytes k n\<close> are the \<open>k\<close> low bytes of \<open>n\<close>, least significant first, and \<open>le_val\<close>
  reads such a sequence back. The accessors of \<^verbatim>\<open>crypto/common.h\<close> are these at a fixed width.
\<close>

primrec le_bytes :: "nat \<Rightarrow> nat \<Rightarrow> byte list" where
  "le_bytes 0 n = []"
| "le_bytes (Suc k) n = word_of_nat (n mod 256) # le_bytes k (n div 256)"

primrec le_val :: "byte list \<Rightarrow> nat" where
  "le_val [] = 0"
| "le_val (b # bs) = unat b + 256 * le_val bs"

definition WriteLE16 :: "u16 \<Rightarrow> byte list" where
  "WriteLE16 x = le_bytes 2 (unat x)"

definition WriteLE32 :: "u32 \<Rightarrow> byte list" where
  "WriteLE32 x = le_bytes 4 (unat x)"

definition WriteLE64 :: "u64 \<Rightarrow> byte list" where
  "WriteLE64 x = le_bytes 8 (unat x)"

definition ReadLE16 :: "byte list \<Rightarrow> u16" where
  "ReadLE16 bs = word_of_nat (le_val (take 2 bs))"

definition ReadLE32 :: "byte list \<Rightarrow> u32" where
  "ReadLE32 bs = word_of_nat (le_val (take 4 bs))"

definition ReadLE64 :: "byte list \<Rightarrow> u64" where
  "ReadLE64 bs = word_of_nat (le_val (take 8 bs))"

lemma length_le_bytes [simp, bytes_simps]: "length (le_bytes k n) = k"
  by (induction k arbitrary: n) auto

lemma le_val_le_bytes: "le_val (le_bytes k n) = n mod 256 ^ k"
proof (induction k arbitrary: n)
  case (Suc k)
  have "unat (word_of_nat (n mod 256) :: byte) = n mod 256"
    by (simp add: unat_of_nat)
  with Suc show ?case by (simp add: mod_mult2_eq)
qed simp

lemma le_val_less: "le_val bs < 256 ^ length bs"
proof (induction bs)
  case (Cons b bs)
  have "unat b < 256" by (rule unat_byte_less)
  with Cons have "unat b + 256 * le_val bs < 256 * 256 ^ length bs" by linarith
  then show ?case by simp
qed simp

lemma le_val_append: "le_val (xs @ ys) = le_val xs + 256 ^ length xs * le_val ys"
  by (induction xs) (simp_all add: algebra_simps)

lemma le_val_ones: "le_val (replicate n 255) + 1 = 256 ^ n"
  by (induction n) simp_all

lemma le_bytes_le_val: "le_bytes (length bs) (le_val bs) = bs"
proof (induction bs)
  case (Cons b bs)
  have "(unat b + 256 * le_val bs) mod 256 = unat b" "(unat b + 256 * le_val bs) div 256 = le_val bs"
    using unat_byte_less[of b] by simp_all
  with Cons show ?case by simp
qed simp

lemma le_bytes_inject:
  "n < 256 ^ k \<Longrightarrow> m < 256 ^ k \<Longrightarrow> le_bytes k n = le_bytes k m \<longleftrightarrow> n = m"
  by (metis le_val_le_bytes mod_less)

lemma length_WriteLE [simp, bytes_simps]:
  "length (WriteLE16 a) = 2" "length (WriteLE32 b) = 4" "length (WriteLE64 c) = 8"
  by (simp_all add: WriteLE16_def WriteLE32_def WriteLE64_def)

lemma ReadLE16_WriteLE16 [simp, bytes_simps]: "ReadLE16 (WriteLE16 x @ r) = x"
  using unat_lt_pow[of x] by (simp add: ReadLE16_def WriteLE16_def le_val_le_bytes)

lemma ReadLE32_WriteLE32 [simp, bytes_simps]: "ReadLE32 (WriteLE32 x @ r) = x"
  using unat_lt_pow[of x] by (simp add: ReadLE32_def WriteLE32_def le_val_le_bytes)

lemma ReadLE64_WriteLE64 [simp, bytes_simps]: "ReadLE64 (WriteLE64 x @ r) = x"
  using unat_lt_pow[of x] by (simp add: ReadLE64_def WriteLE64_def le_val_le_bytes)

lemma WriteLE32_ReadLE32: "length bs = 4 \<Longrightarrow> WriteLE32 (ReadLE32 bs) = bs"
  using le_val_less[of bs] le_bytes_le_val[of bs]
  by (simp add: ReadLE32_def WriteLE32_def unat_of_nat)

lemma WriteLE16_ReadLE16: "length bs = 2 \<Longrightarrow> WriteLE16 (ReadLE16 bs) = bs"
  using le_val_less[of bs] le_bytes_le_val[of bs]
  by (simp add: ReadLE16_def WriteLE16_def unat_of_nat)

lemma WriteLE64_ReadLE64: "length bs = 8 \<Longrightarrow> WriteLE64 (ReadLE64 bs) = bs"
  using le_val_less[of bs] le_bytes_le_val[of bs]
  by (simp add: ReadLE64_def WriteLE64_def unat_of_nat)

section \<open>Lists\<close>

lemma take_append_len [simp]: "length xs = n \<Longrightarrow> take n (xs @ ys) = xs"
  by simp

lemma drop_append_len [simp]: "length xs = n \<Longrightarrow> drop n (xs @ ys) = ys"
  by simp

end
