(* ===== verification/Opcodes.thy ===== *)
theory Opcodes
  imports Prelude
begin

text \<open>
  The opcodes of \<^verbatim>\<open>enum opcodetype\<close> in \<^verbatim>\<open>script/script.h\<close>, as bytes: the code compares them as numbers
  (\<^verbatim>\<open>opcode <= OP_PUSHDATA4\<close>, \<^verbatim>\<open>opcode > OP_16\<close>), and a script is a string of bytes in which an opcode may be
  any byte. \<open>GetOpName\<close> is the table of \<^verbatim>\<open>script.cpp\<close>.
\<close>

definition OP_0 :: byte where "OP_0 = 0x00"
definition OP_FALSE :: byte where "OP_FALSE = OP_0"
definition OP_PUSHDATA1 :: byte where "OP_PUSHDATA1 = 0x4c"
definition OP_PUSHDATA2 :: byte where "OP_PUSHDATA2 = 0x4d"
definition OP_PUSHDATA4 :: byte where "OP_PUSHDATA4 = 0x4e"
definition OP_1NEGATE :: byte where "OP_1NEGATE = 0x4f"
definition OP_RESERVED :: byte where "OP_RESERVED = 0x50"
definition OP_1 :: byte where "OP_1 = 0x51"
definition OP_TRUE :: byte where "OP_TRUE = OP_1"
definition OP_2 :: byte where "OP_2 = 0x52"
definition OP_3 :: byte where "OP_3 = 0x53"
definition OP_4 :: byte where "OP_4 = 0x54"
definition OP_5 :: byte where "OP_5 = 0x55"
definition OP_6 :: byte where "OP_6 = 0x56"
definition OP_7 :: byte where "OP_7 = 0x57"
definition OP_8 :: byte where "OP_8 = 0x58"
definition OP_9 :: byte where "OP_9 = 0x59"
definition OP_10 :: byte where "OP_10 = 0x5a"
definition OP_11 :: byte where "OP_11 = 0x5b"
definition OP_12 :: byte where "OP_12 = 0x5c"
definition OP_13 :: byte where "OP_13 = 0x5d"
definition OP_14 :: byte where "OP_14 = 0x5e"
definition OP_15 :: byte where "OP_15 = 0x5f"
definition OP_16 :: byte where "OP_16 = 0x60"
definition OP_NOP :: byte where "OP_NOP = 0x61"
definition OP_VER :: byte where "OP_VER = 0x62"
definition OP_IF :: byte where "OP_IF = 0x63"
definition OP_NOTIF :: byte where "OP_NOTIF = 0x64"
definition OP_VERIF :: byte where "OP_VERIF = 0x65"
definition OP_VERNOTIF :: byte where "OP_VERNOTIF = 0x66"
definition OP_ELSE :: byte where "OP_ELSE = 0x67"
definition OP_ENDIF :: byte where "OP_ENDIF = 0x68"
definition OP_VERIFY :: byte where "OP_VERIFY = 0x69"
definition OP_RETURN :: byte where "OP_RETURN = 0x6a"
definition OP_TOALTSTACK :: byte where "OP_TOALTSTACK = 0x6b"
definition OP_FROMALTSTACK :: byte where "OP_FROMALTSTACK = 0x6c"
definition OP_2DROP :: byte where "OP_2DROP = 0x6d"
definition OP_2DUP :: byte where "OP_2DUP = 0x6e"
definition OP_3DUP :: byte where "OP_3DUP = 0x6f"
definition OP_2OVER :: byte where "OP_2OVER = 0x70"
definition OP_2ROT :: byte where "OP_2ROT = 0x71"
definition OP_2SWAP :: byte where "OP_2SWAP = 0x72"
definition OP_IFDUP :: byte where "OP_IFDUP = 0x73"
definition OP_DEPTH :: byte where "OP_DEPTH = 0x74"
definition OP_DROP :: byte where "OP_DROP = 0x75"
definition OP_DUP :: byte where "OP_DUP = 0x76"
definition OP_NIP :: byte where "OP_NIP = 0x77"
definition OP_OVER :: byte where "OP_OVER = 0x78"
definition OP_PICK :: byte where "OP_PICK = 0x79"
definition OP_ROLL :: byte where "OP_ROLL = 0x7a"
definition OP_ROT :: byte where "OP_ROT = 0x7b"
definition OP_SWAP :: byte where "OP_SWAP = 0x7c"
definition OP_TUCK :: byte where "OP_TUCK = 0x7d"
definition OP_CAT :: byte where "OP_CAT = 0x7e"
definition OP_SUBSTR :: byte where "OP_SUBSTR = 0x7f"
definition OP_LEFT :: byte where "OP_LEFT = 0x80"
definition OP_RIGHT :: byte where "OP_RIGHT = 0x81"
definition OP_SIZE :: byte where "OP_SIZE = 0x82"
definition OP_INVERT :: byte where "OP_INVERT = 0x83"
definition OP_AND :: byte where "OP_AND = 0x84"
definition OP_OR :: byte where "OP_OR = 0x85"
definition OP_XOR :: byte where "OP_XOR = 0x86"
definition OP_EQUAL :: byte where "OP_EQUAL = 0x87"
definition OP_EQUALVERIFY :: byte where "OP_EQUALVERIFY = 0x88"
definition OP_RESERVED1 :: byte where "OP_RESERVED1 = 0x89"
definition OP_RESERVED2 :: byte where "OP_RESERVED2 = 0x8a"
definition OP_1ADD :: byte where "OP_1ADD = 0x8b"
definition OP_1SUB :: byte where "OP_1SUB = 0x8c"
definition OP_2MUL :: byte where "OP_2MUL = 0x8d"
definition OP_2DIV :: byte where "OP_2DIV = 0x8e"
definition OP_NEGATE :: byte where "OP_NEGATE = 0x8f"
definition OP_ABS :: byte where "OP_ABS = 0x90"
definition OP_NOT :: byte where "OP_NOT = 0x91"
definition OP_0NOTEQUAL :: byte where "OP_0NOTEQUAL = 0x92"
definition OP_ADD :: byte where "OP_ADD = 0x93"
definition OP_SUB :: byte where "OP_SUB = 0x94"
definition OP_MUL :: byte where "OP_MUL = 0x95"
definition OP_DIV :: byte where "OP_DIV = 0x96"
definition OP_MOD :: byte where "OP_MOD = 0x97"
definition OP_LSHIFT :: byte where "OP_LSHIFT = 0x98"
definition OP_RSHIFT :: byte where "OP_RSHIFT = 0x99"
definition OP_BOOLAND :: byte where "OP_BOOLAND = 0x9a"
definition OP_BOOLOR :: byte where "OP_BOOLOR = 0x9b"
definition OP_NUMEQUAL :: byte where "OP_NUMEQUAL = 0x9c"
definition OP_NUMEQUALVERIFY :: byte where "OP_NUMEQUALVERIFY = 0x9d"
definition OP_NUMNOTEQUAL :: byte where "OP_NUMNOTEQUAL = 0x9e"
definition OP_LESSTHAN :: byte where "OP_LESSTHAN = 0x9f"
definition OP_GREATERTHAN :: byte where "OP_GREATERTHAN = 0xa0"
definition OP_LESSTHANOREQUAL :: byte where "OP_LESSTHANOREQUAL = 0xa1"
definition OP_GREATERTHANOREQUAL :: byte where "OP_GREATERTHANOREQUAL = 0xa2"
definition OP_MIN :: byte where "OP_MIN = 0xa3"
definition OP_MAX :: byte where "OP_MAX = 0xa4"
definition OP_WITHIN :: byte where "OP_WITHIN = 0xa5"
definition OP_RIPEMD160 :: byte where "OP_RIPEMD160 = 0xa6"
definition OP_SHA1 :: byte where "OP_SHA1 = 0xa7"
definition OP_SHA256 :: byte where "OP_SHA256 = 0xa8"
definition OP_HASH160 :: byte where "OP_HASH160 = 0xa9"
definition OP_HASH256 :: byte where "OP_HASH256 = 0xaa"
definition OP_CODESEPARATOR :: byte where "OP_CODESEPARATOR = 0xab"
definition OP_CHECKSIG :: byte where "OP_CHECKSIG = 0xac"
definition OP_CHECKSIGVERIFY :: byte where "OP_CHECKSIGVERIFY = 0xad"
definition OP_CHECKMULTISIG :: byte where "OP_CHECKMULTISIG = 0xae"
definition OP_CHECKMULTISIGVERIFY :: byte where "OP_CHECKMULTISIGVERIFY = 0xaf"
definition OP_NOP1 :: byte where "OP_NOP1 = 0xb0"
definition OP_CHECKLOCKTIMEVERIFY :: byte where "OP_CHECKLOCKTIMEVERIFY = 0xb1"
definition OP_NOP2 :: byte where "OP_NOP2 = OP_CHECKLOCKTIMEVERIFY"
definition OP_NOP3 :: byte where "OP_NOP3 = 0xb2"
definition OP_CHECKSEQUENCEVERIFY :: byte where "OP_CHECKSEQUENCEVERIFY = OP_NOP3"
definition OP_NOP4 :: byte where "OP_NOP4 = 0xb3"
definition OP_NOP5 :: byte where "OP_NOP5 = 0xb4"
definition OP_NOP6 :: byte where "OP_NOP6 = 0xb5"
definition OP_NOP7 :: byte where "OP_NOP7 = 0xb6"
definition OP_NOP8 :: byte where "OP_NOP8 = 0xb7"
definition OP_NOP9 :: byte where "OP_NOP9 = 0xb8"
definition OP_NOP10 :: byte where "OP_NOP10 = 0xb9"
definition OP_SMALLINTEGER :: byte where "OP_SMALLINTEGER = 0xfa"
definition OP_PUBKEYS :: byte where "OP_PUBKEYS = 0xfb"
definition OP_SCRIPTHASH :: byte where "OP_SCRIPTHASH = 0xfc"
definition OP_PUBKEYHASH :: byte where "OP_PUBKEYHASH = 0xfd"
definition OP_PUBKEY :: byte where "OP_PUBKEY = 0xfe"
definition OP_INVALIDOPCODE :: byte where "OP_INVALIDOPCODE = 0xff"

lemmas opcode_defs = OP_0_def OP_FALSE_def OP_PUSHDATA1_def OP_PUSHDATA2_def OP_PUSHDATA4_def OP_1NEGATE_def
  OP_RESERVED_def OP_1_def OP_TRUE_def OP_2_def OP_3_def OP_4_def OP_5_def OP_6_def OP_7_def
  OP_8_def OP_9_def OP_10_def OP_11_def OP_12_def OP_13_def OP_14_def OP_15_def OP_16_def
  OP_NOP_def OP_VER_def OP_IF_def OP_NOTIF_def OP_VERIF_def OP_VERNOTIF_def OP_ELSE_def
  OP_ENDIF_def OP_VERIFY_def OP_RETURN_def OP_TOALTSTACK_def OP_FROMALTSTACK_def OP_2DROP_def
  OP_2DUP_def OP_3DUP_def OP_2OVER_def OP_2ROT_def OP_2SWAP_def OP_IFDUP_def OP_DEPTH_def
  OP_DROP_def OP_DUP_def OP_NIP_def OP_OVER_def OP_PICK_def OP_ROLL_def OP_ROT_def OP_SWAP_def
  OP_TUCK_def OP_CAT_def OP_SUBSTR_def OP_LEFT_def OP_RIGHT_def OP_SIZE_def OP_INVERT_def
  OP_AND_def OP_OR_def OP_XOR_def OP_EQUAL_def OP_EQUALVERIFY_def OP_RESERVED1_def OP_RESERVED2_def
  OP_1ADD_def OP_1SUB_def OP_2MUL_def OP_2DIV_def OP_NEGATE_def OP_ABS_def OP_NOT_def
  OP_0NOTEQUAL_def OP_ADD_def OP_SUB_def OP_MUL_def OP_DIV_def OP_MOD_def OP_LSHIFT_def
  OP_RSHIFT_def OP_BOOLAND_def OP_BOOLOR_def OP_NUMEQUAL_def OP_NUMEQUALVERIFY_def
  OP_NUMNOTEQUAL_def OP_LESSTHAN_def OP_GREATERTHAN_def OP_LESSTHANOREQUAL_def
  OP_GREATERTHANOREQUAL_def OP_MIN_def OP_MAX_def OP_WITHIN_def OP_RIPEMD160_def OP_SHA1_def
  OP_SHA256_def OP_HASH160_def OP_HASH256_def OP_CODESEPARATOR_def OP_CHECKSIG_def
  OP_CHECKSIGVERIFY_def OP_CHECKMULTISIG_def OP_CHECKMULTISIGVERIFY_def OP_NOP1_def
  OP_CHECKLOCKTIMEVERIFY_def OP_NOP2_def OP_NOP3_def OP_CHECKSEQUENCEVERIFY_def OP_NOP4_def
  OP_NOP5_def OP_NOP6_def OP_NOP7_def OP_NOP8_def OP_NOP9_def OP_NOP10_def OP_SMALLINTEGER_def
  OP_PUBKEYS_def OP_SCRIPTHASH_def OP_PUBKEYHASH_def OP_PUBKEY_def OP_INVALIDOPCODE_def

definition op_names :: "(byte \<times> string) list" where
  "op_names = [(OP_0, ''0''),
    (OP_PUSHDATA1, ''OP_PUSHDATA1''),
    (OP_PUSHDATA2, ''OP_PUSHDATA2''),
    (OP_PUSHDATA4, ''OP_PUSHDATA4''),
    (OP_1NEGATE, ''-1''),
    (OP_RESERVED, ''OP_RESERVED''),
    (OP_1, ''1''),
    (OP_2, ''2''),
    (OP_3, ''3''),
    (OP_4, ''4''),
    (OP_5, ''5''),
    (OP_6, ''6''),
    (OP_7, ''7''),
    (OP_8, ''8''),
    (OP_9, ''9''),
    (OP_10, ''10''),
    (OP_11, ''11''),
    (OP_12, ''12''),
    (OP_13, ''13''),
    (OP_14, ''14''),
    (OP_15, ''15''),
    (OP_16, ''16''),
    (OP_NOP, ''OP_NOP''),
    (OP_VER, ''OP_VER''),
    (OP_IF, ''OP_IF''),
    (OP_NOTIF, ''OP_NOTIF''),
    (OP_VERIF, ''OP_VERIF''),
    (OP_VERNOTIF, ''OP_VERNOTIF''),
    (OP_ELSE, ''OP_ELSE''),
    (OP_ENDIF, ''OP_ENDIF''),
    (OP_VERIFY, ''OP_VERIFY''),
    (OP_RETURN, ''OP_RETURN''),
    (OP_TOALTSTACK, ''OP_TOALTSTACK''),
    (OP_FROMALTSTACK, ''OP_FROMALTSTACK''),
    (OP_2DROP, ''OP_2DROP''),
    (OP_2DUP, ''OP_2DUP''),
    (OP_3DUP, ''OP_3DUP''),
    (OP_2OVER, ''OP_2OVER''),
    (OP_2ROT, ''OP_2ROT''),
    (OP_2SWAP, ''OP_2SWAP''),
    (OP_IFDUP, ''OP_IFDUP''),
    (OP_DEPTH, ''OP_DEPTH''),
    (OP_DROP, ''OP_DROP''),
    (OP_DUP, ''OP_DUP''),
    (OP_NIP, ''OP_NIP''),
    (OP_OVER, ''OP_OVER''),
    (OP_PICK, ''OP_PICK''),
    (OP_ROLL, ''OP_ROLL''),
    (OP_ROT, ''OP_ROT''),
    (OP_SWAP, ''OP_SWAP''),
    (OP_TUCK, ''OP_TUCK''),
    (OP_CAT, ''OP_CAT''),
    (OP_SUBSTR, ''OP_SUBSTR''),
    (OP_LEFT, ''OP_LEFT''),
    (OP_RIGHT, ''OP_RIGHT''),
    (OP_SIZE, ''OP_SIZE''),
    (OP_INVERT, ''OP_INVERT''),
    (OP_AND, ''OP_AND''),
    (OP_OR, ''OP_OR''),
    (OP_XOR, ''OP_XOR''),
    (OP_EQUAL, ''OP_EQUAL''),
    (OP_EQUALVERIFY, ''OP_EQUALVERIFY''),
    (OP_RESERVED1, ''OP_RESERVED1''),
    (OP_RESERVED2, ''OP_RESERVED2''),
    (OP_1ADD, ''OP_1ADD''),
    (OP_1SUB, ''OP_1SUB''),
    (OP_2MUL, ''OP_2MUL''),
    (OP_2DIV, ''OP_2DIV''),
    (OP_NEGATE, ''OP_NEGATE''),
    (OP_ABS, ''OP_ABS''),
    (OP_NOT, ''OP_NOT''),
    (OP_0NOTEQUAL, ''OP_0NOTEQUAL''),
    (OP_ADD, ''OP_ADD''),
    (OP_SUB, ''OP_SUB''),
    (OP_MUL, ''OP_MUL''),
    (OP_DIV, ''OP_DIV''),
    (OP_MOD, ''OP_MOD''),
    (OP_LSHIFT, ''OP_LSHIFT''),
    (OP_RSHIFT, ''OP_RSHIFT''),
    (OP_BOOLAND, ''OP_BOOLAND''),
    (OP_BOOLOR, ''OP_BOOLOR''),
    (OP_NUMEQUAL, ''OP_NUMEQUAL''),
    (OP_NUMEQUALVERIFY, ''OP_NUMEQUALVERIFY''),
    (OP_NUMNOTEQUAL, ''OP_NUMNOTEQUAL''),
    (OP_LESSTHAN, ''OP_LESSTHAN''),
    (OP_GREATERTHAN, ''OP_GREATERTHAN''),
    (OP_LESSTHANOREQUAL, ''OP_LESSTHANOREQUAL''),
    (OP_GREATERTHANOREQUAL, ''OP_GREATERTHANOREQUAL''),
    (OP_MIN, ''OP_MIN''),
    (OP_MAX, ''OP_MAX''),
    (OP_WITHIN, ''OP_WITHIN''),
    (OP_RIPEMD160, ''OP_RIPEMD160''),
    (OP_SHA1, ''OP_SHA1''),
    (OP_SHA256, ''OP_SHA256''),
    (OP_HASH160, ''OP_HASH160''),
    (OP_HASH256, ''OP_HASH256''),
    (OP_CODESEPARATOR, ''OP_CODESEPARATOR''),
    (OP_CHECKSIG, ''OP_CHECKSIG''),
    (OP_CHECKSIGVERIFY, ''OP_CHECKSIGVERIFY''),
    (OP_CHECKMULTISIG, ''OP_CHECKMULTISIG''),
    (OP_CHECKMULTISIGVERIFY, ''OP_CHECKMULTISIGVERIFY''),
    (OP_NOP1, ''OP_NOP1''),
    (OP_CHECKLOCKTIMEVERIFY, ''OP_CHECKLOCKTIMEVERIFY''),
    (OP_NOP3, ''OP_NOP3''),
    (OP_NOP4, ''OP_NOP4''),
    (OP_NOP5, ''OP_NOP5''),
    (OP_NOP6, ''OP_NOP6''),
    (OP_NOP7, ''OP_NOP7''),
    (OP_NOP8, ''OP_NOP8''),
    (OP_NOP9, ''OP_NOP9''),
    (OP_NOP10, ''OP_NOP10''),
    (OP_INVALIDOPCODE, ''OP_INVALIDOPCODE'')]"

definition GetOpName :: "byte \<Rightarrow> string" where
  "GetOpName opcode = (case map_of op_names opcode of Some s \<Rightarrow> s | None \<Rightarrow> ''OP_UNKNOWN'')"

end
