(* ===== verification/Script.thy ===== *)
theory Script
  imports Opcodes
begin

text \<open>
  \<^verbatim>\<open>CScriptNum\<close> and \<^verbatim>\<open>CScript\<close> of \<^verbatim>\<open>script/script.h\<close> and \<^verbatim>\<open>script/script.cpp\<close>. A script is the list of its bytes,
  an iterator into it is the suffix it points at. \<open>GetOp\<close> returns \<open>None\<close> where the code returns false; where the
  iterator then stands is \<open>GetOp_stop\<close>, which one caller uses.
\<close>

type_synonym CScript = "byte list"

section \<open>Limits\<close>

definition MAX_SCRIPT_REDEEM_SIZE :: nat where "MAX_SCRIPT_REDEEM_SIZE = 520"
definition MAX_SCRIPT_SIZE :: nat where "MAX_SCRIPT_SIZE = 64 * 1024 * 4 div 3 + 1"
definition MAX_SCRIPT_PUSH_SIZE :: nat where "MAX_SCRIPT_PUSH_SIZE = MAX_SCRIPT_SIZE - (344 - 256) - 2"
definition MAX_OPS_PER_SCRIPT :: nat where "MAX_OPS_PER_SCRIPT = 201"
definition MAX_PUBKEYS_PER_MULTISIG :: nat where "MAX_PUBKEYS_PER_MULTISIG = 20"
definition LOCKTIME_THRESHOLD :: int where "LOCKTIME_THRESHOLD = 500000000"

lemmas script_limits = MAX_SCRIPT_REDEEM_SIZE_def MAX_SCRIPT_SIZE_def MAX_SCRIPT_PUSH_SIZE_def
  MAX_OPS_PER_SCRIPT_def MAX_PUBKEYS_PER_MULTISIG_def LOCKTIME_THRESHOLD_def

section \<open>Script numbers\<close>

datatype scriptnum_error = Scriptnum_overflow | Scriptnum_nonminimal

definition nDefaultMaxNumSize :: nat where "nDefaultMaxNumSize = 4"

text \<open>The loop of \<^verbatim>\<open>set_vch\<close>: byte \<open>i\<close> is shifted to its place in the 64-bit result.\<close>

fun set_vch_bits :: "nat \<Rightarrow> byte list \<Rightarrow> u64" where
  "set_vch_bits i [] = 0"
| "set_vch_bits i (b # bs) = push_bit (8 * i) (ucast b) OR set_vch_bits (Suc i) bs"

definition set_vch :: "byte list \<Rightarrow> int" where
  "set_vch vch =
     (if vch = [] then 0
      else let result = set_vch_bits 0 vch
           in if last vch AND 0x80 \<noteq> 0
              then - sint (result AND NOT (push_bit (8 * (length vch - 1)) 0x80))
              else sint result)"

text \<open>The constructor from a byte vector; \<^verbatim>\<open>scriptnum_error\<close> is the exception it throws.\<close>

definition CScriptNum :: "byte list \<Rightarrow> bool \<Rightarrow> nat \<Rightarrow> scriptnum_error + int" where
  "CScriptNum vch fRequireMinimal nMaxNumSize =
     (if length vch > nMaxNumSize then Inl Scriptnum_overflow
      else if fRequireMinimal \<and> length vch > 0 \<and> last vch AND 0x7f = 0 \<and>
              (length vch \<le> 1 \<or> vch ! (length vch - 2) AND 0x80 = 0)
      then Inl Scriptnum_nonminimal
      else Inr (set_vch vch))"

definition getint :: "int \<Rightarrow> int" where
  "getint m = (if m > 2 ^ 31 - 1 then 2 ^ 31 - 1 else if m < - (2 ^ 31) then - (2 ^ 31) else m)"

text \<open>The bytes of \<^verbatim>\<open>absvalue\<close>, least significant first.\<close>

function abs_bytes :: "u64 \<Rightarrow> byte list" where
  "abs_bytes a = (if a = 0 then [] else ucast (a AND 0xff) # abs_bytes (drop_bit 8 a))"
  by auto
termination
proof (relation "measure unat")
  fix a :: u64 assume "a \<noteq> 0"
  then have "0 < unat a" by (simp add: unat_gt_0)
  then show "(drop_bit 8 a, a) \<in> measure unat" by (simp add: unat_shiftr)
qed simp

declare abs_bytes.simps [simp del]

definition CScriptNum_serialize :: "int \<Rightarrow> byte list" where
  "CScriptNum_serialize value =
     (if value = 0 then []
      else let neg = value < 0;
               result = abs_bytes (word_of_int \<bar>value\<bar>)
           in if last result AND 0x80 \<noteq> 0 then result @ [if neg then 0x80 else 0]
              else if neg then butlast result @ [last result OR 0x80]
              else result)"

section \<open>Building scripts\<close>

text \<open>\<^verbatim>\<open>operator<<(const std::vector<unsigned char>&)\<close>\<close>

definition push_data :: "byte list \<Rightarrow> byte list" where
  "push_data b =
     (if length b < unat OP_PUSHDATA1 then [word_of_nat (length b)]
      else if length b \<le> 0xff then [OP_PUSHDATA1, word_of_nat (length b)]
      else if length b \<le> 0xffff then OP_PUSHDATA2 # WriteLE16 (word_of_nat (length b))
      else OP_PUSHDATA4 # WriteLE32 (word_of_nat (length b))) @ b"

text \<open>\<^verbatim>\<open>push_int64\<close>\<close>

definition push_int64 :: "int \<Rightarrow> byte list" where
  "push_int64 n =
     (if n = -1 \<or> (n \<ge> 1 \<and> n \<le> 16) then [word_of_int (n + (int (unat OP_1) - 1))]
      else if n = 0 then [OP_0]
      else push_data (CScriptNum_serialize n))"

section \<open>Reading scripts\<close>

text \<open>\<^verbatim>\<open>GetOp2\<close>: the opcode, the pushed data and the iterator after the instruction.\<close>

definition GetOp :: "CScript \<Rightarrow> (byte \<times> byte list \<times> CScript) option" where
  "GetOp pc = (case pc of
      [] \<Rightarrow> None
    | opcode # pc1 \<Rightarrow>
        if opcode \<le> OP_PUSHDATA4 then
          let operand =
            (if opcode < OP_PUSHDATA1 then Some (unat opcode, pc1)
             else if opcode = OP_PUSHDATA1 then
               (case pc1 of [] \<Rightarrow> None | n # pc2 \<Rightarrow> Some (unat n, pc2))
             else if opcode = OP_PUSHDATA2 then
               (if length pc1 < 2 then None else Some (unat (ReadLE16 pc1), drop 2 pc1))
             else
               (if length pc1 < 4 then None else Some (unat (ReadLE32 pc1), drop 4 pc1)))
          in (case operand of
                None \<Rightarrow> None
              | Some (nSize, pc2) \<Rightarrow>
                  if length pc2 < nSize then None
                  else Some (opcode, take nSize pc2, drop nSize pc2))
        else Some (opcode, [], pc1))"

text \<open>The iterator after a call that returned false.\<close>

definition GetOp_stop :: "CScript \<Rightarrow> CScript" where
  "GetOp_stop pc = (case pc of
      [] \<Rightarrow> []
    | opcode # pc1 \<Rightarrow>
        if opcode < OP_PUSHDATA1 then pc1
        else if opcode = OP_PUSHDATA1 then drop 1 pc1
        else if opcode = OP_PUSHDATA2 then (if length pc1 < 2 then pc1 else drop 2 pc1)
        else (if length pc1 < 4 then pc1 else drop 4 pc1))"

lemma GetOp_shorter: "GetOp pc = Some (op, d, pc') \<Longrightarrow> length pc' < length pc"
  by (auto simp: GetOp_def Let_def split: list.splits if_splits option.splits)

text \<open>\<open>None\<close>: the assertions on the range fail.\<close>

definition DecodeOP_N :: "byte \<Rightarrow> int option" where
  "DecodeOP_N opcode =
     (if opcode = OP_0 then Some 0
      else if OP_1 \<le> opcode \<and> opcode \<le> OP_16 then Some (int (unat opcode) - (int (unat OP_1) - 1))
      else None)"

definition EncodeOP_N :: "int \<Rightarrow> byte option" where
  "EncodeOP_N n =
     (if 0 \<le> n \<and> n \<le> 16 then Some (if n = 0 then OP_0 else word_of_int (int (unat OP_1) + n - 1)) else None)"

text \<open>\<^verbatim>\<open>FindAndDelete\<close>: the inner loop erases matches at the iterator, the outer one advances by an
  instruction. The result is the remaining script and the number of matches.\<close>

function strip_matches :: "byte list \<Rightarrow> CScript \<Rightarrow> nat \<Rightarrow> CScript \<times> nat" where
  "strip_matches b pc nFound =
     (if b \<noteq> [] \<and> take (length b) pc = b then strip_matches b (drop (length b) pc) (Suc nFound) else (pc, nFound))"
  by auto
termination
proof (relation "measure (\<lambda>(b, pc, n). length pc)")
  fix b pc :: "byte list" and n :: nat
  assume a: "b \<noteq> [] \<and> take (length b) pc = b"
  then have "length (take (length b) pc) = length b" by simp
  then have "length b \<le> length pc" by simp
  moreover have "0 < length b" using a by simp
  ultimately have "length pc - length b < length pc" by linarith
  then show "((b, drop (length b) pc, Suc n), b, pc, n) \<in> measure (\<lambda>(b, pc, n). length pc)" by simp
qed simp

declare strip_matches.simps [simp del]

lemma strip_matches_shorter: "strip_matches b pc n = (pc', m) \<Longrightarrow> length pc' \<le> length pc"
proof (induction b pc n rule: strip_matches.induct)
  case (1 b pc n)
  show ?case
  proof (cases "b \<noteq> [] \<and> take (length b) pc = b")
    case True
    then have "length pc' \<le> length (drop (length b) pc)" using 1 by (simp add: strip_matches.simps[of b pc])
    then show ?thesis by simp
  next
    case False
    then show ?thesis using "1.prems" by (simp add: strip_matches.simps[of b pc] del: not_Cons_self split: if_splits)
  qed
qed

function find_and_delete_loop :: "byte list \<Rightarrow> CScript \<Rightarrow> CScript \<Rightarrow> nat \<Rightarrow> CScript \<times> nat" where
  "find_and_delete_loop b kept pc nFound =
     (let (pc1, n1) = strip_matches b pc nFound
      in case GetOp pc1 of
           None \<Rightarrow> (kept @ pc1, n1)
         | Some (opcode, d, pc2) \<Rightarrow>
             find_and_delete_loop b (kept @ take (length pc1 - length pc2) pc1) pc2 n1)"
  by auto
termination
proof (relation "measure (\<lambda>(b, kept, pc, n). length pc)")
  fix b kept pc n and x :: "CScript \<times> nat" and pc1 n1 y opcode d pc2
  and z :: "byte list \<times> CScript"
  assume "x = strip_matches b pc n" "(pc1, n1) = x" "GetOp pc1 = Some y" "(opcode, z) = y" "(d, pc2) = z"
  then have "length pc2 < length pc1" "length pc1 \<le> length pc"
    using GetOp_shorter strip_matches_shorter by (metis, metis)
  then show "((b, kept @ take (length pc1 - length pc2) pc1, pc2, n1), b, kept, pc, n)
      \<in> measure (\<lambda>(b, kept, pc, n). length pc)" by simp
qed simp

declare find_and_delete_loop.simps [simp del]

definition FindAndDelete :: "CScript \<Rightarrow> CScript \<Rightarrow> CScript \<times> nat" where
  "FindAndDelete script b = (if b = [] then (script, 0) else find_and_delete_loop b [] script 0)"

text \<open>The instructions of a script, up to the first that cannot be read, and what is left then.\<close>

function script_ops :: "CScript \<Rightarrow> (byte \<times> byte list) list \<times> CScript" where
  "script_ops pc = (case GetOp pc of
      None \<Rightarrow> ([], pc)
    | Some (op, d, pc') \<Rightarrow> (case script_ops pc' of (ops, r) \<Rightarrow> ((op, d) # ops, r)))"
  by auto
termination
  by (relation "measure length") (auto dest: GetOp_shorter)

declare script_ops.simps [simp del]

definition script_Find :: "CScript \<Rightarrow> byte \<Rightarrow> nat" where
  "script_Find script op = length (filter (\<lambda>(opcode, d). opcode = op) (fst (script_ops script)))"

fun sigop_count :: "bool \<Rightarrow> byte \<Rightarrow> (byte \<times> byte list) list \<Rightarrow> nat \<Rightarrow> nat" where
  "sigop_count fAccurate lastOpcode [] n = n"
| "sigop_count fAccurate lastOpcode ((opcode, d) # ops) n =
     sigop_count fAccurate opcode ops
       (if opcode = OP_CHECKSIG \<or> opcode = OP_CHECKSIGVERIFY then n + 1
        else if opcode = OP_CHECKMULTISIG \<or> opcode = OP_CHECKMULTISIGVERIFY then
          if fAccurate \<and> lastOpcode \<ge> OP_1 \<and> lastOpcode \<le> OP_16
          then n + nat (the (DecodeOP_N lastOpcode))
          else n + MAX_PUBKEYS_PER_MULTISIG
        else n)"

definition GetSigOpCount :: "CScript \<Rightarrow> bool \<Rightarrow> nat" where
  "GetSigOpCount script fAccurate = sigop_count fAccurate OP_INVALIDOPCODE (fst (script_ops script)) 0"

definition IsPayToPublicKeyHash :: "CScript \<Rightarrow> bool" where
  "IsPayToPublicKeyHash s \<longleftrightarrow> length s = 25 \<and> s ! 0 = OP_DUP \<and> s ! 1 = OP_HASH160 \<and> s ! 2 = 0x14 \<and>
     s ! 23 = OP_EQUALVERIFY \<and> s ! 24 = OP_CHECKSIG"

definition IsPayToScriptHash :: "CScript \<Rightarrow> bool" where
  "IsPayToScriptHash s \<longleftrightarrow> length s = 23 \<and> s ! 0 = OP_HASH160 \<and> s ! 1 = 0x14 \<and> s ! 22 = OP_EQUAL"

text \<open>A script is read to its end exactly when no bytes are left.\<close>

definition IsPushOnly :: "CScript \<Rightarrow> bool" where
  "IsPushOnly s = (case script_ops s of (ops, rest) \<Rightarrow> list_all (\<lambda>(opcode, d). \<not> opcode > OP_16) ops \<and> rest = [])"

text \<open>\<^verbatim>\<open>GetSigOpCount(const CScript& scriptSig)\<close>: for pay-to-script-hash, the count of the script that the last push of
  the input holds.\<close>

definition GetSigOpCount_P2SH :: "CScript \<Rightarrow> CScript \<Rightarrow> nat" where
  "GetSigOpCount_P2SH scriptPubKey scriptSig =
     (if \<not> IsPayToScriptHash scriptPubKey then GetSigOpCount scriptPubKey True
      else case script_ops scriptSig of (ops, rest) \<Rightarrow>
        if rest \<noteq> [] \<or> list_ex (\<lambda>(opcode, d). opcode > OP_16) ops then 0
        else GetSigOpCount (if ops = [] then [] else snd (last ops)) True)"

definition IsUnspendable :: "CScript \<Rightarrow> bool" where
  "IsUnspendable s \<longleftrightarrow> length s > 0 \<and> s ! 0 = OP_RETURN"

section \<open>Script numbers: lemmas\<close>

lemma set_vch_bits_val:
  "i + length bs \<le> 8 \<Longrightarrow> unat (set_vch_bits i bs) = 256 ^ i * le_val bs \<and> (\<forall>k<8 * i. \<not> bit (set_vch_bits i bs) k)"
proof (induction bs arbitrary: i)
  case (Cons b bs)
  let ?x = "push_bit (8 * i) (ucast b) :: u64" and ?y = "set_vch_bits (Suc i) bs"
  have y: "unat ?y = 256 ^ Suc i * le_val bs" "\<forall>k<8 * Suc i. \<not> bit ?y k"
    using Cons.IH[of "Suc i"] Cons.prems by simp_all
  have "unat b * 2 ^ (8 * i) < 2 ^ 8 * 2 ^ (8 * i)" using unat_byte_less[of b] by simp
  also have "\<dots> = (2::nat) ^ (8 + 8 * i)" by (simp only: power_add)
  also have "\<dots> \<le> 2 ^ 64" using Cons.prems by (intro power_increasing) auto
  finally have lt: "unat b * 2 ^ (8 * i) < 2 ^ 64" .
  have u: "unat (ucast b :: u64) = unat b" by (rule unat_ucast_up) simp
  have p: "(2::nat) ^ (8 * i) = 256 ^ i" by (simp add: power_mult)
  have "unat ?x = (unat b * 2 ^ (8 * i)) mod 2 ^ 64"
    using unat_shiftl[of "8 * i" "ucast b :: u64"] by (simp only: u) simp
  then have x: "unat ?x = 256 ^ i * unat b" using lt by (simp only: mod_less p) simp
  have xb: "\<not> bit ?x k" if "8 * Suc i \<le> k" for k
    using that bit_imp_le_length[of b "k - 8 * i"] by (auto simp: bit_push_bit_iff bit_unsigned_iff)
  have "?x AND ?y = 0"
  proof (rule bit_word_eqI)
    fix k assume "k < LENGTH(64)"
    show "bit (?x AND ?y) k = bit (0::u64) k" using xb[of k] y(2) by (cases "8 * Suc i \<le> k") (auto simp: bit_and_iff not_le)
  qed
  from unat_or_disjoint[OF this] have "unat (set_vch_bits i (b # bs)) = 256 ^ i * le_val (b # bs)"
    using x y(1) by (simp add: algebra_simps)
  moreover have "\<forall>k<8 * i. \<not> bit (set_vch_bits i (b # bs)) k"
    using y(2) by (auto simp: bit_or_iff bit_push_bit_iff)
  ultimately show ?case by blast
qed simp

lemma sint_small: "unat (w :: u64) < 2 ^ 63 \<Longrightarrow> sint w = int (unat w)"
proof -
  assume "unat w < 2 ^ 63"
  then have "int (unat w) < int (2 ^ 63)" by (simp only: of_nat_less_iff)
  then have "uint w < 2 ^ 63" by simp
  moreover have "- (2 ^ 63) \<le> uint w" by (rule order_trans[of _ 0]) simp_all
  ultimately show ?thesis using signed_take_bit_int_eq_self[of 63 "uint w"] by (simp add: sint_uint)
qed

lemma and_not_bit:
  assumes "bit (w :: u64) k"
  shows "unat (w AND NOT (push_bit k 1)) = unat w - 2 ^ k" "2 ^ k \<le> unat w"
proof -
  have k: "k < 64" using bit_imp_le_length[OF assms] by simp
  have b: "bit (2 ^ k :: u64) j \<longleftrightarrow> j = k \<and> k < 64" for j by (auto simp: bit_exp_iff)
  have d: "(w AND NOT (push_bit k 1)) AND push_bit k 1 = 0"
    by (rule bit_word_eqI) (auto simp: bit_and_iff bit_not_iff)
  have "(w AND NOT (push_bit k 1)) OR push_bit k 1 = w"
    by (rule bit_word_eqI) (use assms in \<open>auto simp: bit_and_iff bit_not_iff bit_or_iff b\<close>)
  moreover have "unat (push_bit k 1 :: u64) = 2 ^ k"
    using unat_shiftl[of k "1::u64"] k power_strict_increasing[of k 64 "2::nat"] by (simp only:) simp
  ultimately have "unat w = unat (w AND NOT (push_bit k 1)) + 2 ^ k"
    using unat_or_disjoint[OF d] by simp
  then show "unat (w AND NOT (push_bit k 1)) = unat w - 2 ^ k" "2 ^ k \<le> unat w" by simp_all
qed

lemma byte_and_exp: "(b :: byte) AND push_bit n 1 \<noteq> 0 \<longleftrightarrow> bit b n"
  by (simp add: and_exp_eq_0_iff_not_bit push_bit_eq_mult)

lemma byte_high_bit: "(b :: byte) AND 0x80 \<noteq> 0 \<longleftrightarrow> 128 \<le> unat b"
proof -
  have "b AND 0x80 \<noteq> 0 \<longleftrightarrow> bit b 7" using byte_and_exp[of b 7] by simp
  also have "\<dots> \<longleftrightarrow> bit (unat b) 7" by (simp add: bit_unsigned_iff)
  also have "\<dots> \<longleftrightarrow> odd (unat b div 2 ^ 7)" by (rule bit_iff_odd)
  also have "\<dots> \<longleftrightarrow> 128 \<le> unat b"
  proof (cases "128 \<le> unat b")
    case True
    then have "unat b div 2 ^ 7 = 1" using unat_byte_less[of b] by (intro div_nat_eqI) simp_all
    then show ?thesis using True by simp
  qed simp
  finally show ?thesis .
qed

lemma div_plus_self: "x < M \<Longrightarrow> (x + M) div M = (1::nat)"
  by (intro div_nat_eqI) auto

lemma set_vch_snoc:
  assumes "length bs \<le> 7"
  shows "set_vch (bs @ [l]) =
     (if 128 \<le> unat l then - int (le_val bs + 256 ^ length bs * (unat l - 128)) else int (le_val (bs @ [l])))"
proof -
  let ?w = "set_vch_bits 0 (bs @ [l])" and ?n = "length bs"
  have w: "unat ?w = le_val bs + 256 ^ ?n * unat l"
    using set_vch_bits_val[of 0 "bs @ [l]"] assms by (simp add: le_val_append)
  have p: "(256::nat) ^ ?n * 128 = 2 ^ (8 * ?n + 7)" by (simp add: power_add power_mult)
  have p63: "(2::nat) ^ (8 * ?n + 7) \<le> 2 ^ 63" using assms by (intro power_increasing) auto
  have lb: "le_val bs < 256 ^ ?n" by (rule le_val_less)
  show ?thesis
  proof (cases "128 \<le> unat l")
    case False
    then have "256 ^ ?n * unat l \<le> 256 ^ ?n * 127" by simp
    then have "unat ?w < 2 ^ 63" using w lb p p63 by linarith
    then show ?thesis using False w by (simp add: set_vch_def Let_def byte_high_bit sint_small le_val_append)
  next
    case True
    define m where "m = unat l - 128"
    have m: "unat l = 128 + m" "m < 128" using True unat_byte_less[of l] by (auto simp: m_def)
    have w': "unat ?w = (le_val bs + 256 ^ ?n * m) + 2 ^ (8 * ?n + 7)" using w m(1) p by (simp add: algebra_simps)
    have "256 ^ ?n * m \<le> 256 ^ ?n * 127" using m(2) by simp
    then have lt: "le_val bs + 256 ^ ?n * m < 2 ^ (8 * ?n + 7)" using lb p by linarith
    then have "unat ?w div 2 ^ (8 * ?n + 7) = 1" unfolding w' by (rule div_plus_self)
    then have "bit (unat ?w) (8 * ?n + 7)" by (simp add: bit_iff_odd)
    then have b: "bit ?w (8 * ?n + 7)" by (simp add: bit_unsigned_iff)
    have e: "push_bit (8 * ?n) (0x80 :: u64) = push_bit (8 * ?n + 7) 1"
      by (simp add: push_bit_eq_mult power_add)
    have "unat (?w AND NOT (push_bit (8 * ?n) 0x80)) = le_val bs + 256 ^ ?n * m"
      unfolding e using and_not_bit(1)[OF b] w' by simp
    moreover from this have "sint (?w AND NOT (push_bit (8 * ?n) 0x80)) = int (le_val bs + 256 ^ ?n * m)"
      using lt p63 by (subst sint_small) auto
    ultimately show ?thesis using True by (simp add: set_vch_def Let_def byte_high_bit m_def)
  qed
qed

lemma abs_bytes_val: "le_val (abs_bytes a) = unat a \<and> (a \<noteq> 0 \<longrightarrow> abs_bytes a \<noteq> [] \<and> last (abs_bytes a) \<noteq> 0)"
proof (induction a rule: abs_bytes.induct)
  case (1 a)
  show ?case
  proof (cases "a = 0")
    case True
    then show ?thesis by (simp add: abs_bytes.simps)
  next
    case False
    have m: "a AND 0xff = a AND mask 8" by (simp add: mask_eq_exp_minus_1)
    have lo: "unat (ucast (a AND 0xff) :: byte) = unat a mod 256" by (simp add: m unat_ucast_mod unat_and_mask)
    have hi: "unat (drop_bit 8 a) = unat a div 256" by (simp add: unat_shiftr)
    have e: "abs_bytes a = ucast (a AND 0xff) # abs_bytes (drop_bit 8 a)" using False by (subst abs_bytes.simps) simp
    note IH = "1.IH"[OF False]
    have "last (abs_bytes a) \<noteq> 0"
    proof (cases "drop_bit 8 a = 0")
      case True
      then have "unat a div 256 = 0" using hi by simp
      then have "unat (ucast (a AND 0xff) :: byte) \<noteq> 0" using lo False by (simp add: unat_eq_zero div_eq_0_iff)
      then have "(ucast (a AND 0xff) :: byte) \<noteq> 0" by (simp add: unat_eq_zero)
      moreover have "abs_bytes a = [ucast (a AND 0xff)]" using e True by (simp add: abs_bytes.simps)
      ultimately show ?thesis by simp
    next
      case F: False
      then show ?thesis using IH e by simp
    qed
    then show ?thesis using IH e lo hi by simp
  qed
qed

lemma le_val_last_bound:
  assumes "bs \<noteq> []" "last bs \<noteq> 0" shows "256 ^ (length bs - 1) * unat (last bs) \<le> le_val bs" "256 ^ (length bs - 1) \<le> le_val bs"
proof -
  have "bs = butlast bs @ [last bs]" using assms(1) by simp
  then have v: "le_val bs = le_val (butlast bs) + 256 ^ (length bs - 1) * unat (last bs)"
    using le_val_append[of "butlast bs" "[last bs]"] by (metis length_butlast le_val.simps add_0_right mult_0_right)
  then show "256 ^ (length bs - 1) * unat (last bs) \<le> le_val bs" by simp
  moreover have "0 < unat (last bs)" using assms(2) by (metis gr0I unat_eq_zero)
  ultimately show "256 ^ (length bs - 1) \<le> le_val bs" by (metis mult_le_mono2 nat_mult_1_right Suc_leI One_nat_def order_trans)
qed

lemma le_val_inject:
  assumes "le_val bs = le_val cs" "bs \<noteq> [] \<Longrightarrow> last bs \<noteq> 0" "cs \<noteq> [] \<Longrightarrow> last cs \<noteq> 0"
  shows "bs = cs"
proof -
  have len: "length xs \<le> length ys" if "le_val xs = le_val ys" "xs \<noteq> [] \<Longrightarrow> last xs \<noteq> 0" for xs ys :: "byte list"
  proof (rule ccontr)
    assume "\<not> length xs \<le> length ys"
    then have "length ys \<le> length xs - 1" "xs \<noteq> []" by auto
    then have "(256::nat) ^ length ys \<le> 256 ^ (length xs - 1)" by (intro power_increasing) auto
    also have "\<dots> \<le> le_val xs" using le_val_last_bound(2) \<open>xs \<noteq> []\<close> that(2) by blast
    finally show False using that(1) le_val_less[of ys] by simp
  qed
  have "length bs = length cs" using len[of bs cs] len[of cs bs] assms by simp
  then show ?thesis using le_bytes_le_val[of bs] le_bytes_le_val[of cs] assms(1) by metis
qed

lemma abs_bytes_eqI:
  assumes "bs \<noteq> []" "last bs \<noteq> 0" "length bs \<le> 8"
  shows "abs_bytes (word_of_nat (le_val bs)) = bs"
proof (rule le_val_inject)
  have "(256::nat) ^ length bs \<le> 256 ^ 8" using assms(3) by (intro power_increasing) auto
  then have "le_val bs < 2 ^ 64" using le_val_less[of bs] by simp
  then show "le_val (abs_bytes (word_of_nat (le_val bs))) = le_val bs"
    using abs_bytes_val by (simp add: unat_of_nat_small)
  show "abs_bytes (word_of_nat (le_val bs)) \<noteq> [] \<Longrightarrow> last (abs_bytes (word_of_nat (le_val bs))) \<noteq> 0"
    using abs_bytes_val[of "word_of_nat (le_val bs)"] by (auto simp: abs_bytes.simps[of 0])
  show "last bs \<noteq> 0" by (rule assms(2))
qed

lemma or_high_bit: "unat (l :: byte) < 128 \<Longrightarrow> unat (l OR 0x80) = unat l + 128"
proof -
  assume "unat l < 128"
  then have "l AND 0x80 = 0" using byte_high_bit[of l] by simp
  from unat_or_disjoint[OF this] show ?thesis by simp
qed

text \<open>The magnitude of a number, as its canonical bytes.\<close>

lemma abs_value_bytes:
  assumes "v \<noteq> 0" "\<bar>v\<bar> < 2 ^ 63"
  defines "bs \<equiv> abs_bytes (word_of_int \<bar>v\<bar>)"
  shows "bs \<noteq> []" "last bs \<noteq> 0" "int (le_val bs) = \<bar>v\<bar>" "length bs \<le> 8"
    and "128 \<le> unat (last bs) \<Longrightarrow> length bs \<le> 7"
proof -
  define a where "a = nat \<bar>v\<bar>"
  have a: "\<bar>v\<bar> = int a" "a \<noteq> 0" "a < 2 ^ 63" using assms(1,2) by (auto simp: a_def nat_less_iff)
  have u: "unat (word_of_int \<bar>v\<bar> :: u64) = a" using a by (simp add: unat_of_nat)
  then have nz: "(word_of_int \<bar>v\<bar> :: u64) \<noteq> 0" using a(2) by (metis unat_0)
  show ne: "bs \<noteq> []" "last bs \<noteq> 0" using abs_bytes_val nz by (auto simp: bs_def)
  have v: "le_val bs = a" using abs_bytes_val u by (simp add: bs_def)
  show "int (le_val bs) = \<bar>v\<bar>" using v a(1) by simp
  show "length bs \<le> 8"
  proof (rule ccontr)
    assume "\<not> length bs \<le> 8"
    then have "(256::nat) ^ 8 \<le> 256 ^ (length bs - 1)" by (intro power_increasing) auto
    then show False using le_val_last_bound(2)[OF ne] v a(3) by simp
  qed
  show "length bs \<le> 7" if "128 \<le> unat (last bs)"
  proof (rule ccontr)
    assume "\<not> length bs \<le> 7"
    then have "(256::nat) ^ 7 \<le> 256 ^ (length bs - 1)" by (intro power_increasing) auto
    then have "256 ^ 7 * 128 \<le> 256 ^ (length bs - 1) * unat (last bs)" using that by (rule mult_le_mono)
    then show False using le_val_last_bound(1)[OF ne] v a(3) by simp
  qed
qed

lemma set_vch_serialize:
  assumes "\<bar>v\<bar> < 2 ^ 63" shows "set_vch (CScriptNum_serialize v) = v"
proof (cases "v = 0")
  case True
  then show ?thesis by (simp add: CScriptNum_serialize_def set_vch_def)
next
  case False
  define bs where "bs = abs_bytes (word_of_int \<bar>v\<bar>)"
  note A = abs_value_bytes[OF False assms, folded bs_def]
  define init l where "init = butlast bs" and "l = last bs"
  have bs: "bs = init @ [l]" using A(1) by (simp add: init_def l_def)
  have li: "length init \<le> 7" using A(4) by (simp add: bs)
  show ?thesis
  proof (cases "128 \<le> unat l")
    case True
    have l7: "length bs \<le> 7" using A(5) True by (simp add: bs)
    have "CScriptNum_serialize v = bs @ [if v < 0 then 0x80 else 0]"
      using False True by (simp add: CScriptNum_serialize_def Let_def bs_def[symmetric] byte_high_bit l_def)
    then show ?thesis using A(3) by (simp add: set_vch_snoc[OF l7] le_val_append)
  next
    case F: False
    show ?thesis
    proof (cases "v < 0")
      case True
      have "CScriptNum_serialize v = init @ [l OR 0x80]"
        using False F True unfolding CScriptNum_serialize_def Let_def bs_def[symmetric]
        by (simp add: byte_high_bit l_def init_def)
      moreover have "unat (l OR 0x80) = unat l + 128" using F by (simp add: or_high_bit)
      ultimately show ?thesis using True A(3) unfolding bs by (simp add: set_vch_snoc[OF li] le_val_append)
    next
      case P: False
      have "CScriptNum_serialize v = init @ [l]"
        using False F P unfolding CScriptNum_serialize_def Let_def bs_def[symmetric]
        by (simp add: byte_high_bit l_def init_def A(1))
      then show ?thesis using P F A(3) unfolding bs by (simp add: set_vch_snoc[OF li])
    qed
  qed
qed

lemma and_7f: "unat ((l :: byte) AND 0x7f) = unat l mod 128"
proof -
  have "l AND 0x7f = l AND mask 7" by (simp add: mask_eq_exp_minus_1)
  then show ?thesis by (simp add: unat_and_mask)
qed

lemma serialize_set_vch:
  assumes "length bs \<le> 7" "l AND 0x7f \<noteq> 0 \<or> (bs \<noteq> [] \<and> last bs AND 0x80 \<noteq> 0)"
  shows "CScriptNum_serialize (set_vch (bs @ [l])) = bs @ [l]"
proof -
  let ?r = "unat l mod 128"
  define a where "a = le_val bs + 256 ^ length bs * ?r"
  have r: "?r = (if 128 \<le> unat l then unat l - 128 else unat l)"
    using unat_byte_less[of l] by (auto simp: mod_if)
  have v: "set_vch (bs @ [l]) = (if 128 \<le> unat l then - int a else int a)"
    using set_vch_snoc[OF assms(1), of l] by (simp add: a_def r le_val_append)
  have rnz: "l AND 0x7f \<noteq> 0 \<longleftrightarrow> ?r \<noteq> 0" using and_7f[of l] by (metis unat_eq_zero)
  have ub: "unat (word_of_nat ?r :: byte) = ?r" by (simp add: unat_of_nat_small)
  show ?thesis
  proof (cases "?r = 0")
    case False
    let ?l = "word_of_nat ?r :: byte"
    have la: "le_val (bs @ [?l]) = a" by (simp only: le_val_append a_def le_val.simps ub mult_0_right add_0_right)
    have "?l \<noteq> 0" using False ub by (metis unat_0)
    then have ab: "abs_bytes (word_of_nat a) = bs @ [?l]"
      using abs_bytes_eqI[of "bs @ [?l]"] assms(1) la by simp
    have a0: "a \<noteq> 0" using False by (simp add: a_def)
    have "unat ?l < 128" using ub by simp
    then have hb: "?l AND 0x80 = 0" using byte_high_bit[of ?l] by simp
    show ?thesis
    proof (cases "128 \<le> unat l")
      case True
      have "unat (?l OR 0x80) = unat l" using or_high_bit[OF \<open>unat ?l < 128\<close>] ub r True by simp
      then have "?l OR 0x80 = l" by (rule word_eq_unatI)
      then show ?thesis using True v a0 ab hb by (simp add: CScriptNum_serialize_def Let_def)
    next
      case F: False
      then have "?l = l" using r by simp
      then show ?thesis using F v a0 ab hb by (simp add: CScriptNum_serialize_def Let_def)
    qed
  next
    case True
    then have b: "bs \<noteq> []" "128 \<le> unat (last bs)" using assms(2) rnz byte_high_bit[of "last bs"] by auto
    then have nz: "last bs \<noteq> 0" by auto
    have "a = le_val bs" using True by (simp add: a_def)
    then have ab: "abs_bytes (word_of_nat a) = bs" using abs_bytes_eqI[OF b(1) nz] assms(1) by simp
    have a0: "a \<noteq> 0" using le_val_last_bound(2)[OF b(1) nz] \<open>a = le_val bs\<close> by (metis not_le zero_less_power zero_less_numeral)
    have hb: "last bs AND 0x80 \<noteq> 0" using b(2) byte_high_bit by blast
    have "l = (if 128 \<le> unat l then 0x80 else 0)" using True r by (auto simp: word_unat_eq_iff)
    then show ?thesis using v a0 ab hb by (auto simp: CScriptNum_serialize_def Let_def)
  qed
qed

lemma serialize_minimal:
  assumes "\<bar>v\<bar> < 2 ^ 63" "CScriptNum_serialize v \<noteq> []"
  shows "last (CScriptNum_serialize v) AND 0x7f \<noteq> 0 \<or>
     (1 < length (CScriptNum_serialize v) \<and> CScriptNum_serialize v ! (length (CScriptNum_serialize v) - 2) AND 0x80 \<noteq> 0)"
proof -
  have v0: "v \<noteq> 0" using assms(2) by (auto simp: CScriptNum_serialize_def)
  define bs where "bs = abs_bytes (word_of_int \<bar>v\<bar>)"
  note A = abs_value_bytes[OF v0 assms(1), folded bs_def]
  have ser: "CScriptNum_serialize v = (if last bs AND 0x80 \<noteq> 0 then bs @ [if v < 0 then 0x80 else 0]
      else if v < 0 then butlast bs @ [last bs OR 0x80] else bs)"
    unfolding CScriptNum_serialize_def Let_def bs_def[symmetric] using v0 by simp
  show ?thesis
  proof (cases "last bs AND 0x80 \<noteq> 0")
    case True
    have "(bs @ [x]) ! (length (bs @ [x]) - 2) = last bs" for x
      using A(1) by (cases bs rule: rev_cases) (simp_all add: nth_append)
    then show ?thesis using True A(1) ser by (cases bs) auto
  next
    case False
    then have l: "unat (last bs) < 128" "unat (last bs) \<noteq> 0" using byte_high_bit[of "last bs"] A(2) by (auto simp: unat_eq_zero)
    have "unat (last bs AND 0x7f) \<noteq> 0" "unat ((last bs OR 0x80) AND 0x7f) \<noteq> 0"
      using l by (simp_all add: and_7f or_high_bit)
    then have "last bs AND 0x7f \<noteq> 0" "(last bs OR 0x80) AND 0x7f \<noteq> 0" by (metis unat_0)+
    then show ?thesis using False ser by auto
  qed
qed

section \<open>Reading back what was written\<close>

lemma GetOp_push_data:
  assumes "length b < 2 ^ 32"
  shows "\<exists>op. GetOp (push_data b @ rest) = Some (op, b, rest) \<and> op \<le> OP_PUSHDATA4"
proof -
  consider "length b < 76" | "76 \<le> length b" "length b \<le> 255" | "255 < length b" "length b \<le> 65535" | "65535 < length b"
    by linarith
  then show ?thesis
  proof cases
    case 1
    then have "unat (word_of_nat (length b) :: byte) = length b" by (simp add: unat_of_nat_small)
    with 1 show ?thesis
      by (simp add: push_data_def GetOp_def opcode_defs word_less_nat_alt word_le_nat_alt)
  next
    case 2
    then have "unat (word_of_nat (length b) :: byte) = length b" by (simp add: unat_of_nat_small)
    with 2 show ?thesis by (simp add: push_data_def GetOp_def opcode_defs)
  next
    case 3
    then have "unat (word_of_nat (length b) :: u16) = length b" by (simp add: unat_of_nat_small)
    with 3 show ?thesis by (simp add: push_data_def GetOp_def opcode_defs)
  next
    case 4
    then have "unat (word_of_nat (length b) :: u32) = length b" using assms by (simp add: unat_of_nat_small)
    with 4 show ?thesis by (simp add: push_data_def GetOp_def opcode_defs)
  qed
qed

lemma script_ops_push:
  assumes "GetOp pc = Some (op, d, pc')" "script_ops pc' = (ops, r)"
  shows "script_ops pc = ((op, d) # ops, r)"
  using assms by (subst script_ops.simps) simp

lemma script_ops_pushes:
  assumes "\<forall>b\<in>set bs. length b < 2 ^ 32"
  shows "\<exists>ops. script_ops (concat (map push_data bs)) = (ops, []) \<and> map snd ops = bs \<and> (\<forall>(op, d)\<in>set ops. op \<le> OP_PUSHDATA4)"
  using assms
proof (induction bs)
  case Nil
  then show ?case by (simp add: script_ops.simps[of "[]"] GetOp_def)
next
  case (Cons b bs)
  then obtain ops where ops: "script_ops (concat (map push_data bs)) = (ops, [])" "map snd ops = bs"
    "\<forall>(op, d)\<in>set ops. op \<le> OP_PUSHDATA4" by auto
  obtain op where "GetOp (push_data b @ concat (map push_data bs)) = Some (op, b, concat (map push_data bs))" "op \<le> OP_PUSHDATA4"
    using GetOp_push_data[of b] Cons.prems by auto
  with script_ops_push[OF this(1) ops(1)] ops(2,3) show ?case by auto
qed

lemma pushes_read_back:
  assumes "\<forall>b\<in>set bs. length b < 2 ^ 32"
  shows "map snd (fst (script_ops (concat (map push_data bs)))) = bs \<and> IsPushOnly (concat (map push_data bs))"
proof -
  obtain ops where "script_ops (concat (map push_data bs)) = (ops, [])" "map snd ops = bs"
    "\<forall>(op, d)\<in>set ops. op \<le> OP_PUSHDATA4" using script_ops_pushes[OF assms] by blast
  moreover have "op \<le> OP_16" if "op \<le> OP_PUSHDATA4" for op
    using that by (simp add: opcode_defs word_le_nat_alt)
  ultimately show ?thesis by (fastforce simp: IsPushOnly_def list_all_iff not_less)
qed

lemma sigop_count_le: "sigop_count f l ops n \<le> n + MAX_PUBKEYS_PER_MULTISIG * length ops"
proof (induction f l ops n rule: sigop_count.induct)
  case (2 f l opcode d ops n)
  have "nat (the (DecodeOP_N l)) \<le> 20" if "OP_1 \<le> l" "l \<le> OP_16"
  proof -
    have "unat l \<le> 96" using that(2) by (simp add: opcode_defs word_le_nat_alt)
    then have "nat (int (unat l) - 80) \<le> 20" by linarith
    then show ?thesis using that by (simp add: DecodeOP_N_def opcode_defs)
  qed
  then have "(if opcode = OP_CHECKSIG \<or> opcode = OP_CHECKSIGVERIFY then n + 1
        else if opcode = OP_CHECKMULTISIG \<or> opcode = OP_CHECKMULTISIGVERIFY then
          if f \<and> l \<ge> OP_1 \<and> l \<le> OP_16 then n + nat (the (DecodeOP_N l)) else n + MAX_PUBKEYS_PER_MULTISIG
        else n) \<le> n + 20" (is "?m \<le> _") by (simp add: MAX_PUBKEYS_PER_MULTISIG_def)
  moreover have "sigop_count f l ((opcode, d) # ops) n \<le> ?m + MAX_PUBKEYS_PER_MULTISIG * length ops"
    unfolding sigop_count.simps by (rule "2.IH")
  ultimately show ?case by (simp add: MAX_PUBKEYS_PER_MULTISIG_def del: sigop_count.simps)
qed simp

lemma script_ops_length: "script_ops pc = (ops, r) \<Longrightarrow> length ops + length r \<le> length pc"
proof (induction pc arbitrary: ops rule: script_ops.induct)
  case (1 pc)
  show ?case
  proof (cases "GetOp pc")
    case None
    then show ?thesis using "1.prems" by (simp add: script_ops.simps[of pc])
  next
    case (Some x)
    obtain op d pc' where x: "x = (op, d, pc')" by (cases x)
    obtain ops' r' where o: "script_ops pc' = (ops', r')" by (cases "script_ops pc'")
    have "ops = (op, d) # ops'" "r = r'" using "1.prems" script_ops_push[OF Some[unfolded x] o] by auto
    then show ?thesis using "1.IH"[OF Some x[symmetric] refl] o GetOp_shorter[OF Some[unfolded x]] by auto
  qed
qed

section \<open>Properties\<close>

text \<open>Script numbers round-trip: what \<^verbatim>\<open>CScriptNum::serialize\<close> writes for any 64-bit number but the smallest
  is read back as that number under the minimal-encoding rule (when the length limit allows it), and every vector
  that the minimal-encoding rule accepts is the serialization of the number it is read as. So the minimal encodings
  are exactly the serializations.\<close>

lemma CScriptNum_roundtrip:
  assumes "nMaxNumSize \<le> 8"
  shows "(\<forall>v. \<bar>v\<bar> < 2 ^ 63 \<longrightarrow> length (CScriptNum_serialize v) \<le> nMaxNumSize \<longrightarrow>
            CScriptNum (CScriptNum_serialize v) True nMaxNumSize = Inr v) \<and>
         (\<forall>vch v. CScriptNum vch True nMaxNumSize = Inr v \<longrightarrow> CScriptNum_serialize v = vch)"
proof (intro conjI allI impI)
  fix v :: int assume v: "\<bar>v\<bar> < 2 ^ 63" "length (CScriptNum_serialize v) \<le> nMaxNumSize"
  then show "CScriptNum (CScriptNum_serialize v) True nMaxNumSize = Inr v"
    using serialize_minimal[OF v(1)] set_vch_serialize[OF v(1)] by (auto simp: CScriptNum_def)
next
  fix vch v assume r: "CScriptNum vch True nMaxNumSize = Inr v"
  show "CScriptNum_serialize v = vch"
  proof (cases vch rule: rev_cases)
    case Nil
    then show ?thesis using r by (simp add: CScriptNum_def set_vch_def CScriptNum_serialize_def)
  next
    case (snoc bs l)
    have n: "bs \<noteq> [] \<Longrightarrow> vch ! (length vch - 2) = last bs"
      unfolding snoc by (cases bs rule: rev_cases) (simp_all add: nth_append)
    have "length bs \<le> 7" using r assms snoc by (simp add: CScriptNum_def split: if_splits)
    moreover have "l AND 0x7f \<noteq> 0 \<or> (bs \<noteq> [] \<and> last bs AND 0x80 \<noteq> 0)"
      using r snoc n by (cases "bs = []") (auto simp: CScriptNum_def split: if_splits)
    moreover have "v = set_vch vch" using r by (simp add: CScriptNum_def split: if_splits)
    ultimately show ?thesis using serialize_set_vch[of bs l] snoc by simp
  qed
qed

text \<open>\<^verbatim>\<open>GetOp\<close> reads back every push that \<^verbatim>\<open>operator<<\<close> writes, whichever of the four encodings it chose, and a
  script made of pushes only is recognised by \<^verbatim>\<open>IsPushOnly\<close>.\<close>

lemma pushes_roundtrip:
  assumes "\<forall>b\<in>set bs. length b < 2 ^ 32"
  shows "map snd (fst (script_ops (concat (map push_data bs)))) = bs \<and> IsPushOnly (concat (map push_data bs))"
  using pushes_read_back[OF assms] .

text \<open>No script counts more signature operations than 20 per byte, in either counting
  mode.\<close>

lemma sigops_bounded:
  "GetSigOpCount s fAccurate \<le> MAX_PUBKEYS_PER_MULTISIG * length s"
proof -
  obtain ops r where o: "script_ops s = (ops, r)" by (cases "script_ops s")
  have "GetSigOpCount s fAccurate \<le> MAX_PUBKEYS_PER_MULTISIG * length ops"
    using sigop_count_le[of fAccurate OP_INVALIDOPCODE ops 0] o by (simp add: GetSigOpCount_def)
  also have "\<dots> \<le> MAX_PUBKEYS_PER_MULTISIG * length s" using script_ops_length[OF o] by (intro mult_le_mono2) simp
  finally show ?thesis .
qed

end
