(* ===== verification/Serialize.thy ===== *)
theory Serialize
  imports Script
begin

text \<open>
  Serialization, \<^verbatim>\<open>serialize.h\<close>: integers of fixed width, \<^verbatim>\<open>CompactSize\<close>, \<^verbatim>\<open>VarInt\<close>, vectors. Writing a value gives the
  bytes it appends to the stream; reading takes the bytes of the stream and gives the value and the rest, or the
  \<^verbatim>\<open>ios_base::failure\<close> that the stream or the reader throws.

  The locale \<open>codec\<close> is the contract of a serializable type: what is written is read back. \<open>strict_codec\<close> adds that
  nothing else is read, so that a value has one encoding only. Vectors inherit both contracts.
\<close>

section \<open>Reading and writing\<close>

datatype ser_error = End_of_data | Non_canonical_size | Size_too_large

type_synonym 'a reader = "byte list \<Rightarrow> ser_error + 'a \<times> byte list"

definition MAX_SIZE :: nat where "MAX_SIZE = 0x02000000"

text \<open>\<^verbatim>\<open>s.read(p, n)\<close>: the stream throws when it holds less.\<close>

definition read_bytes :: "nat \<Rightarrow> byte list reader" where
  "read_bytes n bs = (if length bs < n then Inl End_of_data else Inr (take n bs, drop n bs))"

text \<open>Reading one value after another.\<close>

definition readThen :: "'a reader \<Rightarrow> ('a \<Rightarrow> 'b reader) \<Rightarrow> 'b reader" where
  "readThen r f bs = andThen (r bs) (\<lambda>(a, bs'). f a bs')"

definition readReturn :: "'a \<Rightarrow> 'a reader" where
  "readReturn a bs = Inr (a, bs)"

definition readFail :: "ser_error \<Rightarrow> 'a reader" where
  "readFail e bs = Inl e"

definition ser_writedata8 :: "byte \<Rightarrow> byte list" where "ser_writedata8 obj = [obj]"
definition ser_writedata16 :: "u16 \<Rightarrow> byte list" where "ser_writedata16 obj = WriteLE16 obj"
definition ser_writedata32 :: "u32 \<Rightarrow> byte list" where "ser_writedata32 obj = WriteLE32 obj"
definition ser_writedata64 :: "u64 \<Rightarrow> byte list" where "ser_writedata64 obj = WriteLE64 obj"

definition ser_readdata8 :: "byte reader" where
  "ser_readdata8 = readThen (read_bytes 1) (\<lambda>b. readReturn (hd b))"
definition ser_readdata16 :: "u16 reader" where
  "ser_readdata16 = readThen (read_bytes 2) (\<lambda>b. readReturn (ReadLE16 b))"
definition ser_readdata32 :: "u32 reader" where
  "ser_readdata32 = readThen (read_bytes 4) (\<lambda>b. readReturn (ReadLE32 b))"
definition ser_readdata64 :: "u64 reader" where
  "ser_readdata64 = readThen (read_bytes 8) (\<lambda>b. readReturn (ReadLE64 b))"

text \<open>\<^verbatim>\<open>int32_t\<close> and \<^verbatim>\<open>int64_t\<close> are written as the unsigned integer of the same bits.\<close>

definition ser_int32 :: "int \<Rightarrow> byte list" where "ser_int32 n = ser_writedata32 (word_of_int n)"
definition ser_int64 :: "int \<Rightarrow> byte list" where "ser_int64 n = ser_writedata64 (word_of_int n)"
definition unser_int32 :: "int reader" where "unser_int32 = readThen ser_readdata32 (\<lambda>w. readReturn (sint w))"
definition unser_int64 :: "int reader" where "unser_int64 = readThen ser_readdata64 (\<lambda>w. readReturn (sint w))"

section \<open>Sizes\<close>

definition GetSizeOfCompactSize :: "nat \<Rightarrow> nat" where
  "GetSizeOfCompactSize nSize = (if nSize < 253 then 1 else if nSize \<le> 0xffff then 3 else if nSize \<le> 0xffffffff then 5 else 9)"

definition WriteCompactSize :: "nat \<Rightarrow> byte list" where
  "WriteCompactSize nSize =
     (if nSize < 253 then ser_writedata8 (word_of_nat nSize)
      else if nSize \<le> 0xffff then ser_writedata8 253 @ ser_writedata16 (word_of_nat nSize)
      else if nSize \<le> 0xffffffff then ser_writedata8 254 @ ser_writedata32 (word_of_nat nSize)
      else ser_writedata8 255 @ ser_writedata64 (word_of_nat nSize))"

definition ReadCompactSize :: "nat reader" where
  "ReadCompactSize =
     readThen
       (readThen ser_readdata8 (\<lambda>chSize.
          if chSize < 253 then readReturn (unat chSize)
          else if chSize = 253 then
            readThen ser_readdata16 (\<lambda>n. if unat n < 253 then readFail Non_canonical_size else readReturn (unat n))
          else if chSize = 254 then
            readThen ser_readdata32 (\<lambda>n. if unat n < 0x10000 then readFail Non_canonical_size else readReturn (unat n))
          else
            readThen ser_readdata64 (\<lambda>n. if unat n < 0x100000000 then readFail Non_canonical_size else readReturn (unat n))))
       (\<lambda>nSizeRet. if nSizeRet > MAX_SIZE then readFail Size_too_large else readReturn nSizeRet)"

section \<open>Variable-length integers\<close>

text \<open>The loop of \<^verbatim>\<open>WriteVarInt\<close>: the digits are produced from the last to the first, and written in reverse;
  \<open>more\<close> is \<^verbatim>\<open>len != 0\<close>.\<close>

function var_int_digits :: "bool \<Rightarrow> u64 \<Rightarrow> byte list" where
  "var_int_digits more n =
     (let d = ucast (n AND 0x7f) OR (if more then 0x80 else 0)
      in if n \<le> 0x7f then [d] else d # var_int_digits True (drop_bit 7 n - 1))"
  by pat_completeness auto
termination
proof (relation "measure (\<lambda>(more, n). unat n)")
  fix more :: bool and n :: u64 and d :: byte
  assume "\<not> n \<le> 0x7f"
  then have "0x7f < unat n" by (simp add: word_le_nat_alt)
  moreover have "unat (drop_bit 7 n - 1) \<le> unat (drop_bit 7 n)"
  proof -
    have "1 \<le> unat n div 2 ^ 7" using calculation by simp
    then have "(1::u64) \<le> drop_bit 7 n" by (simp add: word_le_nat_alt unat_shiftr)
    then show ?thesis by (simp add: unat_sub)
  qed
  ultimately have "unat (drop_bit 7 n - 1) < unat n" by (simp add: unat_shiftr)
  then show "((True, drop_bit 7 n - 1), more, n) \<in> measure (\<lambda>(more, n). unat n)" by simp
qed simp

declare var_int_digits.simps [simp del]

definition WriteVarInt :: "u64 \<Rightarrow> byte list" where
  "WriteVarInt n = rev (var_int_digits False n)"

definition GetSizeOfVarInt :: "u64 \<Rightarrow> nat" where
  "GetSizeOfVarInt n = length (var_int_digits False n)"

fun ReadVarInt_loop :: "u64 \<Rightarrow> u64 reader" where
  "ReadVarInt_loop n [] = Inl End_of_data"
| "ReadVarInt_loop n (chData # bs) =
     (let n = push_bit 7 n OR ucast (chData AND 0x7f)
      in if chData AND 0x80 \<noteq> 0 then ReadVarInt_loop (n + 1) bs else Inr (n, bs))"

definition ReadVarInt :: "u64 reader" where
  "ReadVarInt = ReadVarInt_loop 0"

section \<open>Vectors\<close>

definition Serialize_vector :: "('a \<Rightarrow> byte list) \<Rightarrow> 'a list \<Rightarrow> byte list" where
  "Serialize_vector ser v = WriteCompactSize (length v) @ concat (map ser v)"

primrec read_list :: "'a reader \<Rightarrow> nat \<Rightarrow> 'a list reader" where
  "read_list unser 0 = readReturn []"
| "read_list unser (Suc n) = readThen unser (\<lambda>x. readThen (read_list unser n) (\<lambda>xs. readReturn (x # xs)))"

definition Unserialize_vector :: "'a reader \<Rightarrow> 'a list reader" where
  "Unserialize_vector unser = readThen ReadCompactSize (read_list unser)"

text \<open>Vectors of bytes (scripts, blobs of variable length) are read and written as a block.\<close>

definition Serialize_bytes :: "byte list \<Rightarrow> byte list" where
  "Serialize_bytes v = WriteCompactSize (length v) @ v"

definition Unserialize_bytes :: "byte list reader" where
  "Unserialize_bytes = readThen ReadCompactSize read_bytes"

section \<open>The contract of a serializable type\<close>

lemma readReturn_Inr_iff [simp]: "readReturn a bs = Inr (b, r) \<longleftrightarrow> a = b \<and> bs = r"
  by (auto simp: readReturn_def)

lemma readFail_Inr [simp]: "readFail e bs \<noteq> Inr x"
  by (simp add: readFail_def)

lemma readThen_Inr_iff: "readThen r f bs = Inr x \<longleftrightarrow> (\<exists>a bs'. r bs = Inr (a, bs') \<and> f a bs' = Inr x)"
  by (auto simp: readThen_def andThen_Inr_iff)

lemma read_bytes_Inr_iff: "read_bytes n bs = Inr (v, r) \<longleftrightarrow> length v = n \<and> bs = v @ r"
  by (auto simp: read_bytes_def)

lemma read_bytes_append [simp]: "length v = n \<Longrightarrow> read_bytes n (v @ r) = Inr (v, r)"
  by (simp add: read_bytes_Inr_iff)

locale codec =
  fixes ser :: "'a \<Rightarrow> byte list" and unser :: "'a reader" and ok :: "'a \<Rightarrow> bool"
  assumes read_back: "ok x \<Longrightarrow> unser (ser x @ r) = Inr (x, r)"
begin

lemma prefix_free:
  assumes "ok x" "ok y" "ser x @ r = ser y @ r'"
  shows "x = y \<and> r = r'"
  using read_back[OF assms(1), of r] read_back[OF assms(2), of r'] assms(3) by (metis Inr_inject Pair_inject)

lemma read_back_exact: "ok x \<Longrightarrow> unser (ser x) = Inr (x, [])"
  using read_back[of x "[]"] by simp

lemma read_list_back: "list_all ok v \<Longrightarrow> read_list unser (length v) (concat (map ser v) @ r) = Inr (v, r)"
  by (induction v) (simp_all add: readThen_def readReturn_def read_back)

end

locale strict_codec = codec +
  assumes only_written: "unser bs = Inr (x, r) \<Longrightarrow> ok x \<and> bs = ser x @ r"
begin

lemma unser_iff: "unser bs = Inr (x, r) \<longleftrightarrow> ok x \<and> bs = ser x @ r"
  using only_written read_back by blast

lemma read_list_only: "read_list unser n bs = Inr (v, r) \<Longrightarrow> length v = n \<and> list_all ok v \<and> bs = concat (map ser v) @ r"
proof (induction n arbitrary: bs v)
  case (Suc n)
  then obtain x bs' xs where "unser bs = Inr (x, bs')" "read_list unser n bs' = Inr (xs, r)" "v = x # xs"
    by (auto simp: readThen_Inr_iff)
  with Suc.IH[of bs' xs] only_written[of bs x bs'] show ?case by auto
qed simp

end

lemma strict_codecI:
  "(\<And>bs x r. unser bs = Inr (x, r) \<longleftrightarrow> ok x \<and> bs = ser x @ r) \<Longrightarrow> strict_codec ser unser ok"
  by unfold_locales auto

section \<open>Integers and sizes\<close>

lemma ser_readdata8_iff: "ser_readdata8 bs = Inr (b, r) \<longleftrightarrow> bs = ser_writedata8 b @ r"
  by (auto simp: ser_readdata8_def ser_writedata8_def readThen_Inr_iff read_bytes_Inr_iff length_Suc_conv)

lemma ser_readdata16_iff: "ser_readdata16 bs = Inr (b, r) \<longleftrightarrow> bs = ser_writedata16 b @ r"
  by (auto simp: ser_readdata16_def ser_writedata16_def readThen_Inr_iff read_bytes_Inr_iff WriteLE16_ReadLE16
      ReadLE16_WriteLE16[of _ "[]", simplified] intro!: exI)

lemma ser_readdata32_iff: "ser_readdata32 bs = Inr (b, r) \<longleftrightarrow> bs = ser_writedata32 b @ r"
  by (auto simp: ser_readdata32_def ser_writedata32_def readThen_Inr_iff read_bytes_Inr_iff WriteLE32_ReadLE32
      ReadLE32_WriteLE32[of _ "[]", simplified] intro!: exI)

lemma ser_readdata64_iff: "ser_readdata64 bs = Inr (b, r) \<longleftrightarrow> bs = ser_writedata64 b @ r"
  by (auto simp: ser_readdata64_def ser_writedata64_def readThen_Inr_iff read_bytes_Inr_iff WriteLE64_ReadLE64
      ReadLE64_WriteLE64[of _ "[]", simplified] intro!: exI)

lemmas ser_readdata_iff = ser_readdata8_iff ser_readdata16_iff ser_readdata32_iff ser_readdata64_iff

interpretation u32: strict_codec ser_writedata32 ser_readdata32 "\<lambda>_. True"
  by (rule strict_codecI) (simp add: ser_readdata_iff)

interpretation u64: strict_codec ser_writedata64 ser_readdata64 "\<lambda>_. True"
  by (rule strict_codecI) (simp add: ser_readdata_iff)

lemma word_sint_iff: "sint (w :: 'a::len word) = n \<longleftrightarrow> - (2 ^ (LENGTH('a) - 1)) \<le> n \<and> n < 2 ^ (LENGTH('a) - 1) \<and> w = word_of_int n"
  using sint_range_size[of w] by (auto simp: signed_of_int signed_take_bit_int_eq_self word_size)

interpretation int32: strict_codec ser_int32 unser_int32 int32_ok
  by (rule strict_codecI)
     (auto simp: unser_int32_def ser_int32_def readThen_Inr_iff ser_readdata_iff word_sint_iff int32_ok_def)

interpretation int64: strict_codec ser_int64 unser_int64 int64_ok
  by (rule strict_codecI)
     (auto simp: unser_int64_def ser_int64_def readThen_Inr_iff ser_readdata_iff word_sint_iff int64_ok_def)

lemma unat_le_max: "unat (a :: u16) \<le> 65535" "unat (b :: u32) \<le> 4294967295"
  using unat_lt_pow[of a] unat_lt_pow[of b] by simp_all

lemma ReadCompactSize_iff: "ReadCompactSize bs = Inr (n, r) \<longleftrightarrow> n \<le> MAX_SIZE \<and> bs = WriteCompactSize n @ r"
proof
  assume "ReadCompactSize bs = Inr (n, r)"
  then show "n \<le> MAX_SIZE \<and> bs = WriteCompactSize n @ r"
    by (auto simp: ReadCompactSize_def readThen_Inr_iff ser_readdata_iff WriteCompactSize_def MAX_SIZE_def
        word_less_nat_alt unat_le_max split: if_split_asm)
next
  assume "n \<le> MAX_SIZE \<and> bs = WriteCompactSize n @ r"
  then show "ReadCompactSize bs = Inr (n, r)"
    by (auto simp: ReadCompactSize_def readThen_def readReturn_def WriteCompactSize_def MAX_SIZE_def
        word_less_nat_alt unat_of_nat_small ser_readdata_iff[THEN iffD2, OF refl])
qed

interpretation size: strict_codec WriteCompactSize ReadCompactSize "\<lambda>n. n \<le> MAX_SIZE"
  by (rule strict_codecI) (rule ReadCompactSize_iff)

section \<open>Variable-length integers: lemmas\<close>

lemma var_int_recombine: "push_bit 7 (drop_bit 7 (n :: u64)) OR (n AND 0x7f) = n"
proof -
  have "push_bit 7 (drop_bit 7 n) OR take_bit 7 n = n" by (rule bit_word_eqI) (auto simp: bit_simps)
  then show ?thesis by (simp add: take_bit_eq_mask mask_eq_exp_minus_1)
qed

lemma var_int_digit:
  "(ucast ((n :: u64) AND 0x7f) OR (if more then 0x80 else 0 :: byte)) AND 0x80 \<noteq> 0 \<longleftrightarrow> more"
  "ucast ((ucast (n AND 0x7f) OR (if more then 0x80 else 0 :: byte)) AND 0x7f) = n AND (0x7f :: u64)"
proof -
  have m: "(0x7f :: u64) = mask 7" "(0x7f :: byte) = mask 7" "(0x80 :: byte) = push_bit 7 1"
    by (simp_all add: mask_eq_exp_minus_1)
  have "bit (ucast (n AND mask 7) OR (if more then 0x80 else 0 :: byte)) 7 \<longleftrightarrow> more"
    by (auto simp: bit_simps)
  then show "(ucast (n AND 0x7f) OR (if more then 0x80 else 0 :: byte)) AND 0x80 \<noteq> 0 \<longleftrightarrow> more"
    using byte_and_exp[of _ 7] by (simp only: m)
  have "\<not> bit (128::byte) k" if "k < 7" for k
    using that by (auto simp: less_Suc_eq numeral_eq_Suc)
  then show "ucast ((ucast (n AND 0x7f) OR (if more then 0x80 else 0 :: byte)) AND 0x7f) = n AND (0x7f :: u64)"
    unfolding m(1,2) by (intro bit_word_eqI) (auto simp: bit_simps)
qed

lemma var_int_loop_step:
  assumes "acc = drop_bit 7 n" 
  shows "ReadVarInt_loop acc ((ucast (n AND 0x7f) OR (if more then 0x80 else 0)) # r) =
    (if more then ReadVarInt_loop (n + 1) r else Inr (n, r))"
  using assms by (simp add: Let_def var_int_digit var_int_recombine)

lemma read_var_int_digits:
  "ReadVarInt_loop 0 (rev (var_int_digits more n) @ r) = (if more then ReadVarInt_loop (n + 1) r else Inr (n, r))"
proof (induction more n arbitrary: r rule: var_int_digits.induct)
  case (1 more n)
  show ?case
  proof (cases "n \<le> 0x7f")
    case True
    then have "unat n div 2 ^ 7 = 0" by (simp add: word_le_nat_alt)
    then have "drop_bit 7 n = 0" by (simp add: word_unat_eq_iff unat_shiftr)
    then show ?thesis using True var_int_loop_step[of 0 n more r] by (simp add: var_int_digits.simps[of more n] Let_def)
  next
    case False
    then show ?thesis
      using "1.IH" var_int_loop_step[of "drop_bit 7 n" n more r] by (simp add: var_int_digits.simps[of more n] Let_def)
  qed
qed

interpretation var_int: codec WriteVarInt ReadVarInt "\<lambda>_. True"
  by unfold_locales (simp add: WriteVarInt_def ReadVarInt_def read_var_int_digits)

section \<open>Composite codecs\<close>

lemma strict_codec_vector:
  assumes "strict_codec ser unser ok"
  shows "strict_codec (Serialize_vector ser) (Unserialize_vector unser) (\<lambda>v. length v \<le> MAX_SIZE \<and> list_all ok v)"
proof (rule strict_codecI)
  fix bs v r
  have "read_list unser n bs' = Inr (v, r) \<longleftrightarrow> length v = n \<and> list_all ok v \<and> bs' = concat (map ser v) @ r" for n bs'
    using strict_codec.read_list_only[OF assms] codec.read_list_back[OF strict_codec.axioms(1)[OF assms]] by blast
  then show "Unserialize_vector unser bs = Inr (v, r) \<longleftrightarrow> (length v \<le> MAX_SIZE \<and> list_all ok v) \<and> bs = Serialize_vector ser v @ r"
    by (auto simp: Unserialize_vector_def Serialize_vector_def readThen_Inr_iff ReadCompactSize_iff)
qed

interpretation vbytes: strict_codec Serialize_bytes Unserialize_bytes "\<lambda>v. length v \<le> MAX_SIZE"
  by (rule strict_codecI)
     (auto simp: Unserialize_bytes_def Serialize_bytes_def readThen_Inr_iff ReadCompactSize_iff read_bytes_Inr_iff)

section \<open>Properties\<close>

text \<open>\<^verbatim>\<open>ReadVarInt\<close> reads back every 64-bit integer that \<^verbatim>\<open>WriteVarInt\<close> writes, from any stream that starts with it;
  and \<^verbatim>\<open>ReadCompactSize\<close> accepts a stream exactly when it starts with what \<^verbatim>\<open>WriteCompactSize\<close> writes for a size up to
  \<^verbatim>\<open>MAX_SIZE\<close>, so that a size has a single encoding, of \<^verbatim>\<open>GetSizeOfCompactSize\<close> bytes.\<close>

lemma size_encodings:
  "ReadVarInt (WriteVarInt n @ r) = Inr (n, r) \<and>
   (ReadCompactSize bs = Inr (k, r) \<longleftrightarrow> k \<le> MAX_SIZE \<and> bs = WriteCompactSize k @ r) \<and>
   length (WriteCompactSize k) = GetSizeOfCompactSize k"
proof (intro conjI)
  show "ReadVarInt (WriteVarInt n @ r) = Inr (n, r)" by (rule var_int.read_back) simp
  show "ReadCompactSize bs = Inr (k, r) \<longleftrightarrow> k \<le> MAX_SIZE \<and> bs = WriteCompactSize k @ r" by (rule size.unser_iff)
  show "length (WriteCompactSize k) = GetSizeOfCompactSize k"
    by (simp add: WriteCompactSize_def GetSizeOfCompactSize_def ser_writedata8_def ser_writedata16_def
        ser_writedata32_def ser_writedata64_def)
qed

end
