(* ===== verification/Uint256.thy ===== *)
theory Uint256
  imports Prelude
begin

text \<open>
  The opaque blobs of \<^verbatim>\<open>uint256.h\<close> and \<^verbatim>\<open>uint256.cpp\<close> (\<^verbatim>\<open>base_blob<BITS>\<close>, \<^verbatim>\<open>uint160\<close>,
  \<^verbatim>\<open>uint256\<close>): a blob is the list of its \<open>WIDTH\<close> data bytes, in memory order. Hexadecimal text
  is read by \<open>SetHex\<close> and written by \<open>GetHex\<close>, with the digit table of
  \<^verbatim>\<open>utilstrencodings.cpp\<close>.
\<close>

type_synonym blob = "byte list"
type_synonym uint256 = blob
type_synonym uint160 = blob

section \<open>Hexadecimal digits\<close>

definition p_util_hexdigit :: "int list" where
  "p_util_hexdigit =
     replicate 48 (-1) @
     [0,1,2,3,4,5,6,7,8,9] @ replicate 6 (-1) @
     [-1,0xa,0xb,0xc,0xd,0xe,0xf] @ replicate 9 (-1) @
     replicate 16 (-1) @
     [-1,0xa,0xb,0xc,0xd,0xe,0xf] @ replicate 9 (-1) @
     replicate 144 (-1)"

definition HexDigit :: "char \<Rightarrow> int" where
  "HexDigit c = p_util_hexdigit ! of_char c"

definition isspace :: "char \<Rightarrow> bool" where
  "isspace c \<longleftrightarrow> of_char c = (32::nat) \<or> 9 \<le> (of_char c::nat) \<and> of_char c \<le> (13::nat)"

definition tolower :: "char \<Rightarrow> char" where
  "tolower c = (if 65 \<le> (of_char c::nat) \<and> of_char c \<le> (90::nat) then char_of (of_char c + 32 :: nat) else c)"

section \<open>Blobs\<close>

definition blob_null :: "nat \<Rightarrow> blob" where
  "blob_null w = replicate w 0"

definition blob_IsNull :: "blob \<Rightarrow> bool" where
  "blob_IsNull d \<longleftrightarrow> list_all (\<lambda>b. b = 0) d"

text \<open>\<^verbatim>\<open>memcmp(a.data, b.data) < 0\<close>: lexicographic on unsigned bytes.\<close>

fun blob_less :: "blob \<Rightarrow> blob \<Rightarrow> bool" where
  "blob_less (a # as) (b # bs) = (a < b \<or> a = b \<and> blob_less as bs)"
| "blob_less _ _ = False"

fun hex_fill :: "int list \<Rightarrow> byte list" where
  "hex_fill [] = []"
| "hex_fill [lo] = [word_of_int lo]"
| "hex_fill (lo # hi # r) = (word_of_int lo OR push_bit 4 (word_of_int hi)) # hex_fill r"

text \<open>\<open>SetHex w str\<close>: leading blanks and a \<open>0x\<close> prefix are skipped, the maximal run of hex
  digits is stored from its last digit upwards, and surplus digits are dropped.\<close>

definition SetHex :: "nat \<Rightarrow> string \<Rightarrow> blob" where
  "SetHex w str =
     (let s = dropWhile isspace str;
          s = (case s of c0 # c1 # r \<Rightarrow> if c0 = CHR ''0'' \<and> tolower c1 = CHR ''x'' then r else s | _ \<Rightarrow> s);
          digits = takeWhile (\<lambda>c. HexDigit c \<noteq> -1) s;
          p = take w (hex_fill (map HexDigit (rev digits)))
      in p @ replicate (w - length p) 0)"

definition hexchar :: "nat \<Rightarrow> char" where
  "hexchar n = ''0123456789abcdef'' ! n"

text \<open>\<^verbatim>\<open>sprintf("%02x", b)\<close>\<close>

definition hex2 :: "byte \<Rightarrow> string" where
  "hex2 b = [hexchar (unat b div 16), hexchar (unat b mod 16)]"

definition GetHex :: "blob \<Rightarrow> string" where
  "GetHex d = concat (map hex2 (rev d))"

definition uint256S :: "string \<Rightarrow> uint256" where
  "uint256S str = SetHex 32 str"

section \<open>Lemmas\<close>

lemma length_p_util_hexdigit: "length p_util_hexdigit = 256"
  by (simp add: p_util_hexdigit_def)

lemma HexDigit_range: "-1 \<le> HexDigit c \<and> HexDigit c < 16"
proof -
  have "list_all (\<lambda>d. -1 \<le> d \<and> d < 16) p_util_hexdigit"
    by (simp add: p_util_hexdigit_def list_all_iff)
  moreover have "of_char c < (256::nat)" by simp
  ultimately show ?thesis
    unfolding HexDigit_def by (simp add: list_all_length length_p_util_hexdigit)
qed

lemma HexDigit_hexchar: "n < 16 \<Longrightarrow> HexDigit (hexchar n) = int n"
proof -
  have "list_all (\<lambda>n. HexDigit (hexchar n) = int n) [0..<16]"
    by code_simp
  then show "n < 16 \<Longrightarrow> ?thesis" by (simp add: list_all_iff)
qed

lemma hexchar_plain: "n < 16 \<Longrightarrow> \<not> isspace (hexchar n) \<and> tolower (hexchar n) \<noteq> CHR ''x''"
proof -
  have "list_all (\<lambda>n. \<not> isspace (hexchar n) \<and> tolower (hexchar n) \<noteq> CHR ''x'') [0..<16]"
    by code_simp
  then show "n < 16 \<Longrightarrow> ?thesis" by (simp add: list_all_iff)
qed

lemma GetHex_Cons: "GetHex (b # d) = GetHex d @ hex2 b"
  by (simp add: GetHex_def)

lemma length_GetHex: "length (GetHex d) = 2 * length d"
  by (induction d) (auto simp: GetHex_Cons hex2_def GetHex_def)

lemma set_GetHex: "c \<in> set (GetHex d) \<Longrightarrow> \<exists>n < 16. c = hexchar n"
proof -
  assume "c \<in> set (GetHex d)"
  then obtain b where "c \<in> set (hex2 b)" by (auto simp: GetHex_def)
  moreover have "unat b div 16 < 16" using unat_byte_less[of b] by simp
  moreover have "unat b mod 16 < 16" by simp
  ultimately show ?thesis unfolding hex2_def by (metis empty_iff empty_set set_ConsD)
qed

lemma nibbles_byte: "word_of_nat (unat b mod 16) OR push_bit 4 (word_of_nat (unat b div 16)) = (b::byte)"
proof -
  have 1: "word_of_nat (unat b mod 16) = take_bit 4 b"
    by (rule word_eq_unatI) (simp add: unat_of_nat unsigned_take_bit_eq take_bit_eq_mod [of 4 "unat b"] del: take_bit_eq_mod)
  have 2: "word_of_nat (unat b div 16) = drop_bit 4 b"
    using unat_byte_less[of b] by (intro word_eq_unatI) (simp add: unat_of_nat unat_drop_bit_eq drop_bit_eq_div unat_div)
  show ?thesis
  proof (rule bit_word_eqI)
    fix n
    show "bit (word_of_nat (unat b mod 16) OR push_bit 4 (word_of_nat (unat b div 16)) :: byte) n = bit b n"
      if "n < LENGTH(8)"
      unfolding 1 2 using that by (cases "n < 4") (auto simp: bit_simps)
  qed
qed

lemma GetHex_append: "GetHex (xs @ ys) = GetHex ys @ GetHex xs"
  by (simp add: GetHex_def)

lemma GetHex_replicate: "GetHex (replicate n b) = concat (replicate n (hex2 b))"
  by (simp add: GetHex_def)

lemma hex_fill_GetHex: "hex_fill (map HexDigit (rev (GetHex d))) = d"
proof (induction d)
  case (Cons b d)
  have "unat b div 16 < 16" using unat_byte_less[of b] by simp
  with Cons show ?case
    by (simp add: GetHex_Cons hex2_def HexDigit_hexchar nibbles_byte)
qed (simp add: GetHex_def)

lemma SetHex_digits:
  assumes "s = GetHex d"
  shows "SetHex w s = take w d @ replicate (w - length d) 0"
proof -
  have plain: "\<And>c. c \<in> set s \<Longrightarrow> \<not> isspace c \<and> tolower c \<noteq> CHR ''x'' \<and> HexDigit c \<noteq> -1"
    using assms set_GetHex hexchar_plain HexDigit_hexchar by fastforce
  then have s1: "dropWhile isspace s = s" by (cases s) auto
  have s2: "(case s of c0 # c1 # r \<Rightarrow> if c0 = CHR ''0'' \<and> tolower c1 = CHR ''x'' then r else s | _ \<Rightarrow> s) = s"
    using plain by (auto split: list.splits)
  have s3: "takeWhile (\<lambda>c. HexDigit c \<noteq> -1) s = s"
    using plain by (simp add: takeWhile_eq_all_conv)
  show ?thesis
    unfolding SetHex_def Let_def s1 s2 s3 using hex_fill_GetHex[of d] assms by simp
qed

lemma SetHex_length [simp]: "length (SetHex w s) = w"
  by (simp add: SetHex_def Let_def split: list.splits)

lemma blob_less_irrefl: "\<not> blob_less a a"
  by (induction a) auto

lemma blob_less_trans: "blob_less a b \<Longrightarrow> blob_less b c \<Longrightarrow> blob_less a c"
  by (induction a b arbitrary: c rule: blob_less.induct) (case_tac c; auto)+

lemma blob_less_total: "length a = length b \<Longrightarrow> a \<noteq> b \<Longrightarrow> blob_less a b \<or> blob_less b a"
  by (induction a b rule: list_induct2) (auto simp: neq_iff)

lemma blob_IsNull_iff: "blob_IsNull d \<longleftrightarrow> d = blob_null (length d)"
  unfolding blob_IsNull_def blob_null_def list_all_iff
  by (metis in_set_replicate replicate_eqI)

section \<open>Properties\<close>

text \<open>Reading back the hexadecimal text of a blob gives the blob, also when the text has leading
  white space or a \<^verbatim>\<open>0x\<close> prefix.\<close>

lemma SetHex_GetHex:
  assumes "list_all isspace ws"
  shows "SetHex (length d) (ws @ GetHex d) = d \<and> SetHex (length d) (ws @ ''0x'' @ GetHex d) = d"
proof -
  have g: "SetHex (length d) (GetHex d) = d" using SetHex_digits[OF refl, of "length d" d] by simp
  have dw: "dropWhile isspace (ws @ xs) = dropWhile isspace xs" for xs
    using assms by (simp add: dropWhile_append list_all_iff dropWhile_eq_Nil_conv)
  have plain: "\<And>c. c \<in> set (GetHex d) \<Longrightarrow> \<not> isspace c \<and> tolower c \<noteq> CHR ''x''"
    using set_GetHex hexchar_plain by blast
  have ns: "dropWhile isspace (GetHex d) = GetHex d"
    using plain by (cases "GetHex d") auto
  have z: "dropWhile isspace (''0x'' @ GetHex d) = ''0x'' @ GetHex d" by (simp add: isspace_def)
  have cs: "(case GetHex d of c0 # c1 # r \<Rightarrow> if c0 = CHR ''0'' \<and> tolower c1 = CHR ''x'' then r else GetHex d
      | _ \<Rightarrow> GetHex d) = GetHex d"
    using plain by (auto split: list.splits)
  have "SetHex (length d) (ws @ GetHex d) = SetHex (length d) (GetHex d)"
    unfolding SetHex_def dw ..
  moreover have "SetHex (length d) (ws @ ''0x'' @ GetHex d) = SetHex (length d) (GetHex d)"
    unfolding SetHex_def dw z ns Let_def cs by (simp add: tolower_def)
  ultimately show ?thesis using g by simp
qed

end
