(* ===== verification/Params.thy ===== *)
theory Params
  imports Uint256
begin

text \<open>
  The consensus parameters of \<^verbatim>\<open>consensus/params.h\<close>, the constants of
  \<^verbatim>\<open>consensus/consensus.h\<close>, and the three parameter sets of \<^verbatim>\<open>chainparams.cpp\<close> (main network,
  test network, regression test). The genesis hash is computed by the code from the genesis
  block and checked against a literal; the literal is what is recorded here.
\<close>

section \<open>Parameters\<close>

record BIP9Deployment =
  bip9_bit :: nat
  nStartTime :: int
  nTimeout :: int

datatype DeploymentPos = DEPLOYMENT_TESTDUMMY | DEPLOYMENT_CSV

record consensus_params =
  hashGenesisBlock :: uint256
  nSubsidyHalvingInterval :: int
  nMajorityEnforceBlockUpgrade :: int
  nMajorityRejectBlockOutdated :: int
  nMajorityWindow :: int
  BIP34Height :: int
  BIP34Hash :: uint256
  nRuleChangeActivationThreshold :: nat
  nMinerConfirmationWindow :: nat
  vDeployments :: "DeploymentPos \<Rightarrow> BIP9Deployment"
  powLimit :: uint256
  fPowAllowMinDifficultyBlocks :: bool
  fPowNoRetargeting :: bool
  nPowTargetSpacing0 :: int
  nPowTargetTimespan0 :: int
  nHeight1 :: int
  nPowTargetSpacing1 :: int
  nPowTargetTimespan1 :: int
  nHeight2 :: int
  nPowTargetSpacing2 :: int
  nPowTargetTimespan2 :: int

text \<open>C++ integer division truncates towards zero.\<close>

definition cdiv :: "int \<Rightarrow> int \<Rightarrow> int" where
  "cdiv a b = sgn a * sgn b * (\<bar>a\<bar> div \<bar>b\<bar>)"

definition cmod :: "int \<Rightarrow> int \<Rightarrow> int" where
  "cmod a b = a - cdiv a b * b"

definition DifficultyAdjustmentInterval :: "consensus_params \<Rightarrow> int \<Rightarrow> int" where
  "DifficultyAdjustmentInterval p block =
     (if block \<ge> nHeight2 p then cdiv (nPowTargetTimespan2 p) (nPowTargetSpacing2 p)
      else if block \<ge> nHeight1 p then cdiv (nPowTargetTimespan1 p) (nPowTargetSpacing1 p)
      else if block \<ge> 0 then cdiv (nPowTargetTimespan0 p) (nPowTargetSpacing0 p)
      else cdiv (nPowTargetTimespan2 p) (nPowTargetSpacing2 p))"

definition PowTargetSpacing :: "consensus_params \<Rightarrow> int \<Rightarrow> int" where
  "PowTargetSpacing p block =
     (if block \<ge> nHeight2 p then nPowTargetSpacing2 p
      else if block \<ge> nHeight1 p then nPowTargetSpacing1 p
      else if block \<ge> 0 then nPowTargetSpacing0 p
      else nPowTargetSpacing2 p)"

definition PowTargetTimespan :: "consensus_params \<Rightarrow> int \<Rightarrow> int" where
  "PowTargetTimespan p block =
     (if block \<ge> nHeight2 p then nPowTargetTimespan2 p
      else if block \<ge> nHeight1 p then nPowTargetTimespan1 p
      else if block \<ge> 0 then nPowTargetTimespan0 p
      else nPowTargetTimespan2 p)"

section \<open>Consensus constants\<close>

definition MAX_BLOCK_SIZE :: nat where
  "MAX_BLOCK_SIZE = 1000000"

definition MAX_BLOCK_SIGOPS :: nat where
  "MAX_BLOCK_SIGOPS = MAX_BLOCK_SIZE div 50"

definition COINBASE_MATURITY :: int where
  "COINBASE_MATURITY = 30"

definition LOCKTIME_VERIFY_SEQUENCE :: nat where
  "LOCKTIME_VERIFY_SEQUENCE = 1"

definition LOCKTIME_MEDIAN_TIME_PAST :: nat where
  "LOCKTIME_MEDIAN_TIME_PAST = 1"

lemmas consensus_consts = MAX_BLOCK_SIZE_def MAX_BLOCK_SIGOPS_def COINBASE_MATURITY_def
  LOCKTIME_VERIFY_SEQUENCE_def LOCKTIME_MEDIAN_TIME_PAST_def

section \<open>The three networks\<close>

definition CMainParams :: consensus_params where
  "CMainParams =
     \<lparr> hashGenesisBlock = uint256S ''0x0000003b1c67db2b1fcf81b9926028d72a4327809d74f4a6993802741de53c18'',
       nSubsidyHalvingInterval = 210000000,
       nMajorityEnforceBlockUpgrade = 60,
       nMajorityRejectBlockOutdated = 90,
       nMajorityWindow = 120,
       BIP34Height = 1,
       BIP34Hash = blob_null 32,
       nRuleChangeActivationThreshold = 28,
       nMinerConfirmationWindow = 30,
       vDeployments = (\<lambda>d. case d of
         DEPLOYMENT_TESTDUMMY \<Rightarrow> \<lparr> bip9_bit = 28, nStartTime = 1558007865, nTimeout = 1558007865 \<rparr>
       | DEPLOYMENT_CSV \<Rightarrow> \<lparr> bip9_bit = 0, nStartTime = 1558007865, nTimeout = 1558007865 \<rparr>),
       powLimit = uint256S ''0000007fffffffffffffffffffffffffffffffffffffffffffffffffffffffff'',
       fPowAllowMinDifficultyBlocks = False,
       fPowNoRetargeting = False,
       nPowTargetSpacing0 = 2 * 60,
       nPowTargetTimespan0 = 24 * 60 * 60,
       nHeight1 = 90900 - 1,
       nPowTargetSpacing1 = 1 * 60,
       nPowTargetTimespan1 = 60 * 60,
       nHeight2 = 115000 - 1,
       nPowTargetSpacing2 = 2 * 60,
       nPowTargetTimespan2 = 60 * 60 \<rparr>"

definition CTestNetParams :: consensus_params where
  "CTestNetParams =
     \<lparr> hashGenesisBlock = uint256S ''0x00000066438a351e04e55f00ff1c239fc558f5297f470baf83064ad6d09f7d54'',
       nSubsidyHalvingInterval = 210000000,
       nMajorityEnforceBlockUpgrade = 60,
       nMajorityRejectBlockOutdated = 90,
       nMajorityWindow = 120,
       BIP34Height = 1,
       BIP34Hash = blob_null 32,
       nRuleChangeActivationThreshold = 50,
       nMinerConfirmationWindow = 80,
       vDeployments = (\<lambda>d. case d of
         DEPLOYMENT_TESTDUMMY \<Rightarrow> \<lparr> bip9_bit = 28, nStartTime = 1559070662, nTimeout = 1559070662 \<rparr>
       | DEPLOYMENT_CSV \<Rightarrow> \<lparr> bip9_bit = 0, nStartTime = 1559070662, nTimeout = 1559070662 \<rparr>),
       powLimit = uint256S ''0000007fffffffffffffffffffffffffffffffffffffffffffffffffffffffff'',
       fPowAllowMinDifficultyBlocks = True,
       fPowNoRetargeting = False,
       nPowTargetSpacing0 = 2 * 60,
       nPowTargetTimespan0 = 24 * 60 * 60,
       nHeight1 = 90900 - 1,
       nPowTargetSpacing1 = 1 * 60,
       nPowTargetTimespan1 = 60 * 60,
       nHeight2 = 115000 - 1,
       nPowTargetSpacing2 = 2 * 60,
       nPowTargetTimespan2 = 60 * 60 \<rparr>"

definition CRegTestParams :: consensus_params where
  "CRegTestParams =
     \<lparr> hashGenesisBlock = uint256S ''0x0000003b1c67db2b1fcf81b9926028d72a4327809d74f4a6993802741de53c18'',
       nSubsidyHalvingInterval = 210000000,
       nMajorityEnforceBlockUpgrade = 60,
       nMajorityRejectBlockOutdated = 90,
       nMajorityWindow = 120,
       BIP34Height = -1,
       BIP34Hash = blob_null 32,
       nRuleChangeActivationThreshold = 50,
       nMinerConfirmationWindow = 80,
       vDeployments = (\<lambda>d. case d of
         DEPLOYMENT_TESTDUMMY \<Rightarrow> \<lparr> bip9_bit = 28, nStartTime = 0, nTimeout = 999999999999 \<rparr>
       | DEPLOYMENT_CSV \<Rightarrow> \<lparr> bip9_bit = 0, nStartTime = 0, nTimeout = 999999999999 \<rparr>),
       powLimit = uint256S ''7fffffffffffffffffffffffffffffffffffffffffffffffffffffffffffffff'',
       fPowAllowMinDifficultyBlocks = True,
       fPowNoRetargeting = True,
       nPowTargetSpacing0 = 2 * 60,
       nPowTargetTimespan0 = 24 * 60 * 60,
       nHeight1 = 90900 - 1,
       nPowTargetSpacing1 = 1 * 60,
       nPowTargetTimespan1 = 60 * 60,
       nHeight2 = 115000 - 1,
       nPowTargetSpacing2 = 2 * 60,
       nPowTargetTimespan2 = 60 * 60 \<rparr>"

section \<open>Lemmas\<close>

lemma cdiv_nonneg: "0 \<le> a \<Longrightarrow> 0 < b \<Longrightarrow> cdiv a b = a div b"
  by (cases "a = 0") (auto simp: cdiv_def sgn_if)

lemma cmod_nonneg: "0 \<le> a \<Longrightarrow> 0 < b \<Longrightarrow> cmod a b = a mod b"
  by (simp add: cmod_def cdiv_nonneg minus_div_mult_eq_mod)

lemma main_intervals:
  "DifficultyAdjustmentInterval CMainParams h =
     (if h \<ge> 114999 then 30 else if h \<ge> 90899 then 60 else if h \<ge> 0 then 720 else 30)"
  by (simp add: DifficultyAdjustmentInterval_def CMainParams_def cdiv_def)

lemma main_spacing_times_interval:
  "PowTargetSpacing CMainParams h * DifficultyAdjustmentInterval CMainParams h = PowTargetTimespan CMainParams h"
  unfolding main_intervals by (simp add: PowTargetSpacing_def PowTargetTimespan_def CMainParams_def)

end
