(* ===== verification/Amount.thy ===== *)
theory Amount
  imports Params
begin

text \<open>
  Amounts and fees: \<^verbatim>\<open>amount.h\<close>, \<^verbatim>\<open>amount.cpp\<close> (the class \<^verbatim>\<open>CFeeRate\<close>) and the block subsidy
  of \<^verbatim>\<open>main.cpp\<close>. A \<^verbatim>\<open>CAmount\<close> is an \<^verbatim>\<open>int64_t\<close>; where the code mixes it with the unsigned
  \<^verbatim>\<open>size_t\<close> the arithmetic is done modulo \<open>2 ^ 64\<close> and read back as a signed number, which
  \<open>to_u64\<close> and \<open>to_i64\<close> write out.
\<close>

type_synonym CAmount = int

section \<open>Definitions\<close>

definition COIN :: CAmount where
  "COIN = 1"

definition MAX_MONEY :: CAmount where
  "MAX_MONEY = 4200000000000 * COIN"

definition MoneyRange :: "CAmount \<Rightarrow> bool" where
  "MoneyRange nValue \<longleftrightarrow> nValue \<ge> 0 \<and> nValue \<le> MAX_MONEY"

definition to_u64 :: "int \<Rightarrow> int" where
  "to_u64 n = n mod 2 ^ 64"

definition to_i64 :: "int \<Rightarrow> int" where
  "to_i64 n = (n + 2 ^ 63) mod 2 ^ 64 - 2 ^ 63"

record CFeeRate =
  nSatoshisPerK :: CAmount

definition CFeeRate_default :: CFeeRate where
  "CFeeRate_default = \<lparr> nSatoshisPerK = 1 \<rparr>"

definition CFeeRate_of :: "CAmount \<Rightarrow> CFeeRate" where
  "CFeeRate_of s = \<lparr> nSatoshisPerK = (if s \<ge> 1 then s else 1) \<rparr>"

text \<open>\<^verbatim>\<open>CFeeRate(const CAmount& nFeePaid, size_t nSize)\<close>\<close>

definition CFeeRate_paid :: "CAmount \<Rightarrow> nat \<Rightarrow> CFeeRate" where
  "CFeeRate_paid nFeePaid nSize =
     (let s = (if nSize > 1000 then to_i64 (to_u64 (nFeePaid * 1000) div int nSize) else 0)
      in \<lparr> nSatoshisPerK = (if s < 1 then 1 else s) \<rparr>)"

definition GetFee :: "CFeeRate \<Rightarrow> nat \<Rightarrow> CAmount" where
  "GetFee r nSize = to_i64 (to_u64 (to_u64 (to_u64 (nSatoshisPerK r) * int nSize) div 1001 + 1))"

definition GetFeePerK :: "CFeeRate \<Rightarrow> CAmount" where
  "GetFeePerK r = GetFee r 1000"

definition CFeeRate_less :: "CFeeRate \<Rightarrow> CFeeRate \<Rightarrow> bool" where
  "CFeeRate_less a b \<longleftrightarrow> nSatoshisPerK a < nSatoshisPerK b"

definition CFeeRate_add :: "CFeeRate \<Rightarrow> CFeeRate \<Rightarrow> CFeeRate" where
  "CFeeRate_add a b = a\<lparr> nSatoshisPerK := nSatoshisPerK a + nSatoshisPerK b \<rparr>"

text \<open>\<^verbatim>\<open>nSubsidy >>= halvings\<close> on a non-negative amount is division by a power of two.\<close>

definition GetBlockSubsidy :: "int \<Rightarrow> consensus_params \<Rightarrow> CAmount" where
  "GetBlockSubsidy nHeight p =
     (let halvings = cdiv nHeight (nSubsidyHalvingInterval p)
      in if halvings \<ge> 64 then 0
         else (10000 * COIN) div 2 ^ nat halvings)"

section \<open>Fee lemmas\<close>

lemma to_u64_id: "0 \<le> n \<Longrightarrow> n < 2 ^ 64 \<Longrightarrow> to_u64 n = n"
  by (simp add: to_u64_def)

lemma to_u64_bounds: "0 \<le> to_u64 n" "to_u64 n < 2 ^ 64"
  by (simp_all add: to_u64_def)

lemma to_i64_id: "int64_ok n \<Longrightarrow> to_i64 n = n"
  unfolding to_i64_def int64_ok_def by (subst mod_pos_pos_trivial) auto

lemma to_i64_ok: "int64_ok (to_i64 n)"
proof -
  have "0 \<le> (n + 2 ^ 63) mod 2 ^ 64" "(n + 2 ^ 63) mod 2 ^ 64 < 2 ^ 64" by simp_all
  then show ?thesis unfolding to_i64_def int64_ok_def by simp
qed

lemma GetFee_eq:
  "GetFee r nSize = to_u64 (to_u64 (nSatoshisPerK r) * int nSize) div 1001 + 1"
proof -
  define q where "q = to_u64 (to_u64 (nSatoshisPerK r) * int nSize) div 1001 + 1"
  have "0 \<le> to_u64 (to_u64 (nSatoshisPerK r) * int nSize)"
    "to_u64 (to_u64 (nSatoshisPerK r) * int nSize) < 2 ^ 64" by (rule to_u64_bounds)+
  then have q: "1 \<le> q" "q < 2 ^ 63" unfolding q_def by (simp_all add: div_less_iff_less_mult)
  then have "to_u64 q = q" by (intro to_u64_id) auto
  moreover have "to_i64 q = q" using q by (intro to_i64_id) (simp add: int64_ok_def)
  ultimately show ?thesis unfolding GetFee_def q_def[symmetric] by simp
qed

lemma GetFee_no_wrap:
  assumes "0 \<le> nSatoshisPerK r" "nSatoshisPerK r * int nSize < 2 ^ 64" "0 < nSize"
  shows "GetFee r nSize = nSatoshisPerK r * int nSize div 1001 + 1"
proof -
  have "nSatoshisPerK r * 1 \<le> nSatoshisPerK r * int nSize"
    using assms by (intro mult_left_mono) auto
  with assms have "to_u64 (nSatoshisPerK r) = nSatoshisPerK r" by (intro to_u64_id) auto
  moreover have "to_u64 (nSatoshisPerK r * int nSize) = nSatoshisPerK r * int nSize"
    using assms by (intro to_u64_id) auto
  ultimately show ?thesis unfolding GetFee_eq by simp
qed

lemma GetFee_zero_size: "GetFee r 0 = 1"
  by (simp add: GetFee_eq to_u64_def)

section \<open>Subsidy lemmas\<close>

lemma GetBlockSubsidy_era:
  assumes "0 < nSubsidyHalvingInterval p"
  shows "GetBlockSubsidy (int h) p = 10000 div 2 ^ (h div nat (nSubsidyHalvingInterval p))"
proof -
  define I where "I = nat (nSubsidyHalvingInterval p)"
  have I: "nSubsidyHalvingInterval p = int I" "0 < I" using assms by (auto simp: I_def)
  have d: "cdiv (int h) (nSubsidyHalvingInterval p) = int (h div I)"
    using I by (simp add: cdiv_nonneg zdiv_int)
  have "(10000::int) div 2 ^ n = 0" if "64 \<le> n" for n :: nat
  proof -
    have "(2::int) ^ 64 \<le> 2 ^ n" using that by (intro power_increasing) auto
    then show ?thesis by simp
  qed
  then show ?thesis
    unfolding GetBlockSubsidy_def Let_def d COIN_def I_def[symmetric] by simp
qed

lemma GetBlockSubsidy_nonneg: "0 \<le> GetBlockSubsidy h p"
  by (simp add: GetBlockSubsidy_def Let_def COIN_def pos_imp_zdiv_nonneg_iff)

lemma subsidy_eras: "(\<Sum>j<14::nat. 10000 div 2 ^ j :: int) = 19995"
  by (simp add: eval_nat_numeral lessThan_Suc)

lemma subsidy_late: "14 \<le> j \<Longrightarrow> (10000::int) div 2 ^ j = 0" for j :: nat
proof -
  assume "14 \<le> j"
  then have "(2::int) ^ 14 \<le> 2 ^ j" by (intro power_increasing) auto
  then show ?thesis by simp
qed

lemma subsidy_sum_full:
  fixes I :: nat assumes "0 < I"
  shows "(\<Sum>h<14 * I. 10000 div 2 ^ (h div I) :: int) = 19995 * int I"
proof -
  have "(\<Sum>h<14 * I. 10000 div 2 ^ (h div I) :: int)
      = (\<Sum>j<14::nat. \<Sum>h = j * I..<j * I + I. 10000 div 2 ^ (h div I))"
    by (rule sum.nat_group [symmetric])
  also have "\<dots> = (\<Sum>j<14::nat. \<Sum>h = j * I..<j * I + I. 10000 div 2 ^ j)"
  proof (intro sum.cong refl)
    fix j h assume "h \<in> {j * I..<j * I + I}"
    then have "h div I = j" using assms by (intro div_nat_eqI) (auto simp: algebra_simps)
    then show "(10000::int) div 2 ^ (h div I) = 10000 div 2 ^ j" by simp
  qed
  also have "\<dots> = (\<Sum>j<14::nat. 10000 div 2 ^ j) * int I"
    by (simp add: sum_distrib_left mult.commute)
  finally show ?thesis by (simp only: subsidy_eras)
qed

lemma subsidy_sum_le:
  fixes I :: nat assumes "0 < I"
  shows "(\<Sum>h<n. 10000 div 2 ^ (h div I) :: int) \<le> 19995 * int I"
proof -
  let ?f = "\<lambda>h. 10000 div 2 ^ (h div I) :: int"
  have late: "?f h = 0" if "14 * I \<le> h" for h
    using that assms by (intro subsidy_late) (simp add: less_eq_div_iff_mult_less_eq)
  have "sum ?f {..<n} = sum ?f ({..<n} \<inter> {..<14 * I})"
  proof (rule sum.mono_neutral_right)
    show "\<forall>h\<in>{..<n} - {..<n} \<inter> {..<14 * I}. ?f h = 0"
      using late by (metis DiffD1 DiffD2 IntI lessThan_iff not_less)
  qed auto
  also have "\<dots> \<le> sum ?f {..<14 * I}"
    by (rule sum_mono2) (auto simp: pos_imp_zdiv_nonneg_iff)
  finally show ?thesis using subsidy_sum_full[OF assms] by simp
qed

lemma subsidy_total_bound:
  "(\<Sum>h<n. GetBlockSubsidy (int h) CMainParams) \<le> 4198950000000
     \<and> MoneyRange (\<Sum>h<n. GetBlockSubsidy (int h) CMainParams)"
proof -
  have p: "0 < nSubsidyHalvingInterval CMainParams" "nat (nSubsidyHalvingInterval CMainParams) = 210000000"
    by (simp_all add: CMainParams_def)
  have "(\<Sum>h<n. GetBlockSubsidy (int h) CMainParams) \<le> 19995 * int 210000000"
    using subsidy_sum_le[of 210000000 n] by (simp only: GetBlockSubsidy_era[OF p(1)] p(2))
  moreover have "0 \<le> (\<Sum>h<n. GetBlockSubsidy (int h) CMainParams)"
    by (intro sum_nonneg) (simp add: GetBlockSubsidy_nonneg)
  ultimately show ?thesis by (simp add: MoneyRange_def MAX_MONEY_def COIN_def)
qed

section \<open>Properties\<close>

text \<open>A fee is always at least one unit and never leaves the range of \<^verbatim>\<open>CAmount\<close>, for every rate and
  every size, even where the product of rate and size wraps around.\<close>

lemma GetFee_at_least_one: "1 \<le> GetFee r nSize \<and> GetFee r nSize < 2 ^ 55"
proof -
  have "0 \<le> to_u64 (to_u64 (nSatoshisPerK r) * int nSize)"
    "to_u64 (to_u64 (nSatoshisPerK r) * int nSize) < 2 ^ 64" by (rule to_u64_bounds)+
  then show ?thesis unfolding GetFee_eq by (simp add: div_less_iff_less_mult pos_imp_zdiv_nonneg_iff)
qed

text \<open>The rate reported per 1000 bytes is the rate that was set exactly when that rate is at most 1001;
  every larger rate (that does not wrap) is reported too low.\<close>

lemma GetFeePerK_exact_iff:
  assumes "1 \<le> s" "s * 1000 < 2 ^ 64"
  shows "(GetFeePerK (CFeeRate_of s) = s \<longleftrightarrow> s \<le> 1001) \<and> GetFeePerK (CFeeRate_of s) \<le> s"
proof -
  define q where "q = s * 1000 div 1001"
  have "GetFeePerK (CFeeRate_of s) = q + 1"
    unfolding GetFeePerK_def q_def using assms by (subst GetFee_no_wrap) (auto simp: CFeeRate_of_def)
  moreover have "1001 * q \<le> s * 1000" "s * 1000 < 1001 * q + 1001" unfolding q_def by simp_all
  ultimately show ?thesis using assms(1) by arith
qed

end
