(* ===== verification/Transaction.thy ===== *)
theory Transaction
  imports Serialize Uint256 Amount
begin

text \<open>
  Transactions, \<^verbatim>\<open>primitives/transaction.h\<close> and \<^verbatim>\<open>primitives/transaction.cpp\<close>. The hash that \<^verbatim>\<open>CTransaction\<close> caches is a
  function of its serialization; where it is needed the hash function is a parameter. \<^verbatim>\<open>int32_t\<close> and \<^verbatim>\<open>int64_t\<close> fields are
  integers, \<open>tx_ok\<close> says that they are in range and that the vectors are within the limit of the reader.
\<close>

section \<open>Data\<close>

record COutPoint =
  outhash :: uint256
  outn :: u32

record CTxIn =
  prevout :: COutPoint
  scriptSig :: CScript
  nSequence :: u32

record CTxOut =
  nValue :: CAmount
  scriptPubKey :: CScript

record CTransaction =
  nVersion :: int
  vin :: "CTxIn list"
  vout :: "CTxOut list"
  nLockTime :: u32

definition COutPoint_SetNull :: COutPoint where
  "COutPoint_SetNull = \<lparr>outhash = blob_null 32, outn = -1\<rparr>"

definition COutPoint_IsNull :: "COutPoint \<Rightarrow> bool" where
  "COutPoint_IsNull p \<longleftrightarrow> blob_IsNull (outhash p) \<and> outn p = -1"

definition COutPoint_less :: "COutPoint \<Rightarrow> COutPoint \<Rightarrow> bool" where
  "COutPoint_less a b \<longleftrightarrow> blob_less (outhash a) (outhash b) \<or> (outhash a = outhash b \<and> outn a < outn b)"

definition SEQUENCE_FINAL :: u32 where "SEQUENCE_FINAL = 0xffffffff"
definition SEQUENCE_LOCKTIME_TYPE_FLAG :: u32 where "SEQUENCE_LOCKTIME_TYPE_FLAG = push_bit 22 1"
definition SEQUENCE_LOCKTIME_MASK :: u32 where "SEQUENCE_LOCKTIME_MASK = 0x0000ffff"
definition SEQUENCE_LOCKTIME_GRANULARITY :: nat where "SEQUENCE_LOCKTIME_GRANULARITY = 9"

definition CTxIn_default :: CTxIn where
  "CTxIn_default = \<lparr>prevout = COutPoint_SetNull, scriptSig = [], nSequence = SEQUENCE_FINAL\<rparr>"

definition CTxOut_SetNull :: CTxOut where
  "CTxOut_SetNull = \<lparr>nValue = -1, scriptPubKey = []\<rparr>"

definition CTxOut_IsNull :: "CTxOut \<Rightarrow> bool" where
  "CTxOut_IsNull t \<longleftrightarrow> nValue t = -1"

definition GetDustThreshold :: "CTxOut \<Rightarrow> CFeeRate \<Rightarrow> CAmount" where
  "GetDustThreshold t minRelayTxFee = 0"

definition IsDust :: "CTxOut \<Rightarrow> CFeeRate \<Rightarrow> bool" where
  "IsDust t minRelayTxFee = False"

definition CURRENT_VERSION :: int where "CURRENT_VERSION = 1"
definition MAX_STANDARD_VERSION :: int where "MAX_STANDARD_VERSION = 2"

definition CTransaction_default :: CTransaction where
  "CTransaction_default = \<lparr>nVersion = CURRENT_VERSION, vin = [], vout = [], nLockTime = 0\<rparr>"

definition CTransaction_IsNull :: "CTransaction \<Rightarrow> bool" where
  "CTransaction_IsNull tx \<longleftrightarrow> vin tx = [] \<and> vout tx = []"

definition IsCoinBase :: "CTransaction \<Rightarrow> bool" where
  "IsCoinBase tx \<longleftrightarrow> length (vin tx) = 1 \<and> COutPoint_IsNull (prevout (vin tx ! 0))"

section \<open>Serialization\<close>

definition Serialize_COutPoint :: "COutPoint \<Rightarrow> byte list" where
  "Serialize_COutPoint p = outhash p @ ser_writedata32 (outn p)"

definition Unserialize_COutPoint :: "COutPoint reader" where
  "Unserialize_COutPoint =
     readThen (read_bytes 32) (\<lambda>h. readThen ser_readdata32 (\<lambda>i. readReturn \<lparr>outhash = h, outn = i\<rparr>))"

definition Serialize_CTxIn :: "CTxIn \<Rightarrow> byte list" where
  "Serialize_CTxIn t = Serialize_COutPoint (prevout t) @ Serialize_bytes (scriptSig t) @ ser_writedata32 (nSequence t)"

definition Unserialize_CTxIn :: "CTxIn reader" where
  "Unserialize_CTxIn =
     readThen Unserialize_COutPoint (\<lambda>p. readThen Unserialize_bytes (\<lambda>s. readThen ser_readdata32 (\<lambda>q.
       readReturn \<lparr>prevout = p, scriptSig = s, nSequence = q\<rparr>)))"

definition Serialize_CTxOut :: "CTxOut \<Rightarrow> byte list" where
  "Serialize_CTxOut t = ser_int64 (nValue t) @ Serialize_bytes (scriptPubKey t)"

definition Unserialize_CTxOut :: "CTxOut reader" where
  "Unserialize_CTxOut =
     readThen unser_int64 (\<lambda>v. readThen Unserialize_bytes (\<lambda>s. readReturn \<lparr>nValue = v, scriptPubKey = s\<rparr>))"

definition Serialize_CTransaction :: "CTransaction \<Rightarrow> byte list" where
  "Serialize_CTransaction tx =
     ser_int32 (nVersion tx) @ Serialize_vector Serialize_CTxIn (vin tx) @
     Serialize_vector Serialize_CTxOut (vout tx) @ ser_writedata32 (nLockTime tx)"

definition Unserialize_CTransaction :: "CTransaction reader" where
  "Unserialize_CTransaction =
     readThen unser_int32 (\<lambda>v.
     readThen (Unserialize_vector Unserialize_CTxIn) (\<lambda>i.
     readThen (Unserialize_vector Unserialize_CTxOut) (\<lambda>t.
     readThen ser_readdata32 (\<lambda>l. readReturn \<lparr>nVersion = v, vin = i, vout = t, nLockTime = l\<rparr>))))"

text \<open>\<^verbatim>\<open>GetHash\<close>: the hash (\<^verbatim>\<open>SerializeHash\<close>) of the serialization\<close>

definition GetHash :: "(byte list \<Rightarrow> uint256) \<Rightarrow> CTransaction \<Rightarrow> uint256" where
  "GetHash SerializeHash tx = SerializeHash (Serialize_CTransaction tx)"

definition GetSerializeSize :: "CTransaction \<Rightarrow> nat" where
  "GetSerializeSize tx = length (Serialize_CTransaction tx)"

definition outpoint_ok :: "COutPoint \<Rightarrow> bool" where
  "outpoint_ok p \<longleftrightarrow> length (outhash p) = 32"

definition txin_ok :: "CTxIn \<Rightarrow> bool" where
  "txin_ok t \<longleftrightarrow> outpoint_ok (prevout t) \<and> length (scriptSig t) \<le> MAX_SIZE"

definition txout_ok :: "CTxOut \<Rightarrow> bool" where
  "txout_ok t \<longleftrightarrow> int64_ok (nValue t) \<and> length (scriptPubKey t) \<le> MAX_SIZE"

definition tx_ok :: "CTransaction \<Rightarrow> bool" where
  "tx_ok tx \<longleftrightarrow> int32_ok (nVersion tx) \<and> length (vin tx) \<le> MAX_SIZE \<and> list_all txin_ok (vin tx) \<and>
     length (vout tx) \<le> MAX_SIZE \<and> list_all txout_ok (vout tx)"

section \<open>Values and sizes\<close>

text \<open>\<^verbatim>\<open>GetValueOut\<close>; \<open>None\<close> is the exception.\<close>

fun value_out_loop :: "CTxOut list \<Rightarrow> CAmount \<Rightarrow> CAmount option" where
  "value_out_loop [] nValueOut = Some nValueOut"
| "value_out_loop (t # ts) nValueOut =
     (let nValueOut = nValueOut + nValue t
      in if \<not> MoneyRange (nValue t) \<or> \<not> MoneyRange nValueOut then None else value_out_loop ts nValueOut)"

definition GetValueOut :: "CTransaction \<Rightarrow> CAmount option" where
  "GetValueOut tx = value_out_loop (vout tx) 0"

definition CalculateModifiedSize :: "CTransaction \<Rightarrow> nat \<Rightarrow> nat" where
  "CalculateModifiedSize tx nTxSize =
     fold (\<lambda>i size. let offset = 41 + min 110 (length (scriptSig i)) in if size > offset then size - offset else size)
       (vin tx) (if nTxSize = 0 then GetSerializeSize tx else nTxSize)"

section \<open>Codecs\<close>

lemmas run_read = readThen_def readReturn_def

interpretation outpoint: strict_codec Serialize_COutPoint Unserialize_COutPoint outpoint_ok
proof unfold_locales
  show "Unserialize_COutPoint (Serialize_COutPoint x @ r) = Inr (x, r)" if "outpoint_ok x" for x r
    using that by (simp add: Unserialize_COutPoint_def Serialize_COutPoint_def outpoint_ok_def run_read u32.read_back)
qed (auto simp: Unserialize_COutPoint_def Serialize_COutPoint_def outpoint_ok_def readThen_Inr_iff read_bytes_Inr_iff
        u32.unser_iff)

interpretation txin: strict_codec Serialize_CTxIn Unserialize_CTxIn txin_ok
proof unfold_locales
  show "Unserialize_CTxIn (Serialize_CTxIn x @ r) = Inr (x, r)" if "txin_ok x" for x r
    using that by (simp add: Unserialize_CTxIn_def Serialize_CTxIn_def txin_ok_def run_read outpoint.read_back
        vbytes.read_back u32.read_back)
qed (auto simp: Unserialize_CTxIn_def Serialize_CTxIn_def txin_ok_def readThen_Inr_iff outpoint.unser_iff
        vbytes.unser_iff u32.unser_iff)

interpretation txout: strict_codec Serialize_CTxOut Unserialize_CTxOut txout_ok
proof unfold_locales
  show "Unserialize_CTxOut (Serialize_CTxOut x @ r) = Inr (x, r)" if "txout_ok x" for x r
    using that by (simp add: Unserialize_CTxOut_def Serialize_CTxOut_def txout_ok_def run_read int64.read_back vbytes.read_back)
qed (auto simp: Unserialize_CTxOut_def Serialize_CTxOut_def txout_ok_def readThen_Inr_iff int64.unser_iff vbytes.unser_iff)

interpretation vins: strict_codec "Serialize_vector Serialize_CTxIn" "Unserialize_vector Unserialize_CTxIn"
  "\<lambda>v. length v \<le> MAX_SIZE \<and> list_all txin_ok v"
  by (rule strict_codec_vector) (rule txin.strict_codec_axioms)

interpretation vouts: strict_codec "Serialize_vector Serialize_CTxOut" "Unserialize_vector Unserialize_CTxOut"
  "\<lambda>v. length v \<le> MAX_SIZE \<and> list_all txout_ok v"
  by (rule strict_codec_vector) (rule txout.strict_codec_axioms)

interpretation tx: strict_codec Serialize_CTransaction Unserialize_CTransaction tx_ok
proof unfold_locales
  show "Unserialize_CTransaction (Serialize_CTransaction x @ r) = Inr (x, r)" if "tx_ok x" for x r
    using that by (simp add: Unserialize_CTransaction_def Serialize_CTransaction_def tx_ok_def run_read int32.read_back
        vins.read_back vouts.read_back u32.read_back)
qed (auto simp: Unserialize_CTransaction_def Serialize_CTransaction_def tx_ok_def readThen_Inr_iff int32.unser_iff
        vins.unser_iff vouts.unser_iff u32.unser_iff)

lemma value_out_loop_Some:
  "value_out_loop ts a = Some v \<Longrightarrow> v = a + (\<Sum>t\<leftarrow>ts. nValue t) \<and> (\<forall>t\<in>set ts. MoneyRange (nValue t)) \<and> (MoneyRange a \<longrightarrow> MoneyRange v)"
proof (induction ts arbitrary: a)
  case (Cons t ts)
  then have m: "MoneyRange (nValue t)" "MoneyRange (a + nValue t)" and l: "value_out_loop ts (a + nValue t) = Some v"
    by (simp_all add: Let_def split: if_split_asm)
  from Cons.IH[OF l] m
  have "v = a + nValue t + (\<Sum>t\<leftarrow>ts. nValue t)" "\<forall>u\<in>set ts. MoneyRange (nValue u)" "MoneyRange v" by blast+
  then show ?case using m(1) by (metis add.assoc list.simps(9) set_ConsD sum_list.Cons)
qed simp

lemma sum_list_nonneg_values: "(\<forall>t\<in>set ts. MoneyRange (nValue t)) \<Longrightarrow> 0 \<le> (\<Sum>t\<leftarrow>ts. nValue t)"
  by (induction ts) (auto simp: MoneyRange_def)

lemma value_out_loop_total:
  assumes "\<forall>t\<in>set ts. MoneyRange (nValue t)" "0 \<le> a" "a + (\<Sum>t\<leftarrow>ts. nValue t) \<le> MAX_MONEY"
  shows "value_out_loop ts a = Some (a + (\<Sum>t\<leftarrow>ts. nValue t))"
  using assms
proof (induction ts arbitrary: a)
  case (Cons t ts)
  have "0 \<le> (\<Sum>t\<leftarrow>ts. nValue t)" by (rule sum_list_nonneg_values) (use Cons.prems(1) in simp)
  then have "MoneyRange (nValue t)" "MoneyRange (a + nValue t)" using Cons.prems by (auto simp: MoneyRange_def)
  then show ?case using Cons.IH[of "a + nValue t"] Cons.prems by (simp add: Let_def MoneyRange_def algebra_simps)
qed simp

section \<open>Properties\<close>

text \<open>Transactions have exactly one encoding: a stream is read as a transaction, with some rest, precisely when it is
  that transaction's serialization followed by the rest and the transaction's fields are in range. So two
  transactions with the same serialization are equal, and no other bytes are ever read as a transaction.\<close>

lemma transaction_codec:
  "Unserialize_CTransaction bs = Inr (t, r) \<longleftrightarrow> tx_ok t \<and> bs = Serialize_CTransaction t @ r"
  by (rule tx.unser_iff)

end
