(* ===== verification/Interpreter.thy ===== *)
theory Interpreter
  imports Script "HOL-Library.Sublist"
begin

text \<open>
  The script interpreter of \<^verbatim>\<open>script/interpreter.cpp\<close>: \<^verbatim>\<open>EvalScript\<close> with every opcode, and \<^verbatim>\<open>VerifyScript\<close>.
  The main stack and the alternative stack are lists with their top first, \<^verbatim>\<open>vfExec\<close> is a list with its back
  first. The virtual methods of \<^verbatim>\<open>BaseSignatureChecker\<close>, the check of \<^verbatim>\<open>CPubKey::CheckLowS\<close> and the hash functions
  are the fields of \<open>script_env\<close>, over which every theorem is universally quantified. \<open>Inl\<close> is \<^verbatim>\<open>set_error\<close>; the
  exceptions of \<^verbatim>\<open>CScriptNum\<close> end, as in the code, in \<^verbatim>\<open>SCRIPT_ERR_UNKNOWN_ERROR\<close>.
\<close>

section \<open>Errors, flags, environment\<close>

datatype ScriptError =
    SCRIPT_ERR_OK | SCRIPT_ERR_UNKNOWN_ERROR | SCRIPT_ERR_EVAL_FALSE | SCRIPT_ERR_OP_RETURN
  | SCRIPT_ERR_SCRIPT_SIZE | SCRIPT_ERR_PUSH_SIZE | SCRIPT_ERR_OP_COUNT | SCRIPT_ERR_STACK_SIZE
  | SCRIPT_ERR_SIG_COUNT | SCRIPT_ERR_PUBKEY_COUNT
  | SCRIPT_ERR_VERIFY | SCRIPT_ERR_EQUALVERIFY | SCRIPT_ERR_CHECKMULTISIGVERIFY | SCRIPT_ERR_CHECKSIGVERIFY
  | SCRIPT_ERR_NUMEQUALVERIFY
  | SCRIPT_ERR_BAD_OPCODE | SCRIPT_ERR_DISABLED_OPCODE | SCRIPT_ERR_INVALID_STACK_OPERATION
  | SCRIPT_ERR_INVALID_ALTSTACK_OPERATION | SCRIPT_ERR_UNBALANCED_CONDITIONAL
  | SCRIPT_ERR_NEGATIVE_LOCKTIME | SCRIPT_ERR_UNSATISFIED_LOCKTIME
  | SCRIPT_ERR_SIG_HASHTYPE | SCRIPT_ERR_SIG_DER | SCRIPT_ERR_MINIMALDATA | SCRIPT_ERR_SIG_PUSHONLY
  | SCRIPT_ERR_SIG_HIGH_S | SCRIPT_ERR_SIG_NULLDUMMY | SCRIPT_ERR_PUBKEYTYPE | SCRIPT_ERR_CLEANSTACK
  | SCRIPT_ERR_DISCOURAGE_UPGRADABLE_NOPS

definition SIGHASH_ALL :: byte where "SIGHASH_ALL = 1"
definition SIGHASH_NONE :: byte where "SIGHASH_NONE = 2"
definition SIGHASH_SINGLE :: byte where "SIGHASH_SINGLE = 3"
definition SIGHASH_ANYONECANPAY :: byte where "SIGHASH_ANYONECANPAY = 0x80"

definition SCRIPT_VERIFY_NONE :: u32 where "SCRIPT_VERIFY_NONE = 0"
definition SCRIPT_VERIFY_P2SH :: u32 where "SCRIPT_VERIFY_P2SH = push_bit 0 1"
definition SCRIPT_VERIFY_STRICTENC :: u32 where "SCRIPT_VERIFY_STRICTENC = push_bit 1 1"
definition SCRIPT_VERIFY_DERSIG :: u32 where "SCRIPT_VERIFY_DERSIG = push_bit 2 1"
definition SCRIPT_VERIFY_LOW_S :: u32 where "SCRIPT_VERIFY_LOW_S = push_bit 3 1"
definition SCRIPT_VERIFY_NULLDUMMY :: u32 where "SCRIPT_VERIFY_NULLDUMMY = push_bit 4 1"
definition SCRIPT_VERIFY_SIGPUSHONLY :: u32 where "SCRIPT_VERIFY_SIGPUSHONLY = push_bit 5 1"
definition SCRIPT_VERIFY_MINIMALDATA :: u32 where "SCRIPT_VERIFY_MINIMALDATA = push_bit 6 1"
definition SCRIPT_VERIFY_DISCOURAGE_UPGRADABLE_NOPS :: u32 where
  "SCRIPT_VERIFY_DISCOURAGE_UPGRADABLE_NOPS = push_bit 7 1"
definition SCRIPT_VERIFY_CLEANSTACK :: u32 where "SCRIPT_VERIFY_CLEANSTACK = push_bit 8 1"
definition SCRIPT_VERIFY_CHECKLOCKTIMEVERIFY :: u32 where "SCRIPT_VERIFY_CHECKLOCKTIMEVERIFY = push_bit 9 1"
definition SCRIPT_VERIFY_CHECKSEQUENCEVERIFY :: u32 where "SCRIPT_VERIFY_CHECKSEQUENCEVERIFY = push_bit 10 1"

definition has_flag :: "u32 \<Rightarrow> u32 \<Rightarrow> bool" where
  "has_flag flags f \<longleftrightarrow> flags AND f \<noteq> 0"

text \<open>\<^verbatim>\<open>BaseSignatureChecker\<close> and the primitives the interpreter calls\<close>

record script_env =
  CheckSig :: "valtype \<Rightarrow> valtype \<Rightarrow> CScript \<Rightarrow> bool"
  CheckLockTime :: "int \<Rightarrow> bool"
  CheckSequence :: "int \<Rightarrow> bool"
  CheckLowS :: "valtype \<Rightarrow> bool"
  RIPEMD160 :: "valtype \<Rightarrow> valtype"
  SHA1 :: "valtype \<Rightarrow> valtype"
  SHA256 :: "valtype \<Rightarrow> valtype"
  Hash160 :: "valtype \<Rightarrow> valtype"
  Hash256 :: "valtype \<Rightarrow> valtype"

section \<open>Encodings\<close>

text \<open>\<^verbatim>\<open>CastToBool\<close>: true at the first non-zero byte, unless that is a final \<^verbatim>\<open>0x80\<close>.\<close>

fun CastToBool :: "valtype \<Rightarrow> bool" where
  "CastToBool [] = False"
| "CastToBool (b # bs) = (if b \<noteq> 0 then (if bs = [] \<and> b = 0x80 then False else True) else CastToBool bs)"

definition vchFalse :: valtype where "vchFalse = []"
definition vchTrue :: valtype where "vchTrue = [1]"

definition vch_bool :: "bool \<Rightarrow> valtype" where
  "vch_bool b = (if b then vchTrue else vchFalse)"

definition IsCompressedOrUncompressedPubKey :: "valtype \<Rightarrow> bool" where
  "IsCompressedOrUncompressedPubKey vchPubKey =
     (if length vchPubKey < 33 then False
      else if vchPubKey ! 0 = 0x04 then length vchPubKey = 65
      else if vchPubKey ! 0 = 0x02 \<or> vchPubKey ! 0 = 0x03 then length vchPubKey = 33
      else False)"

definition IsValidSignatureEncoding :: "valtype \<Rightarrow> bool" where
  "IsValidSignatureEncoding sig =
     (if length sig < 9 then False
      else if length sig > 73 then False
      else if sig ! 0 \<noteq> 0x30 then False
      else if unat (sig ! 1) \<noteq> length sig - 3 then False
      else let lenR = unat (sig ! 3) in
        if 5 + lenR \<ge> length sig then False
        else let lenS = unat (sig ! (5 + lenR)) in
          if lenR + lenS + 7 \<noteq> length sig then False
          else if sig ! 2 \<noteq> 0x02 then False
          else if lenR = 0 then False
          else if sig ! 4 AND 0x80 \<noteq> 0 then False
          else if lenR > 1 \<and> sig ! 4 = 0 \<and> sig ! 5 AND 0x80 = 0 then False
          else if sig ! (lenR + 4) \<noteq> 0x02 then False
          else if lenS = 0 then False
          else if sig ! (lenR + 6) AND 0x80 \<noteq> 0 then False
          else if lenS > 1 \<and> sig ! (lenR + 6) = 0 \<and> sig ! (lenR + 7) AND 0x80 = 0 then False
          else True)"

definition IsLowDERSignature :: "script_env \<Rightarrow> valtype \<Rightarrow> ScriptError + unit" where
  "IsLowDERSignature env vchSig =
     (if \<not> IsValidSignatureEncoding vchSig then Inl SCRIPT_ERR_SIG_DER
      else if \<not> CheckLowS env (butlast vchSig) then Inl SCRIPT_ERR_SIG_HIGH_S
      else Inr ())"

definition IsDefinedHashtypeSignature :: "valtype \<Rightarrow> bool" where
  "IsDefinedHashtypeSignature vchSig =
     (if vchSig = [] then False
      else let nHashType = last vchSig AND NOT SIGHASH_ANYONECANPAY
           in \<not> (nHashType < SIGHASH_ALL \<or> nHashType > SIGHASH_SINGLE))"

definition CheckSignatureEncoding :: "script_env \<Rightarrow> valtype \<Rightarrow> u32 \<Rightarrow> ScriptError + unit" where
  "CheckSignatureEncoding env vchSig flags =
     (if vchSig = [] then Inr ()
      else if has_flag flags (SCRIPT_VERIFY_DERSIG OR SCRIPT_VERIFY_LOW_S OR SCRIPT_VERIFY_STRICTENC) \<and>
              \<not> IsValidSignatureEncoding vchSig then Inl SCRIPT_ERR_SIG_DER
      else if has_flag flags SCRIPT_VERIFY_LOW_S \<and> isl (IsLowDERSignature env vchSig)
           then IsLowDERSignature env vchSig
      else if has_flag flags SCRIPT_VERIFY_STRICTENC \<and> \<not> IsDefinedHashtypeSignature vchSig
           then Inl SCRIPT_ERR_SIG_HASHTYPE
      else Inr ())"

definition CheckPubKeyEncoding :: "valtype \<Rightarrow> u32 \<Rightarrow> ScriptError + unit" where
  "CheckPubKeyEncoding vchSig flags =
     (if has_flag flags SCRIPT_VERIFY_STRICTENC \<and> \<not> IsCompressedOrUncompressedPubKey vchSig
      then Inl SCRIPT_ERR_PUBKEYTYPE else Inr ())"

definition CheckMinimalPush :: "valtype \<Rightarrow> byte \<Rightarrow> bool" where
  "CheckMinimalPush data opcode =
     (if length data = 0 then opcode = OP_0
      else if length data = 1 \<and> data ! 0 \<ge> 1 \<and> data ! 0 \<le> 16 then
        unat opcode = unat OP_1 + (unat (data ! 0) - 1)
      else if length data = 1 \<and> data ! 0 = 0x81 then opcode = OP_1NEGATE
      else if length data \<le> 75 then unat opcode = length data
      else if length data \<le> 255 then opcode = OP_PUSHDATA1
      else if length data \<le> 65535 then opcode = OP_PUSHDATA2
      else True)"

section \<open>The machine\<close>

record exec_state =
  stack :: "valtype list"
  altstack :: "valtype list"
  vfExec :: "bool list"
  pbegincodehash :: CScript
  nOpCount :: nat

text \<open>\<^verbatim>\<open>CScriptNum(stacktop(-i), fRequireMinimal, n)\<close> inside the \<^verbatim>\<open>try\<close> block\<close>

definition scriptnum :: "u32 \<Rightarrow> valtype \<Rightarrow> nat \<Rightarrow> ScriptError + int" where
  "scriptnum flags vch n =
     (case CScriptNum vch (has_flag flags SCRIPT_VERIFY_MINIMALDATA) n of
        Inl _ \<Rightarrow> Inl SCRIPT_ERR_UNKNOWN_ERROR | Inr v \<Rightarrow> Inr v)"

definition SEQUENCE_LOCKTIME_DISABLE_FLAG :: int where "SEQUENCE_LOCKTIME_DISABLE_FLAG = 2 ^ 31"

definition op_checklocktimeverify :: "script_env \<Rightarrow> u32 \<Rightarrow> valtype list \<Rightarrow> ScriptError + unit" where
  "op_checklocktimeverify env flags st =
     (if \<not> has_flag flags SCRIPT_VERIFY_CHECKLOCKTIMEVERIFY then
        guardE (\<not> has_flag flags SCRIPT_VERIFY_DISCOURAGE_UPGRADABLE_NOPS) SCRIPT_ERR_DISCOURAGE_UPGRADABLE_NOPS
      else case st of
        [] \<Rightarrow> Inl SCRIPT_ERR_INVALID_STACK_OPERATION
      | vch # _ \<Rightarrow>
          andThen (scriptnum flags vch 5) (\<lambda>nLockTime.
          if nLockTime < 0 then Inl SCRIPT_ERR_NEGATIVE_LOCKTIME
          else guardE (CheckLockTime env nLockTime) SCRIPT_ERR_UNSATISFIED_LOCKTIME))"

definition op_checksequenceverify :: "script_env \<Rightarrow> u32 \<Rightarrow> valtype list \<Rightarrow> ScriptError + unit" where
  "op_checksequenceverify env flags st =
     (if \<not> has_flag flags SCRIPT_VERIFY_CHECKSEQUENCEVERIFY then
        guardE (\<not> has_flag flags SCRIPT_VERIFY_DISCOURAGE_UPGRADABLE_NOPS) SCRIPT_ERR_DISCOURAGE_UPGRADABLE_NOPS
      else case st of
        [] \<Rightarrow> Inl SCRIPT_ERR_INVALID_STACK_OPERATION
      | vch # _ \<Rightarrow>
          andThen (scriptnum flags vch 5) (\<lambda>nSequence.
          if nSequence < 0 then Inl SCRIPT_ERR_NEGATIVE_LOCKTIME
          else if nSequence AND SEQUENCE_LOCKTIME_DISABLE_FLAG \<noteq> 0 then Inr ()
          else guardE (CheckSequence env nSequence) SCRIPT_ERR_UNSATISFIED_LOCKTIME))"

text \<open>The stack opcodes, as functions of the stack.\<close>

definition op_stack :: "byte \<Rightarrow> valtype list \<Rightarrow> ScriptError + valtype list" where
  "op_stack opcode st =
     (let bad = Inl SCRIPT_ERR_INVALID_STACK_OPERATION in
      if opcode = OP_2DROP then (case st of x2 # x1 # r \<Rightarrow> Inr r | _ \<Rightarrow> bad)
      else if opcode = OP_2DUP then (case st of x2 # x1 # r \<Rightarrow> Inr (x2 # x1 # x2 # x1 # r) | _ \<Rightarrow> bad)
      else if opcode = OP_3DUP then
        (case st of x3 # x2 # x1 # r \<Rightarrow> Inr (x3 # x2 # x1 # x3 # x2 # x1 # r) | _ \<Rightarrow> bad)
      else if opcode = OP_2OVER then
        (case st of x4 # x3 # x2 # x1 # r \<Rightarrow> Inr (x2 # x1 # x4 # x3 # x2 # x1 # r) | _ \<Rightarrow> bad)
      else if opcode = OP_2ROT then
        (case st of x6 # x5 # x4 # x3 # x2 # x1 # r \<Rightarrow> Inr (x2 # x1 # x6 # x5 # x4 # x3 # r) | _ \<Rightarrow> bad)
      else if opcode = OP_2SWAP then
        (case st of x4 # x3 # x2 # x1 # r \<Rightarrow> Inr (x2 # x1 # x4 # x3 # r) | _ \<Rightarrow> bad)
      else if opcode = OP_IFDUP then
        (case st of x # r \<Rightarrow> Inr (if CastToBool x then x # x # r else x # r) | _ \<Rightarrow> bad)
      else if opcode = OP_DEPTH then Inr (CScriptNum_serialize (int (length st)) # st)
      else if opcode = OP_DROP then (case st of x # r \<Rightarrow> Inr r | _ \<Rightarrow> bad)
      else if opcode = OP_DUP then (case st of x # r \<Rightarrow> Inr (x # x # r) | _ \<Rightarrow> bad)
      else if opcode = OP_NIP then (case st of x2 # x1 # r \<Rightarrow> Inr (x2 # r) | _ \<Rightarrow> bad)
      else if opcode = OP_OVER then (case st of x2 # x1 # r \<Rightarrow> Inr (x1 # x2 # x1 # r) | _ \<Rightarrow> bad)
      else if opcode = OP_ROT then (case st of x3 # x2 # x1 # r \<Rightarrow> Inr (x1 # x3 # x2 # r) | _ \<Rightarrow> bad)
      else if opcode = OP_SWAP then (case st of x2 # x1 # r \<Rightarrow> Inr (x1 # x2 # r) | _ \<Rightarrow> bad)
      else if opcode = OP_TUCK then (case st of x2 # x1 # r \<Rightarrow> Inr (x2 # x1 # x2 # r) | _ \<Rightarrow> bad)
      else (case st of x # r \<Rightarrow> Inr (CScriptNum_serialize (int (length x)) # x # r) | _ \<Rightarrow> bad))"

definition stack_opcodes :: "byte list" where
  "stack_opcodes = [OP_2DROP, OP_2DUP, OP_3DUP, OP_2OVER, OP_2ROT, OP_2SWAP, OP_IFDUP, OP_DEPTH, OP_DROP,
     OP_DUP, OP_NIP, OP_OVER, OP_ROT, OP_SWAP, OP_TUCK, OP_SIZE]"

definition op_pick_roll :: "u32 \<Rightarrow> byte \<Rightarrow> valtype list \<Rightarrow> ScriptError + valtype list" where
  "op_pick_roll flags opcode st =
     (if length st < 2 then Inl SCRIPT_ERR_INVALID_STACK_OPERATION
      else andThen (scriptnum flags (hd st) nDefaultMaxNumSize) (\<lambda>m.
        let n = getint m; st1 = tl st in
        if n < 0 \<or> n \<ge> int (length st1) then Inl SCRIPT_ERR_INVALID_STACK_OPERATION
        else let vch = st1 ! nat n;
                 st2 = (if opcode = OP_ROLL then take (nat n) st1 @ drop (Suc (nat n)) st1 else st1)
             in Inr (vch # st2)))"

definition op_equal :: "byte \<Rightarrow> valtype list \<Rightarrow> ScriptError + valtype list" where
  "op_equal opcode st =
     (case st of
        vch2 # vch1 # r \<Rightarrow>
          let fEqual = (vch1 = vch2) in
          if opcode = OP_EQUALVERIFY then (if fEqual then Inr r else Inl SCRIPT_ERR_EQUALVERIFY)
          else Inr (vch_bool fEqual # r)
      | _ \<Rightarrow> Inl SCRIPT_ERR_INVALID_STACK_OPERATION)"

definition int_of_bool :: "bool \<Rightarrow> int" where
  "int_of_bool b = (if b then 1 else 0)"

definition unary_num :: "byte \<Rightarrow> int \<Rightarrow> int" where
  "unary_num opcode bn =
     (if opcode = OP_1ADD then bn + 1
      else if opcode = OP_1SUB then bn - 1
      else if opcode = OP_NEGATE then - bn
      else if opcode = OP_ABS then (if bn < 0 then - bn else bn)
      else if opcode = OP_NOT then int_of_bool (bn = 0)
      else int_of_bool (bn \<noteq> 0))"

definition unary_opcodes :: "byte list" where
  "unary_opcodes = [OP_1ADD, OP_1SUB, OP_NEGATE, OP_ABS, OP_NOT, OP_0NOTEQUAL]"

definition op_unary :: "u32 \<Rightarrow> byte \<Rightarrow> valtype list \<Rightarrow> ScriptError + valtype list" where
  "op_unary flags opcode st =
     (case st of
        x # r \<Rightarrow> andThen (scriptnum flags x nDefaultMaxNumSize) (\<lambda>bn.
                   Inr (CScriptNum_serialize (unary_num opcode bn) # r))
      | [] \<Rightarrow> Inl SCRIPT_ERR_INVALID_STACK_OPERATION)"

definition binary_num :: "byte \<Rightarrow> int \<Rightarrow> int \<Rightarrow> int" where
  "binary_num opcode bn1 bn2 =
     (if opcode = OP_ADD then bn1 + bn2
      else if opcode = OP_SUB then bn1 - bn2
      else if opcode = OP_BOOLAND then int_of_bool (bn1 \<noteq> 0 \<and> bn2 \<noteq> 0)
      else if opcode = OP_BOOLOR then int_of_bool (bn1 \<noteq> 0 \<or> bn2 \<noteq> 0)
      else if opcode = OP_NUMEQUAL then int_of_bool (bn1 = bn2)
      else if opcode = OP_NUMEQUALVERIFY then int_of_bool (bn1 = bn2)
      else if opcode = OP_NUMNOTEQUAL then int_of_bool (bn1 \<noteq> bn2)
      else if opcode = OP_LESSTHAN then int_of_bool (bn1 < bn2)
      else if opcode = OP_GREATERTHAN then int_of_bool (bn1 > bn2)
      else if opcode = OP_LESSTHANOREQUAL then int_of_bool (bn1 \<le> bn2)
      else if opcode = OP_GREATERTHANOREQUAL then int_of_bool (bn1 \<ge> bn2)
      else if opcode = OP_MIN then (if bn1 < bn2 then bn1 else bn2)
      else (if bn1 > bn2 then bn1 else bn2))"

definition binary_opcodes :: "byte list" where
  "binary_opcodes = [OP_ADD, OP_SUB, OP_BOOLAND, OP_BOOLOR, OP_NUMEQUAL, OP_NUMEQUALVERIFY, OP_NUMNOTEQUAL,
     OP_LESSTHAN, OP_GREATERTHAN, OP_LESSTHANOREQUAL, OP_GREATERTHANOREQUAL, OP_MIN, OP_MAX]"

definition op_binary :: "u32 \<Rightarrow> byte \<Rightarrow> valtype list \<Rightarrow> ScriptError + valtype list" where
  "op_binary flags opcode st =
     (case st of
        x2 # x1 # r \<Rightarrow>
          andThen (scriptnum flags x1 nDefaultMaxNumSize) (\<lambda>bn1.
          andThen (scriptnum flags x2 nDefaultMaxNumSize) (\<lambda>bn2.
          let res = CScriptNum_serialize (binary_num opcode bn1 bn2) in
          if opcode = OP_NUMEQUALVERIFY then
            (if CastToBool res then Inr r else Inl SCRIPT_ERR_NUMEQUALVERIFY)
          else Inr (res # r)))
      | _ \<Rightarrow> Inl SCRIPT_ERR_INVALID_STACK_OPERATION)"

definition op_within :: "u32 \<Rightarrow> valtype list \<Rightarrow> ScriptError + valtype list" where
  "op_within flags st =
     (case st of
        x3 # x2 # x1 # r \<Rightarrow>
          andThen (scriptnum flags x1 nDefaultMaxNumSize) (\<lambda>bn1.
          andThen (scriptnum flags x2 nDefaultMaxNumSize) (\<lambda>bn2.
          andThen (scriptnum flags x3 nDefaultMaxNumSize) (\<lambda>bn3.
          Inr (vch_bool (bn2 \<le> bn1 \<and> bn1 < bn3) # r))))
      | _ \<Rightarrow> Inl SCRIPT_ERR_INVALID_STACK_OPERATION)"

definition hash_opcodes :: "byte list" where
  "hash_opcodes = [OP_RIPEMD160, OP_SHA1, OP_SHA256, OP_HASH160, OP_HASH256]"

definition op_hash :: "script_env \<Rightarrow> byte \<Rightarrow> valtype list \<Rightarrow> ScriptError + valtype list" where
  "op_hash env opcode st =
     (case st of
        x # r \<Rightarrow> Inr ((if opcode = OP_RIPEMD160 then RIPEMD160 env x
                       else if opcode = OP_SHA1 then SHA1 env x
                       else if opcode = OP_SHA256 then SHA256 env x
                       else if opcode = OP_HASH160 then Hash160 env x
                       else Hash256 env x) # r)
      | [] \<Rightarrow> Inl SCRIPT_ERR_INVALID_STACK_OPERATION)"


text \<open>\<^verbatim>\<open>OP_1NEGATE\<close>, \<^verbatim>\<open>OP_1\<close> to \<^verbatim>\<open>OP_16\<close>\<close>

definition op_push_number :: "byte \<Rightarrow> valtype list \<Rightarrow> valtype list" where
  "op_push_number opcode st = CScriptNum_serialize (int (unat opcode) - (int (unat OP_1) - 1)) # st"

definition upgradable_nops :: "byte list" where
  "upgradable_nops = [OP_NOP1, OP_NOP4, OP_NOP5, OP_NOP6, OP_NOP7, OP_NOP8, OP_NOP9, OP_NOP10]"

definition op_if :: "byte \<Rightarrow> bool \<Rightarrow> exec_state \<Rightarrow> ScriptError + exec_state" where
  "op_if opcode fExec s =
     (if fExec then
        (case stack s of
           [] \<Rightarrow> Inl SCRIPT_ERR_UNBALANCED_CONDITIONAL
         | vch # r \<Rightarrow>
             let fValue = (if opcode = OP_NOTIF then \<not> CastToBool vch else CastToBool vch)
             in Inr (s\<lparr>stack := r, vfExec := fValue # vfExec s\<rparr>))
      else Inr (s\<lparr>vfExec := False # vfExec s\<rparr>))"

definition op_else :: "exec_state \<Rightarrow> ScriptError + exec_state" where
  "op_else s = (case vfExec s of [] \<Rightarrow> Inl SCRIPT_ERR_UNBALANCED_CONDITIONAL
                 | b # r \<Rightarrow> Inr (s\<lparr>vfExec := (\<not> b) # r\<rparr>))"

definition op_endif :: "exec_state \<Rightarrow> ScriptError + exec_state" where
  "op_endif s = (case vfExec s of [] \<Rightarrow> Inl SCRIPT_ERR_UNBALANCED_CONDITIONAL
                  | b # r \<Rightarrow> Inr (s\<lparr>vfExec := r\<rparr>))"

definition op_verify :: "valtype list \<Rightarrow> ScriptError + valtype list" where
  "op_verify st = (case st of
      [] \<Rightarrow> Inl SCRIPT_ERR_INVALID_STACK_OPERATION
    | vch # r \<Rightarrow> if CastToBool vch then Inr r else Inl SCRIPT_ERR_VERIFY)"

definition op_toaltstack :: "exec_state \<Rightarrow> ScriptError + exec_state" where
  "op_toaltstack s = (case stack s of
      [] \<Rightarrow> Inl SCRIPT_ERR_INVALID_STACK_OPERATION
    | vch # r \<Rightarrow> Inr (s\<lparr>stack := r, altstack := vch # altstack s\<rparr>))"

definition op_fromaltstack :: "exec_state \<Rightarrow> ScriptError + exec_state" where
  "op_fromaltstack s = (case altstack s of
      [] \<Rightarrow> Inl SCRIPT_ERR_INVALID_ALTSTACK_OPERATION
    | vch # r \<Rightarrow> Inr (s\<lparr>stack := vch # stack s, altstack := r\<rparr>))"

text \<open>\<^verbatim>\<open>OP_CHECKSIG\<close> and \<^verbatim>\<open>OP_CHECKSIGVERIFY\<close>; \<open>CScript(vchSig)\<close> is the script that pushes the signature.\<close>

definition op_checksig :: "script_env \<Rightarrow> u32 \<Rightarrow> byte \<Rightarrow> CScript \<Rightarrow> valtype list \<Rightarrow> ScriptError + valtype list" where
  "op_checksig env flags opcode code st =
     (case st of
        vchPubKey # vchSig # r \<Rightarrow>
          let scriptCode = fst (FindAndDelete code (push_data vchSig)) in
          andThen (CheckSignatureEncoding env vchSig flags) (\<lambda>_.
          andThen (CheckPubKeyEncoding vchPubKey flags) (\<lambda>_.
          let fSuccess = CheckSig env vchSig vchPubKey scriptCode in
          if opcode = OP_CHECKSIGVERIFY then
            (if fSuccess then Inr r else Inl SCRIPT_ERR_CHECKSIGVERIFY)
          else Inr (vch_bool fSuccess # r)))
      | _ \<Rightarrow> Inl SCRIPT_ERR_INVALID_STACK_OPERATION)"

text \<open>The loop of \<^verbatim>\<open>OP_CHECKMULTISIG\<close> over the signatures and keys still to be matched. The case of a signature
  without a key is not reached: the loop stops as soon as fewer keys than signatures are left.\<close>

fun multisig_loop :: "script_env \<Rightarrow> u32 \<Rightarrow> CScript \<Rightarrow> valtype list \<Rightarrow> valtype list \<Rightarrow> ScriptError + bool" where
  "multisig_loop env flags scriptCode [] keys = Inr True"
| "multisig_loop env flags scriptCode (vchSig # sigs) [] = Inr False"
| "multisig_loop env flags scriptCode (vchSig # sigs) (vchPubKey # keys) =
     andThen (CheckSignatureEncoding env vchSig flags) (\<lambda>_.
     andThen (CheckPubKeyEncoding vchPubKey flags) (\<lambda>_.
     let sigs1 = (if CheckSig env vchSig vchPubKey scriptCode then sigs else vchSig # sigs) in
     if length sigs1 > length keys then Inr False
     else multisig_loop env flags scriptCode sigs1 keys))"

definition multisig_code :: "CScript \<Rightarrow> valtype list \<Rightarrow> CScript" where
  "multisig_code code sigs = fold (\<lambda>vchSig c. fst (FindAndDelete c (push_data vchSig))) sigs code"

text \<open>The end of \<^verbatim>\<open>OP_CHECKMULTISIG\<close>, on the stack without the arguments: the extra element and the result.\<close>

definition multisig_result :: "u32 \<Rightarrow> byte \<Rightarrow> bool \<Rightarrow> valtype list \<Rightarrow> ScriptError + valtype list" where
  "multisig_result flags opcode fSuccess st =
     (case st of
        [] \<Rightarrow> Inl SCRIPT_ERR_INVALID_STACK_OPERATION
      | dummy # r \<Rightarrow>
          if has_flag flags SCRIPT_VERIFY_NULLDUMMY \<and> length dummy \<noteq> 0 then Inl SCRIPT_ERR_SIG_NULLDUMMY
          else if opcode = OP_CHECKMULTISIGVERIFY then
            (if fSuccess then Inr r else Inl SCRIPT_ERR_CHECKMULTISIGVERIFY)
          else Inr (vch_bool fSuccess # r))"

definition op_checkmultisig :: "script_env \<Rightarrow> u32 \<Rightarrow> byte \<Rightarrow> exec_state \<Rightarrow> ScriptError + exec_state" where
  "op_checkmultisig env flags opcode s =
     (let st = stack s in
      if length st < 1 then Inl SCRIPT_ERR_INVALID_STACK_OPERATION
      else andThen (scriptnum flags (st ! 0) nDefaultMaxNumSize) (\<lambda>k.
      if getint k < 0 \<or> getint k > int MAX_PUBKEYS_PER_MULTISIG then Inl SCRIPT_ERR_PUBKEY_COUNT
      else let nKeys = nat (getint k); ops = nOpCount s + nKeys in
      if ops > MAX_OPS_PER_SCRIPT then Inl SCRIPT_ERR_OP_COUNT
      else if length st < 2 + nKeys then Inl SCRIPT_ERR_INVALID_STACK_OPERATION
      else andThen (scriptnum flags (st ! (1 + nKeys)) nDefaultMaxNumSize) (\<lambda>m.
      if getint m < 0 \<or> getint m > int nKeys then Inl SCRIPT_ERR_SIG_COUNT
      else let nSigs = nat (getint m) in
      if length st < 3 + nKeys + nSigs then Inl SCRIPT_ERR_INVALID_STACK_OPERATION
      else
        let keys = take nKeys (drop 1 st);
            sigs = take nSigs (drop (2 + nKeys) st);
            scriptCode = multisig_code (pbegincodehash s) sigs
        in andThen (multisig_loop env flags scriptCode sigs keys) (\<lambda>fSuccess.
           andThen (multisig_result flags opcode fSuccess (drop (2 + nKeys + nSigs) st)) (\<lambda>st'.
           Inr (s\<lparr>stack := st', nOpCount := ops\<rparr>))))))"

definition disabled_opcodes :: "byte list" where
  "disabled_opcodes = [OP_CAT, OP_SUBSTR, OP_LEFT, OP_RIGHT, OP_INVERT, OP_AND, OP_OR, OP_XOR, OP_2MUL, OP_2DIV,
     OP_MUL, OP_DIV, OP_MOD, OP_LSHIFT, OP_RSHIFT]"

text \<open>An operation on the main stack only.\<close>

definition on_stack :: "exec_state \<Rightarrow> (ScriptError + valtype list) \<Rightarrow> ScriptError + exec_state" where
  "on_stack s r = andThen r (\<lambda>st. Inr (s\<lparr>stack := st\<rparr>))"

text \<open>The \<^verbatim>\<open>switch\<close> of \<^verbatim>\<open>EvalScript\<close>; \<open>pc\<close> is the iterator after the instruction.\<close>

definition exec_switch :: "script_env \<Rightarrow> u32 \<Rightarrow> byte \<Rightarrow> bool \<Rightarrow> CScript \<Rightarrow> exec_state \<Rightarrow> ScriptError + exec_state" where
  "exec_switch env flags opcode fExec pc s =
     (if opcode = OP_1NEGATE \<or> (OP_1 \<le> opcode \<and> opcode \<le> OP_16) then Inr (s\<lparr>stack := op_push_number opcode (stack s)\<rparr>)
      else if opcode = OP_NOP then Inr s
      else if opcode = OP_CHECKLOCKTIMEVERIFY then andThen (op_checklocktimeverify env flags (stack s)) (\<lambda>_. Inr s)
      else if opcode = OP_CHECKSEQUENCEVERIFY then andThen (op_checksequenceverify env flags (stack s)) (\<lambda>_. Inr s)
      else if opcode \<in> set upgradable_nops then
        (if has_flag flags SCRIPT_VERIFY_DISCOURAGE_UPGRADABLE_NOPS then Inl SCRIPT_ERR_DISCOURAGE_UPGRADABLE_NOPS
         else Inr s)
      else if opcode = OP_IF \<or> opcode = OP_NOTIF then op_if opcode fExec s
      else if opcode = OP_ELSE then op_else s
      else if opcode = OP_ENDIF then op_endif s
      else if opcode = OP_VERIFY then on_stack s (op_verify (stack s))
      else if opcode = OP_RETURN then Inl SCRIPT_ERR_OP_RETURN
      else if opcode = OP_TOALTSTACK then op_toaltstack s
      else if opcode = OP_FROMALTSTACK then op_fromaltstack s
      else if opcode \<in> set stack_opcodes then on_stack s (op_stack opcode (stack s))
      else if opcode = OP_PICK \<or> opcode = OP_ROLL then on_stack s (op_pick_roll flags opcode (stack s))
      else if opcode = OP_EQUAL \<or> opcode = OP_EQUALVERIFY then on_stack s (op_equal opcode (stack s))
      else if opcode \<in> set unary_opcodes then on_stack s (op_unary flags opcode (stack s))
      else if opcode \<in> set binary_opcodes then on_stack s (op_binary flags opcode (stack s))
      else if opcode = OP_WITHIN then on_stack s (op_within flags (stack s))
      else if opcode \<in> set hash_opcodes then on_stack s (op_hash env opcode (stack s))
      else if opcode = OP_CODESEPARATOR then Inr (s\<lparr>pbegincodehash := pc\<rparr>)
      else if opcode = OP_CHECKSIG \<or> opcode = OP_CHECKSIGVERIFY then
        on_stack s (op_checksig env flags opcode (pbegincodehash s) (stack s))
      else if opcode = OP_CHECKMULTISIG \<or> opcode = OP_CHECKMULTISIGVERIFY then op_checkmultisig env flags opcode s
      else Inl SCRIPT_ERR_BAD_OPCODE)"

text \<open>One turn of the loop, for an instruction that has been read.\<close>

definition eval_step :: "script_env \<Rightarrow> u32 \<Rightarrow> byte \<Rightarrow> valtype \<Rightarrow> CScript \<Rightarrow> exec_state \<Rightarrow> ScriptError + exec_state" where
  "eval_step env flags opcode vchPushValue pc s =
     (let fExec = (False \<notin> set (vfExec s));
          s1 = (if opcode > OP_16 then s\<lparr>nOpCount := nOpCount s + 1\<rparr> else s) in
      if length vchPushValue > MAX_SCRIPT_PUSH_SIZE then Inl SCRIPT_ERR_PUSH_SIZE
      else if opcode > OP_16 \<and> nOpCount s1 > MAX_OPS_PER_SCRIPT then Inl SCRIPT_ERR_OP_COUNT
      else if opcode \<in> set disabled_opcodes then Inl SCRIPT_ERR_DISABLED_OPCODE
      else andThen
        (if fExec \<and> opcode \<le> OP_PUSHDATA4 then
           (if has_flag flags SCRIPT_VERIFY_MINIMALDATA \<and> \<not> CheckMinimalPush vchPushValue opcode
            then Inl SCRIPT_ERR_MINIMALDATA
            else Inr (s1\<lparr>stack := vchPushValue # stack s1\<rparr>))
         else if fExec \<or> (OP_IF \<le> opcode \<and> opcode \<le> OP_ENDIF) then exec_switch env flags opcode fExec pc s1
         else Inr s1)
        (\<lambda>s2. if length (stack s2) + length (altstack s2) > 1000 then Inl SCRIPT_ERR_STACK_SIZE else Inr s2))"

function eval_loop :: "script_env \<Rightarrow> u32 \<Rightarrow> CScript \<Rightarrow> exec_state \<Rightarrow> ScriptError + exec_state" where
  "eval_loop env flags pc s =
     (if pc = [] then Inr s
      else case GetOp pc of
        None \<Rightarrow> Inl SCRIPT_ERR_BAD_OPCODE
      | Some (opcode, vchPushValue, pc') \<Rightarrow>
          (case eval_step env flags opcode vchPushValue pc' s of
             Inl e \<Rightarrow> Inl e
           | Inr s' \<Rightarrow> eval_loop env flags pc' s'))"
  by pat_completeness auto
termination
  by (relation "measure (\<lambda>(env, flags, pc, s). length pc)") (auto dest: GetOp_shorter)

declare eval_loop.simps [simp del]

definition init_state :: "valtype list \<Rightarrow> CScript \<Rightarrow> exec_state" where
  "init_state st script = \<lparr>stack = st, altstack = [], vfExec = [], pbegincodehash = script, nOpCount = 0\<rparr>"

definition EvalScript :: "script_env \<Rightarrow> u32 \<Rightarrow> valtype list \<Rightarrow> CScript \<Rightarrow> ScriptError + valtype list" where
  "EvalScript env flags st script =
     (if length script > MAX_SCRIPT_SIZE then Inl SCRIPT_ERR_SCRIPT_SIZE
      else andThen (eval_loop env flags script (init_state st script)) (\<lambda>s.
        if vfExec s \<noteq> [] then Inl SCRIPT_ERR_UNBALANCED_CONDITIONAL else Inr (stack s)))"

text \<open>\<^verbatim>\<open>if (stack.empty()) return false; if (!CastToBool(stack.back())) return false\<close>\<close>

definition check_top :: "valtype list \<Rightarrow> ScriptError + unit" where
  "check_top st = guardE (st \<noteq> [] \<and> CastToBool (hd st)) SCRIPT_ERR_EVAL_FALSE"

text \<open>The part of \<^verbatim>\<open>VerifyScript\<close> for pay-to-script-hash, on the stack the input left; \<open>None\<close> is a failed assertion.\<close>

definition verify_p2sh :: "script_env \<Rightarrow> u32 \<Rightarrow> CScript \<Rightarrow> valtype list \<Rightarrow> (ScriptError + valtype list) option" where
  "verify_p2sh env flags scriptSig stackCopy =
     (if \<not> IsPushOnly scriptSig then Some (Inl SCRIPT_ERR_SIG_PUSHONLY)
      else case stackCopy of
        [] \<Rightarrow> None
      | pubKey2 # st \<Rightarrow>
          Some (andThen (EvalScript env flags st pubKey2) (\<lambda>st2. andThen (check_top st2) (\<lambda>_. Inr st2))))"

definition verify_cleanstack :: "u32 \<Rightarrow> valtype list \<Rightarrow> (ScriptError + unit) option" where
  "verify_cleanstack flags st =
     (if has_flag flags SCRIPT_VERIFY_CLEANSTACK then
        (if \<not> has_flag flags SCRIPT_VERIFY_P2SH then None
         else Some (guardE (length st = 1) SCRIPT_ERR_CLEANSTACK))
      else Some (Inr ()))"

definition VerifyScript :: "script_env \<Rightarrow> u32 \<Rightarrow> CScript \<Rightarrow> CScript \<Rightarrow> (ScriptError + unit) option" where
  "VerifyScript env flags scriptSig scriptPubKey =
     (if has_flag flags SCRIPT_VERIFY_SIGPUSHONLY \<and> \<not> IsPushOnly scriptSig then Some (Inl SCRIPT_ERR_SIG_PUSHONLY)
      else case EvalScript env flags [] scriptSig of
        Inl e \<Rightarrow> Some (Inl e)
      | Inr st1 \<Rightarrow>
        (case andThen (EvalScript env flags st1 scriptPubKey) (\<lambda>st2. andThen (check_top st2) (\<lambda>_. Inr st2)) of
           Inl e \<Rightarrow> Some (Inl e)
         | Inr st2 \<Rightarrow>
           (case (if has_flag flags SCRIPT_VERIFY_P2SH \<and> IsPayToScriptHash scriptPubKey
                  then verify_p2sh env flags scriptSig st1 else Some (Inr st2)) of
              None \<Rightarrow> None
            | Some (Inl e) \<Rightarrow> Some (Inl e)
            | Some (Inr st3) \<Rightarrow> verify_cleanstack flags st3)))"

end
