(* ===== verification/ScriptRules.thy ===== *)
theory ScriptRules
  imports Interpreter
begin

text \<open>
  Properties of the script interpreter: the resource limits as an invariant of the loop, that rules under flags only
  ever forbid (so that every flag is a soft fork), that the assertions of \<^verbatim>\<open>VerifyScript\<close> hold, that unspendable and
  disabled scripts fail, that the loop of \<^verbatim>\<open>OP_CHECKMULTISIG\<close> decides the matching it stands for, and what spending a
  pay-to-public-key-hash output comes to.
\<close>

section \<open>Flags and reference definitions\<close>

definition MANDATORY_SCRIPT_VERIFY_FLAGS :: u32 where
  "MANDATORY_SCRIPT_VERIFY_FLAGS = SCRIPT_VERIFY_P2SH"

definition STANDARD_SCRIPT_VERIFY_FLAGS :: u32 where
  "STANDARD_SCRIPT_VERIFY_FLAGS = MANDATORY_SCRIPT_VERIFY_FLAGS OR SCRIPT_VERIFY_DERSIG OR SCRIPT_VERIFY_STRICTENC OR
     SCRIPT_VERIFY_MINIMALDATA OR SCRIPT_VERIFY_NULLDUMMY OR SCRIPT_VERIFY_DISCOURAGE_UPGRADABLE_NOPS OR
     SCRIPT_VERIFY_CLEANSTACK OR SCRIPT_VERIFY_CHECKLOCKTIMEVERIFY OR SCRIPT_VERIFY_CHECKSEQUENCEVERIFY OR
     SCRIPT_VERIFY_LOW_S"

text \<open>\<^verbatim>\<open>CScriptVisitor\<close>: the scripts that pay to a key hash and to a script hash\<close>

definition script_for_key :: "valtype \<Rightarrow> CScript" where
  "script_for_key keyID = [OP_DUP] @ [OP_HASH160] @ push_data keyID @ [OP_EQUALVERIFY] @ [OP_CHECKSIG]"

definition script_for_script :: "valtype \<Rightarrow> CScript" where
  "script_for_script scriptID = [OP_HASH160] @ push_data scriptID @ [OP_EQUAL]"

text \<open>The instructions that count against the limit, whether they are executed or not.\<close>

definition counted_ops :: "(byte \<times> byte list) list \<Rightarrow> nat" where
  "counted_ops ops = length (filter (\<lambda>(opcode, d). opcode > OP_16) ops)"

text \<open>What \<^verbatim>\<open>OP_CHECKMULTISIG\<close> is to decide: the signatures, in order, are signatures for a subsequence of the keys.\<close>

definition multisig_matches :: "script_env \<Rightarrow> CScript \<Rightarrow> valtype list \<Rightarrow> valtype list \<Rightarrow> bool" where
  "multisig_matches env code sigs keys \<longleftrightarrow>
     (\<exists>ks. subseq ks keys \<and> list_all2 (\<lambda>sig key. CheckSig env sig key code) sigs ks)"

text \<open>A checker for concrete runs: a signature is a copy of the key with a hash type, a hash keeps 20 bytes.\<close>

definition demo_env :: script_env where
  "demo_env = \<lparr>CheckSig = (\<lambda>sig key code. butlast sig = key), CheckLockTime = (\<lambda>n. n \<le> 100), CheckSequence = (\<lambda>n. n \<le> 10),
     CheckLowS = (\<lambda>_. True), RIPEMD160 = take 20, SHA1 = take 20, SHA256 = take 32, Hash160 = take 20, Hash256 = take 32\<rparr>"

section \<open>Unfolding the loop\<close>

lemma eval_loop_Nil [simp]: "eval_loop env flags [] s = Inr s"
  by (simp add: eval_loop.simps)

lemma eval_loop_step:
  "GetOp pc = Some (opcode, d, pc') \<Longrightarrow>
   eval_loop env flags pc s = andThen (eval_step env flags opcode d pc' s) (eval_loop env flags pc')"
  by (subst eval_loop.simps) (auto simp: andThen_def GetOp_def split: list.splits sum.splits)

lemma eval_loop_Inr_cases:
  assumes "eval_loop env flags pc s = Inr t" "pc \<noteq> []"
  obtains opcode d pc' s' where "GetOp pc = Some (opcode, d, pc')" "eval_step env flags opcode d pc' s = Inr s'"
    "eval_loop env flags pc' s' = Inr t"
proof (cases "GetOp pc")
  case None
  then show ?thesis using assms by (simp add: eval_loop.simps[of env flags pc])
next
  case (Some x)
  obtain opcode d pc' where x: "x = (opcode, d, pc')" by (cases x)
  show ?thesis
    using assms(1) that[OF Some[unfolded x]] by (auto simp: eval_loop_step[OF Some[unfolded x]] andThen_Inr_iff)
qed

text \<open>An invariant of every step is an invariant of the loop.\<close>

lemma eval_loop_invariant:
  assumes "eval_loop env flags pc s = Inr t" "P s"
    and step: "\<And>opcode d pc' u v. P u \<Longrightarrow> eval_step env flags opcode d pc' u = Inr v \<Longrightarrow> P v"
  shows "P t"
  using assms(1,2)
proof (induction pc arbitrary: s rule: length_induct)
  case (1 pc)
  show ?case
  proof (cases "pc = []")
    case False
    then obtain opcode d pc' s' where "GetOp pc = Some (opcode, d, pc')"
      "eval_step env flags opcode d pc' s = Inr s'" "eval_loop env flags pc' s' = Inr t"
      using eval_loop_Inr_cases[OF "1.prems"(1)] by blast
    then show ?thesis using "1.IH" GetOp_shorter step "1.prems"(2) by blast
  qed (use "1.prems" in simp)
qed

section \<open>Resource limits\<close>

lemma eval_step_stack_limit:
  "eval_step env flags opcode d pc s = Inr t \<Longrightarrow> length (stack t) + length (altstack t) \<le> 1000"
  by (auto simp: eval_step_def Let_def andThen_Inr_iff split: if_splits)

lemma on_stack_nOpCount: "on_stack s r = Inr t \<Longrightarrow> nOpCount t = nOpCount s"
  by (auto simp: on_stack_def andThen_Inr_iff)

lemma op_checkmultisig_count:
  "op_checkmultisig env flags opcode s = Inr t \<Longrightarrow> nOpCount s \<le> nOpCount t \<and> nOpCount t \<le> MAX_OPS_PER_SCRIPT"
  by (auto simp: op_checkmultisig_def Let_def andThen_Inr_iff split: if_splits)

lemma op_state_count:
  "op_if opcode fExec s = Inr t \<Longrightarrow> nOpCount t = nOpCount s"
  "op_else s = Inr t \<Longrightarrow> nOpCount t = nOpCount s"
  "op_endif s = Inr t \<Longrightarrow> nOpCount t = nOpCount s"
  "op_toaltstack s = Inr t \<Longrightarrow> nOpCount t = nOpCount s"
  "op_fromaltstack s = Inr t \<Longrightarrow> nOpCount t = nOpCount s"
  by (auto simp: op_if_def op_else_def op_endif_def op_toaltstack_def op_fromaltstack_def Let_def
      split: if_splits list.splits)

lemma exec_switch_count:
  assumes "exec_switch env flags opcode fExec pc s = Inr t" "nOpCount s \<le> MAX_OPS_PER_SCRIPT"
  shows "nOpCount s \<le> nOpCount t \<and> nOpCount t \<le> MAX_OPS_PER_SCRIPT"
  using assms
  by (simp only: exec_switch_def split: if_split_asm)
     (auto simp: andThen_Inr_iff dest: on_stack_nOpCount op_checkmultisig_count op_state_count)

lemma eval_step_count:
  assumes "nOpCount s \<le> MAX_OPS_PER_SCRIPT" "eval_step env flags opcode d pc s = Inr t"
  shows "nOpCount s + (if opcode > OP_16 then 1 else 0) \<le> nOpCount t \<and> nOpCount t \<le> MAX_OPS_PER_SCRIPT"
proof -
  let ?s1 = "if opcode > OP_16 then s\<lparr>nOpCount := nOpCount s + 1\<rparr> else s"
  have "nOpCount ?s1 \<le> MAX_OPS_PER_SCRIPT"
    using assms by (auto simp: eval_step_def Let_def split: if_split_asm)
  then show ?thesis
    using assms(2) exec_switch_count[of env flags opcode _ pc ?s1]
    by (auto simp: eval_step_def Let_def andThen_Inr_iff split: if_split_asm)
qed

lemma eval_step_static:
  "eval_step env flags opcode d pc s = Inr t \<Longrightarrow> opcode \<notin> set disabled_opcodes \<and> length d \<le> MAX_SCRIPT_PUSH_SIZE"
  by (auto simp: eval_step_def Let_def split: if_split_asm)

lemma eval_loop_static:
  assumes "eval_loop env flags pc s = Inr t" "nOpCount s \<le> MAX_OPS_PER_SCRIPT" "script_ops pc = (ops, rest)"
  shows "rest = [] \<and> nOpCount s + counted_ops ops \<le> nOpCount t \<and> nOpCount t \<le> MAX_OPS_PER_SCRIPT \<and>
    (\<forall>(opcode, d)\<in>set ops. opcode \<notin> set disabled_opcodes \<and> length d \<le> MAX_SCRIPT_PUSH_SIZE)"
  using assms
proof (induction pc arbitrary: s ops rule: length_induct)
  case (1 pc)
  show ?case
  proof (cases "pc = []")
    case True
    then show ?thesis using "1.prems" by (simp add: script_ops.simps[of "[]"] GetOp_def counted_ops_def)
  next
    case False
    then obtain opcode d pc' s' where g: "GetOp pc = Some (opcode, d, pc')"
      and st: "eval_step env flags opcode d pc' s = Inr s'" and l: "eval_loop env flags pc' s' = Inr t"
      using eval_loop_Inr_cases[OF "1.prems"(1)] by blast
    obtain ops' where o: "script_ops pc' = (ops', rest)" "ops = (opcode, d) # ops'"
      using script_ops_push[OF g] "1.prems"(3) by (cases "script_ops pc'") auto
    note c = eval_step_count[OF "1.prems"(2) st]
    have "rest = [] \<and> nOpCount s' + counted_ops ops' \<le> nOpCount t \<and> nOpCount t \<le> MAX_OPS_PER_SCRIPT \<and>
      (\<forall>(opcode, d)\<in>set ops'. opcode \<notin> set disabled_opcodes \<and> length d \<le> MAX_SCRIPT_PUSH_SIZE)"
      using "1.IH" GetOp_shorter[OF g] l c o(1) by blast
    then show ?thesis using c eval_step_static[OF st] o(2) by (auto simp: counted_ops_def split: if_splits)
  qed
qed

lemmas flag_defs = SCRIPT_VERIFY_NONE_def SCRIPT_VERIFY_P2SH_def SCRIPT_VERIFY_STRICTENC_def SCRIPT_VERIFY_DERSIG_def
  SCRIPT_VERIFY_LOW_S_def SCRIPT_VERIFY_NULLDUMMY_def SCRIPT_VERIFY_SIGPUSHONLY_def SCRIPT_VERIFY_MINIMALDATA_def
  SCRIPT_VERIFY_DISCOURAGE_UPGRADABLE_NOPS_def SCRIPT_VERIFY_CLEANSTACK_def SCRIPT_VERIFY_CHECKLOCKTIMEVERIFY_def
  SCRIPT_VERIFY_CHECKSEQUENCEVERIFY_def

section \<open>Flags only forbid\<close>

lemma has_flag_sub: "f' AND f = f' \<Longrightarrow> has_flag f' x \<Longrightarrow> has_flag f x"
  unfolding has_flag_def by (metis and.assoc and_zero_eq)

lemma if_Inr_mono:
  assumes "(if c then x else y) = Inr t" "x = Inr t \<Longrightarrow> x' = Inr t" "y = Inr t \<Longrightarrow> y' = Inr t"
  shows "(if c then x' else y') = Inr t"
  using assms by (simp split: if_splits)

lemma andThen_mono:
  assumes "andThen r f = Inr t" "\<And>a. r = Inr a \<Longrightarrow> r' = Inr a" "\<And>a. f a = Inr t \<Longrightarrow> f' a = Inr t"
  shows "andThen r' f' = Inr t"
  using assms by (auto simp: andThen_Inr_iff)

lemmas result_monos = if_Inr_mono andThen_mono

locale soft_fork =
  fixes flags flags' :: u32
  assumes flags_sub: "has_flag flags' x \<Longrightarrow> has_flag flags x"
    and no_discourage: "\<not> has_flag flags' SCRIPT_VERIFY_DISCOURAGE_UPGRADABLE_NOPS"
begin

lemma scriptnum_mono: "scriptnum flags vch n = Inr v \<Longrightarrow> scriptnum flags' vch n = Inr v"
  using flags_sub by (auto simp: scriptnum_def CScriptNum_def split: sum.splits if_split_asm)

lemma locktime_mono:
  "op_checklocktimeverify env flags st = Inr u \<Longrightarrow> op_checklocktimeverify env flags' st = Inr u"
  "op_checksequenceverify env flags st = Inr u \<Longrightarrow> op_checksequenceverify env flags' st = Inr u"
  using flags_sub no_discourage
  by (auto simp: op_checklocktimeverify_def op_checksequenceverify_def andThen_Inr_iff dest: scriptnum_mono
      split: list.splits if_split_asm)

lemma encoding_mono:
  "CheckSignatureEncoding env sig flags = Inr u \<Longrightarrow> CheckSignatureEncoding env sig flags' = Inr u"
  "CheckPubKeyEncoding key flags = Inr u \<Longrightarrow> CheckPubKeyEncoding key flags' = Inr u"
  using flags_sub by (auto simp: CheckSignatureEncoding_def CheckPubKeyEncoding_def split: if_split_asm)

lemma numeric_mono:
  "op_pick_roll flags opcode st = Inr r \<Longrightarrow> op_pick_roll flags' opcode st = Inr r"
  "op_unary flags opcode st = Inr r \<Longrightarrow> op_unary flags' opcode st = Inr r"
  "op_binary flags opcode st = Inr r \<Longrightarrow> op_binary flags' opcode st = Inr r"
  "op_within flags st = Inr r \<Longrightarrow> op_within flags' st = Inr r"
  unfolding op_pick_roll_def op_unary_def op_binary_def op_within_def Let_def
  by (auto elim!: result_monos scriptnum_mono split: list.split_asm)

lemma checksig_mono:
  "op_checksig env flags opcode code st = Inr r \<Longrightarrow> op_checksig env flags' opcode code st = Inr r"
  by (auto simp: op_checksig_def andThen_Inr_iff Let_def dest!: encoding_mono split: list.split_asm)

lemma multisig_loop_mono:
  "multisig_loop env flags code sigs keys = Inr b \<Longrightarrow> multisig_loop env flags' code sigs keys = Inr b"
proof (induction keys arbitrary: sigs)
  case Nil
  then show ?case by (cases sigs) auto
next
  case (Cons key keys)
  then show ?case by (cases sigs) (auto simp: andThen_Inr_iff Let_def dest!: encoding_mono)
qed

lemma multisig_result_mono:
  "multisig_result flags opcode b st = Inr r \<Longrightarrow> multisig_result flags' opcode b st = Inr r"
  using flags_sub by (auto simp: multisig_result_def split: list.splits if_split_asm)

lemma checkmultisig_mono:
  "op_checkmultisig env flags opcode s = Inr t \<Longrightarrow> op_checkmultisig env flags' opcode s = Inr t"
  unfolding op_checkmultisig_def Let_def
  by (elim result_monos scriptnum_mono multisig_loop_mono multisig_result_mono; assumption?)

lemma on_stack_mono:
  "on_stack s r = Inr t \<Longrightarrow> (\<And>st. r = Inr st \<Longrightarrow> r' = Inr st) \<Longrightarrow> on_stack s r' = Inr t"
  by (auto simp: on_stack_def andThen_Inr_iff)

lemma switch_mono:
  "exec_switch env flags opcode fExec pc s = Inr t \<Longrightarrow> exec_switch env flags' opcode fExec pc s = Inr t"
  unfolding exec_switch_def
  by (elim if_Inr_mono; (assumption | elim checkmultisig_mono
        | ((erule andThen_mono | erule on_stack_mono); (assumption | elim locktime_mono numeric_mono checksig_mono))
        | simp add: no_discourage split: if_split_asm))

lemma step_mono:
  "eval_step env flags opcode d pc s = Inr t \<Longrightarrow> eval_step env flags' opcode d pc s = Inr t"
  unfolding eval_step_def Let_def
  by (elim result_monos; (assumption | elim switch_mono | use flags_sub in \<open>simp split: if_split_asm\<close>))

lemma loop_mono: "eval_loop env flags pc s = Inr t \<Longrightarrow> eval_loop env flags' pc s = Inr t"
proof (induction pc arbitrary: s rule: length_induct)
  case (1 pc)
  show ?case
  proof (cases "pc = []")
    case False
    then obtain opcode d pc' s' where g: "GetOp pc = Some (opcode, d, pc')"
      and st: "eval_step env flags opcode d pc' s = Inr s'" and l: "eval_loop env flags pc' s' = Inr t"
      using eval_loop_Inr_cases[OF "1.prems"(1)] by blast
    then show ?thesis using "1.IH" GetOp_shorter[OF g] by (simp add: eval_loop_step[OF g] step_mono[OF st])
  qed (use "1.prems" in simp)
qed

lemma EvalScript_mono: "EvalScript env flags st script = Inr r \<Longrightarrow> EvalScript env flags' st script = Inr r"
  unfolding EvalScript_def by (elim result_monos loop_mono; assumption?)

lemma VerifyScript_mono:
  assumes clean: "has_flag flags' SCRIPT_VERIFY_CLEANSTACK \<Longrightarrow> has_flag flags' SCRIPT_VERIFY_P2SH"
    and ok: "VerifyScript env flags scriptSig scriptPubKey = Some (Inr ())"
  shows "VerifyScript env flags' scriptSig scriptPubKey = Some (Inr ())"
proof -
  obtain st1 where st1: "EvalScript env flags [] scriptSig = Inr st1"
    using ok by (auto simp: VerifyScript_def split: if_split_asm sum.split_asm)
  obtain st2 where st2: "EvalScript env flags st1 scriptPubKey = Inr st2" "check_top st2 = Inr ()"
    using ok st1 by (auto simp: VerifyScript_def andThen_def split: if_split_asm sum.split_asm)
  have push: "has_flag flags' SCRIPT_VERIFY_SIGPUSHONLY \<Longrightarrow> IsPushOnly scriptSig"
    using ok flags_sub by (auto simp: VerifyScript_def split: if_split_asm)
  have cs: "verify_cleanstack flags' st = Some (Inr ())" if "verify_cleanstack flags st = Some (Inr ())" for st
    using that clean flags_sub by (auto simp: verify_cleanstack_def split: if_split_asm)
  have p2sh: "verify_p2sh env flags' scriptSig st1 = Some (Inr st3)" if "verify_p2sh env flags scriptSig st1 = Some (Inr st3)" for st3
    using that EvalScript_mono by (auto simp: verify_p2sh_def andThen_Inr_iff split: if_split_asm list.split_asm)
  have "verify_cleanstack flags' st2 = Some (Inr ())" if "\<not> has_flag flags' SCRIPT_VERIFY_P2SH"
    using that clean by (auto simp: verify_cleanstack_def)
  then show ?thesis
    using ok st1 st2 push cs p2sh flags_sub EvalScript_mono[OF st1] EvalScript_mono[OF st2(1)]
    by (auto simp: VerifyScript_def split: if_split_asm sum.split_asm option.split_asm)
qed

end

lemma soft_forkI:
  "flags' AND flags = flags' \<Longrightarrow> \<not> has_flag flags' SCRIPT_VERIFY_DISCOURAGE_UPGRADABLE_NOPS \<Longrightarrow> soft_fork flags flags'"
  by unfold_locales (auto dest: has_flag_sub)

text \<open>What standard transactions are checked with is a soft fork of what blocks are checked with.\<close>

interpretation standard: soft_fork STANDARD_SCRIPT_VERIFY_FLAGS MANDATORY_SCRIPT_VERIFY_FLAGS
  by (rule soft_forkI)
     (simp_all add: has_flag_def STANDARD_SCRIPT_VERIFY_FLAGS_def MANDATORY_SCRIPT_VERIFY_FLAGS_def flag_defs)

section \<open>Multiple signatures\<close>

lemma multisig_matches_length: "multisig_matches env code sigs keys \<Longrightarrow> length sigs \<le> length keys"
  unfolding multisig_matches_def by (metis list_all2_lengthD list_emb_length)

lemma multisig_matches_Nil [simp]: "multisig_matches env code [] keys"
  by (auto simp: multisig_matches_def intro!: exI[of _ "[]"])

lemma multisig_matches_skip:
  assumes "\<not> CheckSig env sig key code"
  shows "multisig_matches env code (sig # sigs) (key # keys) \<longleftrightarrow> multisig_matches env code (sig # sigs) keys"
  using assms unfolding multisig_matches_def list_all2_Cons1 by (auto split: if_splits)

lemma multisig_matches_take:
  assumes "CheckSig env sig key code"
  shows "multisig_matches env code (sig # sigs) (key # keys) \<longleftrightarrow> multisig_matches env code sigs keys"
proof
  assume "multisig_matches env code (sig # sigs) (key # keys)"
  then obtain k ks where "subseq (k # ks) (key # keys)" "list_all2 (\<lambda>sig key. CheckSig env sig key code) sigs ks"
    by (auto simp: multisig_matches_def list_all2_Cons1)
  then show "multisig_matches env code sigs keys"
    by (auto simp: multisig_matches_def intro: subseq_Cons' split: if_splits)
next
  assume "multisig_matches env code sigs keys"
  then show "multisig_matches env code (sig # sigs) (key # keys)"
    using assms by (auto simp: multisig_matches_def list_all2_Cons1)
qed

lemma multisig_loop_matches:
  assumes "\<forall>sig\<in>set sigs. CheckSignatureEncoding env sig flags = Inr ()"
    and "\<forall>key\<in>set keys. CheckPubKeyEncoding key flags = Inr ()"
  shows "multisig_loop env flags code sigs keys = Inr (multisig_matches env code sigs keys)"
  using assms
proof (induction keys arbitrary: sigs)
  case Nil
  then show ?case using multisig_matches_length[of env code sigs "[]"] by (cases sigs) auto
next
  case (Cons key keys)
  show ?case
  proof (cases sigs)
    case (Cons sig sigs')
    have "multisig_loop env flags code xs keys = Inr (multisig_matches env code xs keys)"
      if "set xs \<subseteq> set sigs" for xs
      using Cons.IH[of xs] Cons.prems that by auto
    then show ?thesis
      using Cons.prems Cons multisig_matches_length[of env code sigs' keys]
        multisig_matches_length[of env code "sig # sigs'" keys]
      by (auto simp: multisig_matches_take multisig_matches_skip)
  qed simp
qed

section \<open>Running known instructions\<close>

lemma GetOp_opcode: "opcode > OP_PUSHDATA4 \<Longrightarrow> GetOp (opcode # pc) = Some (opcode, [], pc)"
  by (auto simp: GetOp_def)

lemma GetOp_push_minimal:
  assumes "length b < 2 ^ 32" "2 \<le> length b"
  shows "\<exists>opcode. GetOp (push_data b @ rest) = Some (opcode, b, rest) \<and> opcode \<le> OP_PUSHDATA4 \<and> CheckMinimalPush b opcode"
proof -
  obtain opcode where g: "GetOp (push_data b @ rest) = Some (opcode, b, rest)" "opcode \<le> OP_PUSHDATA4"
    using GetOp_push_data[OF assms(1)] by blast
  have "opcode = hd (push_data b)"
    using g(1) by (auto simp: GetOp_def push_data_def split: if_split_asm option.split_asm list.split_asm)
  then have "CheckMinimalPush b opcode"
    using assms(2) by (auto simp: push_data_def CheckMinimalPush_def opcode_defs unat_of_nat_small)
  with g show ?thesis by blast
qed

lemma push_not_disabled: "opcode \<le> OP_PUSHDATA4 \<Longrightarrow> opcode \<notin> set disabled_opcodes \<and> \<not> opcode > OP_16"
  by (auto simp: disabled_opcodes_def opcode_defs word_le_nat_alt word_less_nat_alt)

lemma eval_loop_push:
  assumes "2 \<le> length b" "length b \<le> MAX_SCRIPT_PUSH_SIZE" "vfExec s = []" "length (stack s) + length (altstack s) < 1000"
  shows "eval_loop env flags (push_data b @ rest) s = eval_loop env flags rest (s\<lparr>stack := b # stack s\<rparr>)"
proof -
  have "length b < 2 ^ 32" using assms(2) by (simp add: script_limits)
  then obtain opcode where g: "GetOp (push_data b @ rest) = Some (opcode, b, rest)" "opcode \<le> OP_PUSHDATA4"
    "CheckMinimalPush b opcode" using GetOp_push_minimal[OF _ assms(1)] by blast
  then show ?thesis
    using assms push_not_disabled[OF g(2)] by (simp add: eval_loop_step[OF g(1)] eval_step_def Let_def)
qed

lemmas opcode_lists = disabled_opcodes_def upgradable_nops_def stack_opcodes_def unary_opcodes_def
  binary_opcodes_def hash_opcodes_def

text \<open>An executed instruction of the \<^verbatim>\<open>switch\<close>, within the operation limit\<close>

lemma eval_loop_exec:
  assumes "opcode > OP_16" "opcode \<notin> set disabled_opcodes" "vfExec s = []" "nOpCount s < MAX_OPS_PER_SCRIPT"
  shows "eval_loop env flags (opcode # rest) s =
     andThen (exec_switch env flags opcode True rest (s\<lparr>nOpCount := nOpCount s + 1\<rparr>)) (\<lambda>t.
       if length (stack t) + length (altstack t) > 1000 then Inl SCRIPT_ERR_STACK_SIZE
       else eval_loop env flags rest t)"
proof -
  have p: "opcode > OP_PUSHDATA4" using assms(1) by (simp add: opcode_defs word_less_nat_alt)
  show ?thesis
    using assms p
    by (cases "exec_switch env flags opcode True rest (s\<lparr>nOpCount := nOpCount s + 1\<rparr>)")
       (auto simp: eval_loop_step[OF GetOp_opcode[OF p]] eval_step_def Let_def)
qed

lemma exec_switch_p2pkh:
  "exec_switch env flags OP_DUP fExec pc s = on_stack s (op_stack OP_DUP (stack s))"
  "exec_switch env flags OP_HASH160 fExec pc s = on_stack s (op_hash env OP_HASH160 (stack s))"
  "exec_switch env flags OP_EQUALVERIFY fExec pc s = on_stack s (op_equal OP_EQUALVERIFY (stack s))"
  "exec_switch env flags OP_EQUAL fExec pc s = on_stack s (op_equal OP_EQUAL (stack s))"
  "exec_switch env flags OP_CHECKSIG fExec pc s = on_stack s (op_checksig env flags OP_CHECKSIG (pbegincodehash s) (stack s))"
  "exec_switch env flags OP_RETURN fExec pc s = Inl SCRIPT_ERR_OP_RETURN"
  by (simp_all add: exec_switch_def opcode_lists opcode_defs)

lemma ops_p2pkh:
  "op_stack OP_DUP (x # st) = Inr (x # x # st)"
  "op_hash env OP_HASH160 (x # st) = Inr (Hash160 env x # st)"
  "op_equal OP_EQUALVERIFY (y # x # st) = (if x = y then Inr st else Inl SCRIPT_ERR_EQUALVERIFY)"
  "op_equal OP_EQUAL (y # x # st) = Inr (vch_bool (x = y) # st)"
  "op_checksig env flags OP_CHECKSIG code (key # sig # st) =
     andThen (CheckSignatureEncoding env sig flags) (\<lambda>_. andThen (CheckPubKeyEncoding key flags) (\<lambda>_.
       Inr (vch_bool (CheckSig env sig key (fst (FindAndDelete code (push_data sig)))) # st)))"
  by (simp_all add: op_stack_def op_hash_def op_equal_def op_checksig_def opcode_defs Let_def)

lemma executable_opcodes:
  "opcode \<in> {OP_DUP, OP_HASH160, OP_EQUALVERIFY, OP_EQUAL, OP_CHECKSIG, OP_RETURN} \<Longrightarrow>
   opcode > OP_16 \<and> opcode \<notin> set disabled_opcodes"
  by (auto simp: opcode_lists opcode_defs)

section \<open>Deleting a push\<close>

lemma strip_matches_none: "take (length b) pc \<noteq> b \<Longrightarrow> strip_matches b pc n = (pc, n)"
  by (subst strip_matches.simps) simp

lemma GetOp_prefix:
  "GetOp pc = Some (opcode, d, pc') \<Longrightarrow> take (length pc - length pc') pc @ pc' = pc"
proof -
  assume g: "GetOp pc = Some (opcode, d, pc')"
  have "\<exists>n. pc' = drop n pc"
    using g by (auto simp: GetOp_def Let_def split: list.split_asm if_split_asm option.split_asm) (metis drop_Suc_Cons drop_drop drop0)+
  then obtain n where n: "pc' = drop n pc" by blast
  then have "drop (length pc - length pc') pc = pc'" by (cases "n \<le> length pc") auto
  then show ?thesis by (metis append_take_drop_id)
qed

lemma find_and_delete_none:
  assumes "length d < 2 ^ 32" "script_ops pc = (ops, [])" "\<forall>(opcode, x)\<in>set ops. opcode \<le> OP_PUSHDATA4 \<longrightarrow> x \<noteq> d"
  shows "find_and_delete_loop (push_data d) kept pc n = (kept @ pc, n)"
  using assms(2,3)
proof (induction pc arbitrary: kept ops rule: length_induct)
  case (1 pc)
  have nm: "take (length (push_data d)) pc \<noteq> push_data d"
  proof
    assume "take (length (push_data d)) pc = push_data d"
    then have "pc = push_data d @ drop (length (push_data d)) pc" by (metis append_take_drop_id)
    then obtain opcode where g: "GetOp pc = Some (opcode, d, drop (length (push_data d)) pc)" "opcode \<le> OP_PUSHDATA4"
      using GetOp_push_data[OF assms(1)] by metis
    then have "(opcode, d) \<in> set ops"
      using "1.prems"(1) script_ops_push[OF g(1)] by (metis list.set_intros(1) fst_conv surj_pair)
    then show False using "1.prems"(2) g(2) by auto
  qed
  show ?case
  proof (cases "GetOp pc")
    case None
    then show ?thesis by (subst find_and_delete_loop.simps) (simp add: strip_matches_none[OF nm])
  next
    case (Some y)
    obtain opcode x pc' where y: "y = (opcode, x, pc')" by (cases y)
    obtain ops' where o: "script_ops pc' = (ops', [])" "ops = (opcode, x) # ops'"
      using script_ops_push[OF Some[unfolded y]] "1.prems"(1) by (cases "script_ops pc'") auto
    have "find_and_delete_loop (push_data d) (kept @ take (length pc - length pc') pc) pc' n
        = (kept @ take (length pc - length pc') pc @ pc', n)"
      using "1.IH" GetOp_shorter[OF Some[unfolded y]] o "1.prems"(2) by auto
    then show ?thesis
      using GetOp_prefix[OF Some[unfolded y]]
      by (subst find_and_delete_loop.simps) (simp add: strip_matches_none[OF nm] Some y)
  qed
qed

lemma script_ops_for_key:
  assumes "length h = 20"
  shows "\<exists>opcode. script_ops (script_for_key h) =
    ([(OP_DUP, []), (OP_HASH160, []), (opcode, h), (OP_EQUALVERIFY, []), (OP_CHECKSIG, [])], [])"
proof -
  obtain opcode where g: "GetOp (push_data h @ [OP_EQUALVERIFY, OP_CHECKSIG]) = Some (opcode, h, [OP_EQUALVERIFY, OP_CHECKSIG])"
    using GetOp_push_data[of h] assms by auto
  have n: "script_ops [] = ([], [])" by (simp add: script_ops.simps[of "[]"] GetOp_def)
  have o: "script_ops (op # pc) = ((op, []) # fst (script_ops pc), snd (script_ops pc))" if "op > OP_PUSHDATA4" for op pc
    by (rule script_ops_push[OF GetOp_opcode[OF that]]) simp
  have "script_ops (push_data h @ [OP_EQUALVERIFY, OP_CHECKSIG]) = ([(opcode, h), (OP_EQUALVERIFY, []), (OP_CHECKSIG, [])], [])"
    by (rule script_ops_push[OF g]) (simp add: o n opcode_defs)
  then show ?thesis by (auto simp: script_for_key_def o opcode_defs)
qed

lemma checksig_code_p2pkh:
  assumes "length h = 20" "sig \<noteq> h" "length sig < 2 ^ 32"
  shows "fst (FindAndDelete (script_for_key h) (push_data sig)) = script_for_key h"
proof -
  obtain opcode where "script_ops (script_for_key h) =
    ([(OP_DUP, []), (OP_HASH160, []), (opcode, h), (OP_EQUALVERIFY, []), (OP_CHECKSIG, [])], [])"
    using script_ops_for_key[OF assms(1)] by blast
  then have "find_and_delete_loop (push_data sig) [] (script_for_key h) 0 = ([] @ script_for_key h, 0)"
    by (rule find_and_delete_none[OF assms(3)]) (use assms(2) in \<open>auto simp: opcode_defs\<close>)
  then show ?thesis by (simp add: FindAndDelete_def)
qed

lemma length_push_data: "length b < 2 ^ 32 \<Longrightarrow> length (push_data b) \<le> length b + 5"
  by (auto simp: push_data_def)

lemma EvalScript_p2pkh_sig:
  assumes "2 \<le> length sig" "length sig \<le> 520" "2 \<le> length key" "length key \<le> 520"
  shows "EvalScript env flags [] (push_data sig @ push_data key) = Inr [key, sig]"
proof -
  have "length (push_data sig @ push_data key) \<le> MAX_SCRIPT_SIZE"
    using length_push_data[of sig] length_push_data[of key] assms by (simp add: script_limits)
  moreover have "eval_loop env flags (push_data sig @ push_data key) s = Inr (s\<lparr>stack := key # sig # stack s\<rparr>)"
    if "vfExec s = []" "length (stack s) + length (altstack s) < 900" for s
    using that assms eval_loop_push[of key _ env flags "[]"] by (simp add: eval_loop_push script_limits)
  ultimately show ?thesis by (simp add: EvalScript_def init_state_def)
qed

lemma EvalScript_p2pkh_key:
  assumes "length h = 20" "sig \<noteq> h" "length sig \<le> 520"
  shows "EvalScript env flags [key, sig] (script_for_key h) =
    (if Hash160 env key = h
     then andThen (CheckSignatureEncoding env sig flags) (\<lambda>_. andThen (CheckPubKeyEncoding key flags) (\<lambda>_.
            Inr [vch_bool (CheckSig env sig key (script_for_key h))]))
     else Inl SCRIPT_ERR_EQUALVERIFY)"
proof -
  have sz: "length (script_for_key h) \<le> MAX_SCRIPT_SIZE"
    using length_push_data[of h] assms(1) by (simp add: script_for_key_def script_limits)
  have ops: "opcode > OP_16 \<and> opcode \<notin> set disabled_opcodes"
    if "opcode \<in> {OP_DUP, OP_HASH160, OP_EQUALVERIFY, OP_EQUAL, OP_CHECKSIG, OP_RETURN}" for opcode
    using executable_opcodes[OF that] .
  note run = eval_loop_exec exec_switch_p2pkh on_stack_def ops_p2pkh
  have code: "fst (FindAndDelete (script_for_key h) (push_data sig)) = script_for_key h"
    by (rule checksig_code_p2pkh) (use assms in simp_all)
  have *: "eval_loop env flags (OP_DUP # OP_HASH160 # push_data h @ [OP_EQUALVERIFY, OP_CHECKSIG]) (init_state [key, sig] (script_for_key h)) =
     andThen (if Hash160 env key = h
     then andThen (CheckSignatureEncoding env sig flags) (\<lambda>_. andThen (CheckPubKeyEncoding key flags) (\<lambda>_.
            Inr [vch_bool (CheckSig env sig key (script_for_key h))]))
     else Inl SCRIPT_ERR_EQUALVERIFY) (\<lambda>st. Inr \<lparr>stack = st, altstack = [], vfExec = [], pbegincodehash = script_for_key h, nOpCount = 4\<rparr>)"
    using assms(1) ops
    by (cases "CheckSignatureEncoding env sig flags"; cases "CheckPubKeyEncoding key flags")
       (simp_all add: run init_state_def script_limits eval_loop_push code)
  show ?thesis
    using sz * by (cases "CheckSignatureEncoding env sig flags"; cases "CheckPubKeyEncoding key flags")
       (auto simp: EvalScript_def script_for_key_def)
qed

section \<open>First instructions that fail\<close>

lemma EvalScript_p2sh_empty:
  assumes "IsPayToScriptHash s"
  shows "isl (EvalScript env flags [] s)"
proof -
  obtain r where "s = OP_HASH160 # r" using assms by (cases s) (auto simp: IsPayToScriptHash_def)
  then show ?thesis
    using executable_opcodes[of OP_HASH160]
    by (auto simp: EvalScript_def init_state_def eval_loop_exec exec_switch_p2pkh on_stack_def op_hash_def script_limits)
qed

lemma EvalScript_unspendable:
  assumes "IsUnspendable s"
  shows "isl (EvalScript env flags st s)"
proof -
  obtain r where "s = OP_RETURN # r" using assms by (cases s) (auto simp: IsUnspendable_def)
  then show ?thesis
    using executable_opcodes[of OP_RETURN]
    by (auto simp: EvalScript_def init_state_def eval_loop_exec exec_switch_p2pkh script_limits)
qed

lemma key_script_not_p2sh: "length h = 20 \<Longrightarrow> \<not> IsPayToScriptHash (script_for_key h)"
  by (simp add: IsPayToScriptHash_def script_for_key_def opcode_defs)

lemma VerifyScript_p2pkh:
  assumes "length h = 20" "sig \<noteq> h" "2 \<le> length sig" "length sig \<le> 520" "2 \<le> length key" "length key \<le> 520"
    and "has_flag flags SCRIPT_VERIFY_CLEANSTACK \<longrightarrow> has_flag flags SCRIPT_VERIFY_P2SH"
  shows "VerifyScript env flags (push_data sig @ push_data key) (script_for_key h) = Some (Inr ()) \<longleftrightarrow>
    Hash160 env key = h \<and> CheckSignatureEncoding env sig flags = Inr () \<and> CheckPubKeyEncoding key flags = Inr () \<and>
    CheckSig env sig key (script_for_key h)"
proof -
  have "IsPushOnly (push_data sig @ push_data key)"
    using pushes_read_back[of "[sig, key]"] assms by simp
  then show ?thesis
    using EvalScript_p2pkh_sig[OF assms(3,4,5,6), of env flags] EvalScript_p2pkh_key[OF assms(1,2,4), of env flags key]
      key_script_not_p2sh[OF assms(1)] assms(7)
    by (cases "CheckSignatureEncoding env sig flags"; cases "CheckPubKeyEncoding key flags";
        cases "CheckSig env sig key (script_for_key h)")
       (auto simp: VerifyScript_def check_top_def vch_bool_def vchTrue_def vchFalse_def verify_cleanstack_def)
qed

lemma demo_p2pkh:
  assumes "has_flag flags SCRIPT_VERIFY_CLEANSTACK \<longrightarrow> has_flag flags SCRIPT_VERIFY_P2SH"
    and "\<not> has_flag flags (SCRIPT_VERIFY_DERSIG OR SCRIPT_VERIFY_LOW_S OR SCRIPT_VERIFY_STRICTENC)"
    and "\<not> has_flag flags SCRIPT_VERIFY_LOW_S" "\<not> has_flag flags SCRIPT_VERIFY_STRICTENC"
  shows "VerifyScript demo_env flags (push_data (replicate 34 7) @ push_data (replicate 33 7)) (script_for_key (replicate 20 7))
    = Some (Inr ())"
proof -
  have "replicate 34 (7::byte) \<noteq> replicate 20 7" by (simp add: numeral_eq_Suc)
  then show ?thesis
    using assms by (subst VerifyScript_p2pkh) (simp_all add: CheckSignatureEncoding_def CheckPubKeyEncoding_def demo_env_def numeral_eq_Suc)
qed

section \<open>Properties\<close>

text \<open>C35: a script that \<^verbatim>\<open>EvalScript\<close> accepts is at most \<^verbatim>\<open>MAX_SCRIPT_SIZE\<close> bytes long, is read to its last byte, has at
  most 201 instructions above \<^verbatim>\<open>OP_16\<close>, no disabled instruction and no push over the limit (all of this whether the
  instructions are executed or not), and leaves at most 1000 elements on the stack when it starts with at most 1000.\<close>

theorem EvalScript_limits:
  assumes "EvalScript env flags st script = Inr r" "length st \<le> 1000"
  shows "length script \<le> MAX_SCRIPT_SIZE \<and> length r \<le> 1000 \<and> snd (script_ops script) = [] \<and>
    counted_ops (fst (script_ops script)) \<le> 201 \<and>
    (\<forall>(opcode, d)\<in>set (fst (script_ops script)). opcode \<notin> set disabled_opcodes \<and> length d \<le> MAX_SCRIPT_PUSH_SIZE)"
proof -
  let ?s = "init_state st script"
  obtain t where t: "eval_loop env flags script ?s = Inr t" "r = stack t" and sz: "length script \<le> MAX_SCRIPT_SIZE"
    using assms(1) by (auto simp: EvalScript_def andThen_Inr_iff split: if_split_asm)
  have "length (stack t) + length (altstack t) \<le> 1000"
    by (rule eval_loop_invariant[OF t(1), of "\<lambda>s. length (stack s) + length (altstack s) \<le> 1000"])
       (use assms(2) in \<open>simp_all add: init_state_def eval_step_stack_limit\<close>)
  moreover have "nOpCount ?s \<le> MAX_OPS_PER_SCRIPT" by (simp add: init_state_def)
  ultimately show ?thesis
    using eval_loop_static[OF t(1) _ surjective_pairing] t(2) sz by (auto simp: script_limits init_state_def)
qed

theorem EvalScript_limits_witness:
  "snd (script_ops (push_data [1, 2] @ push_data [3, 4])) = []"
  using EvalScript_limits[OF EvalScript_p2pkh_sig[of "[1, 2]" "[3, 4]" demo_env 0]] by simp

text \<open>C32: every verification flag is a soft fork: an input that \<^verbatim>\<open>VerifyScript\<close> accepts under some flags it accepts
  under every subset of them, provided the subset has no flag that discourages the NOPs (which turns into errors
  what \<^verbatim>\<open>CHECKLOCKTIMEVERIFY\<close> and \<^verbatim>\<open>CHECKSEQUENCEVERIFY\<close> accept) and asks for a clean stack only together with
  pay-to-script-hash.\<close>

theorem flags_are_soft_forks:
  assumes "flags' AND flags = flags'"
    and "\<not> has_flag flags' SCRIPT_VERIFY_DISCOURAGE_UPGRADABLE_NOPS"
    and "has_flag flags' SCRIPT_VERIFY_CLEANSTACK \<longrightarrow> has_flag flags' SCRIPT_VERIFY_P2SH"
    and "VerifyScript env flags scriptSig scriptPubKey = Some (Inr ())"
  shows "VerifyScript env flags' scriptSig scriptPubKey = Some (Inr ())"
  using soft_fork.VerifyScript_mono[OF soft_forkI[OF assms(1,2)] _ assms(4)] assms(3) by blast

theorem flags_are_soft_forks_witness:
  "VerifyScript demo_env SCRIPT_VERIFY_P2SH
     (push_data (replicate 34 7) @ push_data (replicate 33 7)) (script_for_key (replicate 20 7)) = Some (Inr ())"
  by (rule flags_are_soft_forks[OF _ _ _ demo_p2pkh[of "SCRIPT_VERIFY_P2SH OR SCRIPT_VERIFY_CLEANSTACK OR SCRIPT_VERIFY_MINIMALDATA"]])
     (simp_all add: has_flag_def flag_defs)

text \<open>The assertions of \<^verbatim>\<open>VerifyScript\<close> do not fail when \<^verbatim>\<open>CLEANSTACK\<close> is asked for only together with \<^verbatim>\<open>P2SH\<close>: in
  particular the stack is never empty where the pay-to-script-hash branch takes the serialized script from it.\<close>

lemma VerifyScript_no_assertion:
  assumes "has_flag flags SCRIPT_VERIFY_CLEANSTACK \<longrightarrow> has_flag flags SCRIPT_VERIFY_P2SH"
  shows "VerifyScript env flags scriptSig scriptPubKey \<noteq> None"
proof
  assume n: "VerifyScript env flags scriptSig scriptPubKey = None"
  have c: "(verify_cleanstack flags st = None) = False" for st
    using assms by (simp add: verify_cleanstack_def)
  obtain st1 where st1: "EvalScript env flags [] scriptSig = Inr st1"
    using n by (auto simp: VerifyScript_def split: if_split_asm sum.split_asm)
  obtain st2 where st2: "EvalScript env flags st1 scriptPubKey = Inr st2"
    using n st1 by (auto simp: VerifyScript_def andThen_def split: if_split_asm sum.split_asm)
  have "IsPayToScriptHash scriptPubKey \<and> verify_p2sh env flags scriptSig st1 = None"
    using n st1 st2 by (auto simp: VerifyScript_def c split: if_split_asm sum.split_asm option.split_asm)
  then have "IsPayToScriptHash scriptPubKey" "st1 = []"
    by (auto simp: verify_p2sh_def split: if_split_asm list.split_asm)
  then show False using EvalScript_p2sh_empty[of scriptPubKey env flags] st2 by simp
qed

text \<open>C36: an output that \<^verbatim>\<open>IsUnspendable\<close> prunes from the coins can never be spent: no input, checker and flags make
  \<^verbatim>\<open>VerifyScript\<close> accept it.\<close>

theorem unspendable_never_verifies:
  assumes "IsUnspendable scriptPubKey"
  shows "VerifyScript env flags scriptSig scriptPubKey \<noteq> Some (Inr ())"
proof -
  have "EvalScript env flags st scriptPubKey \<noteq> Inr r" for st r
    using EvalScript_unspendable[OF assms, of env flags st] by auto
  then show ?thesis
    by (auto simp: VerifyScript_def andThen_def split: sum.split_asm if_split_asm)
qed

theorem unspendable_never_verifies_witness:
  "VerifyScript demo_env 0 [OP_1] [OP_RETURN, 1, 7] \<noteq> Some (Inr ())"
  by (rule unspendable_never_verifies) (simp add: IsUnspendable_def)

text \<open>C34: \<^verbatim>\<open>OP_CHECKMULTISIG\<close> decides what it stands for: when the encodings are acceptable, its loop, which never goes
  back to a key and stops as soon as too few keys are left, succeeds exactly when the signatures are valid, in order,
  for some subsequence of the keys.\<close>

theorem multisig_decides_matching:
  assumes "\<forall>sig\<in>set sigs. CheckSignatureEncoding env sig flags = Inr ()"
    and "\<forall>key\<in>set keys. CheckPubKeyEncoding key flags = Inr ()"
  shows "multisig_loop env flags code sigs keys =
    Inr (\<exists>ks. subseq ks keys \<and> list_all2 (\<lambda>sig key. CheckSig env sig key code) sigs ks)"
  using multisig_loop_matches[OF assms] by (simp add: multisig_matches_def)

theorem multisig_decides_matching_witness:
  "multisig_loop demo_env 0 [] [[5, 1], [9, 1]] [[5], [7], [9]] = Inr True \<and>
   (\<exists>ks. subseq ks [[5], [7], [9]] \<and> list_all2 (\<lambda>sig key. CheckSig demo_env sig key []) [[5, 1], [9, 1]] ks)"
proof -
  have enc: "CheckSignatureEncoding demo_env sig 0 = Inr ()" "CheckPubKeyEncoding key 0 = Inr ()" for sig key
    by (simp_all add: CheckSignatureEncoding_def CheckPubKeyEncoding_def has_flag_def)
  then have "multisig_loop demo_env 0 [] [[5, 1], [9, 1]] [[5], [7], [9]] = Inr True"
    by (simp add: demo_env_def)
  then show ?thesis using multisig_decides_matching[of "[[5, 1], [9, 1]]" demo_env 0 "[[5], [7], [9]]" "[]"] enc by simp
qed

text \<open>C33: spending a pay-to-public-key-hash output with a signature and a key succeeds exactly when the key hashes to the
  output's hash, both encodings are acceptable under the flags, and the checker accepts the signature for the whole
  output script; this holds for every set of flags that asks for a clean stack only together with \<^verbatim>\<open>P2SH\<close>.\<close>

theorem p2pkh_spend_iff:
  assumes "length h = 20" "sig \<noteq> h" "2 \<le> length sig" "length sig \<le> 520" "2 \<le> length key" "length key \<le> 520"
    and "has_flag flags SCRIPT_VERIFY_CLEANSTACK \<longrightarrow> has_flag flags SCRIPT_VERIFY_P2SH"
  shows "VerifyScript env flags (push_data sig @ push_data key) (script_for_key h) = Some (Inr ()) \<longleftrightarrow>
    Hash160 env key = h \<and> CheckSignatureEncoding env sig flags = Inr () \<and> CheckPubKeyEncoding key flags = Inr () \<and>
    CheckSig env sig key (script_for_key h)"
  using VerifyScript_p2pkh[OF assms] .

theorem p2pkh_spend_iff_witness:
  "VerifyScript demo_env 0 (push_data (replicate 34 7) @ push_data (replicate 33 7)) (script_for_key (replicate 20 7)) = Some (Inr ())"
  using p2pkh_spend_iff[of "replicate 20 7" "replicate 34 7" "replicate 33 7" 0 demo_env]
  by (simp add: demo_env_def has_flag_def CheckSignatureEncoding_def CheckPubKeyEncoding_def numeral_eq_Suc)

end
