(* ===== verification/SigHash.thy ===== *)
theory SigHash
  imports Transaction ScriptRules
begin

text \<open>
  What a signature signs, and the checker that the interpreter is run with for the input of a transaction:
  \<^verbatim>\<open>CTransactionSignatureSerializer\<close>, \<^verbatim>\<open>SignatureHash\<close> and \<^verbatim>\<open>TransactionSignatureChecker\<close> of \<^verbatim>\<open>script/interpreter.cpp\<close>, and the
  syntactic checks of \<^verbatim>\<open>CPubKey\<close>. The verification of an ECDSA signature (\<^verbatim>\<open>CPubKey::Verify\<close>, which calls libsecp256k1)
  and the hash functions are parameters.
\<close>

section \<open>Public keys\<close>

definition GetLen :: "byte \<Rightarrow> nat" where
  "GetLen chHeader = (if chHeader = 2 \<or> chHeader = 3 then 33
     else if chHeader = 4 \<or> chHeader = 6 \<or> chHeader = 7 then 65 else 0)"

text \<open>\<^verbatim>\<open>CPubKey::Set\<close>; the empty list stands for the invalid key, whose first byte is \<^verbatim>\<open>0xFF\<close>.\<close>

definition CPubKey_Set :: "valtype \<Rightarrow> valtype" where
  "CPubKey_Set vch =
     (let len = (if vch = [] then 0 else GetLen (vch ! 0))
      in if len \<noteq> 0 \<and> len = length vch then vch else [])"

definition CPubKey_size :: "valtype \<Rightarrow> nat" where
  "CPubKey_size pubkey = (if pubkey = [] then 0 else GetLen (pubkey ! 0))"

definition CPubKey_IsValid :: "valtype \<Rightarrow> bool" where
  "CPubKey_IsValid pubkey \<longleftrightarrow> CPubKey_size pubkey > 0"

section \<open>The signature serializer\<close>

text \<open>The two loops of \<^verbatim>\<open>SerializeScriptCode\<close> over the instructions\<close>

definition nCodeSeparators :: "CScript \<Rightarrow> nat" where
  "nCodeSeparators scriptCode = length (filter (\<lambda>(opcode, d). opcode = OP_CODESEPARATOR) (fst (script_ops scriptCode)))"

function script_code_loop :: "CScript \<Rightarrow> CScript \<Rightarrow> byte list" where
  "script_code_loop itBegin it = (case GetOp it of
      None \<Rightarrow> if itBegin \<noteq> [] then take (length itBegin - length (GetOp_stop it)) itBegin else []
    | Some (opcode, d, it') \<Rightarrow>
        if opcode = OP_CODESEPARATOR
        then take (length itBegin - length it' - 1) itBegin @ script_code_loop it' it'
        else script_code_loop itBegin it')"
  by pat_completeness auto
termination
  by (relation "measure (\<lambda>(itBegin, it). length it)") (auto dest: GetOp_shorter)

declare script_code_loop.simps [simp del]

definition SerializeScriptCode :: "CScript \<Rightarrow> byte list" where
  "SerializeScriptCode scriptCode =
     WriteCompactSize (length scriptCode - nCodeSeparators scriptCode) @ script_code_loop scriptCode scriptCode"

definition fAnyoneCanPay :: "int \<Rightarrow> bool" where
  "fAnyoneCanPay nHashType \<longleftrightarrow> nHashType AND 0x80 \<noteq> 0"

definition fHashSingle :: "int \<Rightarrow> bool" where
  "fHashSingle nHashType \<longleftrightarrow> nHashType AND 0x1f = int (unat SIGHASH_SINGLE)"

definition fHashNone :: "int \<Rightarrow> bool" where
  "fHashNone nHashType \<longleftrightarrow> nHashType AND 0x1f = int (unat SIGHASH_NONE)"

definition SerializeInput :: "CTransaction \<Rightarrow> CScript \<Rightarrow> nat \<Rightarrow> int \<Rightarrow> nat \<Rightarrow> byte list" where
  "SerializeInput txTo scriptCode nIn nHashType nInput0 =
     (let nInput = (if fAnyoneCanPay nHashType then nIn else nInput0) in
      Serialize_COutPoint (prevout (vin txTo ! nInput)) @
      (if nInput \<noteq> nIn then Serialize_bytes [] else SerializeScriptCode scriptCode) @
      (if nInput \<noteq> nIn \<and> (fHashSingle nHashType \<or> fHashNone nHashType) then ser_int32 0
       else ser_writedata32 (nSequence (vin txTo ! nInput))))"

definition SerializeOutput :: "CTransaction \<Rightarrow> nat \<Rightarrow> int \<Rightarrow> nat \<Rightarrow> byte list" where
  "SerializeOutput txTo nIn nHashType nOutput =
     (if fHashSingle nHashType \<and> nOutput \<noteq> nIn then Serialize_CTxOut CTxOut_SetNull
      else Serialize_CTxOut (vout txTo ! nOutput))"

definition Serialize_signature :: "CTransaction \<Rightarrow> CScript \<Rightarrow> nat \<Rightarrow> int \<Rightarrow> byte list" where
  "Serialize_signature txTo scriptCode nIn nHashType =
     (let nInputs = (if fAnyoneCanPay nHashType then 1 else length (vin txTo));
          nOutputs = (if fHashNone nHashType then 0 else if fHashSingle nHashType then nIn + 1 else length (vout txTo))
      in ser_int32 (nVersion txTo) @
         WriteCompactSize nInputs @ concat (map (SerializeInput txTo scriptCode nIn nHashType) [0..<nInputs]) @
         WriteCompactSize nOutputs @ concat (map (SerializeOutput txTo nIn nHashType) [0..<nOutputs]) @
         ser_writedata32 (nLockTime txTo))"

definition uint256_one :: uint256 where
  "uint256_one = 1 # replicate 31 0"

definition SignatureHash :: "(byte list \<Rightarrow> uint256) \<Rightarrow> CScript \<Rightarrow> CTransaction \<Rightarrow> nat \<Rightarrow> int \<Rightarrow> uint256" where
  "SignatureHash Hash scriptCode txTo nIn nHashType =
     (if nIn \<ge> length (vin txTo) then uint256_one
      else if fHashSingle nHashType \<and> nIn \<ge> length (vout txTo) then uint256_one
      else Hash (Serialize_signature txTo scriptCode nIn nHashType @ ser_int32 nHashType))"

section \<open>The checker\<close>

definition tx_CheckSig ::
  "(valtype \<Rightarrow> uint256 \<Rightarrow> valtype \<Rightarrow> bool) \<Rightarrow> (byte list \<Rightarrow> uint256) \<Rightarrow> CTransaction \<Rightarrow> nat \<Rightarrow> valtype \<Rightarrow> valtype \<Rightarrow> CScript \<Rightarrow> bool" where
  "tx_CheckSig Verify Hash txTo nIn vchSigIn vchPubKey scriptCode =
     (let pubkey = CPubKey_Set vchPubKey in
      if \<not> CPubKey_IsValid pubkey then False
      else if vchSigIn = [] then False
      else let nHashType = int (unat (last vchSigIn)); vchSig = butlast vchSigIn
           in Verify pubkey (SignatureHash Hash scriptCode txTo nIn nHashType) vchSig)"

definition tx_CheckLockTime :: "CTransaction \<Rightarrow> nat \<Rightarrow> int \<Rightarrow> bool" where
  "tx_CheckLockTime txTo nIn lock =
     (let txLock = int (unat (nLockTime txTo)) in
      if \<not> ((txLock < LOCKTIME_THRESHOLD \<and> lock < LOCKTIME_THRESHOLD) \<or>
            (txLock \<ge> LOCKTIME_THRESHOLD \<and> lock \<ge> LOCKTIME_THRESHOLD)) then False
      else if lock > txLock then False
      else if SEQUENCE_FINAL = nSequence (vin txTo ! nIn) then False
      else True)"

definition tx_CheckSequence :: "CTransaction \<Rightarrow> nat \<Rightarrow> int \<Rightarrow> bool" where
  "tx_CheckSequence txTo nIn seq =
     (let txToSequence = int (unat (nSequence (vin txTo ! nIn)));
          nLockTimeMask = int (unat (SEQUENCE_LOCKTIME_TYPE_FLAG OR SEQUENCE_LOCKTIME_MASK));
          typeFlag = int (unat SEQUENCE_LOCKTIME_TYPE_FLAG) in
      if (word_of_int (nVersion txTo) :: u32) < 2 then False
      else if txToSequence AND SEQUENCE_LOCKTIME_DISABLE_FLAG \<noteq> 0 then False
      else
        let txToSequenceMasked = txToSequence AND nLockTimeMask;
            nSequenceMasked = seq AND nLockTimeMask in
        if \<not> ((txToSequenceMasked < typeFlag \<and> nSequenceMasked < typeFlag) \<or>
              (txToSequenceMasked \<ge> typeFlag \<and> nSequenceMasked \<ge> typeFlag)) then False
        else if nSequenceMasked > txToSequenceMasked then False
        else True)"

text \<open>The environment of the interpreter for input \<open>nIn\<close> of \<open>txTo\<close>; the hash functions are those of \<open>env\<close>.\<close>

definition TransactionSignatureChecker ::
  "(valtype \<Rightarrow> uint256 \<Rightarrow> valtype \<Rightarrow> bool) \<Rightarrow> script_env \<Rightarrow> CTransaction \<Rightarrow> nat \<Rightarrow> script_env" where
  "TransactionSignatureChecker Verify env txTo nIn =
     env\<lparr>CheckSig := tx_CheckSig Verify (Hash256 env) txTo nIn, CheckLockTime := tx_CheckLockTime txTo nIn,
         CheckSequence := tx_CheckSequence txTo nIn\<rparr>"

text \<open>A script that is read to its end and has no separators; the transaction whose plain serialization is signed.\<close>

definition plain_code :: "CScript \<Rightarrow> bool" where
  "plain_code s \<longleftrightarrow> snd (script_ops s) = [] \<and> list_all (\<lambda>(opcode, d). opcode \<noteq> OP_CODESEPARATOR) (fst (script_ops s))"

definition signed_tx :: "CTransaction \<Rightarrow> CScript \<Rightarrow> nat \<Rightarrow> CTransaction" where
  "signed_tx tx code nIn =
     tx\<lparr>vin := map (\<lambda>i. (vin tx ! i)\<lparr>scriptSig := (if i = nIn then code else [])\<rparr>) [0..<length (vin tx)]\<rparr>"

definition demo_tx :: CTransaction where
  "demo_tx = \<lparr>nVersion = 2,
     vin = [\<lparr>prevout = \<lparr>outhash = replicate 32 1, outn = 0\<rparr>, scriptSig = [OP_1], nSequence = 10\<rparr>,
            \<lparr>prevout = \<lparr>outhash = replicate 32 2, outn = 1\<rparr>, scriptSig = [], nSequence = SEQUENCE_FINAL\<rparr>],
     vout = [\<lparr>nValue = 5, scriptPubKey = [OP_1]\<rparr>, \<lparr>nValue = 7, scriptPubKey = [OP_2]\<rparr>], nLockTime = 100\<rparr>"

section \<open>Script code without separators\<close>

lemma script_code_loop_plain:
  assumes "script_ops it = (ops, [])" "\<forall>(opcode, d)\<in>set ops. opcode \<noteq> OP_CODESEPARATOR"
  shows "script_code_loop itBegin it = itBegin"
  using assms
proof (induction it arbitrary: ops rule: length_induct)
  case (1 it)
  show ?case
  proof (cases "GetOp it")
    case None
    then have "it = []" using "1.prems"(1) by (simp add: script_ops.simps[of it])
    then show ?thesis using None by (subst script_code_loop.simps) (simp add: GetOp_stop_def)
  next
    case (Some x)
    obtain opcode d it' where x: "x = (opcode, d, it')" by (cases x)
    obtain ops' where o: "script_ops it' = (ops', [])" "ops = (opcode, d) # ops'"
      using script_ops_push[OF Some[unfolded x]] "1.prems"(1) by (cases "script_ops it'") auto
    then show ?thesis
      using "1.IH" GetOp_shorter[OF Some[unfolded x]] "1.prems"(2) Some x
      by (subst script_code_loop.simps) auto
  qed
qed

lemma SerializeScriptCode_plain:
  assumes "plain_code s"
  shows "SerializeScriptCode s = Serialize_bytes s"
proof -
  obtain ops where o: "script_ops s = (ops, [])" "\<forall>(opcode, d)\<in>set ops. opcode \<noteq> OP_CODESEPARATOR"
    using assms by (cases "script_ops s") (auto simp: plain_code_def list_all_iff)
  have "nCodeSeparators s = 0" using o by (auto simp: nCodeSeparators_def filter_empty_conv)
  then show ?thesis using script_code_loop_plain[OF o] by (simp add: SerializeScriptCode_def Serialize_bytes_def)
qed

section \<open>What is signed\<close>

lemma Serialize_signature_all:
  assumes "\<not> fAnyoneCanPay h" "\<not> fHashSingle h" "\<not> fHashNone h" "plain_code code"
  shows "Serialize_signature tx code nIn h = Serialize_CTransaction (signed_tx tx code nIn)"
proof -
  have "SerializeInput tx code nIn h = (\<lambda>i. Serialize_CTxIn ((vin tx ! i)\<lparr>scriptSig := (if i = nIn then code else [])\<rparr>))"
    using assms by (intro ext) (simp add: SerializeInput_def Serialize_CTxIn_def SerializeScriptCode_plain)
  moreover have "map (SerializeOutput tx nIn h) [0..<length (vout tx)] = map Serialize_CTxOut (vout tx)"
    using assms(2) by (intro nth_equalityI) (simp_all add: SerializeOutput_def)
  ultimately show ?thesis
    using assms by (simp add: Serialize_signature_def Serialize_CTransaction_def Serialize_vector_def signed_tx_def o_def Let_def)
qed

lemma signed_tx_ok: "tx_ok tx \<Longrightarrow> length code \<le> MAX_SIZE \<Longrightarrow> tx_ok (signed_tx tx code nIn)"
  by (auto simp: tx_ok_def signed_tx_def list_all_length txin_ok_def)

lemma signed_tx_eq:
  assumes "signed_tx tx code nIn = signed_tx tx' code' nIn'" "nIn < length (vin tx)" "nIn' < length (vin tx')"
  shows "nVersion tx = nVersion tx' \<and> nLockTime tx = nLockTime tx' \<and> vout tx = vout tx' \<and>
     map prevout (vin tx) = map prevout (vin tx') \<and> map nSequence (vin tx) = map nSequence (vin tx') \<and>
     (code \<noteq> [] \<longrightarrow> nIn = nIn' \<and> code = code')"
proof -
  let ?f = "\<lambda>tx code nIn i. (vin tx ! i)\<lparr>scriptSig := (if i = nIn then code else [])\<rparr>"
  have fields: "nVersion tx = nVersion tx'" "nLockTime tx = nLockTime tx'" "vout tx = vout tx'"
    using arg_cong[OF assms(1), of nVersion] arg_cong[OF assms(1), of nLockTime] arg_cong[OF assms(1), of vout]
    by (simp_all add: signed_tx_def)
  have v: "map (?f tx code nIn) [0..<length (vin tx)] = map (?f tx' code' nIn') [0..<length (vin tx')]"
    using arg_cong[OF assms(1), of vin] by (simp add: signed_tx_def)
  have len: "length (vin tx) = length (vin tx')" using arg_cong[OF v, of length] by simp
  have i: "?f tx code nIn i = ?f tx' code' nIn' i" if "i < length (vin tx)" for i
    using arg_cong[OF v, of "\<lambda>l. l ! i"] that len by simp
  have p: "prevout (vin tx ! i) = prevout (vin tx' ! i)" "nSequence (vin tx ! i) = nSequence (vin tx' ! i)"
    if "i < length (vin tx)" for i
    using arg_cong[OF i[OF that], of prevout] arg_cong[OF i[OF that], of nSequence] by simp_all
  have "map prevout (vin tx) = map prevout (vin tx')" "map nSequence (vin tx) = map nSequence (vin tx')"
    using len p by (auto intro: nth_equalityI)
  moreover have "code = (if nIn = nIn' then code' else [])"
    using arg_cong[OF i[OF assms(2)], of scriptSig] by simp
  then have "code \<noteq> [] \<longrightarrow> nIn = nIn' \<and> code = code'" by (cases "nIn = nIn'") simp_all
  ultimately show ?thesis using fields by blast
qed

section \<open>Properties\<close>

text \<open>C29: a signature with the hash type \<^verbatim>\<open>SIGHASH_ALL\<close> commits to the whole transaction: if the messages hashed for two inputs are
  equal (both with a hash type that is neither \<^verbatim>\<open>NONE\<close>, \<^verbatim>\<open>SINGLE\<close> nor \<^verbatim>\<open>ANYONECANPAY\<close>, both for a script code without
  separators), then the transactions agree in version, lock time, all outputs, all spent outpoints and all sequence
  numbers, the hash types are equal, and the same script code is signed at the same input.\<close>

theorem sighash_all_commits:
  assumes "tx_ok tx" "tx_ok tx'" "nIn < length (vin tx)" "nIn' < length (vin tx')"
    and "plain_code code" "plain_code code'" "length code \<le> MAX_SIZE" "length code' \<le> MAX_SIZE"
    and "int32_ok h" "int32_ok h'" "\<not> fAnyoneCanPay h" "\<not> fHashSingle h" "\<not> fHashNone h"
    and "\<not> fAnyoneCanPay h'" "\<not> fHashSingle h'" "\<not> fHashNone h'"
    and eq: "Serialize_signature tx code nIn h @ ser_int32 h = Serialize_signature tx' code' nIn' h' @ ser_int32 h'"
  shows "nVersion tx = nVersion tx' \<and> nLockTime tx = nLockTime tx' \<and> vout tx = vout tx' \<and>
     map prevout (vin tx) = map prevout (vin tx') \<and> map nSequence (vin tx) = map nSequence (vin tx') \<and>
     h = h' \<and> (code \<noteq> [] \<longrightarrow> nIn = nIn' \<and> code = code')"
proof -
  have "signed_tx tx code nIn = signed_tx tx' code' nIn' \<and> ser_int32 h = ser_int32 h'"
    by (rule tx.prefix_free[OF signed_tx_ok[OF assms(1,7)] signed_tx_ok[OF assms(2,8)]])
       (use eq assms Serialize_signature_all in simp)
  moreover from this have "h = h'" using int32.prefix_free[OF assms(9,10), of "[]" "[]"] by simp
  ultimately show ?thesis using signed_tx_eq[OF _ assms(3,4)] by blast
qed

theorem sighash_all_commits_witness:
  "\<not> (Serialize_signature demo_tx [OP_1] 0 1 @ ser_int32 1 = Serialize_signature demo_tx [OP_1] 1 1 @ ser_int32 1)"
proof
  assume eq: "Serialize_signature demo_tx [OP_1] 0 1 @ ser_int32 1 = Serialize_signature demo_tx [OP_1] 1 1 @ ser_int32 1"
  have n: "script_ops [] = ([], [])" by (simp add: script_ops.simps[of "[]"] GetOp_def)
  have "script_ops [OP_1] = ([(OP_1, [])], [])"
    by (rule script_ops_push[OF GetOp_opcode n]) (simp add: opcode_defs)
  then have p: "plain_code [OP_1]" by (simp add: plain_code_def opcode_defs)
  have t: "tx_ok demo_tx" by (simp add: tx_ok_def demo_tx_def int32_ok_def int64_ok_def txin_ok_def txout_ok_def outpoint_ok_def MAX_SIZE_def)
  have l: "0 < length (vin demo_tx)" "1 < length (vin demo_tx)" by (simp_all add: demo_tx_def)
  have "(0::nat) = 1"
    using sighash_all_commits[OF t t l p p _ _ _ _ _ _ _ _ _ _ eq]
    by (simp add: MAX_SIZE_def int32_ok_def fAnyoneCanPay_def fHashSingle_def fHashNone_def SIGHASH_SINGLE_def SIGHASH_NONE_def)
  then show False by simp
qed

text \<open>C30: the other hash types leave out what they promise. With \<^verbatim>\<open>ANYONECANPAY\<close> the hash does not depend on the other
  inputs (nor on how many there are); with \<^verbatim>\<open>NONE\<close> it depends neither on the outputs nor on the sequence numbers of the
  other inputs; with \<^verbatim>\<open>SINGLE\<close> it depends, of the outputs, only on the one at the index of the input. No hash type makes
  it depend on the signature scripts.\<close>

theorem sighash_leaves_out:
  assumes "nIn < length (vin tx)" "nIn < length (vin tx')" "nVersion tx = nVersion tx'" "nLockTime tx = nLockTime tx'"
    and "prevout (vin tx ! nIn) = prevout (vin tx' ! nIn)" "nSequence (vin tx ! nIn) = nSequence (vin tx' ! nIn)"
    and inputs: "fAnyoneCanPay h \<or> map prevout (vin tx) = map prevout (vin tx') \<and>
       (map nSequence (vin tx) = map nSequence (vin tx') \<or> fHashNone h \<or> fHashSingle h)"
    and outputs: "vout tx = vout tx' \<or> fHashNone h \<or>
       fHashSingle h \<and> nIn < length (vout tx) \<and> nIn < length (vout tx') \<and> vout tx ! nIn = vout tx' ! nIn"
  shows "SignatureHash Hash code tx nIn h = SignatureHash Hash code tx' nIn h"
proof -
  let ?ni = "\<lambda>tx. if fAnyoneCanPay h then 1 else length (vin tx)"
  let ?no = "\<lambda>tx. if fHashNone h then 0 else if fHashSingle h then nIn + 1 else length (vout tx)"
  have exclusive: "\<not> (fHashNone h \<and> fHashSingle h)"
    by (auto simp: fHashNone_def fHashSingle_def SIGHASH_SINGLE_def SIGHASH_NONE_def)
  have ni: "?ni tx = ?ni tx'" using inputs by (auto dest: arg_cong[where f = length])
  have no: "?no tx = ?no tx'" using outputs by auto
  have si: "SerializeInput tx code nIn h i = SerializeInput tx' code nIn h i" if "i < ?ni tx" for i
  proof (cases "fAnyoneCanPay h")
    case False
    then have "i < length (vin tx)" "i < length (vin tx')" using that ni by simp_all
    then have "prevout (vin tx ! i) = prevout (vin tx' ! i)"
      "nSequence (vin tx ! i) = nSequence (vin tx' ! i) \<or> fHashNone h \<or> fHashSingle h"
      using inputs False by (metis nth_map)+
    then show ?thesis using assms(5,6) False by (auto simp: SerializeInput_def)
  qed (use assms(5,6) in \<open>simp add: SerializeInput_def\<close>)
  have so: "SerializeOutput tx nIn h i = SerializeOutput tx' nIn h i" if "i < ?no tx" for i
    using that outputs exclusive by (auto simp: SerializeOutput_def split: if_splits)
  have mi: "map (SerializeInput tx code nIn h) [0..<?ni tx] = map (SerializeInput tx' code nIn h) [0..<?ni tx']"
    by (rule map_cong) (use ni si in auto)
  have mo: "map (SerializeOutput tx nIn h) [0..<?no tx] = map (SerializeOutput tx' nIn h) [0..<?no tx']"
    by (rule map_cong) (use no so in auto)
  have "Serialize_signature tx code nIn h = Serialize_signature tx' code nIn h"
    unfolding Serialize_signature_def Let_def mi mo unfolding ni no assms(3,4) by (rule refl)
  moreover have "fHashSingle h \<and> nIn \<ge> length (vout tx) \<longleftrightarrow> fHashSingle h \<and> nIn \<ge> length (vout tx')"
    using outputs exclusive by auto
  ultimately show ?thesis using assms(1,2) by (simp add: SignatureHash_def)
qed

theorem sighash_leaves_out_witness:
  "SignatureHash (take 32) [OP_1] demo_tx 0 0x82 = SignatureHash (take 32) [OP_1] (demo_tx\<lparr>vin := [vin demo_tx ! 0], vout := []\<rparr>) 0 0x82"
  by (rule sighash_leaves_out) (simp_all add: demo_tx_def fAnyoneCanPay_def fHashNone_def SIGHASH_NONE_def)

end
