(* ===== verification/ArithUint256.thy ===== *)
theory ArithUint256
  imports Uint256
begin

text \<open>
  The unsigned 256-bit integers of \<^verbatim>\<open>arith_uint256.h\<close> and \<^verbatim>\<open>arith_uint256.cpp\<close>. A \<^verbatim>\<open>base_uint\<close>
  is the array \<^verbatim>\<open>pn\<close> of \<^verbatim>\<open>WIDTH\<close> 32-bit limbs, least significant first; every loop of the
  code over the limbs is a recursion over that list, with the 64-bit intermediate values and
  their carries kept at their width. \<open>pn_val\<close> is the number a limb list stands for, and the
  lemmas show that the limb code computes the arithmetic of numbers modulo \<open>2 ^ 256\<close>. The contract
  the clients use is the locale \<open>big_uint\<close>, interpreted at the end on the limb code.
\<close>

type_synonym base_uint = "u32 list"

section \<open>Construction and bitwise operators\<close>

definition WIDTH :: nat where
  "WIDTH = 256 div 32"

definition bu_zero :: base_uint where
  "bu_zero = replicate WIDTH 0"

text \<open>\<^verbatim>\<open>base_uint(uint64_t b)\<close> and \<^verbatim>\<open>operator=(uint64_t b)\<close>\<close>

definition bu_of_u64 :: "u64 \<Rightarrow> base_uint" where
  "bu_of_u64 b = ucast b # ucast (drop_bit 32 b) # replicate (WIDTH - 2) 0"

text \<open>\<^verbatim>\<open>operator!\<close>\<close>

definition bu_is_zero :: "base_uint \<Rightarrow> bool" where
  "bu_is_zero a \<longleftrightarrow> list_all (\<lambda>x. x = 0) a"

text \<open>\<^verbatim>\<open>operator~\<close>\<close>

definition bu_not :: "base_uint \<Rightarrow> base_uint" where
  "bu_not a = map (\<lambda>x. NOT x) a"

text \<open>\<^verbatim>\<open>operator^=\<close>, \<^verbatim>\<open>operator&=\<close> and \<^verbatim>\<open>operator|=\<close>\<close>

definition bu_xor :: "base_uint \<Rightarrow> base_uint \<Rightarrow> base_uint" where
  "bu_xor a b = map2 (XOR) a b"

definition bu_and :: "base_uint \<Rightarrow> base_uint \<Rightarrow> base_uint" where
  "bu_and a b = map2 (AND) a b"

definition bu_or :: "base_uint \<Rightarrow> base_uint \<Rightarrow> base_uint" where
  "bu_or a b = map2 (OR) a b"

section \<open>Increment, decrement, negation, addition\<close>

text \<open>\<^verbatim>\<open>operator++\<close>: \<^verbatim>\<open>while (++pn[i] == 0 && i < WIDTH-1) i++;\<close>\<close>

fun bu_inc :: "base_uint \<Rightarrow> base_uint" where
  "bu_inc [] = []"
| "bu_inc (x # xs) = (if x + 1 = 0 then (x + 1) # bu_inc xs else (x + 1) # xs)"

text \<open>\<^verbatim>\<open>operator--\<close>: \<^verbatim>\<open>while (--pn[i] == (uint32_t)-1 && i < WIDTH-1) i++;\<close>\<close>

fun bu_dec :: "base_uint \<Rightarrow> base_uint" where
  "bu_dec [] = []"
| "bu_dec (x # xs) = (if x - 1 = -1 then (x - 1) # bu_dec xs else (x - 1) # xs)"

text \<open>Unary \<^verbatim>\<open>operator-\<close>\<close>

definition bu_neg :: "base_uint \<Rightarrow> base_uint" where
  "bu_neg a = bu_inc (bu_not a)"

text \<open>\<^verbatim>\<open>operator+=\<close>, with the 64-bit sum \<open>n\<close> and its carry\<close>

fun bu_add_carry :: "u64 \<Rightarrow> base_uint \<Rightarrow> base_uint \<Rightarrow> base_uint" where
  "bu_add_carry carry (x # xs) (y # ys) =
     (let n = carry + ucast x + ucast y
      in ucast (n AND 0xffffffff) # bu_add_carry (drop_bit 32 n) xs ys)"
| "bu_add_carry carry _ _ = []"

definition bu_add :: "base_uint \<Rightarrow> base_uint \<Rightarrow> base_uint" where
  "bu_add a b = bu_add_carry 0 a b"

definition bu_sub :: "base_uint \<Rightarrow> base_uint \<Rightarrow> base_uint" where
  "bu_sub a b = bu_add a (bu_neg b)"

definition bu_add_u64 :: "base_uint \<Rightarrow> u64 \<Rightarrow> base_uint" where
  "bu_add_u64 a b64 = bu_add a (bu_of_u64 b64)"

definition bu_sub_u64 :: "base_uint \<Rightarrow> u64 \<Rightarrow> base_uint" where
  "bu_sub_u64 a b64 = bu_add a (bu_neg (bu_of_u64 b64))"

section \<open>Multiplication\<close>

text \<open>\<^verbatim>\<open>operator*=(uint32_t b32)\<close>\<close>

fun bu_mul32_carry :: "u64 \<Rightarrow> u32 \<Rightarrow> base_uint \<Rightarrow> base_uint" where
  "bu_mul32_carry carry b32 [] = []"
| "bu_mul32_carry carry b32 (x # xs) =
     (let n = carry + ucast b32 * ucast x
      in ucast (n AND 0xffffffff) # bu_mul32_carry (drop_bit 32 n) b32 xs)"

definition bu_mul32 :: "base_uint \<Rightarrow> u32 \<Rightarrow> base_uint" where
  "bu_mul32 a b32 = bu_mul32_carry 0 b32 a"

text \<open>The inner loop of \<^verbatim>\<open>operator*=(const base_uint& b)\<close>: row \<open>j\<close> adds \<open>a.pn[j] * b\<close> to the limbs
  \<open>pn[j], pn[j+1], \<dots>\<close> that are left.\<close>

fun bu_mul_row :: "u64 \<Rightarrow> u32 \<Rightarrow> base_uint \<Rightarrow> base_uint \<Rightarrow> base_uint" where
  "bu_mul_row carry aj (p # ps) (y # ys) =
     (let n = carry + ucast p + ucast aj * ucast y
      in ucast (n AND 0xffffffff) # bu_mul_row (drop_bit 32 n) aj ps ys)"
| "bu_mul_row carry aj ps _ = ps"

text \<open>The outer loop: limb \<open>pn[j]\<close> is final after row \<open>j\<close>, the later rows work on the rest.\<close>

fun bu_mul_rows :: "base_uint \<Rightarrow> base_uint \<Rightarrow> base_uint \<Rightarrow> base_uint" where
  "bu_mul_rows (aj # as) b pn =
     (case bu_mul_row 0 aj pn b of [] \<Rightarrow> [] | p # ps \<Rightarrow> p # bu_mul_rows as b ps)"
| "bu_mul_rows [] b pn = pn"

definition bu_mul :: "base_uint \<Rightarrow> base_uint \<Rightarrow> base_uint" where
  "bu_mul a b = bu_mul_rows a b bu_zero"

section \<open>Shifts\<close>

text \<open>\<^verbatim>\<open>operator<<=\<close>: one iteration of the loop, on the array \<open>pn\<close>.\<close>

definition bu_shl_step :: "base_uint \<Rightarrow> nat \<Rightarrow> nat \<Rightarrow> nat \<Rightarrow> base_uint \<Rightarrow> base_uint" where
  "bu_shl_step a k s i pn =
     (let pn1 = (if i + k + 1 < WIDTH \<and> s \<noteq> 0
                 then pn[i + k + 1 := pn ! (i + k + 1) OR drop_bit (32 - s) (a ! i)] else pn)
      in if i + k < WIDTH then pn1[i + k := pn1 ! (i + k) OR push_bit s (a ! i)] else pn1)"

definition bu_shl :: "base_uint \<Rightarrow> nat \<Rightarrow> base_uint" where
  "bu_shl a shift = fold (bu_shl_step a (shift div 32) (shift mod 32)) [0..<WIDTH] bu_zero"

text \<open>\<^verbatim>\<open>operator>>=\<close>\<close>

definition bu_shr_step :: "base_uint \<Rightarrow> nat \<Rightarrow> nat \<Rightarrow> nat \<Rightarrow> base_uint \<Rightarrow> base_uint" where
  "bu_shr_step a k s i pn =
     (let pn1 = (if i \<ge> k + 1 \<and> s \<noteq> 0
                 then pn[i - k - 1 := pn ! (i - k - 1) OR push_bit (32 - s) (a ! i)] else pn)
      in if i \<ge> k then pn1[i - k := pn1 ! (i - k) OR drop_bit s (a ! i)] else pn1)"

definition bu_shr :: "base_uint \<Rightarrow> nat \<Rightarrow> base_uint" where
  "bu_shr a shift = fold (bu_shr_step a (shift div 32) (shift mod 32)) [0..<WIDTH] bu_zero"

section \<open>Comparison and bit length\<close>

text \<open>\<^verbatim>\<open>CompareTo\<close> walks from the most significant limb down.\<close>

fun bu_cmp_from :: "base_uint \<Rightarrow> base_uint \<Rightarrow> int" where
  "bu_cmp_from (x # xs) (y # ys) = (if x < y then -1 else if x > y then 1 else bu_cmp_from xs ys)"
| "bu_cmp_from _ _ = 0"

definition CompareTo :: "base_uint \<Rightarrow> base_uint \<Rightarrow> int" where
  "CompareTo a b = bu_cmp_from (rev a) (rev b)"

definition EqualTo :: "base_uint \<Rightarrow> u64 \<Rightarrow> bool" where
  "EqualTo a b \<longleftrightarrow> list_all (\<lambda>x. x = 0) (drop 2 a) \<and> ucast (a ! 1) = drop_bit 32 b
     \<and> ucast (a ! 0) = b AND 0xffffffff"

text \<open>The two nested loops of \<^verbatim>\<open>bits()\<close>: the highest set bit of the highest non-zero limb.\<close>

fun limb_bits :: "u32 \<Rightarrow> nat \<Rightarrow> nat" where
  "limb_bits x 0 = 1"
| "limb_bits x (Suc b) = (if x AND push_bit (Suc b) 1 \<noteq> 0 then Suc b + 1 else limb_bits x b)"

fun bu_bits_from :: "base_uint \<Rightarrow> nat" where
  "bu_bits_from [] = 0"
| "bu_bits_from (x # xs) = (if x \<noteq> 0 then 32 * length xs + limb_bits x 31 else bu_bits_from xs)"

definition bu_bits :: "base_uint \<Rightarrow> nat" where
  "bu_bits a = bu_bits_from (rev a)"

definition GetLow64 :: "base_uint \<Rightarrow> u64" where
  "GetLow64 a = ucast (a ! 0) OR push_bit 32 (ucast (a ! 1))"

section \<open>Division\<close>

text \<open>One pass of the loop of \<^verbatim>\<open>operator/=\<close> for a given \<open>shift\<close>, then the passes down to 0.\<close>

fun bu_div_loop :: "nat \<Rightarrow> base_uint \<Rightarrow> base_uint \<Rightarrow> base_uint \<Rightarrow> base_uint" where
  "bu_div_loop shift num dv q =
     (let (num', q') = (if CompareTo num dv \<ge> 0
            then (bu_sub num dv, q[shift div 32 := q ! (shift div 32) OR push_bit (shift mod 32) 1])
            else (num, q))
      in case shift of 0 \<Rightarrow> q' | Suc s \<Rightarrow> bu_div_loop s num' (bu_shr dv 1) q')"

declare bu_div_loop.simps [simp del]

text \<open>\<open>None\<close> is the exception \<^verbatim>\<open>uint_error("Division by zero")\<close>.\<close>

definition bu_div :: "base_uint \<Rightarrow> base_uint \<Rightarrow> base_uint option" where
  "bu_div a b =
     (let num_bits = bu_bits a; div_bits = bu_bits b
      in if div_bits = 0 then None
         else if div_bits > num_bits then Some bu_zero
         else let shift = num_bits - div_bits
              in Some (bu_div_loop shift a (bu_shl b shift) bu_zero))"

text \<open>\<^verbatim>\<open>ArithToUint256\<close> and \<^verbatim>\<open>UintToArith256\<close>\<close>

definition ArithToUint256 :: "base_uint \<Rightarrow> uint256" where
  "ArithToUint256 a = concat (map WriteLE32 a)"

definition UintToArith256 :: "uint256 \<Rightarrow> base_uint" where
  "UintToArith256 a = map (\<lambda>x. ReadLE32 (drop (x * 4) a)) [0..<WIDTH]"

section \<open>The number a limb list stands for\<close>

primrec pn_val :: "base_uint \<Rightarrow> nat" where
  "pn_val [] = 0"
| "pn_val (x # xs) = unat x + 2 ^ 32 * pn_val xs"

definition bu_ok :: "base_uint \<Rightarrow> bool" where
  "bu_ok a \<longleftrightarrow> length a = WIDTH"

abbreviation pn_mod :: "base_uint \<Rightarrow> nat" where
  "pn_mod xs \<equiv> 2 ^ (32 * length xs)"

lemma WIDTH_eq [simp]: "WIDTH = 8"
  by (simp add: WIDTH_def)

lemma pn_val_less: "pn_val xs < pn_mod xs"
proof (induction xs)
  case (Cons x xs)
  have "unat x < 4294967296" by (rule unat_u32_less)
  moreover have "pn_mod (x # xs) = 4294967296 * pn_mod xs" by (simp add: power_add)
  moreover have "pn_val (x # xs) = unat x + 4294967296 * pn_val xs" by simp
  ultimately show ?case using Cons by linarith
qed simp

lemma pn_val_append: "pn_val (xs @ ys) = pn_val xs + pn_mod xs * pn_val ys"
  by (induction xs) (auto simp: power_add algebra_simps)

lemma pn_val_replicate0 [simp]: "pn_val (replicate n 0) = 0"
  by (induction n) auto

lemma pn_val_zero [simp]: "pn_val bu_zero = 0"
  by (simp only: bu_zero_def pn_val_replicate0)

lemma pn_val_eq_0_iff: "pn_val a = 0 \<longleftrightarrow> list_all (\<lambda>x. x = 0) a"
  by (induction a) (auto simp: unat_eq_zero)

text \<open>One limb of a carried computation: the low 32 bits are stored, the rest is carried on.\<close>

lemma limb_step:
  "n mod 2 ^ 32 + 2 ^ 32 * ((n div 2 ^ 32 + r) mod 2 ^ k) = (n + 2 ^ 32 * r) mod (2::nat) ^ (32 + k)"
proof -
  have "(n + 2 ^ 32 * r) mod (2 ^ 32 * 2 ^ k) = 2 ^ 32 * ((n + 2 ^ 32 * r) div 2 ^ 32 mod 2 ^ k) + (n + 2 ^ 32 * r) mod 2 ^ 32"
    by (rule mod_mult2_eq)
  then show ?thesis by (simp add: power_add add.commute mult.commute)
qed

lemma unat_low32: "unat (ucast (n AND 0xffffffff) :: u32) = unat (n :: u64) mod 2 ^ 32"
proof -
  have "n AND 0xffffffff = n AND mask 32" by (simp add: mask_eq_exp_minus_1)
  then show ?thesis by (simp add: unat_ucast_mod unat_and_mask)
qed

lemma unat_high32: "unat (drop_bit 32 (n :: u64)) = unat n div 2 ^ 32"
  by (rule unat_shiftr)

lemma high32_less: "unat (drop_bit 32 (n :: u64)) < 2 ^ 32"
  using unat_u64_less[of n] by (simp add: unat_high32 div_less_iff_less_mult)

lemma unat_ucast64: "unat (ucast (x :: u32) :: u64) = unat x"
  by (rule unat_ucast_up) simp

lemma unat_add_exact: "unat a + unat b < 2 ^ LENGTH('a) \<Longrightarrow> unat (a + b :: 'a::len word) = unat a + unat b"
  by (simp add: unat_word_ariths)

lemma unat_mul_exact: "unat a * unat b < 2 ^ LENGTH('a) \<Longrightarrow> unat (a * b :: 'a::len word) = unat a * unat b"
  by (simp add: unat_word_ariths)

lemma limb_prod_le: "unat (x::u32) * unat (y::u32) \<le> (2 ^ 32 - 1) * (2 ^ 32 - 1)"
  using unat_u32_less[of x] unat_u32_less[of y] by (intro mult_le_mono) auto

section \<open>Addition, negation, subtraction\<close>

lemma bu_add_carry_val:
  assumes "length xs = length ys" "unat carry < 2 ^ 32"
  shows "pn_val (bu_add_carry carry xs ys) = (unat carry + pn_val xs + pn_val ys) mod pn_mod xs"
  using assms
proof (induction xs ys arbitrary: carry rule: list_induct2)
  case (Cons x xs y ys)
  define n :: u64 where "n = carry + ucast x + ucast y"
  have c: "unat (carry + ucast x) = unat carry + unat x"
    using Cons.prems unat_u32_less[of x] by (subst unat_add_exact) (auto simp: unat_ucast64)
  have n: "unat n = unat carry + unat x + unat y"
    unfolding n_def using Cons.prems unat_u32_less[of x] unat_u32_less[of y] c
    by (subst unat_add_exact) (auto simp: unat_ucast64)
  have "pn_val (bu_add_carry carry (x # xs) (y # ys))
      = unat n mod 2 ^ 32 + 2 ^ 32 * ((unat n div 2 ^ 32 + (pn_val xs + pn_val ys)) mod pn_mod xs)"
    using Cons.IH[of "drop_bit 32 n"] high32_less[of n]
    by (simp add: n_def[symmetric] Let_def unat_low32 unat_high32) (simp add: add.assoc)
  also have "\<dots> = (unat n + 2 ^ 32 * (pn_val xs + pn_val ys)) mod 2 ^ (32 + 32 * length xs)"
    by (rule limb_step)
  finally show ?case by (simp add: n algebra_simps)
qed simp

lemma bu_add_carry_length: "length xs = length ys \<Longrightarrow> length (bu_add_carry c xs ys) = length xs"
  by (induction xs ys arbitrary: c rule: list_induct2) (auto simp: Let_def)

lemma bu_add_val: "length a = length b \<Longrightarrow> pn_val (bu_add a b) = (pn_val a + pn_val b) mod pn_mod a"
  unfolding bu_add_def by (subst bu_add_carry_val) auto

lemma bu_inc_length [simp]: "length (bu_inc xs) = length xs"
  by (induction xs) auto

lemma unat_succ: "unat (x + 1 :: u32) = (if x + 1 = 0 then 0 else unat x + 1)"
  using unatSuc[of x] by (auto simp: add.commute)

lemma unat_wrap: "x + 1 = (0::u32) \<Longrightarrow> unat x = 2 ^ 32 - 1"
proof -
  assume "x + 1 = 0"
  then have "x = - 1" by (simp add: eq_neg_iff_add_eq_0)
  then show ?thesis by (simp add: unsigned_minus_1_eq_mask mask_eq_exp_minus_1)
qed

lemma bu_inc_val: "pn_val (bu_inc xs) = (pn_val xs + 1) mod pn_mod xs"
proof (induction xs)
  case (Cons x xs)
  show ?case
  proof (cases "x + 1 = 0")
    case True
    have "pn_val (x # xs) + 1 = 2 ^ 32 * (pn_val xs + 1)"
      using unat_wrap[OF True] by simp
    then have "(pn_val (x # xs) + 1) mod pn_mod (x # xs) = 2 ^ 32 * ((pn_val xs + 1) mod pn_mod xs)"
      by (simp add: power_add mult_mod_right)
    with True Cons show ?thesis by simp
  next
    case False
    then have "pn_val (bu_inc (x # xs)) = pn_val (x # xs) + 1"
      by (simp add: unat_succ)
    moreover have "pn_val (bu_inc (x # xs)) < pn_mod (x # xs)"
      using pn_val_less[of "bu_inc (x # xs)"] by (simp only: bu_inc_length)
    ultimately show ?thesis by simp
  qed
qed simp

lemma bu_not_val: "pn_val (bu_not xs) + pn_val xs + 1 = pn_mod xs"
proof (induction xs)
  case (Cons x xs)
  have "unat (NOT x) + unat x + 1 = 2 ^ 32"
    using unat_or_disjoint[of x "NOT x"] by (simp add: unsigned_minus_1_eq_mask mask_eq_exp_minus_1)
  with Cons show ?case by (simp add: bu_not_def power_add algebra_simps)
qed (simp add: bu_not_def)

lemma bu_not_length [simp]: "length (bu_not xs) = length xs"
  by (simp add: bu_not_def)

lemma bu_neg_length [simp]: "length (bu_neg xs) = length xs"
  by (simp add: bu_neg_def)

lemma bu_add_length [simp]: "length a = length b \<Longrightarrow> length (bu_add a b) = length b"
  by (simp add: bu_add_def bu_add_carry_length)

lemma bu_sub_length [simp]: "length a = length b \<Longrightarrow> length (bu_sub a b) = length b"
  by (simp add: bu_sub_def)

lemma bu_neg_val: "pn_val (bu_neg xs) = (pn_mod xs - pn_val xs) mod pn_mod xs"
proof -
  have "pn_val (bu_not xs) + 1 = pn_mod xs - pn_val xs"
    using bu_not_val[of xs] by linarith
  then show ?thesis by (simp add: bu_neg_def bu_inc_val)
qed

lemma bu_sub_val:
  assumes "length a = length b"
  shows "pn_val (bu_sub a b) = (pn_val a + (pn_mod a - pn_val b)) mod pn_mod a"
  using assms by (simp add: bu_sub_def bu_add_val bu_neg_val mod_add_right_eq)

lemma bu_sub_val_le:
  assumes "length a = length b" "pn_val b \<le> pn_val a"
  shows "pn_val (bu_sub a b) = pn_val a - pn_val b"
proof -
  have "pn_val a + (pn_mod a - pn_val b) = pn_mod a + (pn_val a - pn_val b)"
    using assms(2) pn_val_less[of a] by linarith
  then have "pn_val (bu_sub a b) = (pn_mod a + (pn_val a - pn_val b)) mod pn_mod a"
    using bu_sub_val[OF assms(1)] by (simp only:)
  also have "\<dots> = pn_val a - pn_val b"
    using pn_val_less[of a] by (simp add: less_imp_diff_less)
  finally show ?thesis .
qed

lemma bu_dec_length [simp]: "length (bu_dec xs) = length xs"
  by (induction xs) auto

lemma bu_inc_dec: "bu_inc (bu_dec xs) = xs"
  by (induction xs) auto

lemma bu_dec_inc: "bu_dec (bu_inc xs) = xs"
  by (induction xs) (auto simp: eq_neg_iff_add_eq_0 eq_commute[of "- 1"])

section \<open>Multiplication\<close>

lemma bu_mul32_carry_length [simp]: "length (bu_mul32_carry c b xs) = length xs"
  by (induction xs arbitrary: c) (auto simp: Let_def)

lemma mul_limb_exact:
  assumes "unat (carry :: u64) < 2 ^ 32"
  shows "unat (carry + ucast (p::u32) + ucast (x::u32) * ucast (y::u32)) = unat carry + unat p + unat x * unat y"
proof -
  have le: "unat x * unat y \<le> 18446744065119617025"
    using limb_prod_le[of x y] by simp
  then have m: "unat (ucast x * ucast y :: u64) = unat x * unat y"
    by (subst unat_mul_exact) (auto simp: unat_ucast64)
  have c: "unat (carry + ucast p) = unat carry + unat p"
    using assms unat_u32_less[of p] by (subst unat_add_exact) (auto simp: unat_ucast64)
  show ?thesis using assms unat_u32_less[of p] le
    by (subst unat_add_exact) (simp_all only: m c, simp_all)
qed

lemma bu_mul32_carry_val:
  "unat carry < 2 ^ 32 \<Longrightarrow>
     pn_val (bu_mul32_carry carry b xs) = (unat carry + unat b * pn_val xs) mod pn_mod xs"
proof (induction xs arbitrary: carry)
  case (Cons x xs)
  define n :: u64 where "n = carry + ucast b * ucast x"
  have n: "unat n = unat carry + unat b * unat x"
    using mul_limb_exact[OF Cons.prems, of 0 b x] by (simp add: n_def)
  have "pn_val (bu_mul32_carry carry b (x # xs))
      = unat n mod 2 ^ 32 + 2 ^ 32 * ((unat n div 2 ^ 32 + unat b * pn_val xs) mod pn_mod xs)"
    using Cons.IH[of "drop_bit 32 n"] high32_less[of n]
    by (simp add: n_def[symmetric] Let_def unat_low32 unat_high32)
  also have "\<dots> = (unat n + 2 ^ 32 * (unat b * pn_val xs)) mod 2 ^ (32 + 32 * length xs)"
    by (rule limb_step)
  finally show ?case by (simp add: n algebra_simps)
qed simp

lemma bu_mul32_length [simp]: "length (bu_mul32 a b) = length a"
  by (simp add: bu_mul32_def)

lemma bu_mul32_val: "pn_val (bu_mul32 a b) = (pn_val a * unat b) mod pn_mod a"
  by (simp add: bu_mul32_def bu_mul32_carry_val mult.commute)

lemma bu_mul_row_length [simp]: "length (bu_mul_row c a ps ys) = length ps"
  by (induction c a ps ys rule: bu_mul_row.induct) (auto simp: Let_def)

lemma bu_mul_row_val:
  "length ps \<le> length ys \<Longrightarrow> unat carry < 2 ^ 32 \<Longrightarrow>
     pn_val (bu_mul_row carry a ps ys) = (unat carry + pn_val ps + unat a * pn_val ys) mod pn_mod ps"
proof (induction ps arbitrary: carry ys)
  case (Cons p ps)
  from Cons.prems(1) obtain y zs where ys: "ys = y # zs" "length ps \<le> length zs"
    by (cases ys) auto
  define n :: u64 where "n = carry + ucast p + ucast a * ucast y"
  have n: "unat n = unat carry + unat p + unat a * unat y"
    unfolding n_def by (rule mul_limb_exact[OF Cons.prems(2)])
  have "pn_val (bu_mul_row carry a (p # ps) ys)
      = unat n mod 2 ^ 32 + 2 ^ 32 * ((unat n div 2 ^ 32 + (pn_val ps + unat a * pn_val zs)) mod pn_mod ps)"
    using Cons.IH[OF ys(2), of "drop_bit 32 n"] high32_less[of n]
    by (simp add: ys(1) n_def[symmetric] Let_def unat_low32 unat_high32) (simp add: add.assoc)
  also have "\<dots> = (unat n + 2 ^ 32 * (pn_val ps + unat a * pn_val zs)) mod 2 ^ (32 + 32 * length ps)"
    by (rule limb_step)
  finally show ?case by (simp add: n ys(1) algebra_simps)
qed simp

lemma bu_mul_rows_length [simp]: "length (bu_mul_rows as b pn) = length pn"
proof (induction as arbitrary: pn)
  case (Cons a as)
  show ?case
    using bu_mul_row_length[of 0 a pn b] Cons by (cases "bu_mul_row 0 a pn b") simp_all
qed simp

lemma bu_mul_rows_val:
  "length as = length pn \<Longrightarrow> length pn \<le> length b \<Longrightarrow>
     pn_val (bu_mul_rows as b pn) = (pn_val pn + pn_val as * pn_val b) mod pn_mod pn"
proof (induction as arbitrary: pn)
  case (Cons a as)
  obtain p ps where row: "bu_mul_row 0 a pn b = p # ps"
    using Cons.prems(1) bu_mul_row_length[of 0 a pn b] by (cases "bu_mul_row 0 a pn b") auto
  have len: "length ps + 1 = length pn" using bu_mul_row_length[of 0 a pn b] row by simp
  have M: "pn_mod pn = 2 ^ 32 * pn_mod ps" by (simp add: len[symmetric] power_add)
  have v: "pn_val (p # ps) = (pn_val pn + unat a * pn_val b) mod pn_mod pn"
    using bu_mul_row_val[of pn b 0 a] Cons.prems(2) row by simp
  have "pn_val (bu_mul_rows (a # as) b pn) = unat p + 2 ^ 32 * ((pn_val ps + pn_val as * pn_val b) mod pn_mod ps)"
    using Cons.IH[of ps] Cons.prems len by (simp add: row)
  also have "\<dots> = (unat p + 2 ^ 32 * (pn_val ps + pn_val as * pn_val b)) mod pn_mod pn"
    using limb_step[of "unat p" "pn_val ps + pn_val as * pn_val b" "32 * length ps"] unat_u32_less[of p]
    by (simp add: M power_add)
  also have "\<dots> = (pn_val (p # ps) + 2 ^ 32 * pn_val as * pn_val b) mod pn_mod pn"
    by (simp add: algebra_simps)
  also have "\<dots> = (pn_val pn + unat a * pn_val b + 2 ^ 32 * pn_val as * pn_val b) mod pn_mod pn"
    by (simp only: v mod_add_left_eq)
  finally show ?case by (simp add: algebra_simps)
qed simp

section \<open>Comparison\<close>

lemma pn_val_rev_Cons: "pn_val (rev (x # xs)) = pn_val (rev xs) + 2 ^ (32 * length xs) * unat x"
  by (simp add: pn_val_append)

lemma pn_digit_less:
  assumes "u < M" "v < M" "x < (y::nat)"
  shows "u + M * x < v + M * y"
proof -
  have "u + M * x < M * (x + 1)" using assms(1) by simp
  also have "\<dots> \<le> M * y" using assms(3) by (intro mult_le_mono) auto
  finally show ?thesis by simp
qed

lemma bu_cmp_from_val:
  "length xs = length ys \<Longrightarrow> bu_cmp_from xs ys =
     (if pn_val (rev xs) < pn_val (rev ys) then -1 else if pn_val (rev xs) > pn_val (rev ys) then 1 else 0)"
proof (induction xs ys rule: list_induct2)
  case (Cons x xs y ys)
  let ?M = "2 ^ (32 * length ys) :: nat"
  have b: "pn_val (rev xs) < ?M" "pn_val (rev ys) < ?M"
    using pn_val_less[of "rev xs"] pn_val_less[of "rev ys"] Cons.hyps by simp_all
  have "x < y \<Longrightarrow> pn_val (rev (x # xs)) < pn_val (rev (y # ys))"
    using pn_digit_less[OF b, of "unat x" "unat y"] Cons.hyps
    by (simp only: pn_val_rev_Cons word_less_nat_alt)
  moreover have "y < x \<Longrightarrow> pn_val (rev (y # ys)) < pn_val (rev (x # xs))"
    using pn_digit_less[OF b(2,1), of "unat y" "unat x"] Cons.hyps
    by (simp only: pn_val_rev_Cons word_less_nat_alt)
  moreover have "x = y \<Longrightarrow> pn_val (rev (x # xs)) < pn_val (rev (y # ys)) \<longleftrightarrow> pn_val (rev xs) < pn_val (rev ys)"
    "x = y \<Longrightarrow> pn_val (rev (x # xs)) > pn_val (rev (y # ys)) \<longleftrightarrow> pn_val (rev xs) > pn_val (rev ys)"
    using Cons.hyps by (simp_all only: pn_val_rev_Cons add_less_cancel_right)
  ultimately show ?case
    using Cons.IH by (cases x y rule: linorder_cases) (auto simp del: rev.simps)
qed simp

lemma CompareTo_val:
  "length a = length b \<Longrightarrow>
     CompareTo a b = (if pn_val a < pn_val b then -1 else if pn_val a > pn_val b then 1 else 0)"
  by (simp add: CompareTo_def bu_cmp_from_val)

lemma pn_val_inject: "length a = length b \<Longrightarrow> pn_val a = pn_val b \<longleftrightarrow> a = b"
proof (induction a b rule: list_induct2)
  case (Cons x xs y ys)
  have "pn_val (x # xs) mod 2 ^ 32 = unat x" "pn_val (x # xs) div 2 ^ 32 = pn_val xs"
    "pn_val (y # ys) mod 2 ^ 32 = unat y" "pn_val (y # ys) div 2 ^ 32 = pn_val ys"
    using unat_u32_less[of x] unat_u32_less[of y] by simp_all
  then have "pn_val (x # xs) = pn_val (y # ys) \<longleftrightarrow> unat x = unat y \<and> pn_val xs = pn_val ys"
    by (metis pn_val.simps(2))
  with Cons show ?case by (simp add: word_unat_eq_iff)
qed simp

section \<open>Bits\<close>

lemma and_push_bit_one: "(x AND push_bit n 1 \<noteq> 0) \<longleftrightarrow> bit (x :: u32) n"
  by (simp add: and_exp_eq_0_iff_not_bit push_bit_eq_mult)

lemma unat_less_half:
  assumes "unat (x :: u32) < 2 ^ Suc n" "\<not> bit x n" shows "unat x < 2 ^ n"
proof (rule ccontr)
  assume "\<not> ?thesis"
  then have "unat x div 2 ^ n = 1" using assms(1) by (intro div_nat_eqI) auto
  moreover have "\<not> bit (unat x) n" using assms(2) by (simp add: bit_unsigned_iff)
  ultimately show False by (simp add: bit_iff_odd)
qed

lemma bit_imp_ge: "bit (v :: nat) n \<Longrightarrow> 2 ^ n \<le> v"
  by (metis bit_iff_odd div_less even_zero not_le)

lemma limb_bits_val:
  "x \<noteq> 0 \<Longrightarrow> unat x < 2 ^ Suc n \<Longrightarrow> 0 < limb_bits x n \<and> limb_bits x n \<le> Suc n
     \<and> 2 ^ (limb_bits x n - 1) \<le> unat x \<and> unat x < 2 ^ limb_bits x n"
proof (induction n)
  case 0
  then show ?case by (simp add: unat_eq_zero Suc_le_eq) (metis gr0I unat_eq_zero)
next
  case (Suc n)
  show ?case
  proof (cases "bit x (Suc n)")
    case True
    then have "2 ^ Suc n \<le> unat x" using bit_imp_ge[of "unat x" "Suc n"] by (simp add: bit_unsigned_iff)
    moreover have "limb_bits x (Suc n) = Suc n + 1"
      using True by (simp only: limb_bits.simps and_push_bit_one if_True)
    ultimately show ?thesis using Suc.prems by simp
  next
    case False
    then have "unat x < 2 ^ Suc n" using unat_less_half[OF Suc.prems(2)] by simp
    moreover have "limb_bits x (Suc n) = limb_bits x n"
      using False by (simp only: limb_bits.simps and_push_bit_one if_False)
    ultimately show ?thesis using Suc.IH[OF Suc.prems(1)] by simp
  qed
qed

lemma bu_bits_from_val:
  "let v = pn_val (rev xs); n = bu_bits_from xs
   in n \<le> 32 * length xs \<and> (n = 0 \<longleftrightarrow> v = 0) \<and> v < 2 ^ n \<and> (v \<noteq> 0 \<longrightarrow> 2 ^ (n - 1) \<le> v)"
proof (induction xs)
  case (Cons x xs)
  show ?case
  proof (cases "x = 0")
    case False
    define k where "k = limb_bits x 31"
    define M where "M = (2::nat) ^ (32 * length xs)"
    have k: "0 < k" "k \<le> 32" "2 ^ (k - 1) \<le> unat x" "unat x < 2 ^ k"
      using limb_bits_val[OF False, of 31] unat_u32_less[of x] by (auto simp: k_def)
    have v: "pn_val (rev (x # xs)) = pn_val (rev xs) + M * unat x"
      by (simp only: pn_val_rev_Cons M_def)
    have r: "pn_val (rev xs) < M" using pn_val_less[of "rev xs"] by (simp add: M_def)
    have hi: "pn_val (rev xs) + M * unat x < 0 + M * 2 ^ k"
      by (rule pn_digit_less[OF r _ k(4)]) (simp add: M_def)
    have lo: "M * 2 ^ (k - 1) \<le> M * unat x" using k(3) by simp
    have "bu_bits_from (x # xs) = 32 * length xs + k" using False by (simp add: k_def)
    moreover have "32 * length xs + k - 1 = 32 * length xs + (k - 1)" using k(1) by simp
    moreover have "0 < M * unat x" using False by (simp add: M_def unat_eq_zero neq0_conv[symmetric] del: neq0_conv)
    moreover have "M * 2 ^ (k - 1) \<le> pn_val (rev xs) + M * unat x" using lo by (rule trans_le_add2)
    ultimately show ?thesis using hi k(1,2) unfolding v Let_def
      by (simp only: power_add M_def[symmetric]) simp
  next
    case True
    with Cons show ?thesis by (simp add: Let_def pn_val_append)
  qed
qed simp

lemma bu_bits_val:
  shows bu_bits_le: "bu_bits a \<le> 32 * length a"
    and bu_bits_eq_0: "bu_bits a = 0 \<longleftrightarrow> pn_val a = 0"
    and bu_bits_upper: "pn_val a < 2 ^ bu_bits a"
    and bu_bits_lower: "pn_val a \<noteq> 0 \<Longrightarrow> 2 ^ (bu_bits a - 1) \<le> pn_val a"
  using bu_bits_from_val[of "rev a"] by (simp_all add: Let_def bu_bits_def)

lemma bit_pn_val: "bit (pn_val xs) m \<longleftrightarrow> m div 32 < length xs \<and> bit (xs ! (m div 32)) (m mod 32)"
proof (induction xs arbitrary: m)
  case (Cons x xs)
  have "and (unat x) (push_bit 32 (pn_val xs)) = 0"
    by (rule bit_eqI) (auto simp: bit_simps dest: bit_imp_le_length)
  then have "unat x + push_bit 32 (pn_val xs) = or (unat x) (push_bit 32 (pn_val xs))"
    by (rule disjunctive_add_eq_or)
  then have v: "pn_val (x # xs) = or (unat x) (push_bit 32 (pn_val xs))"
    by (simp add: push_bit_eq_mult mult.commute)
  show ?case
  proof (cases "m < 32")
    case True
    then show ?thesis unfolding v by (simp add: bit_or_iff bit_push_bit_iff bit_unsigned_iff)
  next
    case False
    then have "\<not> bit x m" using bit_imp_le_length[of x m] by auto
    moreover have "m div 32 = Suc ((m - 32) div 32)" "m mod 32 = (m - 32) mod 32"
      using False by (simp_all add: le_div_geq le_mod_geq not_less)
    ultimately show ?thesis unfolding v using False Cons[of "m - 32"]
      by (simp add: bit_or_iff bit_push_bit_iff bit_unsigned_iff)
  qed
qed simp

section \<open>Shifts\<close>

lemma bu_zero_length [simp]: "length bu_zero = 8"
  by (simp add: bu_zero_def)

lemma bu_zero_nth: "j < 8 \<Longrightarrow> bu_zero ! j = 0"
  by (simp add: bu_zero_def del: WIDTH_eq) simp

lemma bu_shl_step_length [simp]: "length (bu_shl_step a k s i pn) = length pn"
  by (simp add: bu_shl_step_def Let_def)

lemma bu_shl_fold:
  "n \<le> 8 \<Longrightarrow> length (fold (bu_shl_step a k s) [0..<n] bu_zero) = 8 \<and>
     (\<forall>j<8. fold (bu_shl_step a k s) [0..<n] bu_zero ! j =
        (if k \<le> j \<and> j - k < n then push_bit s (a ! (j - k)) else 0) OR
        (if k + 1 \<le> j \<and> j - k - 1 < n \<and> s \<noteq> 0 then drop_bit (32 - s) (a ! (j - k - 1)) else 0))"
proof (induction n)
  case 0
  then show ?case by (simp add: bu_zero_nth)
next
  case (Suc n)
  then obtain pn where pn: "pn = fold (bu_shl_step a k s) [0..<n] bu_zero" "length pn = 8"
    "\<forall>j<8. pn ! j = (if k \<le> j \<and> j - k < n then push_bit s (a ! (j - k)) else 0) OR
        (if k + 1 \<le> j \<and> j - k - 1 < n \<and> s \<noteq> 0 then drop_bit (32 - s) (a ! (j - k - 1)) else 0)"
    by auto
  have "bu_shl_step a k s n pn ! j =
        (if k \<le> j \<and> j - k < Suc n then push_bit s (a ! (j - k)) else 0) OR
        (if k + 1 \<le> j \<and> j - k - 1 < Suc n \<and> s \<noteq> 0 then drop_bit (32 - s) (a ! (j - k - 1)) else 0)"
    if j: "j < 8" for j
  proof -
    consider "j = n + k" | "j = n + k + 1" | "j \<noteq> n + k" "j \<noteq> n + k + 1" by blast
    then show ?thesis
      using j pn(2,3) by cases (auto simp: bu_shl_step_def Let_def nth_list_update or.commute)
  qed
  then show ?case using pn(2) by (simp add: pn(1)[symmetric])
qed

lemma bu_shl_length [simp]: "length (bu_shl a sh) = 8"
  using bu_shl_fold[of 8 a] by (simp add: bu_shl_def)

lemma bit_limb_bound: "bit (x :: u32) n \<Longrightarrow> n < 32"
  using bit_imp_le_length[of x n] by simp

lemma bit_bu_shl:
  assumes "length a = 8"
  shows "bit (pn_val (bu_shl a sh)) m \<longleftrightarrow> m < 256 \<and> sh \<le> m \<and> bit (pn_val a) (m - sh)"
proof -
  define j t k s where d: "j = m div 32" "t = m mod 32" "k = sh div 32" "s = sh mod 32"
  have m: "m = 32 * j + t" "sh = 32 * k + s" "t < 32" "s < 32" by (simp_all add: d)
  have n: "bu_shl a sh ! j = (if k \<le> j \<and> j - k < 8 then push_bit s (a ! (j - k)) else 0) OR
        (if k + 1 \<le> j \<and> j - k - 1 < 8 \<and> s \<noteq> 0 then drop_bit (32 - s) (a ! (j - k - 1)) else 0)"
    if "j < 8" using bu_shl_fold[of 8 a k s] that unfolding bu_shl_def WIDTH_eq d by blast
  have j8: "j < 8 \<longleftrightarrow> m < 256" using m by auto
  have lhs: "bit (pn_val (bu_shl a sh)) m \<longleftrightarrow> j < 8 \<and> bit (bu_shl a sh ! j) t"
    by (simp add: bit_pn_val d)
  consider (lt) "m < sh" | (hi) "s \<le> t" "k \<le> j" | (lo) "t < s" "k + 1 \<le> j"
    using m by linarith
  then show ?thesis
  proof cases
    case lt
    with m have "\<not> (k \<le> j \<and> s \<le> t)" "\<not> k + 1 \<le> j" by auto
    with lt show ?thesis by (auto simp: lhs n bit_simps)
  next
    case hi
    then have e: "m - sh = 32 * (j - k) + (t - s)" and le: "sh \<le> m" using m by auto
    have "t - s < 32" using m by auto
    then have dm: "(m - sh) div 32 = j - k" "(m - sh) mod 32 = t - s" unfolding e by simp_all
    have nb: "s \<noteq> 0 \<Longrightarrow> \<not> bit x (32 - s + t)" for x :: u32
      using hi bit_limb_bound[of x "32 - s + t"] by auto
    show ?thesis using hi le m(3,4) nb
      by (auto simp: lhs n bit_simps bit_pn_val[of a] dm assms j8[symmetric] split: if_splits)
  next
    case lo
    then have e: "m - sh = 32 * (j - k - 1) + (32 - s + t)" and le: "sh \<le> m" using m by auto
    have "32 - s + t < 32" using m lo by auto
    then have dm: "(m - sh) div 32 = j - k - 1" "(m - sh) mod 32 = 32 - s + t" unfolding e by simp_all
    show ?thesis using lo le m(3,4)
      by (auto simp: lhs n bit_simps bit_pn_val[of a] dm assms j8[symmetric] split: if_splits)
  qed
qed

lemma bu_shl_val:
  assumes "length a = 8"
  shows "pn_val (bu_shl a sh) = (pn_val a * 2 ^ sh) mod 2 ^ 256"
proof -
  have "pn_val (bu_shl a sh) = take_bit 256 (push_bit sh (pn_val a))"
    by (rule bit_eqI) (auto simp: bit_bu_shl[OF assms] bit_simps)
  then show ?thesis by (simp only: take_bit_eq_mod push_bit_eq_mult)
qed

lemma bu_shr_step_length [simp]: "length (bu_shr_step a k s i pn) = length pn"
  by (simp add: bu_shr_step_def Let_def)

lemma bu_shr_fold:
  "n \<le> 8 \<Longrightarrow> length (fold (bu_shr_step a k s) [0..<n] bu_zero) = 8 \<and>
     (\<forall>j<8. fold (bu_shr_step a k s) [0..<n] bu_zero ! j =
        (if j + k < n then drop_bit s (a ! (j + k)) else 0) OR
        (if j + k + 1 < n \<and> s \<noteq> 0 then push_bit (32 - s) (a ! (j + k + 1)) else 0))"
proof (induction n)
  case 0
  then show ?case by (simp add: bu_zero_nth)
next
  case (Suc n)
  then obtain pn where pn: "pn = fold (bu_shr_step a k s) [0..<n] bu_zero" "length pn = 8"
    "\<forall>j<8. pn ! j = (if j + k < n then drop_bit s (a ! (j + k)) else 0) OR
        (if j + k + 1 < n \<and> s \<noteq> 0 then push_bit (32 - s) (a ! (j + k + 1)) else 0)"
    by auto
  have "bu_shr_step a k s n pn ! j =
        (if j + k < Suc n then drop_bit s (a ! (j + k)) else 0) OR
        (if j + k + 1 < Suc n \<and> s \<noteq> 0 then push_bit (32 - s) (a ! (j + k + 1)) else 0)"
    if j: "j < 8" for j
  proof -
    consider "j + k = n" | "j + k + 1 = n" | "j + k \<noteq> n" "j + k + 1 \<noteq> n" by blast
    then show ?thesis
      using j pn(2,3) Suc.prems by cases (auto simp: bu_shr_step_def Let_def nth_list_update or.commute)
  qed
  then show ?case using pn(2) by (simp add: pn(1)[symmetric])
qed

lemma bu_shr_length [simp]: "length (bu_shr a sh) = 8"
  using bu_shr_fold[of 8 a] by (simp add: bu_shr_def)

lemma bit_bu_shr:
  assumes "length a = 8"
  shows "bit (pn_val (bu_shr a sh)) m \<longleftrightarrow> bit (pn_val a) (m + sh)"
proof -
  define j t k s where d: "j = m div 32" "t = m mod 32" "k = sh div 32" "s = sh mod 32"
  have m: "m = 32 * j + t" "sh = 32 * k + s" "t < 32" "s < 32" by (simp_all add: d)
  have n: "bu_shr a sh ! j = (if j + k < 8 then drop_bit s (a ! (j + k)) else 0) OR
        (if j + k + 1 < 8 \<and> s \<noteq> 0 then push_bit (32 - s) (a ! (j + k + 1)) else 0)"
    if "j < 8" using bu_shr_fold[of 8 a k s] that by (simp add: bu_shr_def d)
  have lhs: "bit (pn_val (bu_shr a sh)) m \<longleftrightarrow> j < 8 \<and> bit (bu_shr a sh ! j) t"
    by (simp add: bit_pn_val d)
  show ?thesis
  proof (cases "t + s < 32")
    case True
    have "m + sh = 32 * (j + k) + (t + s)" using m by simp
    then have dm: "(m + sh) div 32 = j + k" "(m + sh) mod 32 = t + s"
      using True by (simp_all only: div_mult_self4 mod_mult_self4) simp_all
    show ?thesis using True m(3,4)
      by (auto simp: lhs n bit_simps bit_pn_val[of a] dm assms add.commute split: if_splits)
  next
    case False
    have e: "m + sh = 32 * (j + k + 1) + (t + s - 32)" "t + s - 32 < 32" using m False by auto
    have dm: "(m + sh) div 32 = j + k + 1" "(m + sh) mod 32 = t + s - 32" unfolding e(1)
      using e(2) by (simp_all only: div_mult_self4 mod_mult_self4) simp_all
    have nb: "\<not> bit x (s + t)" for x :: u32
      using False bit_limb_bound[of x "s + t"] by auto
    show ?thesis using False m(3,4) nb
      by (auto simp: lhs n bit_simps bit_pn_val[of a] dm assms split: if_splits)
  qed
qed

lemma bu_shr_val:
  assumes "length a = 8"
  shows "pn_val (bu_shr a sh) = pn_val a div 2 ^ sh"
proof -
  have "pn_val (bu_shr a sh) = drop_bit sh (pn_val a)"
    by (rule bit_eqI) (auto simp: bit_bu_shr[OF assms] bit_simps add.commute)
  then show ?thesis by (simp only: drop_bit_eq_div)
qed

section \<open>Division\<close>

lemma set_bit_val:
  assumes "length q = 8" "sh < 256" "2 ^ Suc sh dvd pn_val q"
  shows "pn_val (q[sh div 32 := q ! (sh div 32) OR push_bit (sh mod 32) 1]) = pn_val q + 2 ^ sh"
proof -
  let ?q = "q[sh div 32 := q ! (sh div 32) OR push_bit (sh mod 32) 1]"
  have i: "sh div 32 < 8" using assms(2) by auto
  have eq: "m = sh \<longleftrightarrow> m div 32 = sh div 32 \<and> m mod 32 = sh mod 32" for m
    by (metis div_mult_mod_eq)
  have "pn_val ?q = or (pn_val q) (2 ^ sh)"
  proof (rule bit_eqI)
    fix m
    show "bit (pn_val ?q) m \<longleftrightarrow> bit (or (pn_val q) (2 ^ sh)) m"
      using i assms(1) eq[of m]
      by (auto simp: bit_pn_val bit_or_iff bit_exp_iff nth_list_update bit_push_bit_iff)
  qed
  moreover have "and (pn_val q) (2 ^ sh) = 0"
  proof -
    from assms(3) obtain c where "pn_val q = push_bit (Suc sh) c"
      by (auto simp: dvd_def push_bit_eq_mult mult.commute)
    then show ?thesis by (intro bit_eqI) (auto simp: bit_simps simp del: push_bit_Suc)
  qed
  ultimately show ?thesis by (simp add: disjunctive_add_eq_or)
qed

lemma bu_div_loop_val:
  assumes "length num = 8" "length dv = 8" "length q = 8"
    and "0 < B" "pn_val dv = B * 2 ^ sh" "pn_val num < B * 2 ^ Suc sh" "2 ^ Suc sh dvd pn_val q"
  shows "pn_val (bu_div_loop sh num dv q) = pn_val q + pn_val num div B \<and> length (bu_div_loop sh num dv q) = 8"
  using assms
proof (induction sh arbitrary: num dv q)
  case 0
  note bu_div_loop.simps [simp]
  show ?case
  proof (cases "pn_val dv \<le> pn_val num")
    case True
    moreover have "pn_val num div B = 1" using True "0.prems" by (intro div_nat_eqI) auto
    ultimately show ?thesis using "0.prems" set_bit_val[of q 0] by (simp add: CompareTo_val)
  next
    case False
    then show ?thesis using "0.prems" by (simp add: CompareTo_val)
  qed
next
  case (Suc sh)
  have "1 * 2 ^ Suc sh \<le> B * 2 ^ Suc sh" using Suc.prems(4) by (intro mult_le_mono) auto
  also have "\<dots> < 2 ^ (32 * 8)" using pn_val_less[of dv] Suc.prems(2,5) by (simp only:)
  finally have "2 ^ Suc sh < (2::nat) ^ 256" by (simp only: mult_1) simp
  then have sh: "Suc sh < 256" by (simp only: power_strict_increasing_iff one_less_numeral_iff semiring_norm)
  define num' q' where nq: "num' = (if pn_val dv \<le> pn_val num then bu_sub num dv else num)"
    "q' = (if pn_val dv \<le> pn_val num then q[Suc sh div 32 := q ! (Suc sh div 32) OR push_bit (Suc sh mod 32) 1] else q)"
  have step: "bu_div_loop (Suc sh) num dv q = bu_div_loop sh num' (bu_shr dv 1) q'"
    using Suc.prems(1,2) by (subst bu_div_loop.simps) (auto simp: nq CompareTo_val)
  have qv: "pn_val q' = pn_val q + (if pn_val dv \<le> pn_val num then 2 ^ Suc sh else 0)"
    using set_bit_val[OF Suc.prems(3) sh Suc.prems(7)] by (simp add: nq)
  have nv: "pn_val num = pn_val num' + (if pn_val dv \<le> pn_val num then B * 2 ^ Suc sh else 0)"
    using bu_sub_val_le[of num dv] Suc.prems by (simp add: nq)
  have "2 ^ Suc sh dvd pn_val q" using Suc.prems(7) by (rule power_le_dvd) simp
  then have dq: "2 ^ Suc sh dvd pn_val q'" unfolding qv by simp
  have lt: "pn_val num' < B * 2 ^ Suc sh" using nv Suc.prems(5,6) by (auto split: if_splits)
  have dv: "pn_val (bu_shr dv 1) = B * 2 ^ sh" using Suc.prems(2,5) by (simp add: bu_shr_val)
  have "length num' = 8" "length q' = 8" using Suc.prems by (simp_all add: nq)
  from Suc.IH[OF this(1) _ this(2) Suc.prems(4) dv lt dq]
  have "pn_val (bu_div_loop sh num' (bu_shr dv 1) q') = pn_val q' + pn_val num' div B
      \<and> length (bu_div_loop sh num' (bu_shr dv 1) q') = 8" by simp
  moreover have "pn_val num div B = pn_val num' div B + (if pn_val dv \<le> pn_val num then 2 ^ Suc sh else 0)"
    using Suc.prems(4) by (subst nv) simp
  ultimately show ?case by (simp add: step qv)
qed

lemma bu_div_val:
  assumes "length a = 8" "length b = 8"
  shows "bu_div a b = None \<longleftrightarrow> pn_val b = 0"
    and "bu_div a b = Some q \<Longrightarrow> pn_val q = pn_val a div pn_val b \<and> length q = 8"
proof -
  show "bu_div a b = None \<longleftrightarrow> pn_val b = 0"
    by (simp add: bu_div_def Let_def bu_bits_eq_0)
  assume q: "bu_div a b = Some q"
  then have b0: "pn_val b \<noteq> 0" by (auto simp: bu_div_def Let_def bu_bits_eq_0 split: if_splits)
  show "pn_val q = pn_val a div pn_val b \<and> length q = 8"
  proof (cases "bu_bits a < bu_bits b")
    case True
    then have "2 ^ bu_bits a \<le> (2::nat) ^ (bu_bits b - 1)" by (intro power_increasing) auto
    with bu_bits_upper[of a] bu_bits_lower[OF b0] have "pn_val a < pn_val b" by linarith
    with True q b0 show ?thesis by (auto simp: bu_div_def Let_def bu_bits_eq_0)
  next
    case False
    define sh where "sh = bu_bits a - bu_bits b"
    have s: "sh + bu_bits b = bu_bits a" using False by (simp add: sh_def)
    have q': "q = bu_div_loop sh a (bu_shl b sh) bu_zero"
      using q b0 False by (auto simp: bu_div_def Let_def bu_bits_eq_0 sh_def split: if_splits)
    have "pn_val b * 2 ^ sh < 2 ^ bu_bits b * 2 ^ sh" using bu_bits_upper[of b] by simp
    also have "\<dots> = 2 ^ bu_bits a" by (simp add: power_add[symmetric] s add.commute)
    also have "\<dots> \<le> 2 ^ 256" using bu_bits_le[of a] assms(1) by (intro power_increasing) auto
    finally have dv: "pn_val (bu_shl b sh) = pn_val b * 2 ^ sh"
      by (simp only: bu_shl_val[OF assms(2)] mod_less)
    have b1: "0 < bu_bits b" using b0 bu_bits_eq_0[of b] by simp
    have "2 ^ bu_bits a = 2 ^ (bu_bits b - 1) * (2::nat) ^ Suc sh"
      using b1 s by (simp only: power_add[symmetric]) simp
    also have "\<dots> \<le> pn_val b * 2 ^ Suc sh" using bu_bits_lower[OF b0] by simp
    finally have "pn_val a < pn_val b * 2 ^ Suc sh" using bu_bits_upper[of a] by linarith
    from bu_div_loop_val[OF assms(1) _ _ _ dv this, of bu_zero] b0 show ?thesis
      by (simp add: q')
  qed
qed

section \<open>Construction, low words\<close>

lemma bu_of_u64_length [simp]: "length (bu_of_u64 b) = 8"
  by (simp add: bu_of_u64_def)

lemma bu_of_u64_val [simp]: "pn_val (bu_of_u64 b) = unat b"
proof -
  have "unat (ucast b :: u32) = unat b mod 2 ^ 32" by (simp add: unat_ucast_mod)
  moreover have "unat (ucast (drop_bit 32 b) :: u32) = unat b div 2 ^ 32"
    using high32_less[of b] by (simp add: unat_ucast_mod unat_shiftr)
  ultimately show ?thesis by (simp add: bu_of_u64_def)
qed

lemma GetLow64_val:
  assumes "length a = 8" shows "unat (GetLow64 a) = pn_val a mod 2 ^ 64"
proof -
  obtain x y zs where a: "a = x # y # zs" using assms by (auto simp: length_Suc_conv numeral_eq_Suc)
  have "(ucast x :: u64) AND push_bit 32 (ucast y) = 0"
    by (rule bit_word_eqI) (auto simp: bit_simps dest: bit_limb_bound)
  then have "unat (GetLow64 a) = unat x + unat (push_bit 32 (ucast y :: u64))"
    by (simp add: GetLow64_def a unat_or_disjoint unat_ucast64)
  also have "\<dots> = unat x + 2 ^ 32 * unat y"
    using unat_u32_less[of y] by (simp add: unat_shiftl unat_ucast64)
  finally have l: "unat (GetLow64 a) = unat x + 2 ^ 32 * unat y" .
  have "pn_val a = (unat x + 2 ^ 32 * unat y) + 2 ^ 64 * pn_val zs" by (simp add: a)
  moreover have "unat x + 2 ^ 32 * unat y < 2 ^ 64" using unat_u32_less[of x] unat_u32_less[of y] by simp
  ultimately show ?thesis unfolding l by (simp only: mod_mult_self2 mod_less)
qed

lemma bu_is_zero_iff: "bu_is_zero a \<longleftrightarrow> pn_val a = 0"
  by (simp add: bu_is_zero_def pn_val_eq_0_iff)

lemma EqualTo_iff:
  assumes "length a = 8" shows "EqualTo a b \<longleftrightarrow> pn_val a = unat b"
proof -
  obtain x y zs where a: "a = x # y # zs" using assms by (auto simp: length_Suc_conv numeral_eq_Suc)
  have l: "unat x < 2 ^ 32" "unat y < 2 ^ 32" using unat_u32_less[of x] unat_u32_less[of y] by simp_all
  have m: "b AND 0xffffffff = b AND mask 32" by (simp add: mask_eq_exp_minus_1)
  have "EqualTo a b \<longleftrightarrow> pn_val zs = 0 \<and> unat y = unat b div 2 ^ 32 \<and> unat x = unat b mod 2 ^ 32"
    by (simp add: EqualTo_def a pn_val_eq_0_iff word_unat_eq_iff unat_ucast64 unat_shiftr m unat_and_mask)
  also have "\<dots> \<longleftrightarrow> unat x + 2 ^ 32 * unat y + 2 ^ 64 * pn_val zs = unat b"
  proof
    assume "pn_val zs = 0 \<and> unat y = unat b div 2 ^ 32 \<and> unat x = unat b mod 2 ^ 32"
    then show "unat x + 2 ^ 32 * unat y + 2 ^ 64 * pn_val zs = unat b" by simp
  next
    assume e: "unat x + 2 ^ 32 * unat y + 2 ^ 64 * pn_val zs = unat b"
    with unat_u64_less[of b] have z: "pn_val zs = 0" by simp
    with e l show "pn_val zs = 0 \<and> unat y = unat b div 2 ^ 32 \<and> unat x = unat b mod 2 ^ 32"
      by (simp add: e[symmetric])
  qed
  finally show ?thesis by (simp add: a add.assoc)
qed

lemma ArithToUint256_Cons: "ArithToUint256 (x # xs) = WriteLE32 x @ ArithToUint256 xs"
  by (simp add: ArithToUint256_def)

lemma ReadLE32_drop_Arith:
  "i < length a \<Longrightarrow> ReadLE32 (drop (i * 4) (ArithToUint256 a)) = a ! i"
proof (induction a arbitrary: i)
  case (Cons x a)
  then show ?case by (cases i) (simp_all add: ArithToUint256_Cons)
qed simp

lemma UintToArith256_ArithToUint256: "length a = 8 \<Longrightarrow> UintToArith256 (ArithToUint256 a) = a"
  by (rule nth_equalityI) (auto simp: UintToArith256_def ReadLE32_drop_Arith)

lemma UintToArith256_length [simp]: "length (UintToArith256 a) = 8"
  by (simp add: UintToArith256_def)

lemma pn_val_chunks:
  "length bs = 4 * n \<Longrightarrow> pn_val (map (\<lambda>x. ReadLE32 (drop (x * 4) bs)) [0..<n]) = le_val bs"
proof (induction n arbitrary: bs)
  case (Suc n)
  have u: "[0..<Suc n] = 0 # map Suc [0..<n]" by (simp add: upt_conv_Cons map_Suc_upt)
  have r: "unat (ReadLE32 bs) = le_val (take 4 bs)"
    using le_val_less[of "take 4 bs"] Suc.prems by (simp add: ReadLE32_def unat_of_nat)
  have "pn_val (map (\<lambda>x. ReadLE32 (drop (x * 4) (drop 4 bs))) [0..<n]) = le_val (drop 4 bs)"
    by (rule Suc.IH) (simp add: Suc.prems)
  then have "pn_val (map (\<lambda>x. ReadLE32 (drop (x * 4) bs)) [0..<Suc n]) = le_val (take 4 bs) + 256 ^ 4 * le_val (drop 4 bs)"
    unfolding u by (simp add: r o_def add.commute)
  also have "\<dots> = le_val (take 4 bs @ drop 4 bs)"
    unfolding le_val_append using Suc.prems by simp
  finally show ?case by simp
qed simp

lemma UintToArith256_val: "length bs = 32 \<Longrightarrow> pn_val (UintToArith256 bs) = le_val bs"
  unfolding UintToArith256_def WIDTH_eq by (rule pn_val_chunks) simp

section \<open>The contract of the 256-bit integers\<close>

text \<open>
  What the clients of \<^verbatim>\<open>arith_uint256\<close> rely on: the operations are those of the numbers below
  \<open>M\<close>, with wrap-around at \<open>M\<close>, and division fails on zero only.
\<close>

locale big_uint =
  fixes ok :: "'a \<Rightarrow> bool" and val :: "'a \<Rightarrow> nat" and M :: nat
    and of_small :: "u64 \<Rightarrow> 'a"
    and cpl :: "'a \<Rightarrow> 'a" and add sub mul :: "'a \<Rightarrow> 'a \<Rightarrow> 'a"
    and quot :: "'a \<Rightarrow> 'a \<Rightarrow> 'a option" and cmp :: "'a \<Rightarrow> 'a \<Rightarrow> int"
  assumes bound: "ok a \<Longrightarrow> val a < M"
    and inject: "ok a \<Longrightarrow> ok b \<Longrightarrow> val a = val b \<longleftrightarrow> a = b"
    and of_small: "ok (of_small w)" "val (of_small w) = unat w"
    and cpl: "ok a \<Longrightarrow> ok (cpl a)" "ok a \<Longrightarrow> val (cpl a) = M - 1 - val a"
    and add: "ok a \<Longrightarrow> ok b \<Longrightarrow> ok (add a b)" "ok a \<Longrightarrow> ok b \<Longrightarrow> val (add a b) = (val a + val b) mod M"
    and sub: "ok a \<Longrightarrow> ok b \<Longrightarrow> ok (sub a b)"
      "ok a \<Longrightarrow> ok b \<Longrightarrow> val b \<le> val a \<Longrightarrow> val (sub a b) = val a - val b"
    and mul: "ok a \<Longrightarrow> ok b \<Longrightarrow> ok (mul a b)" "ok a \<Longrightarrow> ok b \<Longrightarrow> val (mul a b) = (val a * val b) mod M"
    and quot: "ok a \<Longrightarrow> ok b \<Longrightarrow> quot a b = None \<longleftrightarrow> val b = 0"
      "ok a \<Longrightarrow> ok b \<Longrightarrow> quot a b = Some q \<Longrightarrow> ok q \<and> val q = val a div val b"
    and cmp: "ok a \<Longrightarrow> ok b \<Longrightarrow> cmp a b = (if val a < val b then -1 else if val a > val b then 1 else 0)"
begin

lemma quot_total: "ok a \<Longrightarrow> ok b \<Longrightarrow> val b \<noteq> 0 \<Longrightarrow> \<exists>q. quot a b = Some q \<and> ok q \<and> val q = val a div val b"
  using quot by (metis not_None_eq)

text \<open>\<^verbatim>\<open>(~t / (t + 1)) + 1\<close> is \<open>M div (t + 1)\<close>, for every non-zero \<open>t\<close> whose successor does not wrap.\<close>

lemma work_quotient:
  assumes t: "ok t" "0 < val t" "val t + 1 < M"
  shows "\<exists>q. quot (cpl t) (add t (of_small 1)) = Some q \<and> ok (add q (of_small 1))
           \<and> val (add q (of_small 1)) = M div (val t + 1)"
proof -
  have s: "ok (add t (of_small 1))" "val (add t (of_small 1)) = val t + 1"
    using t add[of t "of_small 1"] of_small[of 1] by simp_all
  obtain q where q: "quot (cpl t) (add t (of_small 1)) = Some q" "ok q"
    "val q = (M - 1 - val t) div (val t + 1)"
    using quot_total[of "cpl t" "add t (of_small 1)"] cpl[OF t(1)] s by auto
  have "M = (M - 1 - val t) + 1 * (val t + 1)" using t by simp
  then have "M div (val t + 1) = ((M - 1 - val t) + 1 * (val t + 1)) div (val t + 1)" by simp
  also have "\<dots> = val q + 1" using q(3) by (subst div_mult_self1) auto
  finally have e: "M div (val t + 1) = val q + 1" .
  have "M div (val t + 1) < M" using t by (intro div_less_dividend) auto
  then have "val (add q (of_small 1)) = M div (val t + 1)"
    using add(2)[OF q(2) of_small(1), of 1] of_small(2)[of 1] e by simp
  with q add(1)[OF q(2) of_small(1)] show ?thesis by blast
qed

lemma cmp_gt_iff: "ok a \<Longrightarrow> ok b \<Longrightarrow> cmp a b > 0 \<longleftrightarrow> val b < val a"
  by (simp add: cmp)

end

lemma bu_mul_val:
  assumes "length a = 8" "length b = 8"
  shows "pn_val (bu_mul a b) = (pn_val a * pn_val b) mod 2 ^ 256"
  using bu_mul_rows_val[of a bu_zero b] assms by (simp add: bu_mul_def)

lemma bu_mul_length [simp]: "length (bu_mul a b) = 8"
  by (simp add: bu_mul_def)

lemma pn_val_less256: "length a = 8 \<Longrightarrow> pn_val a < 2 ^ 256"
  using pn_val_less[of a] by simp

interpretation au: big_uint "\<lambda>a. length a = 8" pn_val "2 ^ 256" bu_of_u64 bu_not bu_add bu_sub bu_mul
  bu_div CompareTo
proof unfold_locales
  fix a b q :: base_uint
  assume a: "length a = 8"
  show "pn_val a < 2 ^ 256" using a by (rule pn_val_less256)
  show "pn_val (bu_not a) = 2 ^ 256 - 1 - pn_val a" using bu_not_val[of a] a by simp
  assume b: "length b = 8"
  show "pn_val a = pn_val b \<longleftrightarrow> a = b" using a b by (simp add: pn_val_inject)
  show "pn_val (bu_add a b) = (pn_val a + pn_val b) mod 2 ^ 256" using a b bu_add_val[of a b] by simp
  show "pn_val (bu_mul a b) = (pn_val a * pn_val b) mod 2 ^ 256" using a b by (rule bu_mul_val)
  show "(bu_div a b = None) = (pn_val b = 0)" using a b by (rule bu_div_val(1))
  show "pn_val b \<le> pn_val a \<Longrightarrow> pn_val (bu_sub a b) = pn_val a - pn_val b"
    using a b by (intro bu_sub_val_le) simp_all
  show "bu_div a b = Some q \<Longrightarrow> length q = 8 \<and> pn_val q = pn_val a div pn_val b"
    using bu_div_val(2)[OF a b] by blast
  show "CompareTo a b = (if pn_val a < pn_val b then -1 else if pn_val a > pn_val b then 1 else 0)"
    using a b by (intro CompareTo_val) simp
qed simp_all

section \<open>Properties\<close>

text \<open>The limb-by-limb operators \<^verbatim>\<open>+=\<close>, \<^verbatim>\<open>-=\<close>, \<^verbatim>\<open>*=\<close>, \<^verbatim>\<open><<=\<close> and \<^verbatim>\<open>>>=\<close> of the 256-bit integers are
  addition, subtraction, multiplication and shifts of numbers modulo \<open>2 ^ 256\<close>.\<close>

lemma base_uint_ops_correct:
  assumes "length a = WIDTH" "length b = WIDTH"
  shows "pn_val (bu_add a b) = (pn_val a + pn_val b) mod 2 ^ 256 \<and>
         pn_val (bu_sub a b) = (pn_val a + (2 ^ 256 - pn_val b)) mod 2 ^ 256 \<and>
         pn_val (bu_mul a b) = (pn_val a * pn_val b) mod 2 ^ 256 \<and>
         pn_val (bu_shl a n) = (pn_val a * 2 ^ n) mod 2 ^ 256 \<and>
         pn_val (bu_shr a n) = pn_val a div 2 ^ n"
proof -
  have l: "length a = 8" "length b = 8" using assms by simp_all
  have "pn_val (bu_sub a b) = (pn_val a + (2 ^ 256 - pn_val b)) mod 2 ^ 256"
    using bu_sub_val[of a b] l by simp
  then show ?thesis
    using au.add(2)[OF l] au.mul(2)[OF l] bu_shl_val[OF l(1), of n] bu_shr_val[OF l(1), of n]
    by (intro conjI) (simp_all only:)
qed

text \<open>\<^verbatim>\<open>operator/=\<close>, the shift-and-subtract loop, throws exactly on a zero divisor and otherwise
  terminates with the integer quotient.\<close>

lemma base_uint_division_correct:
  assumes "length a = WIDTH" "length b = WIDTH"
  shows "(bu_div a b = None \<longleftrightarrow> pn_val b = 0) \<and>
         (pn_val b \<noteq> 0 \<longrightarrow> (\<exists>q. bu_div a b = Some q \<and> length q = WIDTH \<and> pn_val q = pn_val a div pn_val b))"
  using au.quot(1)[of a b] au.quot_total[of a b] assms by simp_all

end
