(* ===== verification/CompactTarget.thy ===== *)
theory CompactTarget
  imports ArithUint256
begin

text \<open>
  The 32-bit compact encoding of a proof-of-work target (\<^verbatim>\<open>arith_uint256::SetCompact\<close> and
  \<^verbatim>\<open>GetCompact\<close>). \<open>compact_val\<close> is the number an encoding denotes as the comment of the header
  describes it; the lemmas show when the overflow flag is raised, that \<^verbatim>\<open>GetCompact\<close> never hits its
  assertions, and that encoding is a normal form.
\<close>

section \<open>The compact encoding of a target\<close>

text \<open>\<^verbatim>\<open>arith_uint256::SetCompact\<close>: the number, \<^verbatim>\<open>*pfNegative\<close> and \<^verbatim>\<open>*pfOverflow\<close>.\<close>

definition SetCompact :: "u32 \<Rightarrow> base_uint \<times> bool \<times> bool" where
  "SetCompact nCompact =
     (let nSize = unat (drop_bit 24 nCompact);
          nWord0 = nCompact AND 0x007fffff;
          nWord = (if nSize \<le> 3 then drop_bit (8 * (3 - nSize)) nWord0 else nWord0);
          this = (if nSize \<le> 3 then bu_of_u64 (ucast nWord)
                  else bu_shl (bu_of_u64 (ucast nWord)) (8 * (nSize - 3)))
      in (this, nWord \<noteq> 0 \<and> nCompact AND 0x00800000 \<noteq> 0,
          nWord \<noteq> 0 \<and> (nSize > 34 \<or> (nWord > 0xff \<and> nSize > 33) \<or> (nWord > 0xffff \<and> nSize > 32))))"

text \<open>\<^verbatim>\<open>arith_uint256::GetCompact\<close>; \<open>None\<close> is a failing \<^verbatim>\<open>assert\<close>.\<close>

definition GetCompact :: "base_uint \<Rightarrow> bool \<Rightarrow> u32 option" where
  "GetCompact a fNegative =
     (let nSize0 = (bu_bits a + 7) div 8;
          nCompact0 = (if nSize0 \<le> 3 then ucast (push_bit (8 * (3 - nSize0)) (GetLow64 a))
                       else ucast (GetLow64 (bu_shr a (8 * (nSize0 - 3))))) :: u32;
          (nCompact1, nSize) = (if nCompact0 AND 0x00800000 \<noteq> 0 then (drop_bit 8 nCompact0, nSize0 + 1)
                                else (nCompact0, nSize0))
      in if nCompact1 AND NOT 0x007fffff \<noteq> 0 \<or> \<not> nSize < 256 then None
         else let nCompact2 = nCompact1 OR push_bit 24 (word_of_nat nSize)
              in Some (nCompact2 OR (if fNegative \<and> nCompact2 AND 0x007fffff \<noteq> 0 then 0x00800000 else 0)))"

text \<open>The number an encoding stands for: mantissa times 256 to the exponent minus 3.\<close>

definition compact_size :: "u32 \<Rightarrow> nat" where
  "compact_size c = unat c div 2 ^ 24"

definition compact_val :: "u32 \<Rightarrow> nat" where
  "compact_val c = (let m = unat c mod 2 ^ 23 in
     if compact_size c \<le> 3 then m div 256 ^ (3 - compact_size c) else m * 256 ^ (compact_size c - 3))"

section \<open>Decoding\<close>

lemma pow256: "2 ^ (8 * n) = (256::nat) ^ n"
  by (simp add: power_mult)

lemma and_mask23: "unat (c AND 0x007fffff) = unat (c::u32) mod 2 ^ 23"
proof -
  have "c AND 0x007fffff = c AND mask 23" by (simp add: mask_eq_exp_minus_1)
  then show ?thesis by (simp add: unat_and_mask)
qed

lemma pow256_ge: "k \<le> n \<Longrightarrow> (256::nat) ^ k \<le> 256 ^ n"
  by (rule power_increasing) auto

lemma overflow_bytes:
  assumes "0 < w" "w < 2 ^ 23" "3 < (n::nat)"
  shows "(n > 34 \<or> (w > 0xff \<and> n > 33) \<or> (w > 0xffff \<and> n > 32)) \<longleftrightarrow> w * 256 ^ (n - 3) \<ge> (2::nat) ^ 256"
proof -
  consider "n > 34" | "n = 34" | "n = 33" | "n \<le> 32" by linarith
  then show ?thesis
  proof cases
    case 1
    then have "(256::nat) ^ 32 \<le> 256 ^ (n - 3)" by (intro pow256_ge) simp
    also have "\<dots> \<le> w * 256 ^ (n - 3)" using assms(1) by simp
    finally show ?thesis using 1 by simp
  next
    case 4
    have "w * 256 ^ (n - 3) \<le> w * 256 ^ 29" using 4 by (intro mult_le_mono pow256_ge) auto
    also have "\<dots> < 2 ^ 256" using assms(2) by simp
    finally show ?thesis using 4 by simp
  qed auto
qed

lemma SetCompact_value:
  assumes "SetCompact c = (v, neg, ovf)"
  shows "length v = 8"
    and "ovf \<longleftrightarrow> compact_val c \<ge> 2 ^ 256"
    and "pn_val v = compact_val c mod 2 ^ 256"
    and "neg \<longleftrightarrow> compact_val c \<noteq> 0 \<and> bit c 23"
proof -
  define n where "n = unat c div 2 ^ 24"
  define m where "m = unat c mod 2 ^ 23"
  define w where "w = (if n \<le> 3 then drop_bit (8 * (3 - n)) (c AND 0x007fffff) else c AND 0x007fffff)"
  have n: "unat (drop_bit 24 c) = n" "compact_size c = n" by (simp_all add: n_def unat_shiftr compact_size_def)
  have uw: "unat w = (if n \<le> 3 then m div 256 ^ (3 - n) else m)"
    by (simp only: w_def unat_shiftr and_mask23 m_def pow256 split: if_split) simp
  have mlt: "m < 2 ^ 23" by (simp add: m_def)
  have wlt: "unat w < 2 ^ 23" unfolding uw using mlt
    by (auto intro: le_less_trans[OF div_le_dividend])
  have v: "v = (if n \<le> 3 then bu_of_u64 (ucast w) else bu_shl (bu_of_u64 (ucast w)) (8 * (n - 3)))"
    and neg: "neg \<longleftrightarrow> w \<noteq> 0 \<and> c AND 0x00800000 \<noteq> 0"
    and ovf: "ovf \<longleftrightarrow> w \<noteq> 0 \<and> (n > 34 \<or> (w > 0xff \<and> n > 33) \<or> (w > 0xffff \<and> n > 32))"
    using assms unfolding SetCompact_def Let_def n(1) w_def[symmetric] prod.inject by blast+
  have cv: "compact_val c = (if n \<le> 3 then unat w else unat w * 256 ^ (n - 3))"
    by (simp add: compact_val_def n(2) Let_def uw m_def)
  show "length v = 8" by (simp add: v)
  have w0: "w \<noteq> 0 \<longleftrightarrow> compact_val c \<noteq> 0" by (auto simp: cv unat_eq_zero neq0_conv[symmetric] simp del: neq0_conv)
  have "c AND 0x00800000 \<noteq> 0 \<longleftrightarrow> bit c 23"
    using and_push_bit_one[of c 23] by simp
  with neg w0 show "neg \<longleftrightarrow> compact_val c \<noteq> 0 \<and> bit c 23" by simp
  show "ovf \<longleftrightarrow> compact_val c \<ge> 2 ^ 256"
  proof (cases "n \<le> 3")
    case True
    then have "compact_val c < 2 ^ 256" using wlt cv by simp
    then show ?thesis using True ovf by simp
  next
    case False
    then show ?thesis using overflow_bytes[of "unat w" n] wlt
      by (cases "w = 0") (auto simp: ovf cv word_less_nat_alt unat_eq_zero neq0_conv[symmetric] simp del: neq0_conv)
  qed
  have "unat (ucast w :: u64) = unat w" by (rule unat_ucast64)
  moreover have "unat w < 2 ^ 256" using wlt by simp
  ultimately show "pn_val v = compact_val c mod 2 ^ 256"
    by (simp add: v cv bu_shl_val power_mult)
qed

section \<open>Encoding\<close>

text \<open>The mantissa and the size the code computes, on numbers.\<close>

definition compact_parts :: "nat \<Rightarrow> nat \<Rightarrow> nat \<times> nat" where
  "compact_parts v n = (let m = (if n \<le> 3 then v * 256 ^ (3 - n) else v div 256 ^ (n - 3))
     in if m \<ge> 2 ^ 23 then (m div 256, n + 1) else (m, n))"

text \<open>\<open>n\<close> is the number of bytes of \<open>v\<close>.\<close>

definition byte_size :: "nat \<Rightarrow> nat \<Rightarrow> bool" where
  "byte_size v n \<longleftrightarrow> v < 256 ^ n \<and> (n \<noteq> 0 \<longrightarrow> 256 ^ (n - 1) \<le> v)"

lemma byte_size_unique: "byte_size v n \<Longrightarrow> byte_size v k \<Longrightarrow> n = k"
proof (induction n k rule: linorder_wlog)
  case (le n k)
  show ?case
  proof (rule ccontr)
    assume "n \<noteq> k"
    with le have "n \<le> k - 1" "k \<noteq> 0" by auto
    then have "v < 256 ^ (k - 1)"
      using le(2) pow256_ge[of n "k - 1"] by (auto simp: byte_size_def intro: less_le_trans)
    with le(3) \<open>k \<noteq> 0\<close> show False by (simp add: byte_size_def)
  qed
qed simp

lemma bits_byte_size: "byte_size (pn_val a) ((bu_bits a + 7) div 8)"
proof -
  let ?b = "bu_bits a" and ?n = "(bu_bits a + 7) div 8"
  have "?b \<le> 8 * ?n" by simp
  then have "2 ^ ?b \<le> (2::nat) ^ (8 * ?n)" by (intro power_increasing) auto
  then have 1: "pn_val a < 256 ^ ?n" using bu_bits_upper[of a] by (simp add: pow256)
  have 2: "256 ^ (?n - 1) \<le> pn_val a" if "?n \<noteq> 0"
  proof -
    from that have "?b \<noteq> 0" by (intro notI) simp
    moreover have "8 * (?n - 1) \<le> ?b - 1" by simp
    then have "(2::nat) ^ (8 * (?n - 1)) \<le> 2 ^ (?b - 1)" by (intro power_increasing) auto
    ultimately show ?thesis using bu_bits_lower[of a] bu_bits_eq_0[of a] by (simp add: pow256)
  qed
  from 1 2 show ?thesis by (simp add: byte_size_def)
qed

definition top3 :: "nat \<Rightarrow> nat \<Rightarrow> nat" where
  "top3 v n = (if n \<le> 3 then v * 256 ^ (3 - n) else v div 256 ^ (n - 3))"

lemma top3_less: "byte_size v n \<Longrightarrow> top3 v n < 2 ^ 24"
proof -
  assume b: "byte_size v n"
  show ?thesis
  proof (cases "n \<le> 3")
    case True
    have "v * 256 ^ (3 - n) < 256 ^ n * 256 ^ (3 - n)" using b by (simp add: byte_size_def)
    also have "\<dots> = 256 ^ 3" using True by (simp only: power_add[symmetric]) simp
    finally show ?thesis using True by (simp add: top3_def)
  next
    case False
    have "256 ^ n = 256 ^ (n - 3) * (256::nat) ^ 3" using False by (simp only: power_add[symmetric]) simp
    then have "v < 256 ^ (n - 3) * 256 ^ 3" using b by (simp add: byte_size_def)
    then have "v div 256 ^ (n - 3) < 256 ^ 3" by (simp only: div_less_iff_less_mult zero_less_power zero_less_numeral mult.commute)
    then show ?thesis using False by (simp add: top3_def)
  qed
qed

lemma top3_ge: "byte_size v n \<Longrightarrow> n \<noteq> 0 \<Longrightarrow> 2 ^ 16 \<le> top3 v n"
proof -
  assume b: "byte_size v n" "n \<noteq> 0"
  show ?thesis
  proof (cases "n \<le> 3")
    case True
    have "256 ^ 2 = 256 ^ (n - 1) * (256::nat) ^ (3 - n)" using True b(2) by (simp only: power_add[symmetric]) simp
    also have "\<dots> \<le> v * 256 ^ (3 - n)" using b by (simp add: byte_size_def)
    finally show ?thesis using True by (simp add: top3_def)
  next
    case False
    have e: "2 + (n - 3) = n - 1" using False by simp
    have "256 ^ 2 * 256 ^ (n - 3) = (256::nat) ^ (n - 1)" by (simp only: power_add[symmetric] e)
    also have "\<dots> \<le> v" using b by (simp add: byte_size_def)
    finally have "256 ^ 2 \<le> v div 256 ^ (n - 3)" by (simp only: less_eq_div_iff_mult_less_eq zero_less_power zero_less_numeral)
    then show ?thesis using False by (simp add: top3_def)
  qed
qed

lemma compact_parts_eq:
  "compact_parts v n = (if top3 v n \<ge> 2 ^ 23 then (top3 v n div 256, n + 1) else (top3 v n, n))"
  by (simp add: compact_parts_def top3_def Let_def)

lemma nCompact0_val:
  assumes "length a = 8" "byte_size (pn_val a) n"
  shows "unat (if n \<le> 3 then ucast (push_bit (8 * (3 - n)) (GetLow64 a))
               else ucast (GetLow64 (bu_shr a (8 * (n - 3)))) :: u32) = top3 (pn_val a) n"
proof (cases "n \<le> 3")
  case True
  have t: "pn_val a * 256 ^ (3 - n) < 2 ^ 24" using top3_less[OF assms(2)] True by (simp add: top3_def)
  moreover have "pn_val a * 1 \<le> pn_val a * 256 ^ (3 - n)" by (intro mult_le_mono) auto
  ultimately have "pn_val a * 1 < 2 ^ 24" by (rule le_less_trans[rotated])
  then have "pn_val a < 2 ^ 64" by simp
  then have l: "unat (GetLow64 a) = pn_val a" using GetLow64_val[OF assms(1)] by simp
  have "unat (push_bit (8 * (3 - n)) (GetLow64 a)) = pn_val a * 256 ^ (3 - n)"
    using t by (simp add: unat_shiftl l pow256)
  then show ?thesis using True t by (simp add: unat_ucast_mod top3_def)
next
  case False
  have t: "pn_val a div 256 ^ (n - 3) < 2 ^ 24" using top3_less[OF assms(2)] False by (simp add: top3_def)
  have "unat (GetLow64 (bu_shr a (8 * (n - 3)))) = pn_val a div 256 ^ (n - 3)"
    using t by (simp add: GetLow64_val bu_shr_val[OF assms(1)] pow256)
  then show ?thesis using False t by (simp add: unat_ucast_mod top3_def)
qed

lemma sign_bit_iff: "unat (c::u32) < 2 ^ 24 \<Longrightarrow> c AND 0x00800000 \<noteq> 0 \<longleftrightarrow> 2 ^ 23 \<le> unat c"
proof -
  assume c: "unat c < 2 ^ 24"
  have "c AND 0x00800000 \<noteq> 0 \<longleftrightarrow> bit c 23" using and_push_bit_one[of c 23] by simp
  also have "\<dots> \<longleftrightarrow> 2 ^ 23 \<le> unat c"
  proof
    show "bit c 23 \<Longrightarrow> 2 ^ 23 \<le> unat c" using bit_imp_ge[of "unat c" 23] by (simp add: bit_unsigned_iff)
    show "2 ^ 23 \<le> unat c \<Longrightarrow> bit c 23" using unat_less_half[of c 23] c by fastforce
  qed
  finally show ?thesis .
qed

lemma small_word_bits: "unat (c::u32) < 2 ^ k \<Longrightarrow> k \<le> i \<Longrightarrow> \<not> bit c i"
proof
  assume "unat c < 2 ^ k" "k \<le> i" "bit c i"
  then have "2 ^ i \<le> unat c" using bit_imp_ge[of "unat c" i] by (simp add: bit_unsigned_iff)
  moreover have "(2::nat) ^ k \<le> 2 ^ i" using \<open>k \<le> i\<close> by (rule power_increasing) simp
  ultimately show False using \<open>unat c < 2 ^ k\<close> by linarith
qed

lemma bit_mantissa_mask: "bit (0x007fffff :: u32) i \<longleftrightarrow> i < 23"
proof -
  have "(0x007fffff :: u32) = mask 23" by (simp add: mask_eq_exp_minus_1)
  then show ?thesis by (simp only: bit_mask_iff) auto
qed

lemma bit_sign_mask: "bit (0x00800000 :: u32) i \<longleftrightarrow> i = 23"
proof -
  have "(0x00800000 :: u32) = 2 ^ 23" by simp
  then show ?thesis by (simp only: bit_exp_iff) auto
qed

lemma no_high_bits: "unat (c::u32) < 2 ^ 23 \<Longrightarrow> c AND NOT 0x007fffff = 0"
proof -
  assume c: "unat c < 2 ^ 23"
  have e: "(0x007fffff :: u32) = mask 23" by (simp add: mask_eq_exp_minus_1)
  show ?thesis unfolding e
    using small_word_bits[OF c] by (intro bit_word_eqI) (auto simp: bit_and_iff bit_not_iff bit_mask_iff not_le[symmetric])
qed

lemma pack_compact:
  assumes "unat (m::u32) < 2 ^ 23" "k < 256"
  shows "unat (m OR push_bit 24 (word_of_nat k)) = unat m + 2 ^ 24 * k"
    and "(m OR push_bit 24 (word_of_nat k)) AND 0x007fffff = m"
    and "unat ((m OR push_bit 24 (word_of_nat k)) OR 0x00800000) = unat m + 2 ^ 24 * k + 2 ^ 23"
proof -
  let ?k = "push_bit 24 (word_of_nat k) :: u32"
  have b: "\<not> bit m i" if "23 \<le> i" for i using small_word_bits[OF assms(1) that] .
  have "m AND ?k = 0" by (rule bit_word_eqI) (auto simp: bit_simps b)
  moreover have "unat ?k = 2 ^ 24 * k" using assms(2) by (simp add: unat_shiftl unat_of_nat)
  ultimately show s: "unat (m OR ?k) = unat m + 2 ^ 24 * k" by (simp add: unat_or_disjoint)
  show "(m OR ?k) AND 0x007fffff = m"
    by (rule bit_word_eqI) (use b not_le in \<open>auto simp: bit_and_iff bit_or_iff bit_not_iff bit_push_bit_iff bit_mantissa_mask simp del: bit_numeral_word_iff\<close>)
  have "(m OR ?k) AND 0x00800000 = 0"
    by (rule bit_word_eqI) (auto simp: bit_and_iff bit_or_iff bit_push_bit_iff b bit_sign_mask
        simp del: bit_numeral_word_iff)
  from unat_or_disjoint[OF this] show "unat ((m OR ?k) OR 0x00800000) = unat m + 2 ^ 24 * k + 2 ^ 23"
    by (simp add: s)
qed

lemma byte_size_le_32: "length a = 8 \<Longrightarrow> (bu_bits a + 7) div 8 \<le> 32"
  using bu_bits_le[of a] by simp

lemma GetCompact_value:
  assumes "length a = 8" "compact_parts (pn_val a) ((bu_bits a + 7) div 8) = (m, k)"
  shows "m < 2 ^ 23" "k \<le> 33"
    and "\<exists>c. GetCompact a fNegative = Some c \<and>
           unat c = m + 2 ^ 24 * k + (if fNegative \<and> m \<noteq> 0 then 2 ^ 23 else 0)"
proof -
  define n where "n = (bu_bits a + 7) div 8"
  define c0 :: u32 where "c0 = (if n \<le> 3 then ucast (push_bit (8 * (3 - n)) (GetLow64 a))
               else ucast (GetLow64 (bu_shr a (8 * (n - 3)))))"
  define c1 where "c1 = (if c0 AND 0x00800000 \<noteq> 0 then drop_bit 8 c0 else c0)"
  have bs: "byte_size (pn_val a) n" unfolding n_def by (rule bits_byte_size)
  have t: "unat c0 = top3 (pn_val a) n" unfolding c0_def by (rule nCompact0_val[OF assms(1) bs])
  have lt: "top3 (pn_val a) n < 2 ^ 24" by (rule top3_less[OF bs])
  have sg: "c0 AND 0x00800000 \<noteq> 0 \<longleftrightarrow> 2 ^ 23 \<le> top3 (pn_val a) n"
    using sign_bit_iff[of c0] t lt by simp
  have mk: "unat c1 = m" "k = (if c0 AND 0x00800000 \<noteq> 0 then n + 1 else n)"
    using assms(2) sg t unfolding n_def[symmetric] compact_parts_eq c1_def
    by (auto simp: unat_shiftr split: if_splits)
  have "m < 2 ^ 23"
    using assms(2) lt unfolding n_def[symmetric] compact_parts_eq by (auto split: if_splits)
  moreover have "k \<le> 33" using mk(2) byte_size_le_32[OF assms(1)] by (simp add: n_def)
  ultimately show "m < 2 ^ 23" "k \<le> 33" by simp_all
  then have 1: "unat c1 < 2 ^ 23" "k < 256" using mk by simp_all
  have sp: "(if c0 AND 0x00800000 \<noteq> 0 then (drop_bit 8 c0, n + 1) else (c0, n)) = (c1, k)"
    by (simp add: c1_def mk(2))
  have "GetCompact a fNegative = Some ((c1 OR push_bit 24 (word_of_nat k)) OR
      (if fNegative \<and> c1 \<noteq> 0 then 0x00800000 else 0))"
    unfolding GetCompact_def Let_def n_def[symmetric] c0_def[symmetric] sp
    using no_high_bits[OF 1(1)] pack_compact(2)[OF 1] 1(2) by simp
  moreover have "c1 \<noteq> 0 \<longleftrightarrow> m \<noteq> 0" using mk(1) by (metis unat_eq_zero)
  ultimately show "\<exists>c. GetCompact a fNegative = Some c \<and>
           unat c = m + 2 ^ 24 * k + (if fNegative \<and> m \<noteq> 0 then 2 ^ 23 else 0)"
    using pack_compact(1,3)[OF 1] mk(1) by auto
qed

section \<open>Encoding, then decoding\<close>

text \<open>The number that is left of \<open>v\<close> of \<open>n\<close> bytes: its three leading bytes, or two of them when the
  leading bit of the mantissa would be the sign bit.\<close>

definition compact_trunc :: "nat \<Rightarrow> nat \<Rightarrow> nat" where
  "compact_trunc v n = (let k = n - (if top3 v n \<ge> 2 ^ 23 then 2 else 3) in v div 256 ^ k * 256 ^ k)"

definition parts_val :: "nat \<Rightarrow> nat \<Rightarrow> nat" where
  "parts_val m k = (if k \<le> 3 then m div 256 ^ (3 - k) else m * 256 ^ (k - 3))"

lemma div_exp_mult: "v div 256 ^ k div 256 = v div (256::nat) ^ Suc k"
  by (simp only: div_mult2_eq[symmetric] power_Suc2)

lemma parts_val_trunc:
  assumes "byte_size v n" "compact_parts v n = (m, k)"
  shows "parts_val m k = compact_trunc v n"
proof (cases "top3 v n \<ge> 2 ^ 23")
  case True
  with assms have mk: "m = top3 v n div 256" "k = n + 1" by (simp_all add: compact_parts_eq)
  have "n \<noteq> 0"
  proof
    assume "n = 0"
    then show False using True assms(1) by (simp add: top3_def byte_size_def)
  qed
  then consider "n \<le> 2" | "n = 3" | "n > 3" by linarith
  then show ?thesis
  proof cases
    case 1
    with \<open>n \<noteq> 0\<close> have "n = 1 \<or> n = 2" by linarith
    with True show ?thesis by (auto simp: parts_val_def mk top3_def compact_trunc_def)
  next
    case 2
    with True show ?thesis by (simp add: parts_val_def mk top3_def compact_trunc_def)
  next
    case 3
    then have "Suc (n - 3) = n - 2" by simp
    with 3 True show ?thesis
      by (simp add: parts_val_def mk top3_def compact_trunc_def Let_def div_exp_mult del: power_Suc)
  qed
next
  case False
  with assms have "m = top3 v n" "k = n" by (auto simp: compact_parts_eq)
  with False show ?thesis by (simp add: parts_val_def top3_def compact_trunc_def Let_def)
qed

lemma compact_val_parts:
  assumes "unat c = m + 2 ^ 24 * k + s" "m < 2 ^ 23" "s = 0 \<or> s = 2 ^ 23"
  shows "compact_val c = parts_val m k" and "compact_size c = k" and "bit c 23 \<longleftrightarrow> s \<noteq> 0"
proof -
  have "unat c = (m + s) + 2 ^ 24 * k" using assms(1) by simp
  moreover have "m + s < 2 ^ 24" using assms(2,3) by auto
  moreover have "m + s < 2 ^ 24 \<Longrightarrow> ((m + s) + 2 ^ 24 * k) div 2 ^ 24 = k" by simp
  ultimately have d: "unat c div 2 ^ 24 = k" by (simp only:)
  have e: "m + 2 ^ 24 * k + s = m + 2 ^ 23 * (2 * k + s div 2 ^ 23)" using assms(3) by auto
  have m: "unat c mod 2 ^ 23 = m" using assms(2) unfolding assms(1) e by (simp only: mod_mult_self2 mod_less)
  show "compact_size c = k" using d by (simp only: compact_size_def)
  with m show "compact_val c = parts_val m k" by (simp only: compact_val_def parts_val_def Let_def)
  have "unat c div 2 ^ 23 = 2 * k + s div 2 ^ 23"
    using assms(2) unfolding assms(1) e by (simp only: div_mult_self2) simp
  then have "bit (unat c) 23 \<longleftrightarrow> odd (s div 2 ^ 23)" by (simp add: bit_iff_odd)
  then show "bit c 23 \<longleftrightarrow> s \<noteq> 0" using assms(3) by (auto simp: bit_unsigned_iff)
qed

lemma compact_trunc_le: "compact_trunc v n \<le> v"
  by (simp add: compact_trunc_def Let_def)

text \<open>Truncation keeps the byte size and the leading bytes, so encoding again changes nothing.\<close>

lemma trunc_byte_size:
  assumes "byte_size v n" shows "byte_size (compact_trunc v n) n"
proof (cases "n = 0")
  case True
  then show ?thesis using assms compact_trunc_le[of v n] by (simp add: byte_size_def)
next
  case False
  define k where "k = n - (if top3 v n \<ge> 2 ^ 23 then 2 else 3)"
  have "k \<le> n - 1" unfolding k_def by (cases "top3 v n \<ge> 2 ^ 23") auto
  then have "256 ^ (n - 1) = (256::nat) ^ (n - 1 - k) * 256 ^ k"
    by (simp add: power_add[symmetric])
  moreover have "256 ^ (n - 1) \<le> v" using assms False by (simp add: byte_size_def)
  ultimately have "256 ^ (n - 1 - k) \<le> v div 256 ^ k"
    by (simp add: less_eq_div_iff_mult_less_eq)
  then have "256 ^ (n - 1 - k) * 256 ^ k \<le> v div 256 ^ k * 256 ^ k" by (rule mult_le_mono1)
  then have "256 ^ (n - 1) \<le> compact_trunc v n"
    unfolding compact_trunc_def k_def[symmetric] Let_def using \<open>256 ^ (n - 1) = _\<close> by simp
  moreover have "compact_trunc v n < 256 ^ n"
    using assms compact_trunc_le[of v n] by (simp add: byte_size_def)
  ultimately show ?thesis using False by (simp add: byte_size_def)
qed

lemma trunc_parts:
  assumes "byte_size v n" shows "compact_parts (compact_trunc v n) n = compact_parts v n"
proof -
  consider (small) "n \<le> 2" | (three) "n = 3" | (keep) "n > 3" "top3 v n < 2 ^ 23" | (adj) "n > 3" "top3 v n \<ge> 2 ^ 23"
    by linarith
  then show ?thesis
  proof cases
    case small
    then show ?thesis by (simp add: compact_trunc_def)
  next
    case three
    have "32768 \<le> v div 256" if "8388608 \<le> v" using that by (simp add: less_eq_div_iff_mult_less_eq)
    with three show ?thesis by (auto simp: compact_trunc_def compact_parts_eq top3_def Let_def)
  next
    case keep
    then have "top3 (compact_trunc v n) n = top3 v n" by (simp add: compact_trunc_def top3_def Let_def)
    then show ?thesis by (simp add: compact_parts_eq)
  next
    case adj
    have s: "n - 2 = Suc (n - 3)" using adj by simp
    have "compact_trunc v n = (top3 v n div 256 * 256) * 256 ^ (n - 3)"
      using adj by (simp add: compact_trunc_def Let_def s top3_def div_exp_mult[symmetric] del: power_Suc) simp
    then have t: "top3 (compact_trunc v n) n = top3 v n div 256 * 256"
      using adj by (simp add: top3_def)
    then show ?thesis using adj by (simp add: compact_parts_eq)
  qed
qed

text \<open>The encoding of a number: its value, its flags and that encoding again gives the same word.\<close>

lemma GetCompact_decode:
  assumes a: "length a = 8"
  obtains c b where "GetCompact a False = Some c" "SetCompact c = (b, False, False)"
    "length b = 8" "pn_val b = compact_trunc (pn_val a) ((bu_bits a + 7) div 8)" "GetCompact b False = Some c"
proof -
  let ?n = "(bu_bits a + 7) div 8"
  obtain m k where mk: "compact_parts (pn_val a) ?n = (m, k)" by (cases "compact_parts (pn_val a) ?n")
  obtain c where c: "GetCompact a False = Some c" "unat c = m + 2 ^ 24 * k + 0"
    using GetCompact_value(3)[OF a mk, of False] by auto
  note m = GetCompact_value(1)[OF a mk]
  obtain b neg ovf where b: "SetCompact c = (b, neg, ovf)" by (cases "SetCompact c")
  have cv: "compact_val c = compact_trunc (pn_val a) ?n" "\<not> bit c 23"
    using compact_val_parts[OF c(2) m] parts_val_trunc[OF bits_byte_size mk] by auto
  have lt: "compact_val c < 2 ^ 256"
    using compact_trunc_le[of "pn_val a" ?n] pn_val_less256[OF a] cv(1) by linarith
  note sv = SetCompact_value[OF b]
  have fl: "neg = False" "ovf = False" using sv(2,4) lt cv(2) by auto
  have bv: "pn_val b = compact_trunc (pn_val a) ?n" using sv(3) lt cv(1) by simp
  have nb: "(bu_bits b + 7) div 8 = ?n"
    using byte_size_unique[OF bits_byte_size] trunc_byte_size[OF bits_byte_size[of a]] bv by metis
  have "compact_parts (pn_val b) ((bu_bits b + 7) div 8) = (m, k)"
    using trunc_parts[OF bits_byte_size[of a]] mk by (simp add: nb bv)
  from GetCompact_value(3)[OF sv(1) this, of False]
  obtain c' where "GetCompact b False = Some c'" "unat c' = unat c" using c(2) by auto
  then have "GetCompact b False = Some c" by (metis word_eq_unatI)
  with that c(1) b fl sv(1) bv show thesis by blast
qed

text \<open>At least fifteen leading bits survive the truncation.\<close>

lemma compact_trunc_error: "byte_size v n \<Longrightarrow> (v - compact_trunc v n) * 2 ^ 15 \<le> v"
proof (cases "n \<le> 2")
  case True
  then show ?thesis by (simp add: compact_trunc_def)
next
  case False
  assume b: "byte_size v n"
  define k where "k = n - (if top3 v n \<ge> 2 ^ 23 then 2 else 3)"
  have "v - compact_trunc v n = v mod 256 ^ k"
    unfolding compact_trunc_def Let_def k_def[symmetric] by (rule minus_div_mult_eq_mod)
  moreover have "v mod 256 ^ k < 256 ^ k" by simp
  moreover have "256 ^ k * 2 ^ 15 \<le> v"
  proof (cases "top3 v n \<ge> 2 ^ 23")
    case True
    have s: "256 ^ k = (256::nat) * 256 ^ (n - 3)"
      using True False by (simp add: k_def power_Suc[symmetric] Suc_diff_le numeral_eq_Suc del: power_Suc)
    have "2 ^ 23 * 256 ^ (n - 3) \<le> top3 v n * 256 ^ (n - 3)" using True by (rule mult_le_mono1)
    also have "\<dots> \<le> v" using False by (cases "n = 3") (auto simp: top3_def)
    finally show ?thesis by (simp add: s)
  next
    case False': False
    have "2 ^ 16 * 256 ^ (n - 3) \<le> top3 v n * 256 ^ (n - 3)"
      using top3_ge[OF b] False by (intro mult_le_mono1) simp
    also have "\<dots> \<le> v" using False by (cases "n = 3") (auto simp: top3_def)
    finally show ?thesis using False' by (simp add: k_def)
  qed
  moreover have "v mod 256 ^ k * 2 ^ 15 \<le> 256 ^ k * 2 ^ 15" by (rule mult_le_mono1) simp
  ultimately show ?thesis by (simp only:)
qed

section \<open>Properties\<close>

text \<open>\<^verbatim>\<open>SetCompact\<close> raises its overflow flag exactly when the encoded number does not fit 256 bits,
  raises the sign flag exactly for a non-zero number with the sign bit, and otherwise stores the encoded
  number.\<close>

lemma SetCompact_correct:
  "case SetCompact c of (v, fNegative, fOverflow) \<Rightarrow>
     fOverflow = (2 ^ 256 \<le> compact_val c) \<and> fNegative = (compact_val c \<noteq> 0 \<and> bit c 23) \<and>
     pn_val v = compact_val c mod 2 ^ 256"
proof -
  obtain v n f where "SetCompact c = (v, n, f)" by (cases "SetCompact c")
  with SetCompact_value[OF this] show ?thesis by simp
qed

text \<open>\<^verbatim>\<open>GetCompact\<close> never fails an assertion; decoding its result raises no flag, loses at most one
  part in \<open>2 ^ 15\<close> of the number and never exceeds it; and encoding the decoded number again gives the
  same word, so the encoding is a normal form.\<close>

lemma GetCompact_roundtrip:
  assumes "length a = WIDTH"
  shows "\<exists>c b. GetCompact a False = Some c \<and> SetCompact c = (b, False, False) \<and>
           pn_val b \<le> pn_val a \<and> (pn_val a - pn_val b) * 2 ^ 15 \<le> pn_val a \<and> GetCompact b False = Some c"
proof -
  from assms have "length a = 8" by simp
  then obtain c b where "GetCompact a False = Some c" "SetCompact c = (b, False, False)"
    "pn_val b = compact_trunc (pn_val a) ((bu_bits a + 7) div 8)" "GetCompact b False = Some c"
    by (rule GetCompact_decode)
  moreover note compact_trunc_le compact_trunc_error[OF bits_byte_size[of a]]
  ultimately show ?thesis by metis
qed

end
