(* ===== verification/Chain.thy ===== *)
theory Chain
  imports CompactTarget "HOL-Library.Monad_Syntax"
begin

text \<open>
  The in-memory block tree of \<^verbatim>\<open>chain.h\<close> and \<^verbatim>\<open>chain.cpp\<close>: \<^verbatim>\<open>CBlockIndex\<close> entries linked by
  \<^verbatim>\<open>pprev\<close> and by the skip pointer \<^verbatim>\<open>pskip\<close>, and \<^verbatim>\<open>CChain\<close>, a vector of entries by height. Entries
  live in an explicit store from addresses to records, since the claims depend on the sharing; a null
  pointer is \<open>None\<close>. An operation that follows pointers returns \<open>None\<close> (of the outer option) where the
  code would dereference a null or dangling pointer, and the theorems show that a well-formed tree
  never leads there. \<open>anc\<close>, the walk over \<^verbatim>\<open>pprev\<close>, is the reference for the skip list.
\<close>

section \<open>Block headers and positions\<close>

record CBlockHeader =
  nVersion :: int
  hashPrevBlock :: uint256
  hashMerkleRoot :: uint256
  nTime :: u32
  nBits :: u32
  nNonce :: u32

definition CBlockHeader_SetNull :: CBlockHeader where
  "CBlockHeader_SetNull = \<lparr> nVersion = 0, hashPrevBlock = blob_null 32, hashMerkleRoot = blob_null 32,
     nTime = 0, nBits = 0, nNonce = 0 \<rparr>"

definition CBlockHeader_IsNull :: "CBlockHeader \<Rightarrow> bool" where
  "CBlockHeader_IsNull h \<longleftrightarrow> nBits h = 0"

definition header_GetBlockTime :: "CBlockHeader \<Rightarrow> int" where
  "header_GetBlockTime h = int (unat (nTime h))"

record CDiskBlockPos =
  pos_nFile :: int
  pos_nPos :: u32

definition CDiskBlockPos_SetNull :: CDiskBlockPos where
  "CDiskBlockPos_SetNull = \<lparr> pos_nFile = -1, pos_nPos = 0 \<rparr>"

definition CDiskBlockPos_IsNull :: "CDiskBlockPos \<Rightarrow> bool" where
  "CDiskBlockPos_IsNull p \<longleftrightarrow> pos_nFile p = -1"

section \<open>Block status\<close>

definition BLOCK_VALID_UNKNOWN :: u32 where "BLOCK_VALID_UNKNOWN = 0"
definition BLOCK_VALID_HEADER :: u32 where "BLOCK_VALID_HEADER = 1"
definition BLOCK_VALID_TREE :: u32 where "BLOCK_VALID_TREE = 2"
definition BLOCK_VALID_TRANSACTIONS :: u32 where "BLOCK_VALID_TRANSACTIONS = 3"
definition BLOCK_VALID_CHAIN :: u32 where "BLOCK_VALID_CHAIN = 4"
definition BLOCK_VALID_SCRIPTS :: u32 where "BLOCK_VALID_SCRIPTS = 5"

definition BLOCK_VALID_MASK :: u32 where
  "BLOCK_VALID_MASK = BLOCK_VALID_HEADER OR BLOCK_VALID_TREE OR BLOCK_VALID_TRANSACTIONS OR
     BLOCK_VALID_CHAIN OR BLOCK_VALID_SCRIPTS"

definition BLOCK_HAVE_DATA :: u32 where "BLOCK_HAVE_DATA = 8"
definition BLOCK_HAVE_UNDO :: u32 where "BLOCK_HAVE_UNDO = 16"
definition BLOCK_HAVE_MASK :: u32 where "BLOCK_HAVE_MASK = BLOCK_HAVE_DATA OR BLOCK_HAVE_UNDO"
definition BLOCK_FAILED_VALID :: u32 where "BLOCK_FAILED_VALID = 32"
definition BLOCK_FAILED_CHILD :: u32 where "BLOCK_FAILED_CHILD = 64"
definition BLOCK_FAILED_MASK :: u32 where "BLOCK_FAILED_MASK = BLOCK_FAILED_VALID OR BLOCK_FAILED_CHILD"

lemmas block_status = BLOCK_VALID_UNKNOWN_def BLOCK_VALID_HEADER_def BLOCK_VALID_TREE_def
  BLOCK_VALID_TRANSACTIONS_def BLOCK_VALID_CHAIN_def BLOCK_VALID_SCRIPTS_def BLOCK_VALID_MASK_def
  BLOCK_HAVE_DATA_def BLOCK_HAVE_UNDO_def BLOCK_HAVE_MASK_def BLOCK_FAILED_VALID_def
  BLOCK_FAILED_CHILD_def BLOCK_FAILED_MASK_def

section \<open>Block index entries\<close>

record CBlockIndex =
  phashBlock :: "uint256 option"
  pprev :: "nat option"
  pskip :: "nat option"
  nHeight :: int
  nFile :: int
  nDataPos :: u32
  nUndoPos :: u32
  nChainWork :: base_uint
  nTx :: u32
  nChainTx :: u32
  nStatus :: u32
  bi_nVersion :: int
  bi_hashMerkleRoot :: uint256
  bi_nTime :: u32
  bi_nBits :: u32
  bi_nNonce :: u32
  nSequenceId :: u32

type_synonym block_store = "nat \<rightharpoonup> CBlockIndex"

definition CBlockIndex_SetNull :: CBlockIndex where
  "CBlockIndex_SetNull = \<lparr> phashBlock = None, pprev = None, pskip = None, nHeight = 0, nFile = 0,
     nDataPos = 0, nUndoPos = 0, nChainWork = bu_zero, nTx = 0, nChainTx = 0, nStatus = 0,
     bi_nVersion = 0, bi_hashMerkleRoot = blob_null 32, bi_nTime = 0, bi_nBits = 0, bi_nNonce = 0,
     nSequenceId = 0 \<rparr>"

definition CBlockIndex_of :: "CBlockHeader \<Rightarrow> CBlockIndex" where
  "CBlockIndex_of block = CBlockIndex_SetNull \<lparr> bi_nVersion := nVersion block,
     bi_hashMerkleRoot := hashMerkleRoot block, bi_nTime := nTime block, bi_nBits := nBits block,
     bi_nNonce := nNonce block \<rparr>"

definition GetBlockPos :: "CBlockIndex \<Rightarrow> CDiskBlockPos" where
  "GetBlockPos b = (if nStatus b AND BLOCK_HAVE_DATA \<noteq> 0 then \<lparr> pos_nFile = nFile b, pos_nPos = nDataPos b \<rparr>
                    else CDiskBlockPos_SetNull)"

definition GetUndoPos :: "CBlockIndex \<Rightarrow> CDiskBlockPos" where
  "GetUndoPos b = (if nStatus b AND BLOCK_HAVE_UNDO \<noteq> 0 then \<lparr> pos_nFile = nFile b, pos_nPos = nUndoPos b \<rparr>
                   else CDiskBlockPos_SetNull)"

text \<open>\<^verbatim>\<open>*phashBlock\<close> of the entry at an address\<close>

definition GetBlockHash :: "block_store \<Rightarrow> nat \<Rightarrow> uint256 option" where
  "GetBlockHash st p = do { b \<leftarrow> st p; phashBlock b }"

definition GetBlockHeader :: "block_store \<Rightarrow> CBlockIndex \<Rightarrow> CBlockHeader option" where
  "GetBlockHeader st b =
     do { prev \<leftarrow> (case pprev b of None \<Rightarrow> Some (blob_null 32) | Some p \<Rightarrow> GetBlockHash st p);
          Some \<lparr> nVersion = bi_nVersion b, hashPrevBlock = prev, hashMerkleRoot = bi_hashMerkleRoot b,
                 nTime = bi_nTime b, nBits = bi_nBits b, nNonce = bi_nNonce b \<rparr> }"

definition GetBlockTime :: "CBlockIndex \<Rightarrow> int" where
  "GetBlockTime b = int (unat (bi_nTime b))"

definition nMedianTimeSpan :: nat where
  "nMedianTimeSpan = 11"

text \<open>The loop of \<^verbatim>\<open>GetMedianTimePast\<close> that fills \<^verbatim>\<open>pmedian\<close> from its end: newest block last.\<close>

fun median_times :: "block_store \<Rightarrow> nat \<Rightarrow> nat option \<Rightarrow> int list option" where
  "median_times st 0 pindex = Some []"
| "median_times st (Suc n) None = Some []"
| "median_times st (Suc n) (Some p) =
     do { b \<leftarrow> st p; ts \<leftarrow> median_times st n (pprev b); Some (GetBlockTime b # ts) }"

definition GetMedianTimePast :: "block_store \<Rightarrow> nat \<Rightarrow> int option" where
  "GetMedianTimePast st p =
     do { ts \<leftarrow> median_times st nMedianTimeSpan (Some p);
          let s = sort (rev ts) in Some (s ! (length s div 2)) }"

text \<open>\<open>None\<close>: the assertion that only validity flags are passed fails.\<close>

definition IsValid :: "CBlockIndex \<Rightarrow> u32 \<Rightarrow> bool option" where
  "IsValid b nUpTo =
     (if nUpTo AND NOT BLOCK_VALID_MASK \<noteq> 0 then None
      else if nStatus b AND BLOCK_FAILED_MASK \<noteq> 0 then Some False
      else Some (nStatus b AND BLOCK_VALID_MASK \<ge> nUpTo))"

definition RaiseValidity :: "CBlockIndex \<Rightarrow> u32 \<Rightarrow> (CBlockIndex \<times> bool) option" where
  "RaiseValidity b nUpTo =
     (if nUpTo AND NOT BLOCK_VALID_MASK \<noteq> 0 then None
      else if nStatus b AND BLOCK_FAILED_MASK \<noteq> 0 then Some (b, False)
      else if nStatus b AND BLOCK_VALID_MASK < nUpTo
           then Some (b\<lparr> nStatus := (nStatus b AND NOT BLOCK_VALID_MASK) OR nUpTo \<rparr>, True)
      else Some (b, False))"

section \<open>Skip list\<close>

definition InvertLowestOne :: "int \<Rightarrow> int" where
  "InvertLowestOne n = n AND (n - 1)"

definition GetSkipHeight :: "int \<Rightarrow> int" where
  "GetSkipHeight height =
     (if height < 2 then 0
      else if height AND 1 \<noteq> 0 then InvertLowestOne (InvertLowestOne (height - 1)) + 1
      else InvertLowestOne height)"

lemma InvertLowestOne_bounds: "0 \<le> n \<Longrightarrow> 0 \<le> InvertLowestOne n \<and> InvertLowestOne n \<le> n \<and> (0 < n \<longrightarrow> InvertLowestOne n < n)"
proof -
  assume n: "0 \<le> n"
  then have "0 \<le> n AND (n - 1)" "n AND (n - 1) \<le> n" by (simp_all add: AND_upper1)
  moreover have "0 < n \<Longrightarrow> n AND (n - 1) \<le> n - 1" by (rule AND_upper2) simp
  ultimately show ?thesis by (auto simp: InvertLowestOne_def)
qed

lemma GetSkipHeight_less: "0 < h \<Longrightarrow> 0 \<le> GetSkipHeight h \<and> GetSkipHeight h < h"
proof -
  assume h: "0 < h"
  show ?thesis
  proof (cases "h < 2")
    case False
    then have "InvertLowestOne h < h \<and> 0 \<le> InvertLowestOne h"
      "InvertLowestOne (h - 1) < h - 1 \<and> 0 \<le> InvertLowestOne (h - 1)"
      "0 \<le> InvertLowestOne (h - 1) \<Longrightarrow> InvertLowestOne (InvertLowestOne (h - 1)) \<le> InvertLowestOne (h - 1)
         \<and> 0 \<le> InvertLowestOne (InvertLowestOne (h - 1))"
      using InvertLowestOne_bounds[of h] InvertLowestOne_bounds[of "h - 1"]
        InvertLowestOne_bounds[of "InvertLowestOne (h - 1)"] by auto
    then show ?thesis using False by (auto simp: GetSkipHeight_def)
  qed (use h in \<open>simp add: GetSkipHeight_def\<close>)
qed

text \<open>The loop of \<^verbatim>\<open>CBlockIndex::GetAncestor\<close>; \<open>GetAncestor\<close> enters it with \<open>0 \<le> height\<close> only.\<close>

function GetAncestor_walk :: "block_store \<Rightarrow> nat option \<Rightarrow> int \<Rightarrow> int \<Rightarrow> nat option option" where
  "GetAncestor_walk st pindexWalk heightWalk height =
     (if heightWalk > height \<and> height \<ge> 0 then
        do { p \<leftarrow> pindexWalk;
             b \<leftarrow> st p;
             let heightSkip = GetSkipHeight heightWalk in
             let heightSkipPrev = GetSkipHeight (heightWalk - 1) in
             if pskip b \<noteq> None \<and> (heightSkip = height \<or>
                  (heightSkip > height \<and> \<not> (heightSkipPrev < heightSkip - 2 \<and> heightSkipPrev \<ge> height)))
             then GetAncestor_walk st (pskip b) heightSkip height
             else GetAncestor_walk st (pprev b) (heightWalk - 1) height }
      else Some pindexWalk)"
  by auto
termination
  by (relation "measure (\<lambda>(st, p, hw, h). nat hw)") (auto simp: GetSkipHeight_less)

declare GetAncestor_walk.simps [simp del]

definition GetAncestor :: "block_store \<Rightarrow> nat \<Rightarrow> int \<Rightarrow> nat option option" where
  "GetAncestor st this height =
     do { b \<leftarrow> st this;
          if height > nHeight b \<or> height < 0 then Some None
          else GetAncestor_walk st (Some this) (nHeight b) height }"

text \<open>\<^verbatim>\<open>BuildSkip\<close> on the entry at an address\<close>

definition BuildSkip :: "block_store \<Rightarrow> nat \<Rightarrow> block_store option" where
  "BuildSkip st this =
     do { b \<leftarrow> st this;
          case pprev b of
            None \<Rightarrow> Some st
          | Some p \<Rightarrow> do { s \<leftarrow> GetAncestor st p (GetSkipHeight (nHeight b));
                           Some (st(this \<mapsto> b\<lparr> pskip := s \<rparr>)) } }"

section \<open>The active chain\<close>

type_synonym CChain = "nat option list"

definition Genesis :: "CChain \<Rightarrow> nat option" where
  "Genesis vChain = (if length vChain > 0 then vChain ! 0 else None)"

definition Tip :: "CChain \<Rightarrow> nat option" where
  "Tip vChain = (if length vChain > 0 then vChain ! (length vChain - 1) else None)"

definition chain_at :: "CChain \<Rightarrow> int \<Rightarrow> nat option" where
  "chain_at vChain h = (if h < 0 \<or> h \<ge> int (length vChain) then None else vChain ! nat h)"

definition Contains :: "block_store \<Rightarrow> CChain \<Rightarrow> nat \<Rightarrow> bool option" where
  "Contains st vChain p = do { b \<leftarrow> st p; Some (chain_at vChain (nHeight b) = Some p) }"

definition chain_Next :: "block_store \<Rightarrow> CChain \<Rightarrow> nat \<Rightarrow> nat option option" where
  "chain_Next st vChain p =
     do { c \<leftarrow> Contains st vChain p; b \<leftarrow> st p;
          Some (if c then chain_at vChain (nHeight b + 1) else None) }"

definition Height :: "CChain \<Rightarrow> int" where
  "Height vChain = int (length vChain) - 1"

text \<open>\<^verbatim>\<open>vChain.resize(n)\<close>\<close>

definition resize :: "nat \<Rightarrow> CChain \<Rightarrow> CChain" where
  "resize n v = take n v @ replicate (n - length v) None"

text \<open>The loop of \<^verbatim>\<open>SetTip\<close>; an access outside the vector is \<open>None\<close>.\<close>

partial_function (option) SetTip_loop :: "block_store \<Rightarrow> nat option \<Rightarrow> CChain \<Rightarrow> CChain option" where
  "SetTip_loop st pindex vChain =
     (case pindex of
        None \<Rightarrow> Some vChain
      | Some p \<Rightarrow>
          do { b \<leftarrow> st p;
               if 0 \<le> nHeight b \<and> nHeight b < int (length vChain)
               then if vChain ! nat (nHeight b) = Some p then Some vChain
                    else SetTip_loop st (pprev b) (vChain[nat (nHeight b) := Some p])
               else None })"

definition SetTip :: "block_store \<Rightarrow> nat option \<Rightarrow> CChain \<Rightarrow> CChain option" where
  "SetTip st pindex vChain =
     (case pindex of
        None \<Rightarrow> Some []
      | Some p \<Rightarrow> do { b \<leftarrow> st p; SetTip_loop st pindex (resize (nat (nHeight b + 1)) vChain) })"

text \<open>The loop of \<^verbatim>\<open>FindFork\<close>\<close>

partial_function (option) FindFork_loop :: "block_store \<Rightarrow> CChain \<Rightarrow> nat option \<Rightarrow> nat option option" where
  "FindFork_loop st vChain pindex =
     (case pindex of
        None \<Rightarrow> Some None
      | Some p \<Rightarrow>
          do { c \<leftarrow> Contains st vChain p; b \<leftarrow> st p;
               if c then Some pindex else FindFork_loop st vChain (pprev b) })"

definition FindFork :: "block_store \<Rightarrow> CChain \<Rightarrow> nat option \<Rightarrow> nat option option" where
  "FindFork st vChain pindex =
     (case pindex of
        None \<Rightarrow> Some None
      | Some p \<Rightarrow>
          do { b \<leftarrow> st p;
               q \<leftarrow> (if nHeight b > Height vChain then GetAncestor st p (Height vChain) else Some (Some p));
               FindFork_loop st vChain q })"

text \<open>The loop of \<^verbatim>\<open>GetLocator\<close>, with the size of \<^verbatim>\<open>vHave\<close> and the step as its state.\<close>

partial_function (option) GetLocator_loop ::
    "block_store \<Rightarrow> CChain \<Rightarrow> nat option \<Rightarrow> int \<Rightarrow> uint256 list \<Rightarrow> uint256 list option" where
  "GetLocator_loop st vChain pindex nStep vHave =
     (case pindex of
        None \<Rightarrow> Some vHave
      | Some p \<Rightarrow>
          do { b \<leftarrow> st p;
               hash \<leftarrow> phashBlock b;
               let vHave' = vHave @ [hash] in
               if nHeight b = 0 then Some vHave'
               else do { c \<leftarrow> Contains st vChain p;
                         let h = max (nHeight b - nStep) 0 in
                         do { q \<leftarrow> (if c then Some (chain_at vChain h) else GetAncestor st p h);
                              GetLocator_loop st vChain q (if length vHave' > 10 then nStep * 2 else nStep) vHave' } } })"

definition GetLocator :: "block_store \<Rightarrow> CChain \<Rightarrow> nat option \<Rightarrow> uint256 list option" where
  "GetLocator st vChain pindex =
     GetLocator_loop st vChain (if pindex = None then Tip vChain else pindex) 1 []"

section \<open>Well-formed trees and the reference walk\<close>

primrec anc :: "block_store \<Rightarrow> nat \<Rightarrow> nat \<Rightarrow> nat option" where
  "anc st i 0 = Some i"
| "anc st i (Suc n) = do { j \<leftarrow> anc st i n; b \<leftarrow> st j; pprev b }"

definition tree_ok :: "block_store \<Rightarrow> bool" where
  "tree_ok st \<longleftrightarrow> (\<forall>i b. st i = Some b \<longrightarrow> 0 \<le> nHeight b
     \<and> (case pprev b of None \<Rightarrow> nHeight b = 0
        | Some j \<Rightarrow> \<exists>b'. st j = Some b' \<and> nHeight b' = nHeight b - 1)
     \<and> (pskip b \<noteq> None \<longrightarrow> pskip b = anc st i (nat (nHeight b - GetSkipHeight (nHeight b)))))"

lemma tree_okD:
  assumes "tree_ok st" "st i = Some b"
  shows "0 \<le> nHeight b"
    and "pprev b = None \<Longrightarrow> nHeight b = 0"
    and "pprev b = Some j \<Longrightarrow> \<exists>b'. st j = Some b' \<and> nHeight b' = nHeight b - 1"
    and "pskip b \<noteq> None \<Longrightarrow> pskip b = anc st i (nat (nHeight b - GetSkipHeight (nHeight b)))"
proof -
  from assms have "0 \<le> nHeight b
     \<and> (case pprev b of None \<Rightarrow> nHeight b = 0
        | Some j \<Rightarrow> \<exists>b'. st j = Some b' \<and> nHeight b' = nHeight b - 1)
     \<and> (pskip b \<noteq> None \<longrightarrow> pskip b = anc st i (nat (nHeight b - GetSkipHeight (nHeight b))))"
    unfolding tree_ok_def by blast
  then show "0 \<le> nHeight b"
    and "pprev b = None \<Longrightarrow> nHeight b = 0"
    and "pprev b = Some j \<Longrightarrow> \<exists>b'. st j = Some b' \<and> nHeight b' = nHeight b - 1"
    and "pskip b \<noteq> None \<Longrightarrow> pskip b = anc st i (nat (nHeight b - GetSkipHeight (nHeight b)))"
    by (auto split: option.splits)
qed

lemma tree_ok_prev:
  assumes "tree_ok st" "st i = Some b" "0 < nHeight b"
  obtains j b' where "pprev b = Some j" "st j = Some b'" "nHeight b' = nHeight b - 1"
  using tree_okD[OF assms(1,2)] assms(3) by (cases "pprev b") auto

lemma anc_add: "anc st i (m + n) = do { j \<leftarrow> anc st i m; anc st j n }"
  by (induction n) (auto simp: Option.bind_assoc split: Option.bind_splits)

lemma anc_Suc_front: "st i = Some b \<Longrightarrow> pprev b = Some j \<Longrightarrow> anc st i (Suc n) = anc st j n"
  using anc_add[of st i 1 n] by simp

lemma anc_height:
  assumes "tree_ok st" "st i = Some b"
  shows "int n \<le> nHeight b \<Longrightarrow> \<exists>j b'. anc st i n = Some j \<and> st j = Some b' \<and> nHeight b' = nHeight b - int n"
proof (induction n)
  case 0
  then show ?case using assms by simp
next
  case (Suc n)
  then obtain j b' where j: "anc st i n = Some j" "st j = Some b'" "nHeight b' = nHeight b - int n" by auto
  with Suc.prems have "0 < nHeight b'" by simp
  with tree_ok_prev[OF assms(1) j(2)] obtain k b'' where
    "pprev b' = Some k" "st k = Some b''" "nHeight b'' = nHeight b' - 1" by metis
  with j show ?case by simp
qed

lemma anc_beyond:
  assumes "tree_ok st" "st i = Some b" "nHeight b < int n"
  shows "anc st i n = None"
proof -
  define h where "h = nat (nHeight b)"
  have h: "int h = nHeight b" using tree_okD(1)[OF assms(1,2)] by (simp add: h_def)
  obtain j b' where j: "anc st i h = Some j" "st j = Some b'" "nHeight b' = 0"
    using anc_height[OF assms(1,2), of h] h by auto
  have "pprev b' = None" using tree_okD(3)[OF assms(1) j(2)] tree_okD(1)[OF assms(1)] j(3)
    by (cases "pprev b'") fastforce+
  then have z: "anc st i (Suc h) = None" using j by simp
  have "n = Suc h + (n - Suc h)" using assms(3) h by simp
  then show ?thesis using anc_add[of st i "Suc h" "n - Suc h"] unfolding z by simp
qed

lemma anc_heightD:
  assumes "tree_ok st" "st i = Some b" "anc st i n = Some j"
  shows "\<exists>b'. st j = Some b' \<and> nHeight b' = nHeight b - int n \<and> int n \<le> nHeight b"
  using anc_height[OF assms(1,2), of n] anc_beyond[OF assms(1,2), of n] assms(3)
  by (cases "int n \<le> nHeight b") auto

section \<open>The skip list computes the reference walk\<close>

lemma GetAncestor_walk_anc:
  assumes "tree_ok st" "st i = Some b" "nHeight b = hw" "0 \<le> h" "h \<le> hw"
  shows "GetAncestor_walk st (Some i) hw h = Some (anc st i (nat (hw - h)))"
  using assms(2-)
proof (induction "nat hw" arbitrary: i b hw rule: less_induct)
  case less
  note ok = tree_okD[OF assms(1) less.prems(1)]
  show ?case
  proof (cases "hw > h")
    case False
    then show ?thesis using less.prems by (simp add: GetAncestor_walk.simps)
  next
    case True
    then have pos: "0 < hw" using less.prems by simp
    note sk = GetSkipHeight_less[OF pos]
    let ?follow = "pskip b \<noteq> None \<and> (GetSkipHeight hw = h \<or> (GetSkipHeight hw > h \<and>
      \<not> (GetSkipHeight (hw - 1) < GetSkipHeight hw - 2 \<and> GetSkipHeight (hw - 1) \<ge> h)))"
    show ?thesis
    proof (cases ?follow)
      case f: True
      then have ge: "h \<le> GetSkipHeight hw" by auto
      obtain j b' where j: "pskip b = Some j" "st j = Some b'" "nHeight b' = GetSkipHeight hw"
        "anc st i (nat (hw - GetSkipHeight hw)) = Some j"
        using ok(4) f anc_height[OF assms(1) less.prems(1), of "nat (hw - GetSkipHeight hw)"] sk less.prems(2)
        by auto
      have "GetAncestor_walk st (Some i) hw h = GetAncestor_walk st (Some j) (GetSkipHeight hw) h"
        using True f less.prems j(1) by (subst GetAncestor_walk.simps) simp
      also have "\<dots> = Some (anc st j (nat (GetSkipHeight hw - h)))"
        using less.hyps[OF _ j(2,3) less.prems(3) ge] sk pos by simp
      also have "anc st j (nat (GetSkipHeight hw - h)) =
          anc st i (nat (hw - GetSkipHeight hw) + nat (GetSkipHeight hw - h))"
        by (simp add: anc_add j(4))
      also have "nat (hw - GetSkipHeight hw) + nat (GetSkipHeight hw - h) = nat (hw - h)"
        using sk ge nat_add_distrib[of "hw - GetSkipHeight hw" "GetSkipHeight hw - h"] by simp
      finally show ?thesis .
    next
      case nf: False
      obtain j b' where j: "pprev b = Some j" "st j = Some b'" "nHeight b' = hw - 1"
        using tree_ok_prev[OF assms(1) less.prems(1)] pos less.prems(2) by metis
      have "GetAncestor_walk st (Some i) hw h = GetAncestor_walk st (Some j) (hw - 1) h"
        using True nf less.prems j(1) by (subst GetAncestor_walk.simps) (auto simp: Let_def)
      also have "\<dots> = Some (anc st j (nat (hw - 1 - h)))"
        using less.hyps[OF _ j(2,3) less.prems(3)] True pos by simp
      also have "anc st j (nat (hw - 1 - h)) = anc st i (Suc (nat (hw - 1 - h)))"
        using anc_Suc_front[of st i b j] less.prems(1) j(1) by simp
      also have "Suc (nat (hw - 1 - h)) = nat (hw - h)" using True by simp
      finally show ?thesis .
    qed
  qed
qed

lemma GetAncestor_anc:
  assumes "tree_ok st" "st i = Some b" "0 \<le> h" "h \<le> nHeight b"
  shows "GetAncestor st i h = Some (anc st i (nat (nHeight b - h)))"
  using assms GetAncestor_walk_anc[OF assms(1,2) refl assms(3,4)] by (simp add: GetAncestor_def)

lemma anc_cong_prev:
  assumes "\<And>j. map_option pprev (st j) = map_option pprev (st' j)"
  shows "anc st i n = anc st' i n"
proof (induction n)
  case (Suc n)
  have "(st j \<bind> pprev) = (st' j \<bind> pprev)" for j
    using assms[of j] by (cases "st j"; cases "st' j") auto
  with Suc show ?case by (simp add: Option.bind_def split: option.splits)
qed simp

lemma BuildSkip_ok:
  assumes ok: "tree_ok st" and i: "st i = Some b"
  shows "\<exists>st'. BuildSkip st i = Some st' \<and> tree_ok st' \<and> (\<forall>j n. anc st' j n = anc st j n)
           \<and> st' = st(i \<mapsto> b\<lparr> pskip := if pprev b = None then pskip b else anc st i (nat (nHeight b - GetSkipHeight (nHeight b))) \<rparr>)"
proof (cases "pprev b")
  case None
  then have "BuildSkip st i = Some st" using i by (simp add: BuildSkip_def)
  moreover have "st = st(i \<mapsto> b\<lparr> pskip := pskip b \<rparr>)" using i by (simp add: fun_upd_idem)
  ultimately show ?thesis using ok None by simp
next
  case (Some p)
  obtain b' where b': "st p = Some b'" "nHeight b' = nHeight b - 1" using tree_okD(3)[OF ok i Some] by blast
  have pos: "0 < nHeight b" using tree_okD(1)[OF ok b'(1)] b'(2) by simp
  define h where "h = GetSkipHeight (nHeight b)"
  have h: "0 \<le> h" "h < nHeight b" using GetSkipHeight_less[OF pos] by (simp_all add: h_def)
  define s where "s = anc st i (nat (nHeight b - h))"
  define st' where "st' = st(i \<mapsto> b\<lparr> pskip := s \<rparr>)"
  have "GetAncestor st p h = Some (anc st p (nat (nHeight b' - h)))"
    using GetAncestor_anc[OF ok b'(1) h(1)] h b'(2) by simp
  also have "anc st p (nat (nHeight b' - h)) = anc st i (Suc (nat (nHeight b' - h)))"
    using anc_Suc_front[of st i b p] i Some by simp
  also have "Suc (nat (nHeight b' - h)) = nat (nHeight b - h)" using h b'(2) by simp
  finally have r: "BuildSkip st i = Some st'"
    using i Some by (simp add: BuildSkip_def h_def[symmetric] s_def[symmetric] st'_def)
  have a: "anc st' j n = anc st j n" for j n
    by (rule anc_cong_prev) (use i in \<open>auto simp: st'_def\<close>)
  have hts: "map_option nHeight (st' j) = map_option nHeight (st j)" for j
    using i by (simp add: st'_def)
  have "tree_ok st'"
    unfolding tree_ok_def
  proof (intro allI impI)
    fix j c assume c: "st' j = Some c"
    then obtain d where d: "st j = Some d" "nHeight d = nHeight c" "pprev d = pprev c"
      "j \<noteq> i \<Longrightarrow> pskip d = pskip c" "j = i \<Longrightarrow> pskip c = s \<and> d = b"
      using i by (cases "j = i") (auto simp: st'_def)
    note D = tree_okD[OF ok d(1)]
    have "\<exists>b'. st' k = Some b' \<and> nHeight b' = nHeight c - 1" if "pprev c = Some k" for k
      using D(3)[of k] that d(2,3) hts[of k] by (cases "st' k") auto
    moreover have "pskip c \<noteq> None \<longrightarrow> pskip c = anc st' j (nat (nHeight c - GetSkipHeight (nHeight c)))"
      using D(4) d a by (cases "j = i") (auto simp: s_def h_def)
    ultimately show "0 \<le> nHeight c \<and> (case pprev c of None \<Rightarrow> nHeight c = 0
        | Some j \<Rightarrow> \<exists>b'. st' j = Some b' \<and> nHeight b' = nHeight c - 1) \<and>
        (pskip c \<noteq> None \<longrightarrow> pskip c = anc st' j (nat (nHeight c - GetSkipHeight (nHeight c))))"
      using D(1,2) d(2,3) by (auto split: option.splits)
  qed
  with r a show ?thesis using Some by (simp add: st'_def s_def h_def)
qed

section \<open>The active chain\<close>

text \<open>A slot that is filled holds an entry of its height whose predecessor is in the slot below.\<close>

definition slots_ok :: "block_store \<Rightarrow> CChain \<Rightarrow> nat \<Rightarrow> bool" where
  "slots_ok st v k \<longleftrightarrow> (\<forall>j<k. \<forall>i. v ! j = Some i \<longrightarrow>
     (\<exists>b. st i = Some b \<and> nHeight b = int j \<and> pprev b = (if j = 0 then None else v ! (j - 1))))"

definition chain_wf :: "block_store \<Rightarrow> CChain \<Rightarrow> bool" where
  "chain_wf st v \<longleftrightarrow> slots_ok st v (length v) \<and> None \<notin> set v"

lemma slots_okD:
  "slots_ok st v k \<Longrightarrow> j < k \<Longrightarrow> v ! j = Some i \<Longrightarrow>
     \<exists>b. st i = Some b \<and> nHeight b = int j \<and> pprev b = (if j = 0 then None else v ! (j - 1))"
  by (simp add: slots_ok_def)

lemma slots_anc:
  assumes "tree_ok st" "slots_ok st v (Suc k)" "v ! k = Some i" "j \<le> k"
  shows "v ! j = anc st i (k - j)"
  using assms(2-)
proof (induction k arbitrary: i)
  case (Suc k)
  show ?case
  proof (cases "j = Suc k")
    case False
    obtain b where b: "st i = Some b" "nHeight b = int (Suc k)" "pprev b = v ! k"
      using slots_okD[OF Suc.prems(1) _ Suc.prems(2)] by auto
    then obtain i' where i': "pprev b = Some i'" using tree_ok_prev[OF assms(1) b(1)] by auto
    have "v ! j = anc st i' (k - j)"
      using Suc.IH[of i'] Suc.prems False b(3) i' by (auto simp: slots_ok_def)
    also have "\<dots> = anc st i (Suc (k - j))" using anc_Suc_front[of st i b i'] b(1) i' by simp
    finally show ?thesis using False Suc.prems(3) by (simp add: Suc_diff_le)
  qed (use Suc.prems in simp)
qed simp

lemma slots_ok_update: "slots_ok st v k \<Longrightarrow> k \<le> l \<Longrightarrow> slots_ok st (v[l := x]) k"
  unfolding slots_ok_def by (metis le_neq_implies_less less_imp_diff_less less_le_trans nat_neq_iff not_le nth_list_update_neq)

lemma SetTip_loop_result:
  assumes "tree_ok st" "st p = Some b" "nHeight b = int k" "k < length v" "slots_ok st v (Suc k)"
  shows "\<exists>v'. SetTip_loop st (Some p) v = Some v' \<and> length v' = length v
           \<and> (\<forall>j\<le>k. v' ! j = anc st p (k - j)) \<and> (\<forall>j>k. v' ! j = v ! j)"
  using assms(2-)
proof (induction k arbitrary: p b v)
  case 0
  then have "pprev b = None" using tree_okD(1,3)[OF assms(1)] by (cases "pprev b") fastforce+
  with 0 show ?case by (auto simp: SetTip_loop.simps)
next
  case (Suc k)
  show ?case
  proof (cases "v ! Suc k = Some p")
    case True
    then show ?thesis
      using Suc.prems slots_anc[OF assms(1) Suc.prems(4) True] by (subst SetTip_loop.simps) auto
  next
    case False
    obtain q c where q: "pprev b = Some q" "st q = Some c" "nHeight c = int k"
      using tree_ok_prev[OF assms(1) Suc.prems(1)] Suc.prems(2) by auto
    define w where "w = v[Suc k := Some p]"
    have "slots_ok st w (Suc k)"
      unfolding w_def by (rule slots_ok_update) (use Suc.prems(4) in \<open>auto simp: slots_ok_def\<close>)
    then obtain v' where v': "SetTip_loop st (Some q) w = Some v'" "length v' = length w"
      "\<forall>j\<le>k. v' ! j = anc st q (k - j)" "\<forall>j>k. v' ! j = w ! j"
      using Suc.IH[OF q(2,3), of w] Suc.prems(3) by (auto simp: w_def)
    have "v' ! j = anc st p (Suc k - j)" if "j \<le> Suc k" for j
    proof (cases "j = Suc k")
      case True
      then show ?thesis using v'(4) Suc.prems(3) by (simp add: w_def)
    next
      case j: False
      then have "v' ! j = anc st q (k - j)" using v'(3) that by simp
      also have "\<dots> = anc st p (Suc (k - j))" using anc_Suc_front[of st p b q] Suc.prems(1) q(1) by simp
      finally show ?thesis using j that by (simp add: Suc_diff_le)
    qed
    moreover have "SetTip_loop st (Some p) v = Some v'"
      using Suc.prems False v'(1) q(1) by (subst SetTip_loop.simps) (simp add: w_def nat_add_distrib)
    ultimately show ?thesis using v'(2,4) by (auto simp: w_def)
  qed
qed

lemma anc_slots_ok:
  assumes "tree_ok st" "st p = Some b" "nHeight b = int k" "\<forall>j\<le>k. v ! j = anc st p (k - j)" "length v = Suc k"
  shows "chain_wf st v"
  unfolding chain_wf_def slots_ok_def
proof (intro conjI allI impI)
  fix j i assume j: "j < length v" "v ! j = Some i"
  then have a: "anc st p (k - j) = Some i" using assms(4,5) by simp
  obtain c where c: "st i = Some c" "nHeight c = int j"
    using anc_heightD[OF assms(1,2) a] assms(3,5) j(1) by (auto simp: of_nat_diff)
  have "pprev c = (if j = 0 then None else v ! (j - 1))"
  proof (cases j)
    case 0
    then show ?thesis using tree_okD(1,3)[OF assms(1)] c by (cases "pprev c") fastforce+
  next
    case (Suc m)
    then have "v ! m = anc st p (Suc (k - j))" using assms(4,5) j(1) by (simp add: Suc_diff_Suc)
    also have "\<dots> = pprev c" using a c(1) by simp
    finally show ?thesis using Suc by simp
  qed
  with c show "\<exists>b. st i = Some b \<and> nHeight b = int j \<and> pprev b = (if j = 0 then None else v ! (j - 1))" by blast
next
  show "None \<notin> set v"
  proof
    assume "None \<in> set v"
    then obtain j where j: "j < length v" "v ! j = None" by (auto simp: in_set_conv_nth)
    then show False using assms(4,5) anc_height[OF assms(1,2), of "k - j"] assms(3) by auto
  qed
qed

lemma SetTip_result:
  assumes ok: "tree_ok st" "chain_wf st v" and p: "st p = Some b"
  shows "\<exists>v'. SetTip st (Some p) v = Some v' \<and> chain_wf st v' \<and> int (length v') = nHeight b + 1
           \<and> Tip v' = Some p \<and> (\<forall>h. 0 \<le> h \<longrightarrow> h \<le> nHeight b \<longrightarrow> chain_at v' h = anc st p (nat (nHeight b - h)))"
proof -
  define k where "k = nat (nHeight b)"
  have k: "nHeight b = int k" using tree_okD(1)[OF ok(1) p] by (simp add: k_def)
  define w where "w = resize (Suc k) v"
  have lw: "length w = Suc k" by (simp add: w_def resize_def)
  have "slots_ok st w (Suc k)"
    unfolding slots_ok_def
  proof (intro allI impI)
    fix j i assume j: "j < Suc k" "w ! j = Some i"
    have nth: "w ! m = (if m < length v then v ! m else None)" if "m < Suc k" for m
      using that by (auto simp: w_def resize_def nth_append)
    from j nth[of j] have "j < length v" "v ! j = Some i" by (auto split: if_splits)
    then show "\<exists>b. st i = Some b \<and> nHeight b = int j \<and> pprev b = (if j = 0 then None else w ! (j - 1))"
      using ok(2) nth[of "j - 1"] j(1) unfolding chain_wf_def slots_ok_def by auto
  qed
  then obtain v' where v': "SetTip_loop st (Some p) w = Some v'" "length v' = Suc k"
    "\<forall>j\<le>k. v' ! j = anc st p (k - j)"
    using SetTip_loop_result[OF ok(1) p k, of w] lw by auto
  have "SetTip st (Some p) v = Some v'"
    using v'(1) p k by (simp add: SetTip_def w_def nat_add_distrib)
  moreover have "chain_wf st v'" using anc_slots_ok[OF ok(1) p k v'(3,2)] .
  moreover have "chain_at v' h = anc st p (nat (nHeight b - h))" if "0 \<le> h" "h \<le> nHeight b" for h
    using that k v'(2,3) by (auto simp: chain_at_def nat_diff_distrib)
  ultimately show ?thesis using v'(2,3) k by (auto simp: Tip_def)
qed

lemma Contains_iff:
  assumes "st p = Some b" "nHeight b = int k"
  shows "Contains st v p = Some (k < length v \<and> v ! k = Some p)"
  using assms by (auto simp: Contains_def chain_at_def)

text \<open>Everything below a block of the chain is in the chain.\<close>

lemma Contains_anc:
  assumes "tree_ok st" "chain_wf st v" "Contains st v p = Some True" "anc st p n = Some q"
  shows "Contains st v q = Some True"
proof -
  obtain b where b: "st p = Some b" using assms(3) by (auto simp: Contains_def split: Option.bind_splits)
  obtain k where k: "nHeight b = int k" using tree_okD(1)[OF assms(1) b] nonneg_int_cases by metis
  obtain c where c: "st q = Some c" "nHeight c = nHeight b - int n" "int n \<le> nHeight b"
    using anc_heightD[OF assms(1) b assms(4)] by auto
  have v: "k < length v" "v ! k = Some p" using assms(3) Contains_iff[of st p b k v] b k by auto
  have "slots_ok st v (Suc k)" using assms(2) v(1) by (auto simp: chain_wf_def slots_ok_def)
  from slots_anc[OF assms(1) this v(2), of "k - n"] have "v ! (k - n) = Some q"
    using c(3) k assms(4) by simp
  moreover have "nHeight c = int (k - n)" using c(2,3) k by simp
  ultimately show ?thesis using Contains_iff[of st q c "k - n" v] c(1) v(1) by simp
qed

text \<open>\<open>f\<close> is the last block of the chain \<open>v\<close> on the branch that ends in \<open>p\<close>.\<close>

definition is_fork :: "block_store \<Rightarrow> CChain \<Rightarrow> nat \<Rightarrow> nat option \<Rightarrow> bool" where
  "is_fork st v p r \<longleftrightarrow>
     (\<forall>f. r = Some f \<longrightarrow> Contains st v f = Some True \<and> (\<exists>n. anc st p n = Some f)) \<and>
     (\<forall>q n. anc st p n = Some q \<longrightarrow> Contains st v q = Some True \<longrightarrow> (\<exists>f m. r = Some f \<and> anc st f m = Some q))"

lemma FindFork_loop_fork:
  assumes "tree_ok st" "st p = Some b" "nHeight b = int k"
  shows "\<exists>r. FindFork_loop st v (Some p) = Some r \<and> is_fork st v p r"
  using assms(2,3)
proof (induction k arbitrary: p b)
  case k: 0
  then have n: "pprev b = None" using tree_okD(1,3)[OF assms(1)] by (cases "pprev b") fastforce+
  have q: "anc st p n = Some q \<longleftrightarrow> n = 0 \<and> q = p" for n q
    using anc_beyond[OF assms(1) k(1), of n] k(2) by (cases n) auto
  show ?case
  proof (cases "Contains st v p = Some True")
    case True
    then show ?thesis using k by (subst FindFork_loop.simps) (auto simp: is_fork_def q)
  next
    case False
    with Contains_iff[of st p b 0 v, OF k] have "Contains st v p = Some False" by auto
    then show ?thesis using k n by (subst FindFork_loop.simps) (auto simp: is_fork_def q FindFork_loop.simps)
  qed
next
  case (Suc k)
  show ?case
  proof (cases "Contains st v p = Some True")
    case True
    then have "FindFork_loop st v (Some p) = Some (Some p)"
      using Suc.prems by (subst FindFork_loop.simps) auto
    moreover have "is_fork st v p (Some p)" using True anc.simps(1)[of st p] by (auto simp: is_fork_def simp del: anc.simps)
    ultimately show ?thesis by blast
  next
    case False
    with Contains_iff[of st p b "Suc k" v, OF Suc.prems] have c: "Contains st v p = Some False" by auto
    obtain q d where q: "pprev b = Some q" "st q = Some d" "nHeight d = int k"
      using tree_ok_prev[OF assms(1) Suc.prems(1)] Suc.prems(2) by auto
    obtain r where r: "FindFork_loop st v (Some q) = Some r" "is_fork st v q r" using Suc.IH[OF q(2,3)] by auto
    have a: "anc st p (Suc n) = anc st q n" for n using anc_Suc_front[of st p b q] Suc.prems(1) q(1) by simp
    have "FindFork_loop st v (Some p) = Some r"
      using c r(1) Suc.prems(1) q(1) by (subst FindFork_loop.simps) simp
    moreover have "is_fork st v p r"
      unfolding is_fork_def
    proof (intro conjI allI impI)
      fix f assume f: "r = Some f"
      then show "Contains st v f = Some True" using r(2) unfolding is_fork_def by blast
      from f obtain m where "anc st q m = Some f" using r(2) unfolding is_fork_def by blast
      then show "\<exists>n. anc st p n = Some f" using a[of m] by metis
    next
      fix x n assume x: "anc st p n = Some x" "Contains st v x = Some True"
      with c obtain m where "n = Suc m" by (cases n) auto
      then show "\<exists>f m. r = Some f \<and> anc st f m = Some x" using r(2) x a unfolding is_fork_def by metis
    qed
    ultimately show ?thesis by blast
  qed
qed

lemma FindFork_fork:
  assumes ok: "tree_ok st" "chain_wf st v" "v \<noteq> []" and p: "st p = Some b"
  shows "\<exists>r. FindFork st v (Some p) = Some r \<and> is_fork st v p r"
proof (cases "nHeight b > Height v")
  case False
  obtain k where "nHeight b = int k" using tree_okD(1)[OF ok(1) p] nonneg_int_cases by metis
  from FindFork_loop_fork[OF ok(1) p this] show ?thesis using False p by (simp add: FindFork_def)
next
  case True
  have h: "0 \<le> Height v" using ok(3) by (cases v) (auto simp: Height_def)
  define n where "n = nat (nHeight b - Height v)"
  have n: "int n = nHeight b - Height v" using True by (simp add: n_def)
  obtain q c where q: "anc st p n = Some q" "st q = Some c" "nHeight c = Height v"
    using anc_height[OF ok(1) p, of n] n h by auto
  have g: "GetAncestor st p (Height v) = Some (Some q)"
    using GetAncestor_anc[OF ok(1) p h] True q(1) by (simp add: n_def)
  obtain r where r: "FindFork_loop st v (Some q) = Some r" "is_fork st v q r"
    using FindFork_loop_fork[OF ok(1) q(2)] q(3) h nonneg_int_cases by metis
  have a: "anc st p (n + m) = anc st q m" for m by (simp add: anc_add q(1))
  have "is_fork st v p r"
    unfolding is_fork_def
  proof (intro conjI allI impI)
    fix f assume f: "r = Some f"
    then show "Contains st v f = Some True" using r(2) unfolding is_fork_def by blast
    from f obtain m where "anc st q m = Some f" using r(2) unfolding is_fork_def by blast
    then show "\<exists>n. anc st p n = Some f" using a[of m] by metis
  next
    fix x m assume x: "anc st p m = Some x" "Contains st v x = Some True"
    obtain d where d: "st x = Some d" "nHeight d = nHeight b - int m"
      using anc_heightD[OF ok(1) p x(1)] by auto
    then have "nHeight d \<le> Height v" using x(2) by (auto simp: Contains_def chain_at_def Height_def split: if_splits)
    then have "m = n + (m - n)" using n d(2) by simp
    then have "anc st q (m - n) = Some x" using a[of "m - n"] x(1) by simp
    then show "\<exists>f m. r = Some f \<and> anc st f m = Some x" using r(2) x(2) unfolding is_fork_def by blast
  qed
  then show ?thesis using r(1) True p g by (simp add: FindFork_def)
qed

lemma chain_at_anc:
  assumes "tree_ok st" "chain_wf st v" "st p = Some b" "Contains st v p = Some True" "0 \<le> h" "h \<le> nHeight b"
  shows "chain_at v h = anc st p (nat (nHeight b - h))"
proof -
  obtain k where k: "nHeight b = int k" using tree_okD(1)[OF assms(1,3)] nonneg_int_cases by metis
  have v: "k < length v" "v ! k = Some p" using assms(4) Contains_iff[of st p b k v, OF assms(3) k] by auto
  have "slots_ok st v (Suc k)" using assms(2) v(1) by (auto simp: chain_wf_def slots_ok_def)
  from slots_anc[OF assms(1) this v(2), of "nat h"] show ?thesis
    using assms(5,6) k v(1) by (simp add: chain_at_def nat_diff_distrib)
qed

lemma GetLocator_loop_result:
  assumes ok: "tree_ok st" "chain_wf st v" and hs: "\<forall>i b. st i = Some b \<longrightarrow> phashBlock b \<noteq> None"
  shows "st p = Some b \<Longrightarrow> 0 < nStep \<Longrightarrow>
     \<exists>ps. GetLocator_loop st v (Some p) nStep vHave = Some (vHave @ map (\<lambda>q. the (GetBlockHash st q)) ps)
        \<and> ps \<noteq> [] \<and> hd ps = p \<and> anc st p (nat (nHeight b)) = Some (last ps)
        \<and> (\<forall>q\<in>set ps. \<exists>n. anc st p n = Some q)"
proof (induction "nat (nHeight b)" arbitrary: p b nStep vHave rule: less_induct)
  case less
  note pos = tree_okD(1)[OF ok(1) less.prems(1)]
  obtain hash where hash: "phashBlock b = Some hash" using hs less.prems(1) by blast
  have gh: "GetBlockHash st p = Some hash" using less.prems(1) hash by (simp add: GetBlockHash_def)
  show ?case
  proof (cases "nHeight b = 0")
    case True
    show ?thesis
      by (rule exI[of _ "[p]"], subst GetLocator_loop.simps) (use True less.prems hash gh anc.simps(1)[of st p] in \<open>auto simp: Let_def simp del: anc.simps\<close>)
  next
    case False
    define h where "h = max (nHeight b - nStep) 0"
    have h: "0 \<le> h" "h < nHeight b" using False pos less.prems(2) by (auto simp: h_def)
    define n where "n = nat (nHeight b - h)"
    obtain q c where q: "anc st p n = Some q" "st q = Some c" "nHeight c = h"
      using anc_height[OF ok(1) less.prems(1), of n] h by (auto simp: n_def)
    obtain k where k: "nHeight b = int k" using pos nonneg_int_cases by metis
    obtain cc where cc: "Contains st v p = Some cc" using Contains_iff[of st p b k v, OF less.prems(1) k] by blast
    have nx: "(if cc then Some (chain_at v h) else GetAncestor st p h) = Some (Some q)"
      using chain_at_anc[OF ok less.prems(1) _ h(1)] GetAncestor_anc[OF ok(1) less.prems(1) h(1)] h(2) q(1) cc
      by (simp add: n_def)
    define nStep' where "nStep' = (if length (vHave @ [hash]) > 10 then nStep * 2 else nStep)"
    have "nat (nHeight c) < nat (nHeight b)" "0 < nStep'" using q(3) h less.prems(2) by (auto simp: nStep'_def)
    from less.hyps[OF this(1) q(2) this(2), of "vHave @ [hash]"] obtain ps where ps:
      "GetLocator_loop st v (Some q) nStep' (vHave @ [hash]) =
         Some ((vHave @ [hash]) @ map (\<lambda>q. the (GetBlockHash st q)) ps)"
      "ps \<noteq> []" "hd ps = q" "anc st q (nat (nHeight c)) = Some (last ps)" "\<forall>x\<in>set ps. \<exists>n. anc st q n = Some x"
      by blast
    have "nat (nHeight b) = n + nat (nHeight c)" using h q(3) by (simp add: n_def nat_add_distrib[symmetric])
    then have "anc st p (nat (nHeight b)) = Some (last (p # ps))" using ps(2,4) q(1) by (simp add: anc_add)
    moreover have "\<exists>n. anc st p n = Some x" if x: "x \<in> set (p # ps)" for x
    proof (cases "x = p")
      case True
      then show ?thesis using anc.simps(1) by blast
    next
      case False
      then obtain m where "anc st q m = Some x" using x ps(5) by auto
      then show ?thesis using anc_add[of st p n m] q(1) by (metis Option.bind.bind_lunit)
    qed
    moreover have "GetLocator_loop st v (Some p) nStep vHave = GetLocator_loop st v (Some q) nStep' (vHave @ [hash])"
      by (subst GetLocator_loop.simps) (use False less.prems(1) hash cc nx in \<open>simp add: Let_def h_def[symmetric] nStep'_def del: if_split\<close>)
    ultimately show ?thesis using ps(1) gh by (intro exI[of _ "p # ps"]) auto
  qed
qed

section \<open>Median time past\<close>

text \<open>Entry \<open>k\<close> of a sorted list is at least \<open>m\<close> exactly when at most \<open>k\<close> entries are below \<open>m\<close>.\<close>

lemma sorted_nth_ge_iff:
  fixes m :: int
  assumes "sorted xs" "k < length xs"
  shows "m \<le> xs ! k \<longleftrightarrow> length (filter (\<lambda>x. x < m) xs) \<le> k"
  using assms
proof (induction xs arbitrary: k)
  case (Cons x xs)
  show ?case
  proof (cases "x < m")
    case True
    with Cons show ?thesis by (cases k) auto
  next
    case False
    then have "filter (\<lambda>y. y < m) (x # xs) = []" using Cons.prems(1) by (auto simp: filter_empty_conv)
    moreover have "x \<le> (x # xs) ! k" using Cons.prems by (cases k) auto
    ultimately show ?thesis using False by (simp add: less_le_trans)
  qed
qed simp

lemma sort_nth_ge_iff:
  "k < length xs \<Longrightarrow> (m::int) \<le> sort xs ! k \<longleftrightarrow> length (filter (\<lambda>x. x < m) xs) \<le> k"
  using sorted_nth_ge_iff[of "sort xs" k m]
  by (simp add: filter_sort)

definition median :: "int list \<Rightarrow> int" where
  "median ts = sort (rev ts) ! (length ts div 2)"

lemma median_ge_iff: "ts \<noteq> [] \<Longrightarrow> m \<le> median ts \<longleftrightarrow> length (filter (\<lambda>x. x < m) ts) \<le> length ts div 2"
  using sort_nth_ge_iff[of "length ts div 2" "rev ts" m] by (simp add: median_def rev_filter[symmetric])

lemma median_push:
  assumes "ts \<noteq> []" "median ts < t"
  shows "median ts \<le> median (t # ts)"
proof -
  have "length (filter (\<lambda>x. x < median ts) ts) \<le> length ts div 2"
    using median_ge_iff[of ts "median ts"] assms(1) by simp
  also have "\<dots> \<le> length (t # ts) div 2" by (simp add: div_le_mono)
  finally show ?thesis using assms(2) median_ge_iff[of "t # ts" "median ts"] by simp
qed

lemma median_slide:
  assumes "ts \<noteq> []" "median (ts @ [u]) < t" "even (length ts)"
  shows "median (ts @ [u]) \<le> median (t # ts)"
proof -
  let ?m = "median (ts @ [u])"
  have "length (filter (\<lambda>x. x < ?m) (ts @ [u])) \<le> length (ts @ [u]) div 2"
    using median_ge_iff[of "ts @ [u]" ?m] by simp
  then have "length (filter (\<lambda>x. x < ?m) ts) \<le> length (t # ts) div 2" using assms(3) by simp
  then show ?thesis using assms(2) median_ge_iff[of "t # ts" ?m] by simp
qed

lemma median_times_total:
  assumes "tree_ok st" "st p = Some b"
  shows "\<exists>ts. median_times st n (Some p) = Some ts \<and> length ts = min n (nat (nHeight b) + 1)"
  using assms(2)
proof (induction n arbitrary: p b)
  case (Suc n)
  show ?case
  proof (cases "pprev b")
    case None
    then show ?thesis using Suc.prems tree_okD(2)[OF assms(1) Suc.prems] by (cases n) auto
  next
    case (Some q)
    obtain c where c: "st q = Some c" "nHeight c = nHeight b - 1" using tree_okD(3)[OF assms(1) Suc.prems Some] by blast
    obtain ts where "median_times st n (Some q) = Some ts" "length ts = min n (nat (nHeight c) + 1)"
      using Suc.IH[OF c(1)] by blast
    moreover have "nat (nHeight c) + 1 = nat (nHeight b)" using c(2) tree_okD(1)[OF assms(1) c(1)] by simp
    ultimately show ?thesis using Suc.prems Some by simp
  qed
qed simp

lemma median_times_take:
  assumes "median_times st (Suc n) p = Some ts"
  shows "median_times st n p = Some (take n ts)"
  using assms
proof (induction n arbitrary: p ts)
  case (Suc n)
  show ?case
  proof (cases p)
    case (Some i)
    then obtain b us where b: "st i = Some b" "median_times st (Suc n) (pprev b) = Some us" "ts = GetBlockTime b # us"
      using Suc.prems by (auto split: Option.bind_splits simp del: median_times.simps(2,3) simp add: median_times.simps(3)[of st "Suc n"])
    then show ?thesis using Some Suc.IH[OF b(2)] by simp
  qed (use Suc.prems in auto)
qed simp

lemma GetMedianTimePast_eq:
  "GetMedianTimePast st p = map_option median (median_times st nMedianTimeSpan (Some p))"
  by (cases "median_times st nMedianTimeSpan (Some p)") (auto simp: GetMedianTimePast_def median_def)

lemma GetMedianTimePast_step:
  assumes ok: "tree_ok st" and p: "st p = Some b" "pprev b = Some q"
    and m: "GetMedianTimePast st q = Some m" "m < GetBlockTime b"
  shows "\<exists>m'. GetMedianTimePast st p = Some m' \<and> m \<le> m'"
proof -
  obtain c where c: "st q = Some c" using tree_okD(3)[OF ok p] by blast
  obtain ts where ts: "median_times st 11 (Some q) = Some ts" "length ts = min 11 (nat (nHeight c) + 1)"
    using median_times_total[OF ok c, of 11] by blast
  have mt: "m = median ts" using m(1) ts(1) by (simp add: GetMedianTimePast_eq nMedianTimeSpan_def)
  have ne: "ts \<noteq> []" using ts(2) by auto
  have p': "median_times st 11 (Some p) = Some (GetBlockTime b # take 10 ts)"
    using median_times_take[of st 10 "Some q" ts] ts(1) p
    by (subst numeral_eq_Suc, subst median_times.simps) (simp add: numeral_eq_Suc)
  have "m \<le> median (GetBlockTime b # take 10 ts)"
  proof (cases "length ts \<le> 10")
    case True
    then show ?thesis using median_push[OF ne, of "GetBlockTime b"] m(2) mt by simp
  next
    case False
    then have l: "length ts = 11" using ts(2) by simp
    then have "ts = take 10 ts @ [last ts]" using take_Suc_conv_app_nth[of 10 ts] ne by (simp add: last_conv_nth)
    then show ?thesis using median_slide[of "take 10 ts" "last ts" "GetBlockTime b"] m(2) mt l by auto
  qed
  with p' show ?thesis by (simp add: GetMedianTimePast_eq nMedianTimeSpan_def)
qed

section \<open>Properties\<close>

text \<open>C38: on a well-formed block tree, \<^verbatim>\<open>GetAncestor\<close>, with its skip pointers, never follows a null
  pointer and returns the block that the walk over \<^verbatim>\<open>pprev\<close> reaches at the given height (\<^verbatim>\<open>NULL\<close> outside the
  range of heights).\<close>

theorem GetAncestor_correct:
  assumes "tree_ok st" "st i = Some b"
  shows "GetAncestor st i h =
           Some (if 0 \<le> h \<and> h \<le> nHeight b then anc st i (nat (nHeight b - h)) else None)"
  using GetAncestor_anc[OF assms] assms(2) by (auto simp: GetAncestor_def)

text \<open>C39: \<^verbatim>\<open>BuildSkip\<close> sets the pointer that it should and nothing else. In an entry with a predecessor \<^verbatim>\<open>pskip\<close> becomes
  the ancestor at the height that \<^verbatim>\<open>GetSkipHeight\<close> chooses, which exists and is below the entry; a genesis block stays as it is, and so do all other
  fields and entries. The tree is still well-formed, and every ancestor relation is unchanged.\<close>

theorem BuildSkip_preserves_tree:
  assumes "tree_ok st" "st i = Some b"
  shows "\<exists>st' s. BuildSkip st i = Some st' \<and> st' = st(i \<mapsto> b\<lparr>pskip := s\<rparr>) \<and> tree_ok st' \<and> (\<forall>j n. anc st' j n = anc st j n) \<and>
    (if pprev b = None then s = pskip b
     else \<exists>k c. s = Some k \<and> st k = Some c \<and> nHeight c = GetSkipHeight (nHeight b) \<and> nHeight c < nHeight b \<and> s = anc st i (nat (nHeight b - nHeight c)))"
proof (cases "pprev b = None")
  case True
  then show ?thesis using BuildSkip_ok[OF assms] by auto
next
  case False
  let ?h = "GetSkipHeight (nHeight b)"
  have "0 < nHeight b" using False tree_okD(1,3)[OF assms(1)] assms(2) by fastforce
  then have h: "0 \<le> ?h" "?h < nHeight b" using GetSkipHeight_less by blast+
  obtain k c where kc: "anc st i (nat (nHeight b - ?h)) = Some k" "st k = Some c" "nHeight c = ?h"
    using anc_height[OF assms, of "nat (nHeight b - ?h)"] h by auto
  obtain st' where st': "BuildSkip st i = Some st'" "tree_ok st'" "\<forall>j n. anc st' j n = anc st j n" "st' = st(i \<mapsto> b\<lparr>pskip := Some k\<rparr>)"
    using BuildSkip_ok[OF assms] False kc(1) by auto
  show ?thesis using st' kc h False by (intro exI[of _ st'] exI[of _ "Some k"]) auto
qed

text \<open>\<^verbatim>\<open>CChain::SetTip\<close> terminates, keeps the chain well-formed, makes the given block the tip and
  puts in every slot the ancestor of that block with the slot's height, however far the new branch is
  from the old one.\<close>

lemma SetTip_correct:
  assumes "tree_ok st" "chain_wf st v" "st p = Some b"
  shows "\<exists>v'. SetTip st (Some p) v = Some v' \<and> chain_wf st v' \<and> Tip v' = Some p \<and> Height v' = nHeight b \<and>
           (\<forall>h. chain_at v' h = (if 0 \<le> h \<and> h \<le> nHeight b then anc st p (nat (nHeight b - h)) else None))"
proof -
  obtain v' where v': "SetTip st (Some p) v = Some v'" "chain_wf st v'" "int (length v') = nHeight b + 1"
    "Tip v' = Some p" "\<forall>h. 0 \<le> h \<longrightarrow> h \<le> nHeight b \<longrightarrow> chain_at v' h = anc st p (nat (nHeight b - h))"
    using SetTip_result[OF assms] by blast
  then have "chain_at v' h = (if 0 \<le> h \<and> h \<le> nHeight b then anc st p (nat (nHeight b - h)) else None)" for h
    by (auto simp: chain_at_def)
  with v' show ?thesis by (auto simp: Height_def)
qed

text \<open>\<^verbatim>\<open>CChain::FindFork\<close> terminates and returns the last block of the chain on the branch of the
  given block: it is in the chain, it is an ancestor of the block, and every other common block is an
  ancestor of it.\<close>

lemma FindFork_correct:
  assumes "tree_ok st" "chain_wf st v" "v \<noteq> []" "st p = Some b"
  shows "\<exists>r. FindFork st v (Some p) = Some r \<and>
     (\<forall>f. r = Some f \<longrightarrow> Contains st v f = Some True \<and> (\<exists>n. anc st p n = Some f)) \<and>
     (\<forall>q n. anc st p n = Some q \<longrightarrow> Contains st v q = Some True \<longrightarrow> (\<exists>f m. r = Some f \<and> anc st f m = Some q))"
  using FindFork_fork[OF assms] unfolding is_fork_def by blast

text \<open>\<^verbatim>\<open>CChain::GetLocator\<close> terminates and lists hashes of ancestors of the block, from the block
  itself down to its genesis block.\<close>

lemma GetLocator_correct:
  assumes "tree_ok st" "chain_wf st v" "\<forall>i b. st i = Some b \<longrightarrow> phashBlock b \<noteq> None" "st p = Some b"
  shows "\<exists>ps. GetLocator st v (Some p) = Some (map (\<lambda>q. the (GetBlockHash st q)) ps)
        \<and> ps \<noteq> [] \<and> hd ps = p \<and> anc st p (nat (nHeight b)) = Some (last ps)
        \<and> (\<forall>q\<in>set ps. \<exists>n. anc st p n = Some q)"
  using GetLocator_loop_result[OF assms(1-4), of 1 "[]"] by (simp add: GetLocator_def)

text \<open>Median time past never decreases along a branch whose blocks are later than the median time
  past of their predecessor, which is the rule \<^verbatim>\<open>ContextualCheckBlockHeader\<close> enforces.\<close>

lemma median_time_monotone:
  assumes "tree_ok st" "st p = Some b" "pprev b = Some q"
    and "GetMedianTimePast st q = Some m" "m < GetBlockTime b"
  shows "\<exists>m'. GetMedianTimePast st p = Some m' \<and> m \<le> m'"
  using assms by (rule GetMedianTimePast_step)

section \<open>Witnesses\<close>

text \<open>A tree with a fork: blocks 10, 11, 12, 13 on one branch and 14 beside 12.\<close>

definition block_at :: "nat \<Rightarrow> int \<Rightarrow> nat option \<Rightarrow> nat option \<Rightarrow> CBlockIndex" where
  "block_at t h prev skip = CBlockIndex_SetNull
     \<lparr> phashBlock := Some (le_bytes 32 t), bi_nTime := word_of_nat (1558007865 + 120 * t),
       nHeight := h, pprev := prev, pskip := skip \<rparr>"

definition demo_tree :: block_store where
  "demo_tree = [10 \<mapsto> block_at 0 0 None None, 11 \<mapsto> block_at 1 1 (Some 10) (Some 10),
     12 \<mapsto> block_at 2 2 (Some 11) (Some 10), 13 \<mapsto> block_at 3 3 (Some 12) (Some 11),
     14 \<mapsto> block_at 4 2 (Some 11) None]"

lemma block_at_sel [simp]:
  "nHeight (block_at t h a s) = h" "pprev (block_at t h a s) = a" "pskip (block_at t h a s) = s"
  "phashBlock (block_at t h a s) = Some (le_bytes 32 t)"
  "bi_nTime (block_at t h a s) = word_of_nat (1558007865 + 120 * t)"
  by (simp_all add: block_at_def)

lemma demo_entries [simp]:
  "demo_tree 10 = Some (block_at 0 0 None None)" "demo_tree 12 = Some (block_at 2 2 (Some 11) (Some 10))"
  "demo_tree 13 = Some (block_at 3 3 (Some 12) (Some 11))" "demo_tree 14 = Some (block_at 4 2 (Some 11) None)"
  "demo_tree 11 = Some (block_at 1 1 (Some 10) (Some 10))"
  by (simp_all add: demo_tree_def)

lemma demo_dom: "demo_tree i = Some b \<Longrightarrow> i = 10 \<or> i = 11 \<or> i = 12 \<or> i = 13 \<or> i = 14"
  by (simp add: demo_tree_def split: if_splits)

lemma anc_2: "anc st i 2 = do { a \<leftarrow> st i; j \<leftarrow> pprev a; b \<leftarrow> st j; pprev b }"
  by (simp add: numeral_2_eq_2)

lemma demo_tree_ok: "tree_ok demo_tree"
proof -
  have sk: "GetSkipHeight 1 = 0" "GetSkipHeight 2 = 0" "GetSkipHeight 3 = 1"
    by (simp_all add: GetSkipHeight_def InvertLowestOne_def)
  show ?thesis
    unfolding tree_ok_def
  proof (intro allI impI)
    fix i b assume "demo_tree i = Some b"
    with demo_dom[OF this] show "0 \<le> nHeight b
     \<and> (case pprev b of None \<Rightarrow> nHeight b = 0
        | Some j \<Rightarrow> \<exists>b'. demo_tree j = Some b' \<and> nHeight b' = nHeight b - 1)
     \<and> (pskip b \<noteq> None \<longrightarrow> pskip b = anc demo_tree i (nat (nHeight b - GetSkipHeight (nHeight b))))"
      by (elim disjE) (auto simp: sk anc_2)
  qed
qed

lemma demo_chain_wf: "chain_wf demo_tree [Some 10, Some 11, Some 12]"
  unfolding chain_wf_def slots_ok_def by (auto simp: less_Suc_eq)

theorem GetAncestor_correct_witness:
  "GetAncestor demo_tree 13 1 = Some (Some 11) \<and> GetAncestor demo_tree 13 4 = Some None"
  using GetAncestor_correct[OF demo_tree_ok demo_entries(3), of 1]
    GetAncestor_correct[OF demo_tree_ok demo_entries(3), of 4]
  by (simp add: anc_2)

theorem BuildSkip_preserves_tree_witness:
  "\<exists>st'. BuildSkip demo_tree 14 = Some st' \<and> tree_ok st' \<and> (\<forall>j n. anc st' j n = anc demo_tree j n) \<and> map_option pskip (st' 14) = Some (Some 10)"
proof -
  have "GetSkipHeight 2 = 0" by (simp add: GetSkipHeight_def InvertLowestOne_def)
  then show ?thesis using BuildSkip_preserves_tree[OF demo_tree_ok demo_entries(4)] by (auto simp: anc_2)
qed

lemma median_times_None: "median_times st n None = Some []"
  by (cases n) simp_all

lemma demo_median: "GetMedianTimePast demo_tree 10 = Some 1558007865"
proof -
  have "median_times demo_tree (Suc n) (Some 10) = Some [1558007865]" for n
    by (simp add: GetBlockTime_def median_times_None)
  from this[of 10] show ?thesis by (simp add: GetMedianTimePast_eq nMedianTimeSpan_def median_def)
qed

end
