(* ===== verification/LockTime.thy ===== *)
theory LockTime
  imports SigHash Chain
begin

text \<open>
  Lock times, \<^verbatim>\<open>main.cpp\<close>: when a transaction is final (\<^verbatim>\<open>IsFinalTx\<close>) and when its relative locks are satisfied
  (\<^verbatim>\<open>CalculateSequenceLocks\<close>, \<^verbatim>\<open>EvaluateSequenceLocks\<close>, \<^verbatim>\<open>SequenceLocks\<close>). The properties tie them to the opcodes that
  check locks in a script. A failed assertion and the dereference of a null pointer are \<open>None\<close>.
\<close>

section \<open>Absolute lock times\<close>

definition IsFinalTx :: "CTransaction \<Rightarrow> int \<Rightarrow> int \<Rightarrow> bool" where
  "IsFinalTx tx nBlockHeight nBlockTime =
     (if nLockTime tx = 0 then True
      else if int (unat (nLockTime tx)) < (if int (unat (nLockTime tx)) < LOCKTIME_THRESHOLD then nBlockHeight else nBlockTime)
      then True
      else list_all (\<lambda>txin. nSequence txin = SEQUENCE_FINAL) (vin tx))"

text \<open>\<^verbatim>\<open>CheckFinalTx\<close> on the active chain; \<open>adjustedTime\<close> is \<^verbatim>\<open>GetAdjustedTime()\<close>.\<close>

definition CheckFinalTx :: "block_store \<Rightarrow> CChain \<Rightarrow> int \<Rightarrow> CTransaction \<Rightarrow> int \<Rightarrow> bool option" where
  "CheckFinalTx st chainActive adjustedTime tx flags0 =
     (let flags = max flags0 0; nBlockHeight = Height chainActive + 1 in
      do { nBlockTime \<leftarrow> (if flags AND int LOCKTIME_MEDIAN_TIME_PAST \<noteq> 0
                          then do { tip \<leftarrow> Tip chainActive; GetMedianTimePast st tip }
                          else Some adjustedTime);
           Some (IsFinalTx tx nBlockHeight nBlockTime) })"

section \<open>Relative lock times\<close>

text \<open>The loop over the inputs with the heights of the coins they spend; it returns the lock and the updated heights.\<close>

fun sequence_locks_loop ::
    "block_store \<Rightarrow> nat \<Rightarrow> CTxIn list \<Rightarrow> int list \<Rightarrow> int \<times> int \<Rightarrow> ((int \<times> int) \<times> int list) option" where
  "sequence_locks_loop st block (txin # ins) (nCoinHeight # heights) (nMinHeight, nMinTime) =
     (if nSequence txin AND word_of_int SEQUENCE_LOCKTIME_DISABLE_FLAG \<noteq> 0 then
        do { (lock, hs) \<leftarrow> sequence_locks_loop st block ins heights (nMinHeight, nMinTime); Some (lock, 0 # hs) }
      else if nSequence txin AND SEQUENCE_LOCKTIME_TYPE_FLAG \<noteq> 0 then
        do { a \<leftarrow> GetAncestor st block (max (nCoinHeight - 1) 0);
             p \<leftarrow> a;
             nCoinTime \<leftarrow> GetMedianTimePast st p;
             (lock, hs) \<leftarrow> sequence_locks_loop st block ins heights (nMinHeight,
                max nMinTime (nCoinTime + int (unat (push_bit SEQUENCE_LOCKTIME_GRANULARITY
                   (nSequence txin AND SEQUENCE_LOCKTIME_MASK))) - 1));
             Some (lock, nCoinHeight # hs) }
      else
        do { (lock, hs) \<leftarrow> sequence_locks_loop st block ins heights
                (max nMinHeight (nCoinHeight + int (unat (nSequence txin AND SEQUENCE_LOCKTIME_MASK)) - 1), nMinTime);
             Some (lock, nCoinHeight # hs) })"
| "sequence_locks_loop st block ins heights lock = Some (lock, heights)"

definition CalculateSequenceLocks ::
    "block_store \<Rightarrow> CTransaction \<Rightarrow> int \<Rightarrow> int list \<Rightarrow> nat \<Rightarrow> ((int \<times> int) \<times> int list) option" where
  "CalculateSequenceLocks st tx flags prevHeights block =
     (if length prevHeights \<noteq> length (vin tx) then None
      else if \<not> ((word_of_int (CTransaction.nVersion tx) :: u32) \<ge> 2 \<and> flags AND int LOCKTIME_VERIFY_SEQUENCE \<noteq> 0)
      then Some ((-1, -1), prevHeights)
      else sequence_locks_loop st block (vin tx) prevHeights (-1, -1))"

definition EvaluateSequenceLocks :: "block_store \<Rightarrow> nat \<Rightarrow> int \<times> int \<Rightarrow> bool option" where
  "EvaluateSequenceLocks st block lockPair =
     do { b \<leftarrow> st block;
          p \<leftarrow> pprev b;
          nBlockTime \<leftarrow> GetMedianTimePast st p;
          Some (\<not> (fst lockPair \<ge> nHeight b \<or> snd lockPair \<ge> nBlockTime)) }"

definition SequenceLocks :: "block_store \<Rightarrow> CTransaction \<Rightarrow> int \<Rightarrow> int list \<Rightarrow> nat \<Rightarrow> bool option" where
  "SequenceLocks st tx flags prevHeights block =
     do { (lockPair, heights) \<leftarrow> CalculateSequenceLocks st tx flags prevHeights block;
          EvaluateSequenceLocks st block lockPair }"

record LockPoints =
  lp_height :: int
  lp_time :: int
  maxInputBlock :: "nat option"

definition TestLockPointValidity :: "block_store \<Rightarrow> CChain \<Rightarrow> LockPoints \<Rightarrow> bool option" where
  "TestLockPointValidity st chainActive lp =
     (case maxInputBlock lp of None \<Rightarrow> Some True | Some p \<Rightarrow> Contains st chainActive p)"

section \<open>What the loop collects\<close>

lemma sequence_locks_mono:
  "sequence_locks_loop st block ins heights (a, b) = Some ((a', b'), hs) \<Longrightarrow> a \<le> a' \<and> b \<le> b'"
proof (induction st block ins heights "(a, b)" arbitrary: a b hs rule: sequence_locks_loop.induct)
  case (1 st block txin ins nCoinHeight heights nMinHeight nMinTime)
  show ?case
    using "1.prems" "1.hyps" by (fastforce split: Option.bind_splits if_split_asm prod.split_asm)
qed auto

lemma sequence_locks_input:
  assumes "sequence_locks_loop st block ins heights (a, b) = Some ((a', b'), hs)"
    and "length heights = length ins" "i < length ins"
    and "nSequence (ins ! i) AND word_of_int SEQUENCE_LOCKTIME_DISABLE_FLAG = 0"
  shows "if nSequence (ins ! i) AND SEQUENCE_LOCKTIME_TYPE_FLAG = 0
    then heights ! i + int (unat (nSequence (ins ! i) AND SEQUENCE_LOCKTIME_MASK)) - 1 \<le> a'
    else \<exists>p t. GetAncestor st block (max (heights ! i - 1) 0) = Some (Some p) \<and> GetMedianTimePast st p = Some t \<and>
      t + int (unat (push_bit SEQUENCE_LOCKTIME_GRANULARITY (nSequence (ins ! i) AND SEQUENCE_LOCKTIME_MASK))) - 1 \<le> b'"
  using assms
proof (induction ins arbitrary: heights a b hs i)
  case (Cons txin ins)
  obtain h hts where hts: "heights = h # hts" using Cons.prems(2) by (cases heights) auto
  show ?case
  proof (cases i)
    case 0
    then show ?thesis
      using Cons.prems(1,4) hts
      by (auto split: Option.bind_splits if_split_asm prod.split_asm dest!: sequence_locks_mono)
  next
    case (Suc j)
    then obtain a1 b1 hs1 where "sequence_locks_loop st block ins hts (a1, b1) = Some ((a', b'), hs1)"
      using Cons.prems(1) hts by (auto split: Option.bind_splits if_split_asm prod.split_asm)
    moreover have "length hts = length ins" "j < length ins"
      "nSequence (ins ! j) AND word_of_int SEQUENCE_LOCKTIME_DISABLE_FLAG = 0"
      using Cons.prems(2-4) hts Suc by simp_all
    ultimately show ?thesis using Cons.IH[of hts a1 b1 hs1 j] unfolding hts Suc nth_Cons_Suc by blast
  qed
qed simp

section \<open>Masks\<close>

lemma uint_mask_type: "uint ((w :: u32) AND SEQUENCE_LOCKTIME_TYPE_FLAG) = uint w AND 2 ^ 22"
  by (simp only: unsigned_and_eq SEQUENCE_LOCKTIME_TYPE_FLAG_def) simp

lemma uint_mask_low: "uint ((w :: u32) AND SEQUENCE_LOCKTIME_MASK) = uint w AND 65535"
  by (simp only: unsigned_and_eq SEQUENCE_LOCKTIME_MASK_def) simp

lemma and_exp: "(x :: int) AND 2 ^ k = 0 \<or> x AND 2 ^ k = 2 ^ k"
proof -
  have "x AND 2 ^ k = (if bit x k then 2 ^ k else 0)" by (rule bit_eqI) (auto simp: bit_and_iff bit_exp_iff)
  then show ?thesis by simp
qed

lemma and_exp_mask_disjoint: "m \<le> k \<Longrightarrow> ((x :: int) AND 2 ^ k) AND (x AND mask m) = 0"
  by (rule bit_eqI) (auto simp: bit_and_iff bit_exp_iff bit_mask_iff)

lemma lock_mask_split: "(x :: int) AND 4259839 = (x AND 2 ^ 22) + (x AND 65535)"
proof -
  have m: "(65535 :: int) = mask 16" by (simp add: mask_eq_exp_minus_1)
  have "(x AND 2 ^ 22) + (x AND 65535) = (x AND 2 ^ 22) OR (x AND 65535)"
    unfolding m by (rule disjunctive_add_eq_or) (rule and_exp_mask_disjoint, simp)
  also have "\<dots> = x AND (2 ^ 22 OR 65535)" by (simp only: bit.conj_disj_distrib)
  finally show ?thesis by simp
qed

lemma and_low_bound: "(x :: int) AND 65535 \<le> 65535" "0 \<le> x AND 65535"
  by (simp_all add: AND_upper2)

lemma checksequence_bounds:
  assumes "tx_CheckSequence tx nIn n"
  defines "w \<equiv> nSequence (vin tx ! nIn)"
  shows "(2 :: u32) \<le> word_of_int (CTransaction.nVersion tx)"
    "w AND word_of_int SEQUENCE_LOCKTIME_DISABLE_FLAG = 0"
    "w AND SEQUENCE_LOCKTIME_TYPE_FLAG = 0 \<longleftrightarrow> n AND 2 ^ 22 = 0"
    "n AND 65535 \<le> uint (w AND SEQUENCE_LOCKTIME_MASK)"
proof -
  have c: "int (unat (SEQUENCE_LOCKTIME_TYPE_FLAG OR SEQUENCE_LOCKTIME_MASK)) = 4259839"
    "int (unat SEQUENCE_LOCKTIME_TYPE_FLAG) = 4194304"
    by (simp_all add: SEQUENCE_LOCKTIME_TYPE_FLAG_def SEQUENCE_LOCKTIME_MASK_def)
  show "(2 :: u32) \<le> word_of_int (CTransaction.nVersion tx)"
    using assms(1) by (auto simp: tx_CheckSequence_def Let_def split: if_split_asm)
  have d: "uint w AND SEQUENCE_LOCKTIME_DISABLE_FLAG = 0"
    using assms(1) by (simp add: tx_CheckSequence_def Let_def w_def split: if_split_asm)
  have cmp: "(uint w AND 4259839 < 4194304 \<longleftrightarrow> n AND 4259839 < 4194304) \<and> n AND 4259839 \<le> uint w AND 4259839"
    using assms(1) unfolding tx_CheckSequence_def c Let_def w_def[symmetric] by (auto split: if_split_asm)
  have "uint (w AND word_of_int SEQUENCE_LOCKTIME_DISABLE_FLAG) = uint w AND SEQUENCE_LOCKTIME_DISABLE_FLAG"
    by (simp only: unsigned_and_eq SEQUENCE_LOCKTIME_DISABLE_FLAG_def) simp
  then show "w AND word_of_int SEQUENCE_LOCKTIME_DISABLE_FLAG = 0"
    using d by (metis unsigned_eq_0_iff)
  have t: "w AND SEQUENCE_LOCKTIME_TYPE_FLAG = 0 \<longleftrightarrow> uint w AND 2 ^ 22 = 0"
    using uint_mask_type[of w] by (metis unsigned_eq_0_iff)
  have p: "(2::int) ^ 22 = 4194304" by simp
  show "w AND SEQUENCE_LOCKTIME_TYPE_FLAG = 0 \<longleftrightarrow> n AND 2 ^ 22 = 0"
    using cmp and_exp[of "uint w" 22] and_exp[of n 22] and_low_bound[of n] and_low_bound[of "uint w"] p
    unfolding t lock_mask_split by linarith
  then show "n AND 65535 \<le> uint (w AND SEQUENCE_LOCKTIME_MASK)"
    using cmp and_exp[of "uint w" 22] and_exp[of n 22] p unfolding t uint_mask_low lock_mask_split by linarith
qed

lemma push_bit_mask_low: "uint (push_bit 9 ((w :: u32) AND SEQUENCE_LOCKTIME_MASK)) = 512 * uint (w AND SEQUENCE_LOCKTIME_MASK)"
proof -
  let ?x = "w AND SEQUENCE_LOCKTIME_MASK"
  have "uint ?x \<le> 65535" unfolding uint_mask_low by (rule and_low_bound)
  moreover have "0 \<le> uint ?x" by simp
  moreover have "uint (push_bit 9 ?x) = take_bit 32 (push_bit 9 (uint ?x))"
    by (rule trans[OF unsigned_push_bit_eq]) simp
  ultimately show ?thesis by (simp only: push_bit_eq_mult) (rule take_bit_int_eq_self[THEN trans], auto)
qed

section \<open>Properties\<close>

text \<open>C31: \<^verbatim>\<open>OP_CHECKLOCKTIMEVERIFY\<close> does what it is for: if it passes for the number \<open>n\<close> on an input of a transaction, then the
  transaction is final only in blocks above height \<open>n\<close> (for numbers below the threshold) or with a time after \<open>n\<close>
  (from the threshold on). The sequence number it insists on is what keeps the other inputs from making the
  transaction final.\<close>

theorem checklocktimeverify_enforced:
  assumes "has_flag flags SCRIPT_VERIFY_CHECKLOCKTIMEVERIFY" "nIn < length (vin tx)"
    and "op_checklocktimeverify (TransactionSignatureChecker Verify env tx nIn) flags (vch # st) = Inr ()"
    and "scriptnum flags vch 5 = Inr n"
    and "IsFinalTx tx nBlockHeight nBlockTime" "0 < nBlockHeight"
  shows "0 \<le> n \<and> (if n < LOCKTIME_THRESHOLD then n < nBlockHeight else n < nBlockTime)"
proof -
  have n: "0 \<le> n" "tx_CheckLockTime tx nIn n"
    using assms(1,3,4) by (auto simp: op_checklocktimeverify_def TransactionSignatureChecker_def split: if_split_asm)
  then have lock: "n \<le> int (unat (nLockTime tx))"
    "int (unat (nLockTime tx)) < LOCKTIME_THRESHOLD \<longleftrightarrow> n < LOCKTIME_THRESHOLD"
    and seq: "nSequence (vin tx ! nIn) \<noteq> SEQUENCE_FINAL"
    by (auto simp: tx_CheckLockTime_def Let_def split: if_split_asm)
  have "\<not> list_all (\<lambda>txin. nSequence txin = SEQUENCE_FINAL) (vin tx)"
    using assms(2) seq by (auto simp: list_all_length)
  then have "nLockTime tx = 0 \<or>
      int (unat (nLockTime tx)) < (if int (unat (nLockTime tx)) < LOCKTIME_THRESHOLD then nBlockHeight else nBlockTime)"
    using assms(5) unfolding IsFinalTx_def by (meson)
  then show ?thesis
  proof
    assume "nLockTime tx = 0"
    then have "n = 0" using n(1) lock(1) by simp
    then show ?thesis using assms(6) by (simp add: LOCKTIME_THRESHOLD_def)
  next
    assume "int (unat (nLockTime tx)) < (if int (unat (nLockTime tx)) < LOCKTIME_THRESHOLD then nBlockHeight else nBlockTime)"
    then show ?thesis using n(1) lock by (auto split: if_splits)
  qed
qed

theorem checklocktimeverify_enforced_witness:
  "op_checklocktimeverify (TransactionSignatureChecker (\<lambda>_ _ _. True) demo_env demo_tx 0)
     SCRIPT_VERIFY_CHECKLOCKTIMEVERIFY [[50]] = Inr () \<and>
   (if (50::int) < LOCKTIME_THRESHOLD then (50::int) < 101 else (50::int) < 0)"
proof -
  have "set_vch ([] @ [50]) = 50" by (subst set_vch_snoc) simp_all
  then have n: "scriptnum SCRIPT_VERIFY_CHECKLOCKTIMEVERIFY [50] 5 = Inr 50"
    by (simp add: scriptnum_def CScriptNum_def has_flag_def flag_defs)
  then have o: "op_checklocktimeverify (TransactionSignatureChecker (\<lambda>_ _ _. True) demo_env demo_tx 0)
     SCRIPT_VERIFY_CHECKLOCKTIMEVERIFY [[50]] = Inr ()"
    by (simp add: op_checklocktimeverify_def TransactionSignatureChecker_def tx_CheckLockTime_def has_flag_def flag_defs
        demo_tx_def LOCKTIME_THRESHOLD_def SEQUENCE_FINAL_def)
  have "IsFinalTx demo_tx 101 0" by (simp add: IsFinalTx_def demo_tx_def LOCKTIME_THRESHOLD_def)
  from checklocktimeverify_enforced[OF _ _ o n this] show ?thesis
    using o by (simp add: has_flag_def flag_defs demo_tx_def)
qed

text \<open>\<^verbatim>\<open>OP_CHECKSEQUENCEVERIFY\<close> does what it is for: if the checker accepts the relative lock \<open>n\<close> for an input and the block
  that takes the transaction satisfies its sequence locks (under \<^verbatim>\<open>LOCKTIME_VERIFY_SEQUENCE\<close>), then the block is at least
  \<open>n AND 0xffff\<close> above the coin that the input spends, or, for a lock by time, the median time past of its parent is at
  least that many times 512 seconds after the median time past of the block before the coin's.\<close>

lemma checksequenceverify_enforced:
  assumes "tx_CheckSequence tx i n" "i < length (vin tx)"
    and "SequenceLocks st tx flags prevHeights block = Some True" "flags AND int LOCKTIME_VERIFY_SEQUENCE \<noteq> 0"
  shows "\<exists>b p t. st block = Some b \<and> pprev b = Some p \<and> GetMedianTimePast st p = Some t \<and>
    (if n AND 2 ^ 22 = 0 then prevHeights ! i + (n AND 65535) \<le> nHeight b
     else \<exists>q tq. GetAncestor st block (max (prevHeights ! i - 1) 0) = Some (Some q) \<and> GetMedianTimePast st q = Some tq \<and>
            tq + 512 * (n AND 65535) \<le> t)"
proof -
  let ?w = "nSequence (vin tx ! i)"
  note cs = checksequence_bounds[OF assms(1)]
  obtain a' b' hs where calc: "CalculateSequenceLocks st tx flags prevHeights block = Some ((a', b'), hs)"
    and ev: "EvaluateSequenceLocks st block (a', b') = Some True"
    using assms(3) by (auto simp: SequenceLocks_def split: Option.bind_splits prod.splits)
  have len: "length prevHeights = length (vin tx)"
    and loop: "sequence_locks_loop st block (vin tx) prevHeights (-1, -1) = Some ((a', b'), hs)"
    using calc assms(4) cs(1) by (auto simp: CalculateSequenceLocks_def split: if_split_asm)
  obtain b p t where b: "st block = Some b" "pprev b = Some p" "GetMedianTimePast st p = Some t" "a' < nHeight b" "b' < t"
    using ev by (auto simp: EvaluateSequenceLocks_def not_le split: Option.bind_splits)
  have l: "if ?w AND SEQUENCE_LOCKTIME_TYPE_FLAG = 0
    then prevHeights ! i + int (unat (?w AND SEQUENCE_LOCKTIME_MASK)) - 1 \<le> a'
    else \<exists>p t. GetAncestor st block (max (prevHeights ! i - 1) 0) = Some (Some p) \<and> GetMedianTimePast st p = Some t \<and>
      t + int (unat (push_bit SEQUENCE_LOCKTIME_GRANULARITY (?w AND SEQUENCE_LOCKTIME_MASK))) - 1 \<le> b'"
    by (rule sequence_locks_input[OF loop len assms(2) cs(2)])
  have "if n AND 2 ^ 22 = 0 then prevHeights ! i + (n AND 65535) \<le> nHeight b
     else \<exists>q tq. GetAncestor st block (max (prevHeights ! i - 1) 0) = Some (Some q) \<and> GetMedianTimePast st q = Some tq \<and>
            tq + 512 * (n AND 65535) \<le> t"
  proof (cases "?w AND SEQUENCE_LOCKTIME_TYPE_FLAG = 0")
    case True
    then have h: "prevHeights ! i + uint (?w AND SEQUENCE_LOCKTIME_MASK) - 1 \<le> a'" using l by simp
    have "prevHeights ! i + (n AND 65535) \<le> nHeight b" using h cs(4) b(4) by linarith
    then show ?thesis using True cs(3) by (simp only: if_True simp_thms)
  next
    case False
    then obtain q tq where q: "GetAncestor st block (max (prevHeights ! i - 1) 0) = Some (Some q)"
      "GetMedianTimePast st q = Some tq"
      and "tq + int (unat (push_bit SEQUENCE_LOCKTIME_GRANULARITY (?w AND SEQUENCE_LOCKTIME_MASK))) - 1 \<le> b'"
      using l by (simp only: if_False) blast
    then have h: "tq + 512 * uint (?w AND SEQUENCE_LOCKTIME_MASK) - 1 \<le> b'"
      using push_bit_mask_low[of ?w] by (simp only: SEQUENCE_LOCKTIME_GRANULARITY_def int_nat_eq unat_eq_nat_uint) simp
    have "tq + 512 * (n AND 65535) \<le> t" using h cs(4) b(5) by linarith
    then show ?thesis using False cs(3) q by auto
  qed
  then show ?thesis using b(1-3) by blast
qed

end
