(* ===== verification/Coins.thy ===== *)
theory Coins
  imports Transaction
begin

text \<open>
  The unspent outputs, \<^verbatim>\<open>coins.h\<close> and \<^verbatim>\<open>coins.cpp\<close>: \<^verbatim>\<open>CCoins\<close>, the views on them and the write-back cache \<^verbatim>\<open>CCoinsViewCache\<close> with
  its \<^verbatim>\<open>DIRTY\<close> and \<^verbatim>\<open>FRESH\<close> flags; the database is in the theory \<open>CoinsDB\<close>. A \<^verbatim>\<open>CCoinsModifier\<close> is the function that its holder
  applies to the coins between its construction and its destruction. The accounting of memory is left out.

  The interface \<^verbatim>\<open>CCoinsView\<close> is the locale \<open>coins_view\<close>: what can be read after a \<^verbatim>\<open>BatchWrite\<close>. A cache over a
  provider provides it again, so the three levels of the node (database, \<^verbatim>\<open>pcoinsTip\<close>, the view of the block being connected) are two
  interpretations of the same step, which stand with the database.
\<close>

section \<open>Coins\<close>

record CCoins =
  fCoinBase :: bool
  cvout :: "CTxOut list"
  cHeight :: int
  cVersion :: int

definition CCoins_Clear :: CCoins where
  "CCoins_Clear = \<lparr>fCoinBase = False, cvout = [], cHeight = 0, cVersion = 0\<rparr>"

text \<open>The loop of \<^verbatim>\<open>Cleanup\<close>: spent outputs at the end are dropped.\<close>

definition Cleanup_vout :: "CTxOut list \<Rightarrow> CTxOut list" where
  "Cleanup_vout v = rev (dropWhile CTxOut_IsNull (rev v))"

definition Cleanup :: "CCoins \<Rightarrow> CCoins" where
  "Cleanup c = c\<lparr>cvout := Cleanup_vout (cvout c)\<rparr>"

definition ClearUnspendable :: "CCoins \<Rightarrow> CCoins" where
  "ClearUnspendable c =
     Cleanup (c\<lparr>cvout := map (\<lambda>t. if IsUnspendable (scriptPubKey t) then CTxOut_SetNull else t) (cvout c)\<rparr>)"

definition FromTx :: "CTransaction \<Rightarrow> int \<Rightarrow> CCoins" where
  "FromTx tx nHeightIn =
     ClearUnspendable \<lparr>fCoinBase = IsCoinBase tx, cvout = vout tx, cHeight = nHeightIn, cVersion = nVersion tx\<rparr>"

definition IsAvailable :: "CCoins \<Rightarrow> nat \<Rightarrow> bool" where
  "IsAvailable c nPos \<longleftrightarrow> nPos < length (cvout c) \<and> \<not> CTxOut_IsNull (cvout c ! nPos)"

definition IsPruned :: "CCoins \<Rightarrow> bool" where
  "IsPruned c \<longleftrightarrow> list_all CTxOut_IsNull (cvout c)"

text \<open>\<^verbatim>\<open>operator==\<close>\<close>

definition CCoins_eq :: "CCoins \<Rightarrow> CCoins \<Rightarrow> bool" where
  "CCoins_eq a b \<longleftrightarrow> (IsPruned a \<and> IsPruned b) \<or>
     (fCoinBase a = fCoinBase b \<and> cHeight a = cHeight b \<and> cVersion a = cVersion b \<and> cvout a = cvout b)"

definition Spend :: "CCoins \<Rightarrow> nat \<Rightarrow> CCoins \<times> bool" where
  "Spend c nPos =
     (if nPos \<ge> length (cvout c) \<or> CTxOut_IsNull (cvout c ! nPos) then (c, False)
      else (Cleanup (c\<lparr>cvout := (cvout c)[nPos := CTxOut_SetNull]\<rparr>), True))"

section \<open>The cache\<close>

record CCoinsCacheEntry =
  coins :: CCoins
  DIRTY :: bool
  FRESH :: bool

type_synonym CCoinsMap = "uint256 \<rightharpoonup> CCoinsCacheEntry"
type_synonym GetCoins_fun = "uint256 \<Rightarrow> CCoins option"

record CCoinsViewCache =
  cacheCoins :: CCoinsMap
  hashBlock :: uint256

definition CCoinsViewCache_new :: CCoinsViewCache where
  "CCoinsViewCache_new = \<lparr>cacheCoins = Map.empty, hashBlock = blob_null 32\<rparr>"

text \<open>\<^verbatim>\<open>FetchCoins\<close>; \<open>base\<close> is \<^verbatim>\<open>base->GetCoins\<close>.\<close>

definition FetchCoins :: "GetCoins_fun \<Rightarrow> CCoinsViewCache \<Rightarrow> uint256 \<Rightarrow> CCoinsViewCache \<times> CCoinsCacheEntry option" where
  "FetchCoins base c txid =
     (case cacheCoins c txid of
        Some e \<Rightarrow> (c, Some e)
      | None \<Rightarrow>
          (case base txid of
             None \<Rightarrow> (c, None)
           | Some tmp \<Rightarrow>
               let e = \<lparr>coins = tmp, DIRTY = False, FRESH = IsPruned tmp\<rparr>
               in (c\<lparr>cacheCoins := (cacheCoins c)(txid \<mapsto> e)\<rparr>, Some e)))"

definition cache_GetCoins :: "GetCoins_fun \<Rightarrow> CCoinsViewCache \<Rightarrow> uint256 \<Rightarrow> CCoinsViewCache \<times> CCoins option" where
  "cache_GetCoins base c txid = (case FetchCoins base c txid of (c', e) \<Rightarrow> (c', map_option coins e))"

definition cache_HaveCoins :: "GetCoins_fun \<Rightarrow> CCoinsViewCache \<Rightarrow> uint256 \<Rightarrow> CCoinsViewCache \<times> bool" where
  "cache_HaveCoins base c txid =
     (case FetchCoins base c txid of (c', e) \<Rightarrow> (c', (case e of None \<Rightarrow> False | Some x \<Rightarrow> cvout (coins x) \<noteq> [])))"

definition HaveCoinsInCache :: "CCoinsViewCache \<Rightarrow> uint256 \<Rightarrow> bool" where
  "HaveCoinsInCache c txid \<longleftrightarrow> cacheCoins c txid \<noteq> None"

text \<open>The entry that a modifier holds, and what its destructor does with the modified coins.\<close>

definition modifier_entry :: "GetCoins_fun \<Rightarrow> CCoinsViewCache \<Rightarrow> uint256 \<Rightarrow> CCoinsCacheEntry" where
  "modifier_entry base c txid =
     (case cacheCoins c txid of
        Some e \<Rightarrow> e
      | None \<Rightarrow> (case base txid of
                   None \<Rightarrow> \<lparr>coins = CCoins_Clear, DIRTY = False, FRESH = True\<rparr>
                 | Some t \<Rightarrow> \<lparr>coins = t, DIRTY = False, FRESH = IsPruned t\<rparr>))\<lparr>DIRTY := True\<rparr>"

definition modifier_end :: "CCoinsViewCache \<Rightarrow> uint256 \<Rightarrow> CCoinsCacheEntry \<Rightarrow> CCoinsViewCache" where
  "modifier_end c txid e =
     (let e' = e\<lparr>coins := Cleanup (coins e)\<rparr>
      in if FRESH e' \<and> IsPruned (coins e') then c\<lparr>cacheCoins := (cacheCoins c)(txid := None)\<rparr>
         else c\<lparr>cacheCoins := (cacheCoins c)(txid \<mapsto> e')\<rparr>)"

definition ModifyCoins :: "GetCoins_fun \<Rightarrow> CCoinsViewCache \<Rightarrow> uint256 \<Rightarrow> (CCoins \<Rightarrow> CCoins) \<Rightarrow> CCoinsViewCache" where
  "ModifyCoins base c txid f =
     (let e = modifier_entry base c txid in modifier_end c txid (e\<lparr>coins := f (coins e)\<rparr>))"

definition ModifyNewCoins :: "CCoinsViewCache \<Rightarrow> uint256 \<Rightarrow> (CCoins \<Rightarrow> CCoins) \<Rightarrow> CCoinsViewCache" where
  "ModifyNewCoins c txid f = modifier_end c txid \<lparr>coins = f CCoins_Clear, DIRTY = True, FRESH = True\<rparr>"

text \<open>\<^verbatim>\<open>BatchWrite\<close> treats every key of the child's map by itself, so the order in which the hash map lists them is
  immaterial.\<close>

definition batch_entry :: "CCoinsCacheEntry option \<Rightarrow> CCoinsCacheEntry option \<Rightarrow> CCoinsCacheEntry option" where
  "batch_entry us child =
     (case child of
        None \<Rightarrow> us
      | Some it \<Rightarrow>
          if \<not> DIRTY it then us
          else (case us of
                  None \<Rightarrow> if FRESH it \<and> IsPruned (coins it) then None
                          else Some \<lparr>coins = coins it, DIRTY = True, FRESH = FRESH it\<rparr>
                | Some itUs \<Rightarrow> if FRESH itUs \<and> IsPruned (coins it) then None
                               else Some (itUs\<lparr>coins := coins it, DIRTY := True\<rparr>)))"

definition BatchWrite :: "CCoinsViewCache \<Rightarrow> CCoinsMap \<Rightarrow> uint256 \<Rightarrow> CCoinsViewCache" where
  "BatchWrite c mapCoins hashBlockIn =
     \<lparr>cacheCoins = (\<lambda>x. batch_entry (cacheCoins c x) (mapCoins x)), hashBlock = hashBlockIn\<rparr>"

definition Uncache :: "CCoinsViewCache \<Rightarrow> uint256 \<Rightarrow> CCoinsViewCache" where
  "Uncache c hash =
     (case cacheCoins c hash of
        Some e \<Rightarrow> if \<not> DIRTY e \<and> \<not> FRESH e then c\<lparr>cacheCoins := (cacheCoins c)(hash := None)\<rparr> else c
      | None \<Rightarrow> c)"

text \<open>\<^verbatim>\<open>GetBestBlock\<close> fills the field in from the parent on first use.\<close>

definition cache_GetBestBlock :: "uint256 \<Rightarrow> CCoinsViewCache \<Rightarrow> CCoinsViewCache \<times> uint256" where
  "cache_GetBestBlock base_best c =
     (let c' = (if blob_IsNull (hashBlock c) then c\<lparr>hashBlock := base_best\<rparr> else c) in (c', hashBlock c'))"

definition SetBestBlock :: "CCoinsViewCache \<Rightarrow> uint256 \<Rightarrow> CCoinsViewCache" where
  "SetBestBlock c hashBlockIn = c\<lparr>hashBlock := hashBlockIn\<rparr>"

text \<open>\<^verbatim>\<open>Flush\<close>, given the \<^verbatim>\<open>BatchWrite\<close> of the parent: the parent's new state and the emptied cache.\<close>

definition Flush :: "('s \<Rightarrow> CCoinsMap \<Rightarrow> uint256 \<Rightarrow> 's) \<Rightarrow> 's \<Rightarrow> CCoinsViewCache \<Rightarrow> 's \<times> CCoinsViewCache" where
  "Flush base_BatchWrite s c = (base_BatchWrite s (cacheCoins c) (hashBlock c), c\<lparr>cacheCoins := Map.empty\<rparr>)"

section \<open>Inputs of a transaction\<close>

text \<open>What the cache knows of a transaction (\<^verbatim>\<open>AccessCoins\<close> after the fetch).\<close>

definition cache_get :: "GetCoins_fun \<Rightarrow> CCoinsViewCache \<Rightarrow> GetCoins_fun" where
  "cache_get base c txid = (case cacheCoins c txid of Some e \<Rightarrow> Some (coins e) | None \<Rightarrow> base txid)"

text \<open>\<^verbatim>\<open>GetOutputFor\<close>; \<open>None\<close> is a failed assertion.\<close>

definition GetOutputFor :: "GetCoins_fun \<Rightarrow> CTxIn \<Rightarrow> CTxOut option" where
  "GetOutputFor view input =
     (case view (outhash (prevout input)) of
        Some c \<Rightarrow> if IsAvailable c (unat (outn (prevout input))) then Some (cvout c ! unat (outn (prevout input))) else None
      | None \<Rightarrow> None)"

fun value_in_loop :: "GetCoins_fun \<Rightarrow> CTxIn list \<Rightarrow> CAmount \<Rightarrow> CAmount option" where
  "value_in_loop view [] nResult = Some nResult"
| "value_in_loop view (i # is) nResult =
     (case GetOutputFor view i of None \<Rightarrow> None | Some t \<Rightarrow> value_in_loop view is (nResult + nValue t))"

definition GetValueIn :: "GetCoins_fun \<Rightarrow> CTransaction \<Rightarrow> CAmount option" where
  "GetValueIn view tx = (if IsCoinBase tx then Some 0 else value_in_loop view (vin tx) 0)"

definition HaveInputs :: "GetCoins_fun \<Rightarrow> CTransaction \<Rightarrow> bool" where
  "HaveInputs view tx =
     (if IsCoinBase tx then True
      else list_all (\<lambda>i. case view (outhash (prevout i)) of
                           Some c \<Rightarrow> IsAvailable c (unat (outn (prevout i))) | None \<Rightarrow> False) (vin tx))"

section \<open>What a view stands for\<close>

text \<open>A missing entry and a pruned one are the same.\<close>

definition live :: "CCoins option \<Rightarrow> CCoins option" where
  "live c = (case c of Some x \<Rightarrow> if IsPruned x then None else Some x | None \<Rightarrow> None)"

definition cache_ok :: "GetCoins_fun \<Rightarrow> CCoinsViewCache \<Rightarrow> bool" where
  "cache_ok base c \<longleftrightarrow> (\<forall>x e. cacheCoins c x = Some e \<longrightarrow>
     (FRESH e \<longrightarrow> live (base x) = None) \<and> (\<not> DIRTY e \<longrightarrow> live (Some (coins e)) = live (base x)))"

definition batch_ok :: "GetCoins_fun \<Rightarrow> CCoinsMap \<Rightarrow> bool" where
  "batch_ok g m \<longleftrightarrow> (\<forall>x e. m x = Some e \<longrightarrow> FRESH e \<longrightarrow> live (g x) = None)"

text \<open>A coin for the witness.\<close>

definition demo_coin :: CCoins where
  "demo_coin = \<lparr>fCoinBase = False, cvout = [\<lparr>nValue = 50, scriptPubKey = [0x51]\<rparr>], cHeight = 1, cVersion = 1\<rparr>"

lemma live_simps [simp]:
  "live None = None" "live (Some c) = (if IsPruned c then None else Some c)"
  by (simp_all add: live_def)

lemma cache_okD:
  assumes "cache_ok base c" "cacheCoins c x = Some e"
  shows "FRESH e \<Longrightarrow> live (base x) = None" "\<not> DIRTY e \<Longrightarrow> live (Some (coins e)) = live (base x)"
  using assms unfolding cache_ok_def by blast+

lemma batch_okD: "batch_ok g m \<Longrightarrow> m x = Some e \<Longrightarrow> FRESH e \<Longrightarrow> live (g x) = None"
  unfolding batch_ok_def by blast

text \<open>A provider may keep a changed form of the coins, and may need that they are of a form that it can keep.\<close>

definition batch_fits :: "(CCoins \<Rightarrow> bool) \<Rightarrow> CCoinsMap \<Rightarrow> bool" where
  "batch_fits fits m \<longleftrightarrow> (\<forall>x e. m x = Some e \<longrightarrow> DIRTY e \<longrightarrow> \<not> IsPruned (coins e) \<longrightarrow> fits (coins e))"

lemma batch_fitsD: "batch_fits fits m \<Longrightarrow> m x = Some e \<Longrightarrow> DIRTY e \<Longrightarrow> \<not> IsPruned (coins e) \<Longrightarrow> fits (coins e)"
  unfolding batch_fits_def by blast

lemma BatchWrite_fits:
  assumes "batch_fits fits (cacheCoins c)" "batch_fits fits m"
  shows "batch_fits fits (cacheCoins (BatchWrite c m h))"
  unfolding batch_fits_def
proof (intro allI impI)
  fix x e assume e: "cacheCoins (BatchWrite c m h) x = Some e" "DIRTY e" "\<not> IsPruned (coins e)"
  then consider "cacheCoins c x = Some e" | it where "m x = Some it" "DIRTY it" "coins e = coins it"
    by (auto simp: BatchWrite_def batch_entry_def split: option.splits if_split_asm)
  then show "fits (coins e)" using assms e(2,3) by cases (simp_all add: batch_fits_def)
qed

locale coins_view =
  fixes get_coins :: "'s \<Rightarrow> GetCoins_fun"
    and batch_write :: "'s \<Rightarrow> CCoinsMap \<Rightarrow> uint256 \<Rightarrow> 's"
    and invar :: "'s \<Rightarrow> bool"
    and fits :: "CCoins \<Rightarrow> bool"
    and stored :: "CCoins \<Rightarrow> CCoins"
  assumes read_after_write: "invar s \<Longrightarrow> batch_ok (get_coins s) m \<Longrightarrow> batch_fits fits m \<Longrightarrow>
      live (get_coins (batch_write s m h) x) =
        (case m x of Some e \<Rightarrow> if DIRTY e then map_option stored (live (Some (coins e))) else live (get_coins s x) | None \<Rightarrow> live (get_coins s x))"
    and invar_write: "invar s \<Longrightarrow> batch_ok (get_coins s) m \<Longrightarrow> batch_fits fits m \<Longrightarrow> invar (batch_write s m h)"
    and read_stored: "invar s \<Longrightarrow> map_option stored (live (get_coins s x)) = live (get_coins s x)"
begin

text \<open>Flushing a cache moves what it stands for into its parent, in the form that the parent keeps.\<close>

lemma flush_keeps_view:
  assumes "invar s" "cache_ok (get_coins s) c" "batch_fits fits (cacheCoins c)"
  shows "live (get_coins (fst (Flush batch_write s c)) x) = map_option stored (live (cache_get (get_coins s) c x))"
proof -
  have "batch_ok (get_coins s) (cacheCoins c)" using assms(2) by (auto simp: batch_ok_def cache_ok_def)
  from read_after_write[OF assms(1) this assms(3), of "hashBlock c" x]
  have r: "live (get_coins (fst (Flush batch_write s c)) x) =
      (case cacheCoins c x of Some e \<Rightarrow> if DIRTY e then map_option stored (live (Some (coins e))) else live (get_coins s x) | None \<Rightarrow> live (get_coins s x))"
    by (simp add: Flush_def)
  show ?thesis
  proof (cases "cacheCoins c x")
    case None
    then show ?thesis using r read_stored[OF assms(1)] by (simp add: cache_get_def)
  next
    case (Some e)
    show ?thesis
    proof (cases "DIRTY e")
      case True
      then show ?thesis using r Some by (simp add: cache_get_def)
    next
      case False
      then have "live (Some (coins e)) = live (get_coins s x)" using cache_okD(2)[OF assms(2) Some] by blast
      then show ?thesis using r Some False read_stored[OF assms(1), of x] by (simp add: cache_get_def del: live_simps)
    qed
  qed
qed

text \<open>A cache over a view is a view.\<close>

lemma cache_is_view:
  "coins_view (\<lambda>(c, s). cache_get (get_coins s) c) (\<lambda>(c, s) m h. (BatchWrite c m h, s))
     (\<lambda>(c, s). cache_ok (get_coins s) c \<and> invar s) (\<lambda>_. True) (\<lambda>x. x)"
proof (unfold_locales, goal_cases)
  case (1 p m h x)
  obtain c s where p: "p = (c, s)" by (cases p)
  have child: "m x = Some e \<Longrightarrow> FRESH e \<Longrightarrow> live (cache_get (get_coins s) c x) = None" for e
    using 1 by (auto simp: p batch_ok_def)
  have us: "cacheCoins c x = Some e \<Longrightarrow> FRESH e \<Longrightarrow> live (get_coins s x) = None" for e
    using 1 by (auto simp: p cache_ok_def)
  show ?case
    using child us unfolding p
    by (cases "m x"; cases "cacheCoins c x") (auto simp: cache_get_def BatchWrite_def batch_entry_def)
next
  case (2 p m h)
  obtain c s where p: "p = (c, s)" by (cases p)
  have "cache_ok (get_coins s) (BatchWrite c m h)"
    unfolding cache_ok_def
  proof (intro allI impI)
    fix x e assume "cacheCoins (BatchWrite c m h) x = Some e"
    then show "(FRESH e \<longrightarrow> live (get_coins s x) = None) \<and> (\<not> DIRTY e \<longrightarrow> live (Some (coins e)) = live (get_coins s x))"
      using cache_okD[of "get_coins s" c x] batch_okD[of "cache_get (get_coins s) c" m x] 2 unfolding p
      by (cases "m x"; cases "cacheCoins c x")
         (auto simp: cache_get_def[of _ _ x] BatchWrite_def batch_entry_def simp del: live_simps split: if_splits)
  qed
  then show ?case using 2 p by simp
next
  case (3 p x)
  then show ?case by (simp add: option.map_ident)
qed

end

section \<open>Modifying the cache\<close>

lemma coins_cache_upd:
  assumes "cache_ok base c" "FRESH e \<Longrightarrow> live (base x) = None" "\<not> DIRTY e \<Longrightarrow> live (Some (coins e)) = live (base x)"
  shows "cache_ok base (c\<lparr>cacheCoins := (cacheCoins c)(x \<mapsto> e)\<rparr>)" "cache_ok base (c\<lparr>cacheCoins := (cacheCoins c)(x := None)\<rparr>)"
  using assms unfolding cache_ok_def by (auto simp del: live_simps)


lemma modifier_entry_live:
  assumes "cache_ok base c"
  shows "live (Some (coins (modifier_entry base c x))) = live (cache_get base c x)"
    "FRESH (modifier_entry base c x) \<Longrightarrow> live (base x) = None" "DIRTY (modifier_entry base c x)"
  using cache_okD[OF assms, of x]
  by (auto simp: modifier_entry_def cache_get_def CCoins_Clear_def IsPruned_def live_def split: option.splits)

lemma modifier_entry_present:
  "live (cache_get base c x) = Some a \<Longrightarrow> coins (modifier_entry base c x) = a"
  by (auto simp: modifier_entry_def cache_get_def live_def split: option.splits if_split_asm)

lemma modifier_end_get:
  assumes "FRESH e \<Longrightarrow> live (base x) = None"
  shows "live (cache_get base (modifier_end c x e) y) =
    (if y = x then live (Some (Cleanup (coins e))) else live (cache_get base c y))"
  using assms by (auto simp: modifier_end_def Let_def cache_get_def)

lemma modifier_end_ok:
  assumes "cache_ok base c" "FRESH e \<Longrightarrow> live (base x) = None" "DIRTY e"
  shows "cache_ok base (modifier_end c x e)"
  using assms coins_cache_upd[of base c "e\<lparr>coins := Cleanup (coins e)\<rparr>" x] by (simp add: modifier_end_def Let_def)

lemma ModifyCoins_get:
  assumes "cache_ok base c"
  shows "live (cache_get base (ModifyCoins base c x f) y) =
    (if y = x then live (Some (Cleanup (f (coins (modifier_entry base c x))))) else live (cache_get base c y))"
  unfolding ModifyCoins_def Let_def using modifier_entry_live[OF assms] by (subst modifier_end_get) auto

lemma ModifyCoins_ok: "cache_ok base c \<Longrightarrow> cache_ok base (ModifyCoins base c x f)"
  unfolding ModifyCoins_def Let_def using modifier_entry_live by (intro modifier_end_ok) auto

lemma ModifyNewCoins_get:
  assumes "live (base x) = None"
  shows "live (cache_get base (ModifyNewCoins c x f) y) =
    (if y = x then live (Some (Cleanup (f CCoins_Clear))) else live (cache_get base c y))"
  unfolding ModifyNewCoins_def using assms by (subst modifier_end_get) auto

lemma ModifyNewCoins_ok: "cache_ok base c \<Longrightarrow> live (base x) = None \<Longrightarrow> cache_ok base (ModifyNewCoins c x f)"
  unfolding ModifyNewCoins_def by (intro modifier_end_ok) auto

lemma FetchCoins_get:
  "cache_get base (fst (FetchCoins base c x)) y = cache_get base c y"
  "map_option coins (snd (FetchCoins base c x)) = cache_get base c x"
  by (auto simp: FetchCoins_def cache_get_def Let_def split: option.splits)

lemma FetchCoins_ok: "cache_ok base c \<Longrightarrow> cache_ok base (fst (FetchCoins base c x))"
  by (auto simp: FetchCoins_def Let_def intro!: coins_cache_upd split: option.splits)

lemma Uncache_get: "cache_ok base c \<Longrightarrow> live (cache_get base (Uncache c h) y) = live (cache_get base c y)"
  using cache_okD(2)[of base c h] by (auto simp: Uncache_def cache_get_def simp del: live_simps split: option.splits)

lemma Uncache_ok: "cache_ok base c \<Longrightarrow> cache_ok base (Uncache c h)"
  using cache_okD[of base c h] by (auto simp: Uncache_def simp del: live_simps intro: coins_cache_upd split: option.splits)

lemma new_cache_ok: "cache_ok base CCoinsViewCache_new"
  by (simp add: cache_ok_def CCoinsViewCache_new_def)

section \<open>Cleaning up\<close>

lemma Cleanup_vout_split: "\<exists>r. v = Cleanup_vout v @ r \<and> list_all CTxOut_IsNull r"
proof -
  let ?p = CTxOut_IsNull
  have "rev v = takeWhile ?p (rev v) @ dropWhile ?p (rev v)" by simp
  then have "v = Cleanup_vout v @ rev (takeWhile ?p (rev v))"
    unfolding Cleanup_vout_def by (metis rev_append rev_rev_ident)
  moreover have "list_all ?p (rev (takeWhile ?p (rev v)))" by (auto simp: list_all_iff dest: set_takeWhileD)
  ultimately show ?thesis by blast
qed

lemma Cleanup_vout_idem [simp]: "Cleanup_vout (Cleanup_vout v) = Cleanup_vout v"
  by (simp add: Cleanup_vout_def dropWhile_idem)

lemma Cleanup_idem [simp]: "Cleanup (Cleanup c) = Cleanup c"
  by (simp add: Cleanup_def)

lemma IsPruned_Cleanup [simp]: "IsPruned (Cleanup c) = IsPruned c"
proof -
  obtain r where "cvout c = Cleanup_vout (cvout c) @ r" "list_all CTxOut_IsNull r" using Cleanup_vout_split by blast
  then have "list_all CTxOut_IsNull (cvout c) = list_all CTxOut_IsNull (Cleanup_vout (cvout c))"
    by (metis list_all_append)
  then show ?thesis by (simp add: IsPruned_def Cleanup_def)
qed

lemma Cleanup_pruned: "IsPruned c \<Longrightarrow> cvout (Cleanup c) = []"
  by (auto simp: IsPruned_def Cleanup_def Cleanup_vout_def list_all_iff dropWhile_eq_Nil_conv)

end
