(* ===== verification/Validation.thy ===== *)
theory Validation
  imports LockTime Coins Params
begin

text \<open>
  The checks on a transaction: \<^verbatim>\<open>CValidationState\<close> of \<^verbatim>\<open>consensus/validation.h\<close>, and from \<^verbatim>\<open>main.cpp\<close> the counts of signature operations,
  \<^verbatim>\<open>CheckTransaction\<close>, \<^verbatim>\<open>Consensus::CheckTxInputs\<close> and \<^verbatim>\<open>CheckInputs\<close>.

  A check that returns false has changed the state that it was given; one that returns true has not. So a check is a
  function of the state with the result \<open>Inl (Rejected state')\<close> or \<open>Inr\<close>. A failed assertion, an exception that is not caught and
  the dereference of a null pointer are \<open>Inl Aborted\<close>. The messages for the debug log are left out. The signature cache is
  left out too: \<^verbatim>\<open>CachingTransactionSignatureChecker\<close> answers what \<^verbatim>\<open>TransactionSignatureChecker\<close> would.
\<close>

section \<open>Validation states\<close>

datatype mode_state = MODE_VALID | MODE_INVALID | MODE_ERROR

record CValidationState =
  mode :: mode_state
  nDoS :: int
  strRejectReason :: string
  chRejectCode :: nat
  corruptionPossible :: bool

definition CValidationState_new :: CValidationState where
  "CValidationState_new = \<lparr>mode = MODE_VALID, nDoS = 0, strRejectReason = [], chRejectCode = 0, corruptionPossible = False\<rparr>"

definition REJECT_INVALID :: nat where "REJECT_INVALID = 0x10"
definition REJECT_OBSOLETE :: nat where "REJECT_OBSOLETE = 0x11"
definition REJECT_NONSTANDARD :: nat where "REJECT_NONSTANDARD = 0x40"

definition state_DoS :: "CValidationState \<Rightarrow> int \<Rightarrow> nat \<Rightarrow> string \<Rightarrow> bool \<Rightarrow> CValidationState" where
  "state_DoS s level code reason corruptionIn =
     (let s1 = s\<lparr>chRejectCode := code, strRejectReason := reason, corruptionPossible := corruptionIn\<rparr>
      in if mode s = MODE_ERROR then s1 else s1\<lparr>nDoS := nDoS s + level, mode := MODE_INVALID\<rparr>)"

definition state_Invalid :: "CValidationState \<Rightarrow> nat \<Rightarrow> string \<Rightarrow> CValidationState" where
  "state_Invalid s code reason = state_DoS s 0 code reason False"

definition state_Error :: "CValidationState \<Rightarrow> string \<Rightarrow> CValidationState" where
  "state_Error s reason = (if mode s = MODE_VALID then s\<lparr>strRejectReason := reason\<rparr> else s)\<lparr>mode := MODE_ERROR\<rparr>"

definition state_IsValid :: "CValidationState \<Rightarrow> bool" where "state_IsValid s \<longleftrightarrow> mode s = MODE_VALID"
definition state_IsInvalid :: "CValidationState \<Rightarrow> bool" where "state_IsInvalid s \<longleftrightarrow> mode s = MODE_INVALID"
definition state_IsError :: "CValidationState \<Rightarrow> bool" where "state_IsError s \<longleftrightarrow> mode s = MODE_ERROR"

definition state_IsInvalid_DoS :: "CValidationState \<Rightarrow> int option" where
  "state_IsInvalid_DoS s = (if state_IsInvalid s then Some (nDoS s) else None)"

datatype check_fail = Rejected CValidationState | Aborted

abbreviation reject_DoS :: "CValidationState \<Rightarrow> int \<Rightarrow> string \<Rightarrow> check_fail + 'a" where
  "reject_DoS s level reason \<equiv> Inl (Rejected (state_DoS s level REJECT_INVALID reason False))"

section \<open>Signature operations\<close>

definition GetLegacySigOpCount :: "CTransaction \<Rightarrow> nat" where
  "GetLegacySigOpCount tx =
     fold (\<lambda>t n. n + GetSigOpCount (scriptPubKey t) False) (vout tx)
       (fold (\<lambda>i n. n + GetSigOpCount (scriptSig i) False) (vin tx) 0)"

text \<open>The loop of \<^verbatim>\<open>GetP2SHSigOpCount\<close>; \<open>None\<close> is the failed assertion of \<^verbatim>\<open>GetOutputFor\<close>.\<close>

fun p2sh_sigops_loop :: "GetCoins_fun \<Rightarrow> CTxIn list \<Rightarrow> nat \<Rightarrow> nat option" where
  "p2sh_sigops_loop view [] nSigOps = Some nSigOps"
| "p2sh_sigops_loop view (i # is) nSigOps =
     (case GetOutputFor view i of
        None \<Rightarrow> None
      | Some t \<Rightarrow> p2sh_sigops_loop view is
          (if IsPayToScriptHash (scriptPubKey t) then nSigOps + GetSigOpCount_P2SH (scriptPubKey t) (scriptSig i) else nSigOps))"

definition GetP2SHSigOpCount :: "CTransaction \<Rightarrow> GetCoins_fun \<Rightarrow> nat option" where
  "GetP2SHSigOpCount tx view = (if IsCoinBase tx then Some 0 else p2sh_sigops_loop view (vin tx) 0)"

section \<open>Checks without context\<close>

fun check_vout :: "CValidationState \<Rightarrow> CTxOut list \<Rightarrow> CAmount \<Rightarrow> check_fail + unit" where
  "check_vout state [] nValueOut = Inr ()"
| "check_vout state (t # ts) nValueOut =
     (if nValue t < 0 then reject_DoS state 100 ''bad-txns-vout-negative''
      else if nValue t > MAX_MONEY then reject_DoS state 100 ''bad-txns-vout-toolarge''
      else if \<not> MoneyRange (nValueOut + nValue t) then reject_DoS state 100 ''bad-txns-txouttotal-toolarge''
      else check_vout state ts (nValueOut + nValue t))"

fun check_duplicates :: "CValidationState \<Rightarrow> CTxIn list \<Rightarrow> COutPoint list \<Rightarrow> check_fail + unit" where
  "check_duplicates state [] vInOutPoints = Inr ()"
| "check_duplicates state (i # is) vInOutPoints =
     (if prevout i \<in> set vInOutPoints then reject_DoS state 100 ''bad-txns-inputs-duplicate''
      else check_duplicates state is (prevout i # vInOutPoints))"

definition CheckTransaction :: "CTransaction \<Rightarrow> CValidationState \<Rightarrow> check_fail + unit" where
  "CheckTransaction tx state =
     (if vin tx = [] then reject_DoS state 10 ''bad-txns-vin-empty''
      else if vout tx = [] then reject_DoS state 10 ''bad-txns-vout-empty''
      else if GetSerializeSize tx > MAX_BLOCK_SIZE then reject_DoS state 100 ''bad-txns-oversize''
      else andThen (check_vout state (vout tx) 0) (\<lambda>_.
           andThen (check_duplicates state (vin tx) []) (\<lambda>_.
           if IsCoinBase tx then
             (if length (scriptSig (vin tx ! 0)) < 2 \<or> length (scriptSig (vin tx ! 0)) > 100
              then reject_DoS state 100 ''bad-cb-length'' else Inr ())
           else if list_ex (\<lambda>i. COutPoint_IsNull (prevout i)) (vin tx)
           then reject_DoS state 10 ''bad-txns-prevout-null'' else Inr ())))"

section \<open>Checks against the unspent outputs\<close>

text \<open>The loop over the inputs: maturity and range of the values, with their sum.\<close>

fun check_input_values :: "GetCoins_fun \<Rightarrow> CValidationState \<Rightarrow> int \<Rightarrow> CTxIn list \<Rightarrow> CAmount \<Rightarrow> check_fail + CAmount" where
  "check_input_values view state nSpendHeight [] nValueIn = Inr nValueIn"
| "check_input_values view state nSpendHeight (i # is) nValueIn =
     (case view (outhash (prevout i)) of
        None \<Rightarrow> Inl Aborted
      | Some c \<Rightarrow>
          if fCoinBase c \<and> nSpendHeight - cHeight c < COINBASE_MATURITY
          then Inl (Rejected (state_Invalid state REJECT_INVALID ''bad-txns-premature-spend-of-coinbase''))
          else if length (cvout c) \<le> unat (outn (prevout i)) then Inl Aborted
          else let v = nValue (cvout c ! unat (outn (prevout i))) in
            if \<not> MoneyRange v \<or> \<not> MoneyRange (nValueIn + v)
            then reject_DoS state 100 ''bad-txns-inputvalues-outofrange''
            else check_input_values view state nSpendHeight is (nValueIn + v))"

definition CheckTxInputs :: "CTransaction \<Rightarrow> CValidationState \<Rightarrow> GetCoins_fun \<Rightarrow> int \<Rightarrow> check_fail + unit" where
  "CheckTxInputs tx state view nSpendHeight =
     (if \<not> HaveInputs view tx then Inl (Rejected (state_Invalid state 0 []))
      else andThen (check_input_values view state nSpendHeight (vin tx) 0) (\<lambda>nValueIn.
           case GetValueOut tx of
             None \<Rightarrow> Inl Aborted
           | Some nValueOut \<Rightarrow>
               if nValueIn < nValueOut then reject_DoS state 100 ''bad-txns-in-belowout''
               else let nTxFee = nValueIn - nValueOut in
                 if nTxFee < 0 then reject_DoS state 100 ''bad-txns-fee-negative''
                 else if \<not> MoneyRange nTxFee then reject_DoS state 100 ''bad-txns-fee-outofrange''
                 else Inr ()))"

text \<open>\<^verbatim>\<open>GetSpendHeight\<close>, given the best block of the view.\<close>

definition GetSpendHeight :: "(uint256 \<rightharpoonup> nat) \<Rightarrow> block_store \<Rightarrow> uint256 \<Rightarrow> check_fail + int" where
  "GetSpendHeight mapBlockIndex st best =
     (case Option.bind (mapBlockIndex best) st of None \<Rightarrow> Inl Aborted | Some b \<Rightarrow> Inr (nHeight b + 1))"

section \<open>Scripts\<close>

definition STANDARD_NOT_MANDATORY_VERIFY_FLAGS :: u32 where
  "STANDARD_NOT_MANDATORY_VERIFY_FLAGS = STANDARD_SCRIPT_VERIFY_FLAGS AND NOT MANDATORY_SCRIPT_VERIFY_FLAGS"

definition ScriptErrorString :: "ScriptError \<Rightarrow> string" where
  "ScriptErrorString serror =
     (case serror of
        SCRIPT_ERR_OK \<Rightarrow> ''No error''
      | SCRIPT_ERR_EVAL_FALSE \<Rightarrow> ''Script evaluated without error but finished with a false/empty top stack element''
      | SCRIPT_ERR_VERIFY \<Rightarrow> ''Script failed an OP_VERIFY operation''
      | SCRIPT_ERR_EQUALVERIFY \<Rightarrow> ''Script failed an OP_EQUALVERIFY operation''
      | SCRIPT_ERR_CHECKMULTISIGVERIFY \<Rightarrow> ''Script failed an OP_CHECKMULTISIGVERIFY operation''
      | SCRIPT_ERR_CHECKSIGVERIFY \<Rightarrow> ''Script failed an OP_CHECKSIGVERIFY operation''
      | SCRIPT_ERR_NUMEQUALVERIFY \<Rightarrow> ''Script failed an OP_NUMEQUALVERIFY operation''
      | SCRIPT_ERR_SCRIPT_SIZE \<Rightarrow> ''Script is too big''
      | SCRIPT_ERR_PUSH_SIZE \<Rightarrow> ''Push value size limit exceeded''
      | SCRIPT_ERR_OP_COUNT \<Rightarrow> ''Operation limit exceeded''
      | SCRIPT_ERR_STACK_SIZE \<Rightarrow> ''Stack size limit exceeded''
      | SCRIPT_ERR_SIG_COUNT \<Rightarrow> ''Signature count negative or greater than pubkey count''
      | SCRIPT_ERR_PUBKEY_COUNT \<Rightarrow> ''Pubkey count negative or limit exceeded''
      | SCRIPT_ERR_BAD_OPCODE \<Rightarrow> ''Opcode missing or not understood''
      | SCRIPT_ERR_DISABLED_OPCODE \<Rightarrow> ''Attempted to use a disabled opcode''
      | SCRIPT_ERR_INVALID_STACK_OPERATION \<Rightarrow> ''Operation not valid with the current stack size''
      | SCRIPT_ERR_INVALID_ALTSTACK_OPERATION \<Rightarrow> ''Operation not valid with the current altstack size''
      | SCRIPT_ERR_OP_RETURN \<Rightarrow> ''OP_RETURN was encountered''
      | SCRIPT_ERR_UNBALANCED_CONDITIONAL \<Rightarrow> ''Invalid OP_IF construction''
      | SCRIPT_ERR_NEGATIVE_LOCKTIME \<Rightarrow> ''Negative locktime''
      | SCRIPT_ERR_UNSATISFIED_LOCKTIME \<Rightarrow> ''Locktime requirement not satisfied''
      | SCRIPT_ERR_SIG_HASHTYPE \<Rightarrow> ''Signature hash type missing or not understood''
      | SCRIPT_ERR_SIG_DER \<Rightarrow> ''Non-canonical DER signature''
      | SCRIPT_ERR_MINIMALDATA \<Rightarrow> ''Data push larger than necessary''
      | SCRIPT_ERR_SIG_PUSHONLY \<Rightarrow> ''Only non-push operators allowed in signatures''
      | SCRIPT_ERR_SIG_HIGH_S \<Rightarrow> ''Non-canonical signature: S value is unnecessarily high''
      | SCRIPT_ERR_SIG_NULLDUMMY \<Rightarrow> ''Dummy CHECKMULTISIG argument must be zero''
      | SCRIPT_ERR_DISCOURAGE_UPGRADABLE_NOPS \<Rightarrow> ''NOPx reserved for soft-fork upgrades''
      | SCRIPT_ERR_PUBKEYTYPE \<Rightarrow> ''Public key is neither compressed or uncompressed''
      | _ \<Rightarrow> ''unknown error'')"

record CScriptCheck =
  sc_scriptPubKey :: CScript
  ptxTo :: CTransaction
  sc_nIn :: nat
  nFlags :: u32

definition CScriptCheck_of :: "CCoins \<Rightarrow> CTransaction \<Rightarrow> nat \<Rightarrow> u32 \<Rightarrow> CScriptCheck" where
  "CScriptCheck_of txFrom txTo nIn flags =
     \<lparr>sc_scriptPubKey = scriptPubKey (cvout txFrom ! unat (outn (prevout (vin txTo ! nIn)))), ptxTo = txTo, sc_nIn = nIn, nFlags = flags\<rparr>"

text \<open>The elliptic curve and the hash functions that the checks need.\<close>

record crypto =
  Verify :: "valtype \<Rightarrow> uint256 \<Rightarrow> valtype \<Rightarrow> bool"
  hashes :: script_env

definition CScriptCheck_run :: "crypto \<Rightarrow> CScriptCheck \<Rightarrow> (ScriptError + unit) option" where
  "CScriptCheck_run cr c =
     VerifyScript (TransactionSignatureChecker (Verify cr) (hashes cr) (ptxTo c) (sc_nIn c)) (nFlags c)
       (scriptSig (vin (ptxTo c) ! sc_nIn c)) (sc_scriptPubKey c)"

text \<open>What a failed script check does to the state.\<close>

definition script_failed :: "crypto \<Rightarrow> CValidationState \<Rightarrow> CCoins \<Rightarrow> CTransaction \<Rightarrow> nat \<Rightarrow> u32 \<Rightarrow> ScriptError \<Rightarrow> check_fail + unit" where
  "script_failed cr state c tx i flags err =
     (let dos = reject_DoS state 100 (''mandatory-script-verify-flag-failed ('' @ ScriptErrorString err @ '')'') in
      if has_flag flags STANDARD_NOT_MANDATORY_VERIFY_FLAGS then
        (case CScriptCheck_run cr (CScriptCheck_of c tx i (flags AND NOT STANDARD_NOT_MANDATORY_VERIFY_FLAGS)) of
           None \<Rightarrow> Inl Aborted
         | Some (Inr _) \<Rightarrow> Inl (Rejected (state_Invalid state REJECT_NONSTANDARD
             (''non-mandatory-script-verify-flag ('' @ ScriptErrorString err @ '')'')))
         | Some (Inl _) \<Rightarrow> dos)
      else dos)"

text \<open>The loop over the inputs, with the checks run at once or collected for the queue.\<close>

fun script_checks_loop ::
    "crypto \<Rightarrow> GetCoins_fun \<Rightarrow> CValidationState \<Rightarrow> CTransaction \<Rightarrow> u32 \<Rightarrow> bool \<Rightarrow> nat list \<Rightarrow> CScriptCheck list \<Rightarrow> check_fail + CScriptCheck list" where
  "script_checks_loop cr view state tx flags fQueue [] vChecks = Inr vChecks"
| "script_checks_loop cr view state tx flags fQueue (i # is) vChecks =
     (case view (outhash (prevout (vin tx ! i))) of
        None \<Rightarrow> Inl Aborted
      | Some c \<Rightarrow>
          let check = CScriptCheck_of c tx i flags in
          if fQueue then script_checks_loop cr view state tx flags fQueue is (vChecks @ [check])
          else (case CScriptCheck_run cr check of
                  None \<Rightarrow> Inl Aborted
                | Some (Inl err) \<Rightarrow> andThen (script_failed cr state c tx i flags err) (\<lambda>_. Inr vChecks)
                | Some (Inr _) \<Rightarrow> script_checks_loop cr view state tx flags fQueue is vChecks))"

definition CheckInputs ::
    "crypto \<Rightarrow> CTransaction \<Rightarrow> CValidationState \<Rightarrow> GetCoins_fun \<Rightarrow> check_fail + int \<Rightarrow> bool \<Rightarrow> u32 \<Rightarrow> bool \<Rightarrow> check_fail + CScriptCheck list" where
  "CheckInputs cr tx state view spendHeight fScriptChecks flags fQueue =
     (if IsCoinBase tx then Inr []
      else andThen spendHeight (\<lambda>nSpendHeight.
           andThen (CheckTxInputs tx state view nSpendHeight) (\<lambda>_.
           if fScriptChecks then script_checks_loop cr view state tx flags fQueue [0..<length (vin tx)] []
           else Inr [])))"

section \<open>What the checks decide\<close>

definition tx_wellformed :: "CTransaction \<Rightarrow> bool" where
  "tx_wellformed tx \<longleftrightarrow> vin tx \<noteq> [] \<and> vout tx \<noteq> [] \<and> GetSerializeSize tx \<le> MAX_BLOCK_SIZE \<and>
     (\<forall>t\<in>set (vout tx). 0 \<le> nValue t \<and> nValue t \<le> MAX_MONEY) \<and> sum_list (map nValue (vout tx)) \<le> MAX_MONEY \<and>
     distinct (map prevout (vin tx)) \<and>
     (if IsCoinBase tx then 2 \<le> length (scriptSig (vin tx ! 0)) \<and> length (scriptSig (vin tx ! 0)) \<le> 100
      else \<forall>i\<in>set (vin tx). \<not> COutPoint_IsNull (prevout i))"

definition input_value :: "GetCoins_fun \<Rightarrow> CTxIn \<Rightarrow> CAmount" where
  "input_value view i = (case GetOutputFor view i of Some t \<Rightarrow> nValue t | None \<Rightarrow> 0)"

definition input_spendable :: "GetCoins_fun \<Rightarrow> int \<Rightarrow> CTxIn \<Rightarrow> bool" where
  "input_spendable view nSpendHeight i \<longleftrightarrow>
     (case view (outhash (prevout i)) of
        None \<Rightarrow> False
      | Some c \<Rightarrow> IsAvailable c (unat (outn (prevout i))) \<and> MoneyRange (nValue (cvout c ! unat (outn (prevout i)))) \<and>
                  (fCoinBase c \<longrightarrow> COINBASE_MATURITY \<le> nSpendHeight - cHeight c))"

definition rejects :: "CValidationState \<Rightarrow> check_fail + 'a \<Rightarrow> bool" where
  "rejects state r \<longleftrightarrow> (\<exists>level reason. (level = 10 \<or> level = 100) \<and> r = Inl (Rejected (state_DoS state level REJECT_INVALID reason False)))"

text \<open>The mandatory part of a set of flags.\<close>

abbreviation mandatory :: "u32 \<Rightarrow> u32" where
  "mandatory flags \<equiv> flags AND NOT STANDARD_NOT_MANDATORY_VERIFY_FLAGS"

definition script_ok :: "crypto \<Rightarrow> GetCoins_fun \<Rightarrow> CTransaction \<Rightarrow> u32 \<Rightarrow> nat \<Rightarrow> bool" where
  "script_ok cr view tx flags i \<longleftrightarrow>
     (case view (outhash (prevout (vin tx ! i))) of
        None \<Rightarrow> False
      | Some c \<Rightarrow> CScriptCheck_run cr (CScriptCheck_of c tx i flags) = Some (Inr ()))"

text \<open>A transaction with one input that leaves two elements on the stack, for the witnesses.\<close>

definition demo_pay :: CTransaction where
  "demo_pay = \<lparr>CTransaction.nVersion = 1, vin = [\<lparr>prevout = \<lparr>outhash = [1], outn = 0\<rparr>, scriptSig = [OP_1, OP_1], nSequence = 0\<rparr>],
     vout = [\<lparr>nValue = 40, scriptPubKey = []\<rparr>], nLockTime = 0\<rparr>"

definition demo_view :: GetCoins_fun where
  "demo_view = [[1] \<mapsto> \<lparr>fCoinBase = False, cvout = [\<lparr>nValue = 50, scriptPubKey = []\<rparr>], cHeight = 1, cVersion = 1\<rparr>]"

definition demo_crypto :: crypto where
  "demo_crypto = \<lparr>Verify = (\<lambda>_ _ _. True), hashes = demo_env\<rparr>"

section \<open>Transactions alone\<close>

lemma rejects_simps [simp]:
  "\<not> rejects state (Inr a)" "rejects state (reject_DoS state 10 reason)" "rejects state (reject_DoS state 100 reason)"
  by (auto simp: rejects_def)

lemma rejects_andThen [simp]: "rejects state r \<Longrightarrow> rejects state (andThen r f)"
  unfolding rejects_def by (elim exE conjE) (simp, blast)

lemma check_vout_result:
  assumes "MoneyRange v"
  shows "if (\<forall>t\<in>set ts. 0 \<le> nValue t \<and> nValue t \<le> MAX_MONEY) \<and> v + sum_list (map nValue ts) \<le> MAX_MONEY
         then check_vout state ts v = Inr () else rejects state (check_vout state ts v)"
  using assms
proof (induction ts arbitrary: v)
  case (Cons t ts)
  show ?case
  proof (cases "0 \<le> nValue t \<and> nValue t \<le> MAX_MONEY \<and> MoneyRange (v + nValue t)")
    case True
    then show ?thesis using Cons.IH[of "v + nValue t"] by (simp add: add.assoc)
  next
    case False
    have "0 \<le> sum_list (map nValue ts)" if "\<forall>t\<in>set ts. 0 \<le> nValue t" using that by (intro sum_list_nonneg) auto
    then show ?thesis using False Cons.prems by (auto simp: MoneyRange_def)
  qed
qed (simp add: MoneyRange_def)

lemma check_duplicates_result:
  "if distinct (map prevout is) \<and> set (map prevout is) \<inter> set seen = {} then check_duplicates state is seen = Inr ()
   else rejects state (check_duplicates state is seen)"
proof (induction "is" arbitrary: seen)
  case (Cons i "is")
  show ?case using Cons.IH[of "prevout i # seen"] by (auto split: if_splits)
qed simp

lemma CheckTransaction_result:
  "if tx_wellformed tx then CheckTransaction tx state = Inr () else rejects state (CheckTransaction tx state)"
proof -
  have v: "if (\<forall>t\<in>set (vout tx). 0 \<le> nValue t \<and> nValue t \<le> MAX_MONEY) \<and> sum_list (map nValue (vout tx)) \<le> MAX_MONEY
      then check_vout state (vout tx) 0 = Inr () else rejects state (check_vout state (vout tx) 0)"
    using check_vout_result[of 0 "vout tx" state] by (simp add: MoneyRange_def MAX_MONEY_def COIN_def)
  have d: "if distinct (map prevout (vin tx)) then check_duplicates state (vin tx) [] = Inr ()
      else rejects state (check_duplicates state (vin tx) [])"
    using check_duplicates_result[of "vin tx" "[]" state] by simp
  have "tx_wellformed tx \<Longrightarrow> CheckTransaction tx state = Inr ()"
    using v d by (auto simp: tx_wellformed_def CheckTransaction_def list_ex_iff split: if_split_asm)
  moreover have "rejects state (CheckTransaction tx state)" if "\<not> tx_wellformed tx"
    using that v d unfolding CheckTransaction_def tx_wellformed_def
    by (simp add: list_ex_iff not_le split: if_split_asm) (auto simp: not_less)
  ultimately show ?thesis by simp
qed

section \<open>Transactions and the outputs they spend\<close>

lemma GetOutputFor_simps:
  "GetOutputFor view i = Some t \<longleftrightarrow> (\<exists>c. view (outhash (prevout i)) = Some c \<and> IsAvailable c (unat (outn (prevout i))) \<and>
     t = cvout c ! unat (outn (prevout i)))"
  by (auto simp: GetOutputFor_def split: option.splits)

lemma input_spendable_value:
  assumes "input_spendable view h i"
  shows "\<exists>c. view (outhash (prevout i)) = Some c \<and> unat (outn (prevout i)) < length (cvout c) \<and>
    GetOutputFor view i = Some (cvout c ! unat (outn (prevout i))) \<and> input_value view i = nValue (cvout c ! unat (outn (prevout i))) \<and>
    MoneyRange (input_value view i)"
  using assms by (auto simp: input_spendable_def input_value_def GetOutputFor_def IsAvailable_def split: option.splits)

lemma check_input_values_Inr:
  assumes "MoneyRange v" "\<forall>i\<in>set is. GetOutputFor view i \<noteq> None"
  shows "check_input_values view state h is v = Inr w \<longleftrightarrow>
    (\<forall>i\<in>set is. input_spendable view h i) \<and> w = v + sum_list (map (input_value view) is) \<and> w \<le> MAX_MONEY"
  using assms
proof (induction "is" arbitrary: v)
  case Nil
  then show ?case by (auto simp: MoneyRange_def)
next
  case (Cons i "is")
  obtain c where c: "view (outhash (prevout i)) = Some c" "IsAvailable c (unat (outn (prevout i)))"
    using Cons.prems(2) by (auto simp: GetOutputFor_def split: option.splits if_split_asm)
  let ?x = "nValue (cvout c ! unat (outn (prevout i)))"
  have x: "input_value view i = ?x" using c by (simp add: input_value_def GetOutputFor_def)
  have sp: "input_spendable view h i \<longleftrightarrow> MoneyRange ?x \<and> (fCoinBase c \<longrightarrow> COINBASE_MATURITY \<le> h - cHeight c)"
    using c by (simp add: input_spendable_def)
  have step: "check_input_values view state h (i # is) v = Inr w \<longleftrightarrow>
      input_spendable view h i \<and> MoneyRange (v + ?x) \<and> check_input_values view state h is (v + ?x) = Inr w"
    using c by (auto simp: sp Let_def IsAvailable_def)
  show ?case
  proof (cases "MoneyRange (v + ?x)")
    case True
    then show ?thesis using Cons.IH[of "v + ?x"] Cons.prems(2) unfolding step by (auto simp: x add.assoc)
  next
    case False
    have "v + sum_list (map (input_value view) (i # is)) > MAX_MONEY" if "\<forall>j\<in>set (i # is). input_spendable view h j"
    proof -
      have "0 \<le> sum_list (map (input_value view) is)"
        using that input_spendable_value[of view h] by (intro sum_list_nonneg) (auto simp: MoneyRange_def)
      moreover have "0 \<le> ?x" using that sp by (simp add: MoneyRange_def)
      ultimately show ?thesis using False Cons.prems(1) by (simp add: MoneyRange_def x)
    qed
    then show ?thesis unfolding step using False by fastforce
  qed
qed

lemma value_in_loop_sum:
  "\<forall>i\<in>set is. GetOutputFor view i \<noteq> None \<Longrightarrow> value_in_loop view is v = Some (v + sum_list (map (input_value view) is))"
  by (induction "is" arbitrary: v) (auto simp: input_value_def split: option.splits)

lemma HaveInputs_iff: "\<not> IsCoinBase tx \<Longrightarrow> HaveInputs view tx \<longleftrightarrow> (\<forall>i\<in>set (vin tx). GetOutputFor view i \<noteq> None)"
  by (auto simp: HaveInputs_def GetOutputFor_def list_all_iff split: option.splits)

lemma GetValueOut_range:
  assumes "GetValueOut tx = Some v"
  shows "v = sum_list (map nValue (vout tx)) \<and> MoneyRange v"
  using value_out_loop_Some[of "vout tx" 0 v] assms unfolding GetValueOut_def by (auto simp: MoneyRange_def MAX_MONEY_def COIN_def)

section \<open>Scripts of the inputs\<close>

lemma script_failed_Inl: "\<exists>f. script_failed cr state c tx i flags err = Inl f"
  by (auto simp: script_failed_def Let_def split: option.split sum.split)

lemma script_checks_now:
  "script_checks_loop cr view state tx flags False is vs = Inr ws \<longleftrightarrow> list_all (script_ok cr view tx flags) is \<and> ws = vs"
proof (induction "is")
  case (Cons i "is")
  show ?case
  proof (cases "view (outhash (prevout (vin tx ! i)))")
    case (Some c)
    obtain f where "script_failed cr state c tx i flags err = Inl (f err)" for err
      using script_failed_Inl[of cr state c tx i flags] by metis
    then show ?thesis using Cons.IH Some by (auto simp: script_ok_def Let_def split: option.split sum.split)
  qed (simp add: script_ok_def)
qed auto

lemma script_checks_queued:
  assumes "\<forall>i\<in>set is. view (outhash (prevout (vin tx ! i))) \<noteq> None"
  shows "\<exists>cs. script_checks_loop cr view state tx flags True is vs = Inr (vs @ cs) \<and>
    (list_all (\<lambda>c. CScriptCheck_run cr c = Some (Inr ())) cs \<longleftrightarrow> list_all (script_ok cr view tx flags) is)"
  using assms
proof (induction "is" arbitrary: vs)
  case (Cons i "is")
  obtain c where c: "view (outhash (prevout (vin tx ! i))) = Some c" using Cons.prems by auto
  let ?k = "CScriptCheck_of c tx i flags"
  obtain cs where cs: "script_checks_loop cr view state tx flags True is (vs @ [?k]) = Inr ((vs @ [?k]) @ cs)"
    "list_all (\<lambda>c. CScriptCheck_run cr c = Some (Inr ())) cs \<longleftrightarrow> list_all (script_ok cr view tx flags) is"
    using Cons.IH[of "vs @ [?k]"] Cons.prems by auto
  then show ?case using c by (intro exI[of _ "?k # cs"]) (simp add: script_ok_def[of _ _ _ _ i])
qed simp

lemma mandatory_same: "\<not> has_flag flags STANDARD_NOT_MANDATORY_VERIFY_FLAGS \<Longrightarrow> mandatory flags = flags"
proof -
  assume "\<not> has_flag flags STANDARD_NOT_MANDATORY_VERIFY_FLAGS"
  moreover have "flags = (flags AND STANDARD_NOT_MANDATORY_VERIFY_FLAGS) OR mandatory flags"
    by (simp flip: bit.conj_disj_distrib)
  ultimately show ?thesis by (simp add: has_flag_def)
qed

text \<open>A failure that adds to the misbehaviour of the peer shows an input that fails the mandatory rules.\<close>

lemma script_checks_DoS:
  assumes "script_checks_loop cr view state tx flags False is vs = Inl (Rejected s')" "mode state \<noteq> MODE_ERROR"
  shows "mode s' = MODE_INVALID \<and> (nDoS s' = nDoS state \<or>
    nDoS s' = nDoS state + 100 \<and> (\<exists>i\<in>set is. \<not> script_ok cr view tx (mandatory flags) i))"
  using assms
proof (induction "is")
  case (Cons i "is")
  obtain c where c: "view (outhash (prevout (vin tx ! i))) = Some c"
    using Cons.prems(1) by (auto split: option.split_asm)
  obtain r where r: "CScriptCheck_run cr (CScriptCheck_of c tx i flags) = Some r"
    using Cons.prems(1) c by (auto simp: Let_def split: option.split_asm)
  show ?case
  proof (cases r)
    case (Inl err)
    have "script_failed cr state c tx i flags err = Inl (Rejected s')"
      using Cons.prems(1) c r Inl script_failed_Inl[of cr state c tx i flags err] by auto
    then show ?thesis
      using c r Inl Cons.prems(2) mandatory_same[of flags]
      by (auto simp: script_failed_def Let_def state_DoS_def state_Invalid_def script_ok_def split: if_split_asm option.split_asm sum.split_asm)
  next
    case (Inr u)
    then show ?thesis using Cons.IH Cons.prems c r by auto
  qed
qed simp

lemma script_checks_code:
  assumes "script_checks_loop cr view state tx flags False is vs = Inl (Rejected s')"
    and "list_all (script_ok cr view tx (mandatory flags)) is"
  shows "chRejectCode s' = REJECT_NONSTANDARD"
  using assms
proof (induction "is")
  case (Cons i "is")
  obtain c where c: "view (outhash (prevout (vin tx ! i))) = Some c"
    using Cons.prems(1) by (auto split: option.split_asm)
  obtain r where r: "CScriptCheck_run cr (CScriptCheck_of c tx i flags) = Some r"
    using Cons.prems(1) c by (auto simp: Let_def split: option.split_asm)
  show ?case
  proof (cases r)
    case (Inl err)
    have m: "CScriptCheck_run cr (CScriptCheck_of c tx i (mandatory flags)) = Some (Inr ())"
      using Cons.prems(2) c by (simp add: script_ok_def[of _ _ _ _ i])
    then have "has_flag flags STANDARD_NOT_MANDATORY_VERIFY_FLAGS" using r Inl mandatory_same[of flags] by (cases "has_flag flags STANDARD_NOT_MANDATORY_VERIFY_FLAGS") auto
    moreover have "script_failed cr state c tx i flags err = Inl (Rejected s')"
      using Cons.prems(1) c r Inl script_failed_Inl[of cr state c tx i flags err] by auto
    ultimately show ?thesis using m by (auto simp: script_failed_def Let_def state_DoS_def state_Invalid_def split: if_split_asm)
  next
    case (Inr u)
    then show ?thesis using Cons.IH Cons.prems c r by auto
  qed
qed simp

section \<open>An example\<close>

lemma demo_verify:
  assumes "\<not> has_flag flags SCRIPT_VERIFY_SIGPUSHONLY"
  shows "VerifyScript env flags [OP_1, OP_1] [] = verify_cleanstack flags [[1], [1]]"
proof -
  have one: "CScriptNum_serialize 1 = [1]" by (simp add: CScriptNum_serialize_def abs_bytes.simps)
  have op: "eval_step env flags OP_1 [] pc s = Inr (s\<lparr>stack := [1] # stack s\<rparr>)"
    if "vfExec s = []" "altstack s = []" "length (stack s) \<le> 1" for pc s
    using that by (simp add: eval_step_def exec_switch_def op_push_number_def one disabled_opcodes_def opcode_defs script_limits Let_def)
  have "EvalScript env flags [] [OP_1, OP_1] = Inr [[1], [1]]"
    by (simp add: EvalScript_def eval_loop_step[OF GetOp_opcode] opcode_defs init_state_def script_limits op[unfolded opcode_defs])
  moreover have "EvalScript env flags [[1], [1]] [] = Inr [[1], [1]]"
    by (simp add: EvalScript_def init_state_def)
  ultimately show ?thesis using assms by (simp add: VerifyScript_def check_top_def IsPayToScriptHash_def)
qed

lemma demo_script:
  "\<not> has_flag flags SCRIPT_VERIFY_SIGPUSHONLY \<Longrightarrow>
   script_ok demo_crypto demo_view demo_pay flags 0 \<longleftrightarrow> verify_cleanstack flags [[1], [1]] = Some (Inr ())"
  by (simp add: script_ok_def demo_view_def demo_pay_def CScriptCheck_run_def CScriptCheck_of_def demo_verify)

lemma demo_inputs: "CheckTxInputs demo_pay CValidationState_new demo_view 10 = Inr ()"
  by (simp add: CheckTxInputs_def demo_pay_def demo_view_def HaveInputs_def IsAvailable_def CTxOut_IsNull_def MoneyRange_def
      MAX_MONEY_def COIN_def GetValueOut_def Let_def)

lemma demo_mandatory: "mandatory (SCRIPT_VERIFY_CLEANSTACK OR SCRIPT_VERIFY_P2SH) = SCRIPT_VERIFY_P2SH"
  by (simp add: STANDARD_NOT_MANDATORY_VERIFY_FLAGS_def STANDARD_SCRIPT_VERIFY_FLAGS_def MANDATORY_SCRIPT_VERIFY_FLAGS_def flag_defs)

lemma demo_rejected:
  "\<exists>s'. CheckInputs demo_crypto demo_pay CValidationState_new demo_view (Inr 10) True
       (SCRIPT_VERIFY_CLEANSTACK OR SCRIPT_VERIFY_P2SH) False = Inl (Rejected s')"
proof -
  let ?f = "SCRIPT_VERIFY_CLEANSTACK OR SCRIPT_VERIFY_P2SH"
  have flags: "\<not> has_flag ?f SCRIPT_VERIFY_SIGPUSHONLY" "\<not> has_flag SCRIPT_VERIFY_P2SH SCRIPT_VERIFY_SIGPUSHONLY"
    "has_flag ?f STANDARD_NOT_MANDATORY_VERIFY_FLAGS" "has_flag ?f SCRIPT_VERIFY_CLEANSTACK" "has_flag ?f SCRIPT_VERIFY_P2SH"
    "\<not> has_flag SCRIPT_VERIFY_P2SH SCRIPT_VERIFY_CLEANSTACK"
    by (simp_all add: has_flag_def flag_defs STANDARD_NOT_MANDATORY_VERIFY_FLAGS_def STANDARD_SCRIPT_VERIFY_FLAGS_def
        MANDATORY_SCRIPT_VERIFY_FLAGS_def)
  have n: "\<not> IsCoinBase demo_pay" "length (vin demo_pay) = 1" by (simp_all add: IsCoinBase_def COutPoint_IsNull_def demo_pay_def)
  show ?thesis
    by (simp add: CheckInputs_def n demo_inputs)
       (simp add: demo_view_def demo_pay_def CScriptCheck_run_def CScriptCheck_of_def demo_verify flags verify_cleanstack_def
        script_failed_def Let_def demo_mandatory)
qed

section \<open>Properties\<close>




text \<open>C20: the queue of script checks changes nothing: \<^verbatim>\<open>CheckInputs\<close> with checks collected for the queue succeeds with checks that
  all pass, exactly when \<^verbatim>\<open>CheckInputs\<close> that runs them at once succeeds, and that is when \<^verbatim>\<open>CheckTxInputs\<close> accepts
  and every input's script verifies.\<close>

theorem CheckInputs_queue_equiv:
  assumes "\<not> IsCoinBase tx"
  shows "((\<exists>cs. CheckInputs cr tx state view (Inr h) True flags True = Inr cs \<and>
            list_all (\<lambda>c. CScriptCheck_run cr c = Some (Inr ())) cs) \<longleftrightarrow>
          CheckInputs cr tx state view (Inr h) True flags False = Inr []) \<and>
         (CheckInputs cr tx state view (Inr h) True flags False = Inr [] \<longleftrightarrow>
          CheckTxInputs tx state view h = Inr () \<and> list_all (script_ok cr view tx flags) [0..<length (vin tx)])"
proof -
  have now: "CheckInputs cr tx state view (Inr h) True flags False = Inr [] \<longleftrightarrow>
      CheckTxInputs tx state view h = Inr () \<and> list_all (script_ok cr view tx flags) [0..<length (vin tx)]"
    using assms by (auto simp: CheckInputs_def andThen_Inr_iff script_checks_now)
  have "(\<exists>cs. CheckInputs cr tx state view (Inr h) True flags True = Inr cs \<and>
            list_all (\<lambda>c. CScriptCheck_run cr c = Some (Inr ())) cs) \<longleftrightarrow>
         CheckInputs cr tx state view (Inr h) True flags False = Inr []"
  proof (cases "CheckTxInputs tx state view h")
    case (Inr u)
    then have "HaveInputs view tx" by (auto simp: CheckTxInputs_def split: if_split_asm)
    then have "\<forall>i\<in>set [0..<length (vin tx)]. view (outhash (prevout (vin tx ! i))) \<noteq> None"
      using assms by (fastforce simp: HaveInputs_def list_all_length split: option.splits)
    from script_checks_queued[OF this, of cr state flags "[]"] obtain cs where
      "script_checks_loop cr view state tx flags True [0..<length (vin tx)] [] = Inr cs"
      "list_all (\<lambda>c. CScriptCheck_run cr c = Some (Inr ())) cs \<longleftrightarrow> list_all (script_ok cr view tx flags) [0..<length (vin tx)]"
      by auto
    then show ?thesis using Inr assms unfolding now by (simp add: CheckInputs_def)
  qed (use assms now in \<open>simp add: CheckInputs_def\<close>)
  then show ?thesis using now by blast
qed

theorem CheckInputs_queue_equiv_witness:
  "(\<exists>cs. CheckInputs demo_crypto demo_pay CValidationState_new demo_view (Inr 10) True 0 True = Inr cs \<and>
      list_all (\<lambda>c. CScriptCheck_run demo_crypto c = Some (Inr ())) cs)"
proof -
  have n: "\<not> IsCoinBase demo_pay" by (simp add: IsCoinBase_def COutPoint_IsNull_def demo_pay_def)
  have "CheckInputs demo_crypto demo_pay CValidationState_new demo_view (Inr 10) True 0 False = Inr []"
    using CheckInputs_queue_equiv[OF n, of demo_crypto CValidationState_new demo_view 10 0] demo_inputs demo_script[of 0]
    by (simp add: demo_pay_def[THEN arg_cong, of vin] has_flag_def verify_cleanstack_def)
  then show ?thesis using CheckInputs_queue_equiv[OF n, of demo_crypto CValidationState_new demo_view 10 0] by blast
qed

text \<open>A node is not punished for breaking rules that are only policy: if every input of a transaction verifies under the mandatory part of the
  flags, then a rejection of its scripts by \<^verbatim>\<open>CheckInputs\<close> marks the state invalid but adds nothing to the misbehaviour of the
  peer that sent it, with the code \<^verbatim>\<open>REJECT_NONSTANDARD\<close>.\<close>

lemma no_ban_for_policy:
  assumes "CheckTxInputs tx state view h = Inr ()" "\<not> IsCoinBase tx" "mode state \<noteq> MODE_ERROR"
    and "list_all (script_ok cr view tx (mandatory flags)) [0..<length (vin tx)]"
    and "CheckInputs cr tx state view (Inr h) True flags False = Inl (Rejected s')"
  shows "state_IsInvalid_DoS s' = Some (nDoS state) \<and> chRejectCode s' = REJECT_NONSTANDARD"
proof -
  have l: "script_checks_loop cr view state tx flags False [0..<length (vin tx)] [] = Inl (Rejected s')"
    using assms(1,2,5) by (simp add: CheckInputs_def)
  have "mode s' = MODE_INVALID" "nDoS s' = nDoS state"
    using script_checks_DoS[OF l assms(3)] assms(4) by (auto simp: list_all_iff)
  moreover have "chRejectCode s' = REJECT_NONSTANDARD" by (rule script_checks_code[OF l assms(4)])
  ultimately show ?thesis by (simp add: state_IsInvalid_DoS_def state_IsInvalid_def)
qed

end
