(* ===== verification/Merkle.thy ===== *)
theory Merkle
  imports Transaction
begin

text \<open>
  Merkle trees, \<^verbatim>\<open>consensus/merkle.cpp\<close>: the computation of root and branch in constant space, the root from a branch, and
  the root and branches of a block. Reference definitions give the tree itself; the properties say that the computation
  agrees with them, that branches lead to the root, and that the check for duplicated hashes closes CVE-2012-2459.

  The array \<^verbatim>\<open>inner\<close> is a function of the level; a level of 32 or more would leave the array and the width of \<^verbatim>\<open>count\<close>,
  and is \<open>None\<close>. \<open>Hash\<close> is \<^verbatim>\<open>CHash256\<close> on the bytes written.
\<close>

section \<open>The computation\<close>

text \<open>The loop over the lower zero bits of \<^verbatim>\<open>count\<close>; the final sweep has the same loop, without the comparison.\<close>

function merkle_fold ::
    "(byte list \<Rightarrow> uint256) \<Rightarrow> bool \<Rightarrow> (nat \<Rightarrow> uint256) \<Rightarrow> int \<Rightarrow> nat \<Rightarrow> nat \<Rightarrow> uint256 \<Rightarrow> bool \<Rightarrow> bool \<Rightarrow> uint256 list \<Rightarrow>
     (nat \<times> uint256 \<times> bool \<times> bool \<times> uint256 list) option" where
  "merkle_fold Hash fBranch inner matchlevel cnt level h matchh mutated branch =
     (if level \<ge> 32 then None
      else if bit cnt level then Some (level, h, matchh, mutated, branch)
      else
        let branch1 = (if fBranch then (if matchh then branch @ [inner level]
                                        else if matchlevel = int level then branch @ [h] else branch) else branch);
            matchh1 = (fBranch \<and> matchlevel = int level \<or> matchh)
        in merkle_fold Hash fBranch inner matchlevel cnt (Suc level) (Hash (inner level @ h)) matchh1
             (mutated \<or> inner level = h) branch1)"
  by pat_completeness auto
termination
  by (relation "measure (\<lambda>(Hash, fBranch, inner, matchlevel, cnt, level, _). 32 - level)") auto

declare merkle_fold.simps [simp del]

text \<open>The loop over the leaves.\<close>

fun merkle_leaves ::
    "(byte list \<Rightarrow> uint256) \<Rightarrow> bool \<Rightarrow> nat \<Rightarrow> uint256 list \<Rightarrow> nat \<Rightarrow> (nat \<Rightarrow> uint256) \<Rightarrow> int \<Rightarrow> bool \<Rightarrow> uint256 list \<Rightarrow>
     (nat \<times> (nat \<Rightarrow> uint256) \<times> int \<times> bool \<times> uint256 list) option" where
  "merkle_leaves Hash fBranch branchpos [] cnt inner matchlevel mutated branch =
     Some (cnt, inner, matchlevel, mutated, branch)"
| "merkle_leaves Hash fBranch branchpos (leaf # leaves) cnt inner matchlevel mutated branch =
     (case merkle_fold Hash fBranch inner matchlevel (cnt + 1) 0 leaf (cnt = branchpos) mutated branch of
        None \<Rightarrow> None
      | Some (level, h, matchh, mutated1, branch1) \<Rightarrow>
          merkle_leaves Hash fBranch branchpos leaves (cnt + 1) (inner(level := h))
            (if matchh then int level else matchlevel) mutated1 branch1)"

text \<open>The level of the lowest set bit.\<close>

function merkle_skip :: "nat \<Rightarrow> nat \<Rightarrow> nat option" where
  "merkle_skip cnt level =
     (if level \<ge> 32 then None else if bit cnt level then Some level else merkle_skip cnt (Suc level))"
  by pat_completeness auto
termination
  by (relation "measure (\<lambda>(cnt, level). 32 - level)") auto

declare merkle_skip.simps [simp del]

lemma merkle_fold_level:
  "merkle_fold Hash fBranch inner ml cnt level h matchh m br = Some (L, r) \<Longrightarrow> level \<le> L \<and> L < 32"
proof (induction Hash fBranch inner ml cnt level h matchh m br rule: merkle_fold.induct)
  case (1 Hash fBranch inner ml cnt level h matchh m br)
  then show ?case
    by (subst (asm) (2) merkle_fold.simps) (fastforce simp: Let_def split: if_split_asm)
qed

function merkle_sweep ::
    "(byte list \<Rightarrow> uint256) \<Rightarrow> bool \<Rightarrow> (nat \<Rightarrow> uint256) \<Rightarrow> int \<Rightarrow> nat \<Rightarrow> nat \<Rightarrow> uint256 \<Rightarrow> bool \<Rightarrow> uint256 list \<Rightarrow>
     (uint256 \<times> uint256 list) option" where
  "merkle_sweep Hash fBranch inner matchlevel cnt level h matchh branch =
     (if level \<ge> 32 then None
      else if cnt = 2 ^ level then Some (h, branch)
      else case merkle_fold Hash fBranch inner matchlevel (cnt + 2 ^ level) (Suc level) (Hash (h @ h)) matchh False
                  (if fBranch \<and> matchh then branch @ [h] else branch) of
             None \<Rightarrow> None
           | Some (level1, h1, matchh1, _, branch1) \<Rightarrow>
               merkle_sweep Hash fBranch inner matchlevel (cnt + 2 ^ level) level1 h1 matchh1 branch1)"
  by pat_completeness auto
termination
  by (relation "measure (\<lambda>(Hash, fBranch, inner, matchlevel, cnt, level, _). 32 - level)")
     (auto dest: merkle_fold_level)

declare merkle_sweep.simps [simp del]

text \<open>Root, mutation flag and branch.\<close>

definition MerkleComputation ::
    "(byte list \<Rightarrow> uint256) \<Rightarrow> uint256 list \<Rightarrow> nat \<Rightarrow> bool \<Rightarrow> (uint256 \<times> bool \<times> uint256 list) option" where
  "MerkleComputation Hash leaves branchpos fBranch =
     (if length leaves = 0 then Some (blob_null 32, False, [])
      else case merkle_leaves Hash fBranch branchpos leaves 0 (\<lambda>_. blob_null 32) (-1) False [] of
             None \<Rightarrow> None
           | Some (cnt, inner, matchlevel, mutated, branch) \<Rightarrow>
               (case merkle_skip cnt 0 of
                  None \<Rightarrow> None
                | Some level \<Rightarrow>
                    (case merkle_sweep Hash fBranch inner matchlevel cnt level (inner level) (matchlevel = int level) branch of
                       None \<Rightarrow> None
                     | Some (h, branch1) \<Rightarrow> Some (h, mutated, branch1))))"

definition ComputeMerkleRoot :: "(byte list \<Rightarrow> uint256) \<Rightarrow> uint256 list \<Rightarrow> (uint256 \<times> bool) option" where
  "ComputeMerkleRoot Hash leaves =
     map_option (\<lambda>(root, mutated, _). (root, mutated)) (MerkleComputation Hash leaves 0xffffffff False)"

definition ComputeMerkleBranch :: "(byte list \<Rightarrow> uint256) \<Rightarrow> uint256 list \<Rightarrow> nat \<Rightarrow> uint256 list option" where
  "ComputeMerkleBranch Hash leaves position = map_option (\<lambda>(_, _, branch). branch) (MerkleComputation Hash leaves position True)"

fun ComputeMerkleRootFromBranch :: "(byte list \<Rightarrow> uint256) \<Rightarrow> uint256 \<Rightarrow> uint256 list \<Rightarrow> nat \<Rightarrow> uint256" where
  "ComputeMerkleRootFromBranch Hash hash [] nIndex = hash"
| "ComputeMerkleRootFromBranch Hash hash (it # vMerkleBranch) nIndex =
     ComputeMerkleRootFromBranch Hash (if odd nIndex then Hash (it @ hash) else Hash (hash @ it)) vMerkleBranch (nIndex div 2)"

definition BlockMerkleRoot :: "(byte list \<Rightarrow> uint256) \<Rightarrow> CTransaction list \<Rightarrow> (uint256 \<times> bool) option" where
  "BlockMerkleRoot Hash vtx = ComputeMerkleRoot Hash (map (GetHash Hash) vtx)"

definition BlockMerkleBranch :: "(byte list \<Rightarrow> uint256) \<Rightarrow> CTransaction list \<Rightarrow> nat \<Rightarrow> uint256 list option" where
  "BlockMerkleBranch Hash vtx position = ComputeMerkleBranch Hash (map (GetHash Hash) vtx) position"

section \<open>The tree\<close>

text \<open>The hash of a tree of the given height over at most \<open>2 ^ height\<close> leaves: a node without a right child takes its left
  one twice.\<close>

fun tree_hash :: "(byte list \<Rightarrow> uint256) \<Rightarrow> nat \<Rightarrow> uint256 list \<Rightarrow> uint256" where
  "tree_hash Hash 0 xs = hd xs"
| "tree_hash Hash (Suc k) xs =
     (if length xs \<le> 2 ^ k then Hash (tree_hash Hash k xs @ tree_hash Hash k xs)
      else Hash (tree_hash Hash k (take (2 ^ k) xs) @ tree_hash Hash k (drop (2 ^ k) xs)))"

fun merkle_height :: "nat \<Rightarrow> nat" where
  "merkle_height n = (if n \<le> 1 then 0 else Suc (merkle_height ((n + 1) div 2)))"

declare merkle_height.simps [simp del]

definition merkle_root :: "(byte list \<Rightarrow> uint256) \<Rightarrow> uint256 list \<Rightarrow> uint256" where
  "merkle_root Hash xs = (if xs = [] then blob_null 32 else tree_hash Hash (merkle_height (length xs)) xs)"

definition node :: "(byte list \<Rightarrow> uint256) \<Rightarrow> uint256 list \<Rightarrow> nat \<Rightarrow> nat \<Rightarrow> uint256" where
  "node Hash xs l j = tree_hash Hash l (take (2 ^ l) (drop (j * 2 ^ l) xs))"

text \<open>Two equal full subtrees side by side.\<close>

definition has_twins :: "(byte list \<Rightarrow> uint256) \<Rightarrow> uint256 list \<Rightarrow> nat \<Rightarrow> bool" where
  "has_twins Hash xs n \<longleftrightarrow> (\<exists>l i. (2 * i + 2) * 2 ^ l \<le> n \<and> node Hash xs l (2 * i) = node Hash xs l (2 * i + 1))"

text \<open>What is hashed to form the tree.\<close>

fun hashed :: "(byte list \<Rightarrow> uint256) \<Rightarrow> nat \<Rightarrow> uint256 list \<Rightarrow> byte list set" where
  "hashed Hash 0 xs = {}"
| "hashed Hash (Suc k) xs =
     (if length xs \<le> 2 ^ k then insert (tree_hash Hash k xs @ tree_hash Hash k xs) (hashed Hash k xs)
      else insert (tree_hash Hash k (take (2 ^ k) xs) @ tree_hash Hash k (drop (2 ^ k) xs))
             (hashed Hash k (take (2 ^ k) xs) \<union> hashed Hash k (drop (2 ^ k) xs)))"

definition merkle_inputs :: "(byte list \<Rightarrow> uint256) \<Rightarrow> uint256 list \<Rightarrow> byte list set" where
  "merkle_inputs Hash xs = hashed Hash (merkle_height (length xs)) xs"

definition demo_merkle :: "byte list \<Rightarrow> uint256" where
  "demo_merkle b = b"

section \<open>Nodes\<close>

lemma node_step:
  assumes "(2 * j + 1) * 2 ^ l < length xs"
  shows "node Hash xs (Suc l) j = Hash (node Hash xs l (2 * j) @ node Hash xs l (2 * j + 1))"
proof -
  let ?p = "2 ^ l :: nat" and ?ys = "take (2 * 2 ^ l) (drop (j * (2 * 2 ^ l)) xs)"
  have len: "\<not> length ?ys \<le> ?p" using assms by (auto simp: algebra_simps min_def)
  have d: "drop ?p ?ys = take ?p (drop ((2 * j + 1) * ?p) xs)" by (simp add: drop_take algebra_simps)
  have t: "take ?p ?ys = take ?p (drop (2 * j * ?p) xs)" by (simp add: algebra_simps)
  have "node Hash xs (Suc l) j = tree_hash Hash (Suc l) ?ys" by (simp add: node_def)
  also have "\<dots> = Hash (tree_hash Hash l (take ?p ?ys) @ tree_hash Hash l (drop ?p ?ys))"
    unfolding tree_hash.simps using len by (simp only: if_False)
  finally show ?thesis unfolding d t node_def .
qed

lemma node_dup:
  assumes "length xs \<le> (2 * j + 1) * 2 ^ l"
  shows "node Hash xs (Suc l) j = Hash (node Hash xs l (2 * j) @ node Hash xs l (2 * j))"
proof -
  have "take (2 * 2 ^ l) (drop (2 * j * 2 ^ l) xs) = take (2 ^ l) (drop (2 * j * 2 ^ l) xs)"
    using assms by (simp add: algebra_simps)
  then show ?thesis by (simp add: node_def algebra_simps)
qed

lemma node_leaf: "j < length xs \<Longrightarrow> node Hash xs 0 j = xs ! j"
  by (simp add: node_def take_Suc hd_drop_conv_nth)

lemma bit_odd_div: "bit (n::nat) l \<longleftrightarrow> odd (n div 2 ^ l)"
  by (simp add: bit_iff_odd)

lemma merkle_height_eq:
  "0 < n \<Longrightarrow> n \<le> 2 ^ L \<Longrightarrow> L = 0 \<or> 2 ^ (L - 1) < n \<Longrightarrow> merkle_height n = L"
proof (induction n arbitrary: L rule: merkle_height.induct)
  case (1 n)
  show ?case
  proof (cases L)
    case 0
    then show ?thesis using 1 by (simp add: merkle_height.simps)
  next
    case (Suc k)
    then have n: "2 ^ k < n" "n \<le> 2 * 2 ^ k" using "1.prems" by auto
    have "1 < n" using n(1) one_le_power[of "2::nat" k] by linarith
    moreover have "k = 0 \<or> 2 ^ (k - 1) < (n + 1) div 2"
    proof (cases k)
      case (Suc j)
      then show ?thesis using n by auto
    qed simp
    ultimately show ?thesis using "1.IH"[of k] n Suc by (subst merkle_height.simps) auto
  qed
qed

section \<open>The loops\<close>

text \<open>\<open>c\<close> is the index of the last leaf; the current hash is the node above it.\<close>

definition inner_ok :: "(byte list \<Rightarrow> uint256) \<Rightarrow> uint256 list \<Rightarrow> (nat \<Rightarrow> uint256) \<Rightarrow> nat \<Rightarrow> nat \<Rightarrow> bool" where
  "inner_ok Hash xs inner c level \<longleftrightarrow> (\<forall>l\<ge>level. odd (c div 2 ^ l) \<longrightarrow> inner l = node Hash xs l (c div 2 ^ l - 1))"

text \<open>Where the leaf at \<open>pos\<close> is: below the current hash, or below an entry of \<^verbatim>\<open>inner\<close>, with the branch up to there.\<close>

definition above :: "(byte list \<Rightarrow> uint256) \<Rightarrow> uint256 list \<Rightarrow> nat \<Rightarrow> uint256 list \<Rightarrow> nat \<Rightarrow> bool" where
  "above Hash xs pos br l \<longleftrightarrow> length br = l \<and> ComputeMerkleRootFromBranch Hash (xs ! pos) br pos = node Hash xs l (pos div 2 ^ l)"

definition branch_ok :: "(byte list \<Rightarrow> uint256) \<Rightarrow> uint256 list \<Rightarrow> nat \<Rightarrow> nat \<Rightarrow> nat \<Rightarrow> bool \<Rightarrow> int \<Rightarrow> uint256 list \<Rightarrow> bool" where
  "branch_ok Hash xs pos c level matchh ml br \<longleftrightarrow>
     (if matchh then pos div 2 ^ level = c div 2 ^ level \<and> above Hash xs pos br level
      else c < pos \<and> ml = -1 \<and> br = [] \<or>
        (\<exists>m. ml = int m \<and> level \<le> m \<and> odd (c div 2 ^ m) \<and> pos div 2 ^ m = c div 2 ^ m - 1 \<and> above Hash xs pos br m))"

lemma root_from_branch_snoc:
  "ComputeMerkleRootFromBranch Hash h (br @ [s]) n =
     (let r = ComputeMerkleRootFromBranch Hash h br n in if odd (n div 2 ^ length br) then Hash (s @ r) else Hash (r @ s))"
  by (induction Hash h br n rule: ComputeMerkleRootFromBranch.induct) (simp_all add: Let_def div_mult2_eq)

lemma div_pow_Suc: "(n::nat) div (2 * 2 ^ l) = n div 2 ^ l div 2"
  by (simp add: div_mult2_eq mult.commute[of 2])

lemma above_right:
  assumes "above Hash xs pos br l" "odd (pos div 2 ^ l)" "pos < length xs"
  shows "above Hash xs pos (br @ [node Hash xs l (pos div 2 ^ l - 1)]) (Suc l)"
proof -
  let ?j = "pos div 2 ^ l div 2"
  have j: "pos div 2 ^ l = 2 * ?j + 1" using assms(2) by simp
  have "(2 * ?j + 1) * 2 ^ l < length xs" using assms(3) div_times_less_eq_dividend[of pos "2 ^ l"] unfolding j[symmetric] by linarith
  then have "node Hash xs (Suc l) ?j = Hash (node Hash xs l (pos div 2 ^ l - 1) @ node Hash xs l (pos div 2 ^ l))"
    using node_step[of ?j l xs Hash] j by (metis add_diff_cancel_right')
  then show ?thesis using assms(1,2) by (simp add: above_def root_from_branch_snoc Let_def div_pow_Suc)
qed

lemma above_left:
  assumes "above Hash xs pos br l" "even (pos div 2 ^ l)"
    and "if (pos div 2 ^ l + 1) * 2 ^ l < length xs then s = node Hash xs l (pos div 2 ^ l + 1) else s = node Hash xs l (pos div 2 ^ l)"
  shows "above Hash xs pos (br @ [s]) (Suc l)"
proof -
  let ?j = "pos div 2 ^ l div 2"
  have j: "pos div 2 ^ l = 2 * ?j" using assms(2) by simp
  have "node Hash xs (Suc l) ?j = Hash (node Hash xs l (pos div 2 ^ l) @ s)"
  proof (cases "(2 * ?j + 1) * 2 ^ l < length xs")
    case True
    then have "s = node Hash xs l (2 * ?j + 1)" using assms(3) unfolding j[symmetric] by (simp only: if_True)
    then show ?thesis using node_step[OF True] j by simp
  next
    case False
    then have "s = node Hash xs l (2 * ?j)" using assms(3) unfolding j[symmetric] by (simp only: if_False)
    then show ?thesis using node_dup[of xs ?j l] False j by simp
  qed
  then show ?thesis using assms(1,2) by (simp add: above_def root_from_branch_snoc Let_def div_pow_Suc)
qed

lemma ex_level_Suc:
  "level < L \<Longrightarrow> (\<exists>l\<ge>level. l < L \<and> P l) \<longleftrightarrow> P level \<or> (\<exists>l\<ge>Suc level. l < L \<and> P l)"
  by (metis Suc_leD Suc_leI le_neq_implies_less order_refl)

lemma merkle_fold_spec:
  assumes "cnt = (c div 2 ^ level + 1) * 2 ^ level" "cnt < 2 ^ 32" "c < length xs"
    and "h = node Hash xs level (c div 2 ^ level)" "inner_ok Hash xs inner c level"
    and "fB \<Longrightarrow> branch_ok Hash xs pos c level matchh ml br" "pos < length xs"
  shows "\<exists>L h' mh' m' br'. merkle_fold Hash fB inner ml cnt level h matchh m br = Some (L, h', mh', m', br') \<and>
    level \<le> L \<and> even (c div 2 ^ L) \<and> cnt = (c div 2 ^ L + 1) * 2 ^ L \<and> (\<forall>l. level \<le> l \<and> l < L \<longrightarrow> odd (c div 2 ^ l)) \<and>
    h' = node Hash xs L (c div 2 ^ L) \<and>
    (m' \<longleftrightarrow> m \<or> (\<exists>l. level \<le> l \<and> l < L \<and> node Hash xs l (c div 2 ^ l - 1) = node Hash xs l (c div 2 ^ l))) \<and>
    (fB \<longrightarrow> branch_ok Hash xs pos c L mh' ml br')"
  using assms
proof (induction Hash fB inner ml cnt level h matchh m br rule: merkle_fold.induct)
  case (1 Hash fB inner ml cnt level h matchh m br)
  let ?q = "c div 2 ^ level"
  have lt: "level < 32"
  proof (rule ccontr)
    assume "\<not> level < 32"
    then have "(2::nat) ^ 32 \<le> 2 ^ level" by (intro power_increasing) auto
    then show False using "1.prems"(1,2) by simp
  qed
  have bit: "bit cnt level \<longleftrightarrow> even ?q" using "1.prems"(1) by (simp add: bit_odd_div)
  show ?case
  proof (cases "even ?q")
    case True
    then have "merkle_fold Hash fB inner ml cnt level h matchh m br = Some (level, h, matchh, m, br)"
      using lt bit by (subst merkle_fold.simps) simp
    then show ?thesis using True "1.prems" by auto
  next
    case False
    let ?br = "if fB then (if matchh then br @ [inner level] else if ml = int level then br @ [h] else br) else br"
    let ?mh = "fB \<and> ml = int level \<or> matchh"
    have inner: "inner level = node Hash xs level (?q - 1)" using "1.prems"(5) False by (simp add: inner_ok_def)
    have q: "?q = 2 * (c div 2 ^ Suc level) + 1" using False by (simp add: div_pow_Suc)
    have "(2 * (c div 2 ^ Suc level) + 1) * 2 ^ level < length xs"
      using "1.prems"(3) div_times_less_eq_dividend[of c "2 ^ level"] unfolding q[symmetric] by linarith
    from node_step[OF this, of Hash] have h1: "Hash (inner level @ h) = node Hash xs (Suc level) (c div 2 ^ Suc level)"
      using inner "1.prems"(4) q by simp
    have cnt: "cnt = (c div 2 ^ Suc level + 1) * 2 ^ Suc level" using "1.prems"(1) q by simp
    have ok: "inner_ok Hash xs inner c (Suc level)" using "1.prems"(5) by (simp add: inner_ok_def)
    have br: "branch_ok Hash xs pos c (Suc level) ?mh ml ?br" if "fB"
    proof -
      have bk: "branch_ok Hash xs pos c level matchh ml br" using "1.prems"(6) that .
      have le: "?q * 2 ^ level < length xs" using "1.prems"(3) div_times_less_eq_dividend[of c "2 ^ level"] by linarith
      consider "matchh" | m where "\<not> matchh" "ml = int m" "m = level" | "\<not> matchh" "ml \<noteq> int level" by blast
      then show ?thesis
      proof cases
        case 1
        then have p: "pos div 2 ^ level = ?q" "above Hash xs pos br level" using bk by (simp_all add: branch_ok_def)
        have "above Hash xs pos (br @ [inner level]) (Suc level)"
          using above_right[OF p(2) _ "1.prems"(7)] False inner p(1) by simp
        then show ?thesis using that 1 p(1) by (simp add: branch_ok_def div_pow_Suc)
      next
        case 2
        then have p: "pos div 2 ^ level = ?q - 1" "above Hash xs pos br level" using bk by (auto simp: branch_ok_def)
        have p1: "pos div 2 ^ level + 1 = ?q" using p(1) q by simp
        have "above Hash xs pos (br @ [h]) (Suc level)"
          by (rule above_left[OF p(2)]) (use p(1) False p1 le "1.prems"(4) in \<open>simp_all\<close>)
        moreover have "pos div 2 ^ level div 2 = ?q div 2" using p(1) q by simp
        ultimately show ?thesis using that 2 by (simp add: branch_ok_def div_pow_Suc)
      next
        case 3
        then show ?thesis using that bk by (auto simp: branch_ok_def)
      qed
    qed
    have step: "merkle_fold Hash fB inner ml cnt level h matchh m br =
        merkle_fold Hash fB inner ml cnt (Suc level) (Hash (inner level @ h)) ?mh (m \<or> inner level = h) ?br"
      using lt bit False by (subst merkle_fold.simps) (simp add: Let_def)
    obtain L h' mh' m' br' where IH: "merkle_fold Hash fB inner ml cnt (Suc level) (Hash (inner level @ h)) ?mh (m \<or> inner level = h) ?br =
        Some (L, h', mh', m', br')" "Suc level \<le> L" "even (c div 2 ^ L)" "cnt = (c div 2 ^ L + 1) * 2 ^ L"
      "\<forall>l. Suc level \<le> l \<and> l < L \<longrightarrow> odd (c div 2 ^ l)" "h' = node Hash xs L (c div 2 ^ L)"
      "m' \<longleftrightarrow> (m \<or> inner level = h) \<or> (\<exists>l. Suc level \<le> l \<and> l < L \<and> node Hash xs l (c div 2 ^ l - 1) = node Hash xs l (c div 2 ^ l))"
      "fB \<longrightarrow> branch_ok Hash xs pos c L mh' ml br'"
      using "1.IH"[OF _ _ refl refl cnt "1.prems"(2,3) h1 ok br "1.prems"(7)] lt bit False by auto
    have "\<forall>l. level \<le> l \<and> l < L \<longrightarrow> odd (c div 2 ^ l)"
      using IH(5) False by (metis Suc_leI le_neq_implies_less)
    moreover have "m' \<longleftrightarrow> m \<or> (\<exists>l. level \<le> l \<and> l < L \<and> node Hash xs l (c div 2 ^ l - 1) = node Hash xs l (c div 2 ^ l))"
      unfolding IH(7) using ex_level_Suc[of level L] inner "1.prems"(4) IH(2) by (simp add: Suc_le_eq disj_assoc)
    ultimately show ?thesis unfolding step using IH by (auto intro: Suc_leD)
  qed
qed

text \<open>The state after \<open>n\<close> leaves.\<close>

definition leaves_ok ::
    "(byte list \<Rightarrow> uint256) \<Rightarrow> uint256 list \<Rightarrow> bool \<Rightarrow> nat \<Rightarrow> nat \<Rightarrow> (nat \<Rightarrow> uint256) \<Rightarrow> int \<Rightarrow> bool \<Rightarrow> uint256 list \<Rightarrow> bool" where
  "leaves_ok Hash xs fB pos n inner ml m br \<longleftrightarrow> inner_ok Hash xs inner n 0 \<and> (m \<longleftrightarrow> has_twins Hash xs n) \<and>
     (fB \<longrightarrow> (if n \<le> pos then ml = -1 \<and> br = []
              else \<exists>k. ml = int k \<and> odd (n div 2 ^ k) \<and> pos div 2 ^ k = n div 2 ^ k - 1 \<and> above Hash xs pos br k))"

lemma Suc_div_pow:
  assumes "Suc c = (c div 2 ^ L + 1) * 2 ^ L"
  shows "Suc c div 2 ^ L = Suc (c div 2 ^ L)" "even (c div 2 ^ L) \<Longrightarrow> L < l \<Longrightarrow> Suc c div 2 ^ l = c div 2 ^ l"
    "l < L \<Longrightarrow> even (Suc c div 2 ^ l)"
proof -
  have d: "Suc c div 2 ^ L = Suc (c div 2 ^ L)" using arg_cong[OF assms, of "\<lambda>x. x div 2 ^ L"] by simp
  then show "Suc c div 2 ^ L = Suc (c div 2 ^ L)" .
  show "Suc c div 2 ^ l = c div 2 ^ l" if "even (c div 2 ^ L)" "L < l"
  proof -
    have l: "(2::nat) ^ l = 2 ^ L * 2 * 2 ^ (l - Suc L)" using that(2) by (simp flip: power_add power_Suc power_Suc2)
    show ?thesis unfolding l div_mult2_eq d using that(1) by simp
  qed
  show "even (Suc c div 2 ^ l)" if "l < L"
  proof -
    have "(2::nat) ^ L = 2 ^ (L - Suc l) * 2 * 2 ^ l" using that by (simp flip: power_add power_Suc power_Suc2)
    then have "Suc c = (c div 2 ^ L + 1) * 2 ^ (L - Suc l) * 2 * 2 ^ l" using assms by (metis mult.assoc)
    then show ?thesis by (metis dvd_triv_right nonzero_mult_div_cancel_right power_not_zero zero_neq_numeral)
  qed
qed

lemma pred_div_pow: "Suc c = k * 2 ^ l \<Longrightarrow> c div 2 ^ l = k - 1"
proof (cases k)
  case (Suc j)
  assume "Suc c = k * 2 ^ l"
  then have c: "Suc c = j * 2 ^ l + 2 ^ l" using Suc by simp
  then have "j * 2 ^ l \<le> c" using one_le_power[of "2::nat" l] by linarith
  then show ?thesis using c Suc by (intro div_nat_eqI) (simp_all add: algebra_simps)
qed simp

lemma has_twins_Suc:
  assumes "Suc c = (c div 2 ^ L + 1) * 2 ^ L" "even (c div 2 ^ L)" "\<forall>l. l < L \<longrightarrow> odd (c div 2 ^ l)"
  shows "has_twins Hash xs (Suc c) \<longleftrightarrow> has_twins Hash xs c \<or>
    (\<exists>l. l < L \<and> node Hash xs l (c div 2 ^ l - 1) = node Hash xs l (c div 2 ^ l))"
proof -
  have new: "(2 * i + 2) * 2 ^ l = Suc c \<longleftrightarrow> l < L \<and> c div 2 ^ l = 2 * i + 1" for l i
  proof
    assume a: "(2 * i + 2) * 2 ^ l = Suc c"
    then have q: "Suc c div 2 ^ l = 2 * i + 2" by (metis nonzero_mult_div_cancel_right power_not_zero zero_neq_numeral)
    have "l \<noteq> L" using q Suc_div_pow(1)[OF assms(1)] assms(2) by (metis even_Suc even_add even_mult_iff even_numeral)
    moreover have "\<not> L < l"
    proof
      assume "L < l"
      then have "Suc c div 2 ^ l = c div 2 ^ l" using Suc_div_pow(2)[OF assms(1,2)] by blast
      then have "c \<ge> Suc c" using q a by (metis div_times_less_eq_dividend)
      then show False by simp
    qed
    moreover have "c div 2 ^ l = 2 * i + 1" using pred_div_pow[OF a[symmetric]] by simp
    ultimately show "l < L \<and> c div 2 ^ l = 2 * i + 1" by simp
  next
    assume a: "l < L \<and> c div 2 ^ l = 2 * i + 1"
    have "(2::nat) ^ L = 2 ^ (L - l) * 2 ^ l" using a by (simp flip: power_add)
    then obtain k where k: "Suc c = k * 2 ^ l" using assms(1) by (metis mult.assoc)
    then have "c div 2 ^ l = k - 1" by (rule pred_div_pow)
    then show "(2 * i + 2) * 2 ^ l = Suc c" using a k by (cases k) auto
  qed
  have "has_twins Hash xs (Suc c) \<longleftrightarrow> has_twins Hash xs c \<or>
      (\<exists>l i. (2 * i + 2) * 2 ^ l = Suc c \<and> node Hash xs l (2 * i) = node Hash xs l (2 * i + 1))"
    unfolding has_twins_def le_Suc_eq by blast
  also have "(\<exists>l i. (2 * i + 2) * 2 ^ l = Suc c \<and> node Hash xs l (2 * i) = node Hash xs l (2 * i + 1)) \<longleftrightarrow>
      (\<exists>l. l < L \<and> node Hash xs l (c div 2 ^ l - 1) = node Hash xs l (c div 2 ^ l))"
    unfolding new using assms(3) by (metis add_diff_cancel_right' odd_two_times_div_two_succ)
  finally show ?thesis .
qed

lemma above_leaf: "pos < length xs \<Longrightarrow> above Hash xs pos [] 0"
  by (simp add: above_def node_leaf)

lemma merkle_leaves_spec:
  assumes "length xs < 2 ^ 32" "n + length rest = length xs" "rest = drop n xs" "pos < length xs" "fB \<Longrightarrow> bp = pos"
    and "leaves_ok Hash xs fB pos n inner ml m br"
  shows "\<exists>inner' ml' m' br'. merkle_leaves Hash fB bp rest n inner ml m br = Some (length xs, inner', ml', m', br') \<and>
    leaves_ok Hash xs fB pos (length xs) inner' ml' m' br'"
  using assms(2,3,6)
proof (induction rest arbitrary: n inner ml m br)
  case (Cons leaf rest)
  have n1: "n < length xs" using Cons.prems(1) by (simp only: list.size)
  then have n: "n < length xs" "leaf = xs ! n" "rest = drop (Suc n) xs"
    using Cons.prems(2) Cons_nth_drop_Suc[OF n1] by (metis list.inject)+
  have ok: "inner_ok Hash xs inner n 0" "m \<longleftrightarrow> has_twins Hash xs n" using Cons.prems(3) by (auto simp: leaves_ok_def)
  have br: "branch_ok Hash xs pos n 0 (n = bp) ml br" if fB
    using that Cons.prems(3) assms(4,5) by (auto simp: leaves_ok_def branch_ok_def above_leaf split: if_split_asm)
  obtain L h' mh' m' br' where f: "merkle_fold Hash fB inner ml (n + 1) 0 leaf (n = bp) m br = Some (L, h', mh', m', br')"
    "even (n div 2 ^ L)" "n + 1 = (n div 2 ^ L + 1) * 2 ^ L" "\<forall>l. 0 \<le> l \<and> l < L \<longrightarrow> odd (n div 2 ^ l)"
    "h' = node Hash xs L (n div 2 ^ L)"
    "m' \<longleftrightarrow> m \<or> (\<exists>l. 0 \<le> l \<and> l < L \<and> node Hash xs l (n div 2 ^ l - 1) = node Hash xs l (n div 2 ^ l))"
    "fB \<longrightarrow> branch_ok Hash xs pos n L mh' ml br'"
    using merkle_fold_spec[of "n + 1" n 0 xs leaf Hash inner fB pos "n = bp" ml br m] assms(1,4) n ok br by (auto simp: node_leaf)
  have f3: "Suc n = (n div 2 ^ L + 1) * 2 ^ L" using f(3) by simp
  note d = Suc_div_pow[OF f3]
  have "inner_ok Hash xs (inner(L := h')) (Suc n) 0"
    unfolding inner_ok_def
  proof (intro allI impI)
    fix l assume l: "odd (Suc n div 2 ^ l)"
    then have "L \<le> l" using d(3) by (meson not_le)
    show "(inner(L := h')) l = node Hash xs l (Suc n div 2 ^ l - 1)"
    proof (cases "l = L")
      case True
      then show ?thesis using f(5) d(1) by simp
    next
      case False
      then have "Suc n div 2 ^ l = n div 2 ^ l" using d(2)[OF f(2)] \<open>L \<le> l\<close> by simp
      then show ?thesis using ok(1) l False by (simp add: inner_ok_def)
    qed
  qed
  moreover have "m' \<longleftrightarrow> has_twins Hash xs (Suc n)" using has_twins_Suc[OF f3 f(2)] f(4,6) ok(2) by simp
  moreover have "if Suc n \<le> pos then (if mh' then int L else ml) = -1 \<and> br' = []
      else \<exists>k. (if mh' then int L else ml) = int k \<and> odd (Suc n div 2 ^ k) \<and> pos div 2 ^ k = Suc n div 2 ^ k - 1 \<and> above Hash xs pos br' k"
    if fB: fB
  proof (cases mh')
    case True
    then have p: "pos div 2 ^ L = n div 2 ^ L" "above Hash xs pos br' L" using f(7) fB by (simp_all add: branch_ok_def)
    have "pos < Suc n" using f3 p(1) by (metis add.commute plus_1_eq_Suc dividend_less_div_times mult.commute mult_Suc zero_less_power zero_less_numeral)
    then show ?thesis using True p f(2) d(1) by auto
  next
    case False
    then consider "n < pos" "ml = -1" "br' = []" |
      k where "ml = int k" "L \<le> k" "odd (n div 2 ^ k)" "pos div 2 ^ k = n div 2 ^ k - 1" "above Hash xs pos br' k"
      using f(7) fB by (auto simp: branch_ok_def)
    then show ?thesis
    proof cases
      case 2
      then have "L < k" using f(2) by (metis le_neq_implies_less)
      then have "Suc n div 2 ^ k = n div 2 ^ k" using d(2)[OF f(2)] by blast
      moreover have "pos < Suc n" using 2(3,4) div_le_mono[of "Suc n" pos "2 ^ k"] calculation by (cases "pos < Suc n") (auto elim: oddE)
      ultimately show ?thesis using 2 False by auto
    qed (use False in simp)
  qed
  ultimately have "leaves_ok Hash xs fB pos (Suc n) (inner(L := h')) (if mh' then int L else ml) m' br'"
    unfolding leaves_ok_def by blast
  note IH = Cons.IH[OF _ n(3) this]
  have "merkle_leaves Hash fB bp (leaf # rest) n inner ml m br =
      merkle_leaves Hash fB bp rest (Suc n) (inner(L := h')) (if mh' then int L else ml) m' br'"
    using f(1) by simp
  then show ?case using IH Cons.prems(1) by (simp only: list.size add_Suc_right add_Suc simp_thms)
qed auto

lemma merkle_skip_spec:
  "l < 32 \<Longrightarrow> bit n l \<Longrightarrow> level \<le> l \<Longrightarrow>
   \<exists>L. merkle_skip n level = Some L \<and> L < 32 \<and> bit n L \<and> (\<forall>k. level \<le> k \<and> k < L \<longrightarrow> \<not> bit n k)"
proof (induction n level rule: merkle_skip.induct)
  case (1 n level)
  show ?case
  proof (cases "bit n level")
    case True
    then show ?thesis using "1.prems" by (subst merkle_skip.simps) auto
  next
    case False
    then have "Suc level \<le> l" using "1.prems" by (metis Suc_leI le_neq_implies_less)
    then obtain L where "merkle_skip n (Suc level) = Some L" "L < 32" "bit n L" "\<forall>k. Suc level \<le> k \<and> k < L \<longrightarrow> \<not> bit n k"
      using "1.IH" "1.prems" False by auto
    then show ?thesis using False "1.prems" by (subst merkle_skip.simps) (auto, metis Suc_leI le_neq_implies_less)
  qed
qed

lemma block_bound: "c < 2 ^ 31 \<Longrightarrow> l \<le> 31 \<Longrightarrow> (c div 2 ^ l + 1) * 2 ^ l \<le> (2::nat) ^ 31"
proof -
  assume a: "c < 2 ^ 31" "l \<le> 31"
  have p: "(2::nat) ^ 31 = 2 ^ (31 - l) * 2 ^ l" using a(2) by (simp only: power_add[symmetric] le_add_diff_inverse2)
  have "c div 2 ^ l < 2 ^ (31 - l)" using a(1) unfolding p by (rule less_mult_imp_div_less)
  then show ?thesis unfolding p by (intro mult_le_mono1) simp
qed

lemma merkle_sweep_spec:
  assumes "Suc c = length xs" "c < 2 ^ 31" "cnt = (c div 2 ^ level + 1) * 2 ^ level" "level < 32" "even (c div 2 ^ level)"
    and "level = 0 \<or> c div 2 ^ (level - 1) \<noteq> 0" "h = node Hash xs level (c div 2 ^ level)"
    and "inner_ok Hash xs inner c (Suc level)" "fB \<Longrightarrow> branch_ok Hash xs pos c level matchh ml br" "pos < length xs"
  shows "\<exists>br'. merkle_sweep Hash fB inner ml cnt level h matchh br = Some (merkle_root Hash xs, br') \<and>
    (fB \<longrightarrow> ComputeMerkleRootFromBranch Hash (xs ! pos) br' pos = merkle_root Hash xs)"
  using assms
proof (induction Hash fB inner ml cnt level h matchh br rule: merkle_sweep.induct)
  case (1 Hash fB inner ml cnt level h matchh br)
  let ?q = "c div 2 ^ level"
  show ?case
  proof (cases "?q = 0")
    case True
    have n: "length xs \<le> 2 ^ level" using True "1.prems"(1) by (simp add: div_eq_0_iff Suc_le_eq[symmetric])
    have "level = 0 \<or> 2 ^ (level - 1) < length xs" using "1.prems"(1,6) by (auto simp: div_eq_0_iff)
    then have "merkle_height (length xs) = level" using n "1.prems"(1) by (intro merkle_height_eq) auto
    then have root: "merkle_root Hash xs = node Hash xs level 0" using "1.prems"(1) n by (auto simp: merkle_root_def node_def)
    have "merkle_sweep Hash fB inner ml cnt level h matchh br = Some (h, br)"
      using "1.prems"(3,4) True by (subst merkle_sweep.simps) simp
    moreover have "ComputeMerkleRootFromBranch Hash (xs ! pos) br pos = merkle_root Hash xs" if fB
    proof -
      have z: "c div 2 ^ m = 0" if "level \<le> m" for m
        using True power_increasing[OF that, of "2::nat"] by (auto simp: div_eq_0_iff intro: less_le_trans)
      have "matchh" using "1.prems"(1,9,10) that z by (auto simp: branch_ok_def split: if_split_asm)
      then show ?thesis using "1.prems"(9) that True root by (simp add: branch_ok_def above_def)
    qed
    ultimately show ?thesis using "1.prems"(7) True root by simp
  next
    case False
    then have lt: "2 ^ level \<le> c" by (simp add: div_eq_0_iff)
    then have "(2::nat) ^ level < 2 ^ 31" using "1.prems"(2) by linarith
    then have l31: "Suc level \<le> 31" using power_strict_increasing_iff[of "2::nat" level 31] by simp
    let ?br = "if fB \<and> matchh then br @ [h] else br"
    have q: "?q = 2 * (c div 2 ^ Suc level)" using "1.prems"(5) by (simp add: div_pow_Suc)
    have cnt: "cnt + 2 ^ level = (c div 2 ^ Suc level + 1) * 2 ^ Suc level" using "1.prems"(3) q by simp
    have small: "cnt + 2 ^ level < 2 ^ 32" using block_bound[OF "1.prems"(2) l31] cnt by simp
    have le: "c < (?q + 1) * 2 ^ level" by (metis add.commute plus_1_eq_Suc dividend_less_div_times mult_Suc zero_less_numeral zero_less_power)
    have "length xs \<le> (2 * (c div 2 ^ Suc level) + 1) * 2 ^ level" using le "1.prems"(1) unfolding q[symmetric] by linarith
    from node_dup[OF this, of Hash] have h1: "Hash (h @ h) = node Hash xs (Suc level) (c div 2 ^ Suc level)"
      using "1.prems"(7) q by simp
    have br: "branch_ok Hash xs pos c (Suc level) matchh ml ?br" if fB
    proof (cases matchh)
      case True
      then have p: "pos div 2 ^ level = ?q" "above Hash xs pos br level" using "1.prems"(9) that by (simp_all add: branch_ok_def)
      have "above Hash xs pos (br @ [h]) (Suc level)"
        by (rule above_left[OF p(2)]) (use p(1) "1.prems"(1,5,7) le in \<open>simp_all\<close>)
      then show ?thesis using that True p(1) by (simp add: branch_ok_def div_pow_Suc)
    next
      case False
      then show ?thesis using that "1.prems"(5,9) by (auto simp: branch_ok_def) (metis le_neq_implies_less Suc_leI)+
    qed
    have cl: "c < length xs" using "1.prems"(1) by simp
    obtain L h' mh' m' br' where f: "merkle_fold Hash fB inner ml (cnt + 2 ^ level) (Suc level) (Hash (h @ h)) matchh False ?br =
        Some (L, h', mh', m', br')" "Suc level \<le> L" "even (c div 2 ^ L)" "cnt + 2 ^ level = (c div 2 ^ L + 1) * 2 ^ L"
      "\<forall>l. Suc level \<le> l \<and> l < L \<longrightarrow> odd (c div 2 ^ l)" "h' = node Hash xs L (c div 2 ^ L)"
      "fB \<longrightarrow> branch_ok Hash xs pos c L mh' ml br'"
      using merkle_fold_spec[where m = False, OF cnt small cl h1 "1.prems"(8) br "1.prems"(10)] by blast
    have L: "L < 32" using merkle_fold_level[OF f(1)] by simp
    have ne: "c div 2 ^ (L - 1) \<noteq> 0"
    proof (cases "L = Suc level")
      case False
      then have "odd (c div 2 ^ (L - 1))" using f(2,5) by simp
      then show ?thesis by (metis even_zero)
    qed (use \<open>?q \<noteq> 0\<close> in simp)
    have ok: "inner_ok Hash xs inner c (Suc L)" using "1.prems"(8) f(2) by (simp add: inner_ok_def)
    have step: "merkle_sweep Hash fB inner ml cnt level h matchh br = merkle_sweep Hash fB inner ml (cnt + 2 ^ level) L h' mh' br'"
      using f(1) "1.prems"(3,4) False by (subst merkle_sweep.simps) simp
    have "cnt \<noteq> 2 ^ level" using "1.prems"(3) False by simp
    from "1.IH"[OF _ this f(1) refl refl refl refl "1.prems"(1,2) f(4) L f(3) _ f(6) ok _ "1.prems"(10)]
    show ?thesis unfolding step using ne f(7) "1.prems"(4) by simp
  qed
qed

lemma MerkleComputation_spec:
  assumes "0 < length xs" "length xs \<le> 2 ^ 31" "pos < length xs" "fB \<Longrightarrow> bp = pos"
  shows "\<exists>br. MerkleComputation Hash xs bp fB = Some (merkle_root Hash xs, has_twins Hash xs (length xs), br) \<and>
    (fB \<longrightarrow> ComputeMerkleRootFromBranch Hash (xs ! pos) br pos = merkle_root Hash xs)"
proof -
  let ?n = "length xs" and ?c = "length xs - 1"
  have c: "Suc ?c = ?n" "?c < 2 ^ 31" using assms(1,2) by (auto simp: less_eq_Suc_le)
  have "leaves_ok Hash xs fB pos 0 (\<lambda>_. blob_null 32) (-1) False []"
    by (simp add: leaves_ok_def inner_ok_def has_twins_def)
  then obtain inner ml m br where l: "merkle_leaves Hash fB bp xs 0 (\<lambda>_. blob_null 32) (-1) False [] = Some (?n, inner, ml, m, br)"
    "leaves_ok Hash xs fB pos ?n inner ml m br"
    using merkle_leaves_spec[of xs 0 xs pos fB bp Hash "\<lambda>_. blob_null 32" "-1" False "[]"] assms by auto
  have "\<exists>l<32. bit ?n l"
  proof (rule ccontr)
    assume "\<not> ?thesis"
    then have "take_bit 32 ?n = 0" by (auto simp: bit_eq_iff bit_take_bit_iff)
    moreover have "take_bit 32 ?n = ?n" using assms(2) by (intro take_bit_nat_eq_self) simp
    ultimately show False using assms(1) by simp
  qed
  then obtain l where l32: "l < 32" "bit ?n l" by blast
  obtain L where L: "merkle_skip ?n 0 = Some L" "L < 32" "bit ?n L" "\<forall>k. 0 \<le> k \<and> k < L \<longrightarrow> \<not> bit ?n k"
    using merkle_skip_spec[OF l32 le0] by blast
  have "take_bit L ?n = 0" using L(4) by (auto simp: bit_eq_iff bit_take_bit_iff)
  then have "?n mod 2 ^ L = 0" by (simp only: take_bit_eq_mod)
  then have nk: "Suc ?c = (?n div 2 ^ L) * 2 ^ L" unfolding c(1) using div_mult_mod_eq[of ?n "2 ^ L"] by (simp only: add_0_right)
  have odd: "odd (?n div 2 ^ L)" using L(3) by (simp add: bit_odd_div)
  have q: "?c div 2 ^ L = ?n div 2 ^ L - 1" by (rule pred_div_pow[OF nk])
  then have q1: "?c div 2 ^ L + 1 = ?n div 2 ^ L" using odd by (auto elim: oddE)
  have cnt: "Suc ?c = (?c div 2 ^ L + 1) * 2 ^ L" using nk unfolding q1 .
  have ev: "even (?c div 2 ^ L)" using odd q1 by (metis even_plus_one_iff)
  note d = Suc_div_pow[OF cnt, unfolded c(1)]
  have inner: "inner_ok Hash xs inner ?n 0" and m: "m \<longleftrightarrow> has_twins Hash xs ?n" using l(2) by (auto simp: leaves_ok_def)
  have ok: "inner_ok Hash xs inner ?c (Suc L)" using inner d(2)[OF ev] by (simp add: inner_ok_def Suc_le_eq)
  have h: "inner L = node Hash xs L (?c div 2 ^ L)" using inner odd q by (simp add: inner_ok_def)
  have bk: "branch_ok Hash xs pos ?c L (ml = int L) ml br" if fB: fB
  proof -
    obtain k where k: "ml = int k" "odd (?n div 2 ^ k)" "pos div 2 ^ k = ?n div 2 ^ k - 1" "above Hash xs pos br k"
      using l(2) fB assms(3) by (auto simp: leaves_ok_def)
    have "L \<le> k" using k(2) d(3)[of k] by (meson not_le)
    then consider "k = L" | "L < k" by linarith
    then show ?thesis
    proof cases
      case 2
      then show ?thesis using k d(2)[OF ev, of k] by (auto simp: branch_ok_def)
    qed (use k q in \<open>simp add: branch_ok_def\<close>)
  qed
  have "L = 0 \<or> ?c div 2 ^ (L - 1) \<noteq> 0"
  proof (cases L)
    case (Suc j)
    have "2 * 2 ^ j \<le> Suc ?c" using cnt Suc by simp
    then have "2 ^ j \<le> ?c" using one_le_power[of "2::nat" j] by linarith
    then show ?thesis using Suc by (simp add: div_eq_0_iff)
  qed simp
  from merkle_sweep_spec[OF c cnt[unfolded c(1)] L(2) ev this h ok bk assms(3)] obtain br' where
    "merkle_sweep Hash fB inner ml ?n L (inner L) (ml = int L) br = Some (merkle_root Hash xs, br')"
    "fB \<longrightarrow> ComputeMerkleRootFromBranch Hash (xs ! pos) br' pos = merkle_root Hash xs" by blast
  then show ?thesis using l(1) L(1) m assms(1) by (simp add: MerkleComputation_def)
qed

section \<open>What a root says of its leaves\<close>

lemma has_twins_take:
  assumes "has_twins Hash (take p xs) (length (take p xs))"
  shows "has_twins Hash xs (length xs)"
proof -
  obtain l i where li: "(2 * i + 2) * 2 ^ l \<le> length (take p xs)" "node Hash (take p xs) l (2 * i) = node Hash (take p xs) l (2 * i + 1)"
    using assms by (auto simp: has_twins_def)
  have "node Hash (take p xs) l j = node Hash xs l j" if "j \<le> 2 * i + 1" for j
  proof -
    have "(j + 1) * 2 ^ l \<le> (2 * i + 2) * 2 ^ l" using that by (intro mult_le_mono1) simp
    then have "j * 2 ^ l + 2 ^ l \<le> p" using li(1) by simp
    then have "take (2 ^ l) (drop (j * 2 ^ l) (take p xs)) = take (2 ^ l) (drop (j * 2 ^ l) xs)"
      by (simp add: drop_take)
    then show ?thesis by (simp add: node_def)
  qed
  then show ?thesis using li unfolding has_twins_def by (intro exI[of _ l] exI[of _ i]) simp
qed

lemma has_twins_drop:
  assumes "has_twins Hash (drop (2 ^ k) xs) (length (drop (2 ^ k) xs))" "length xs \<le> 2 ^ Suc k"
  shows "has_twins Hash xs (length xs)"
proof -
  obtain l i where li: "(2 * i + 2) * 2 ^ l \<le> length (drop (2 ^ k) xs)"
    "node Hash (drop (2 ^ k) xs) l (2 * i) = node Hash (drop (2 ^ k) xs) l (2 * i + 1)"
    using assms by (auto simp: has_twins_def)
  have "(2::nat) ^ Suc l \<le> (2 * i + 2) * 2 ^ l" by simp
  also have "\<dots> \<le> 2 ^ k" using li(1) assms(2) by simp
  finally have "Suc l \<le> k" by (simp only: power_increasing_iff[of "2::nat"] one_less_numeral_iff semiring_norm)
  then have k: "(2::nat) ^ k = 2 * 2 ^ (k - Suc l) * 2 ^ l" by (simp flip: power_Suc power_add)
  let ?i = "i + 2 ^ (k - Suc l)"
  have "node Hash (drop (2 ^ k) xs) l j = node Hash xs l (j + 2 * 2 ^ (k - Suc l))" for j
    by (simp add: node_def k algebra_simps)
  then have "node Hash xs l (2 * ?i) = node Hash xs l (2 * ?i + 1)" using li(2) by (simp add: algebra_simps)
  moreover have "(2 * ?i + 2) * 2 ^ l = (2 * i + 2) * 2 ^ l + 2 ^ k" by (simp add: k algebra_simps)
  then have "(2 * ?i + 2) * 2 ^ l \<le> length xs" using li(1) by (cases "2 ^ k \<le> length xs") auto
  ultimately show ?thesis unfolding has_twins_def by blast
qed

lemma tree_hash_length:
  assumes "\<And>b. length (Hash b) = 32"
  shows "xs \<noteq> [] \<Longrightarrow> \<forall>x\<in>set xs. length x = 32 \<Longrightarrow> length (tree_hash Hash k xs) = 32"
  by (induction k) (auto simp: assms)

text \<open>Two lists of leaves that can be compared at a height.\<close>

definition comparable :: "(byte list \<Rightarrow> uint256) \<Rightarrow> nat \<Rightarrow> uint256 list \<Rightarrow> uint256 list \<Rightarrow> bool" where
  "comparable Hash k xs ys \<longleftrightarrow> inj_on Hash (hashed Hash k xs \<union> hashed Hash k ys) \<and>
     xs \<noteq> [] \<and> length xs \<le> 2 ^ k \<and> ys \<noteq> [] \<and> length ys \<le> 2 ^ k \<and> (\<forall>x\<in>set xs \<union> set ys. length x = 32) \<and>
     \<not> has_twins Hash xs (length xs) \<and> \<not> has_twins Hash ys (length ys)"

lemma comparable_sym: "comparable Hash k xs ys \<Longrightarrow> comparable Hash k ys xs"
  unfolding comparable_def by (simp add: Un_commute)

definition top_input :: "(byte list \<Rightarrow> uint256) \<Rightarrow> nat \<Rightarrow> uint256 list \<Rightarrow> byte list" where
  "top_input Hash k xs =
     (if length xs \<le> 2 ^ k then tree_hash Hash k xs @ tree_hash Hash k xs
      else tree_hash Hash k (take (2 ^ k) xs) @ tree_hash Hash k (drop (2 ^ k) xs))"

lemma top_input_hash: "tree_hash Hash (Suc k) xs = Hash (top_input Hash k xs)" "top_input Hash k xs \<in> hashed Hash (Suc k) xs"
  by (simp_all add: top_input_def)

lemma top_input_eq:
  assumes "inj_on Hash (hashed Hash (Suc k) xs \<union> hashed Hash (Suc l) ys)" "tree_hash Hash (Suc k) xs = tree_hash Hash (Suc l) ys"
  shows "top_input Hash k xs = top_input Hash l ys"
  using inj_onD[OF assms(1), of "top_input Hash k xs" "top_input Hash l ys"] assms(2)
  unfolding top_input_hash(1) by (simp only: Un_iff top_input_hash(2) simp_thms)

lemma hashed_parts:
  "length xs \<le> 2 ^ k \<Longrightarrow> hashed Hash k xs \<subseteq> hashed Hash (Suc k) xs"
  "\<not> length xs \<le> 2 ^ k \<Longrightarrow> hashed Hash k (take (2 ^ k) xs) \<subseteq> hashed Hash (Suc k) xs"
  "\<not> length xs \<le> 2 ^ k \<Longrightarrow> hashed Hash k (drop (2 ^ k) xs) \<subseteq> hashed Hash (Suc k) xs"
  by auto

lemma comparable_parts:
  assumes "comparable Hash (Suc k) xs ys" "length (us :: uint256 list) \<le> 2 ^ k" "length (vs :: uint256 list) \<le> 2 ^ k" "us \<noteq> []" "vs \<noteq> []"
    and "us = xs \<and> length xs \<le> 2 ^ k \<or> (us = take (2 ^ k) xs \<or> us = drop (2 ^ k) xs) \<and> \<not> length xs \<le> 2 ^ k"
    and "vs = ys \<and> length ys \<le> 2 ^ k \<or> (vs = take (2 ^ k) ys \<or> vs = drop (2 ^ k) ys) \<and> \<not> length ys \<le> 2 ^ k"
  shows "comparable Hash k us vs"
proof -
  have "hashed Hash k us \<subseteq> hashed Hash (Suc k) xs" "hashed Hash k vs \<subseteq> hashed Hash (Suc k) ys"
    using assms(6,7) hashed_parts[of xs k Hash] hashed_parts[of ys k Hash] by metis+
  then have "inj_on Hash (hashed Hash k us \<union> hashed Hash k vs)"
    using assms(1) unfolding comparable_def by (meson Un_mono inj_on_subset)
  moreover have "set us \<subseteq> set xs" "set vs \<subseteq> set ys" using assms(6,7) by (auto dest: in_set_takeD in_set_dropD)
  moreover have "\<not> has_twins Hash us (length us)" "\<not> has_twins Hash vs (length vs)"
    using assms(1,6,7) has_twins_take[of Hash "2 ^ k"] has_twins_drop[of Hash k] unfolding comparable_def by metis+
  ultimately show ?thesis using assms(1-5) unfolding comparable_def by blast
qed

lemma tree_hash_binding:
  assumes len: "\<And>b. length (Hash b) = 32"
  shows "comparable Hash k xs ys \<Longrightarrow> tree_hash Hash k xs = tree_hash Hash k ys \<Longrightarrow> xs = ys"
proof (induction k arbitrary: xs ys)
  case 0
  then have "length xs = 1" "length ys = 1" unfolding comparable_def by (auto simp: le_Suc_eq)
  then show ?case using 0 by (auto simp: length_Suc_conv)
next
  case (Suc k)
  let ?p = "2 ^ k :: nat" and ?T = "tree_hash Hash k"
  have l32: "length (?T zs) = 32" if "zs \<noteq> []" "set zs \<subseteq> set us" "comparable Hash (Suc k) us vs" for zs us vs
    using that tree_hash_length[of Hash zs k, OF len] unfolding comparable_def by auto
  have mixed: False
    if c: "comparable Hash (Suc k) us vs" "tree_hash Hash (Suc k) us = tree_hash Hash (Suc k) vs"
      and le: "length us \<le> ?p" "\<not> length vs \<le> ?p" for us vs
  proof -
    let ?l = "take ?p vs" and ?r = "drop ?p vs"
    have ne: "us \<noteq> []" "?l \<noteq> []" "?r \<noteq> []" using c(1) le by (auto simp: comparable_def)
    have "?T us @ ?T us = ?T ?l @ ?T ?r"
      using top_input_eq[OF _ c(2)] c(1) le by (simp only: comparable_def top_input_def if_True if_False)
    then have eq: "?T us = ?T ?l" "?T us = ?T ?r"
      using l32[OF ne(1) _ c(1)] l32[OF ne(2) _ comparable_sym[OF c(1)]] by (auto simp: set_take_subset)
    have "length ?l \<le> ?p" "length ?r \<le> ?p" using c(1) by (auto simp: comparable_def)
    then have "comparable Hash k us ?l" "comparable Hash k us ?r"
      using comparable_parts[OF c(1)] le ne by blast+
    then have "us = ?l" "us = ?r" using Suc.IH eq by blast+
    then have "length ?l = length ?r" "?T ?l = ?T ?r" by metis+
    then have "2 * ?p \<le> length vs" "node Hash vs k 0 = node Hash vs k 1"
      using le(2) by (simp_all add: node_def)
    then have "has_twins Hash vs (length vs)" unfolding has_twins_def by (intro exI[of _ k] exI[of _ 0]) simp
    then show False using c(1) by (simp add: comparable_def)
  qed
  consider "length xs \<le> ?p" "length ys \<le> ?p" | "\<not> length xs \<le> ?p" "\<not> length ys \<le> ?p"
    using mixed[OF Suc.prems] mixed[OF comparable_sym[OF Suc.prems(1)] Suc.prems(2)[symmetric]] by blast
  then show ?case
  proof cases
    case 1
    have ne: "xs \<noteq> []" "ys \<noteq> []" using Suc.prems(1) by (auto simp: comparable_def)
    have "?T xs @ ?T xs = ?T ys @ ?T ys"
      using top_input_eq[OF _ Suc.prems(2)] Suc.prems(1) 1 by (simp only: comparable_def top_input_def if_True)
    then have "?T xs = ?T ys" using l32[OF ne(1) _ Suc.prems(1)] l32[OF ne(2) _ comparable_sym[OF Suc.prems(1)]] by simp
    moreover have "comparable Hash k xs ys" using comparable_parts[OF Suc.prems(1)] 1 ne by blast
    ultimately show ?thesis using Suc.IH by blast
  next
    case 2
    let ?lx = "take ?p xs" and ?rx = "drop ?p xs" and ?ly = "take ?p ys" and ?ry = "drop ?p ys"
    have ne: "?lx \<noteq> []" "?rx \<noteq> []" "?ly \<noteq> []" "?ry \<noteq> []" using 2 by auto
    have "?T ?lx @ ?T ?rx = ?T ?ly @ ?T ?ry"
      using top_input_eq[OF _ Suc.prems(2)] Suc.prems(1) 2 by (simp only: comparable_def top_input_def if_False)
    then have eq: "?T ?lx = ?T ?ly" "?T ?rx = ?T ?ry"
      using l32[OF ne(1) _ Suc.prems(1)] l32[OF ne(3) _ comparable_sym[OF Suc.prems(1)]] by (auto simp: set_take_subset)
    have "length ?lx \<le> ?p" "length ?rx \<le> ?p" "length ?ly \<le> ?p" "length ?ry \<le> ?p"
      using Suc.prems(1) by (auto simp: comparable_def)
    then have "comparable Hash k ?lx ?ly" "comparable Hash k ?rx ?ry"
      using comparable_parts[OF Suc.prems(1)] 2 ne by blast+
    then have "?lx = ?ly" "?rx = ?ry" using Suc.IH eq by blast+
    then show ?thesis by (metis append_take_drop_id)
  qed
qed

text \<open>Trees of different heights with the same root have a leaf that is a hash.\<close>

lemma top_input_left:
  "\<exists>r. top_input Hash k xs = tree_hash Hash k (take (2 ^ k) xs) @ r"
  by (cases "length xs \<le> 2 ^ k") (auto simp: top_input_def)

lemma hashed_left: "hashed Hash k (take (2 ^ k) xs) \<subseteq> hashed Hash (Suc k) xs"
  by (cases "length xs \<le> 2 ^ k") auto

lemma tree_hash_levels:
  assumes len: "\<And>b. length (Hash b) = 32"
  shows "k < k' \<Longrightarrow> inj_on Hash (hashed Hash k xs \<union> hashed Hash k' ys) \<Longrightarrow> xs \<noteq> [] \<Longrightarrow> ys \<noteq> [] \<Longrightarrow>
    \<forall>x\<in>set xs \<union> set ys. length x = 32 \<Longrightarrow> tree_hash Hash k xs = tree_hash Hash k' ys \<Longrightarrow>
    \<exists>x\<in>set xs. x \<in> Hash ` hashed Hash k' ys"
proof (induction k arbitrary: k' xs ys)
  case 0
  then obtain j where "k' = Suc j" by (cases k') auto
  then have "hd xs = Hash (top_input Hash j ys)" "top_input Hash j ys \<in> hashed Hash k' ys"
    using "0.prems"(6) top_input_hash[of Hash j ys] by simp_all
  then show ?case using "0.prems"(3) by (metis hd_in_set imageI)
next
  case (Suc k)
  then obtain j where j: "k' = Suc j" "k < j" by (cases k') auto
  let ?l = "take (2 ^ k) xs" and ?m = "take (2 ^ j) ys"
  have "top_input Hash k xs = top_input Hash j ys" using top_input_eq Suc.prems(2,6) unfolding j(1) by blast
  then obtain r r' where "tree_hash Hash k ?l @ r = tree_hash Hash j ?m @ r'"
    using top_input_left[of Hash k xs] top_input_left[of Hash j ys] by metis
  moreover have "length (tree_hash Hash k ?l) = 32" "length (tree_hash Hash j ?m) = 32"
    using Suc.prems(3-5) by (auto intro!: tree_hash_length[OF len] dest: in_set_takeD)
  ultimately have eq: "tree_hash Hash k ?l = tree_hash Hash j ?m" by simp
  have "inj_on Hash (hashed Hash k ?l \<union> hashed Hash j ?m)"
    using Suc.prems(2) unfolding j(1) by (meson Un_mono hashed_left inj_on_subset)
  then have "\<exists>x\<in>set ?l. x \<in> Hash ` hashed Hash j ?m"
    using Suc.IH[OF j(2) _ _ _ _ eq] Suc.prems(3-5) by (auto dest: in_set_takeD)
  then show ?case unfolding j(1) using hashed_left[of Hash j ys] by (meson image_mono in_mono in_set_takeD)
qed

lemma merkle_height_bound: "0 < n \<Longrightarrow> n \<le> 2 ^ merkle_height n"
proof (induction n rule: merkle_height.induct)
  case (1 n)
  show ?case
  proof (cases "n \<le> 1")
    case False
    then have "(n + 1) div 2 \<le> 2 ^ merkle_height ((n + 1) div 2)" using "1.IH" by simp
    then show ?thesis using False by (subst merkle_height.simps) simp
  qed (use "1.prems" in \<open>simp add: merkle_height.simps\<close>)
qed

lemma unflagged_roots_bind:
  assumes "xs \<noteq> []" "ys \<noteq> []" "\<forall>x\<in>set xs \<union> set ys. length x = 32"
    and "\<And>b. length (Hash b) = 32" "inj_on Hash (merkle_inputs Hash xs \<union> merkle_inputs Hash ys)"
    and "(set xs \<union> set ys) \<inter> Hash ` (merkle_inputs Hash xs \<union> merkle_inputs Hash ys) = {}"
    and "merkle_root Hash xs = merkle_root Hash ys" "\<not> has_twins Hash xs (length xs)" "\<not> has_twins Hash ys (length ys)"
  shows "xs = ys"
proof -
  let ?k = "merkle_height (length xs)" and ?l = "merkle_height (length ys)"
  have r: "tree_hash Hash ?k xs = tree_hash Hash ?l ys" using assms(1,2,7) by (simp add: merkle_root_def)
  note inj = assms(5)[unfolded merkle_inputs_def]
  have "\<not> ?k < ?l" using tree_hash_levels[of Hash ?k ?l xs ys] assms(1-4,6) inj r unfolding merkle_inputs_def by blast
  moreover have "\<not> ?l < ?k" using tree_hash_levels[of Hash ?l ?k ys xs] assms(1-4,6) inj r unfolding merkle_inputs_def
    by (metis (no_types, lifting) IntI UnCI Un_commute empty_iff image_Un)
  ultimately have kl: "?k = ?l" by simp
  have "length xs \<le> 2 ^ ?k" "length ys \<le> 2 ^ ?l" using merkle_height_bound assms(1,2) by auto
  then have "comparable Hash ?k xs ys" using inj assms(1-3,8,9) unfolding comparable_def kl by blast
  then show ?thesis using tree_hash_binding[of Hash ?k xs ys] assms(4) r unfolding kl by blast
qed

lemma has_twins_small:
  assumes "n \<le> 3" "has_twins Hash xs n"
  shows "node Hash xs 0 0 = node Hash xs 0 1"
proof -
  obtain l i where li: "(2 * i + 2) * 2 ^ l \<le> n" "node Hash xs l (2 * i) = node Hash xs l (2 * i + 1)"
    using assms(2) by (auto simp: has_twins_def)
  have "(2::nat) * 2 ^ l \<le> (2 * i + 2) * 2 ^ l" by simp
  then have l4: "(2::nat) * 2 ^ l < 4" using li(1) assms(1) by linarith
  have "l = 0"
  proof (cases l)
    case (Suc j)
    then show ?thesis using l4 one_le_power[of "2::nat" j] by simp
  qed simp
  then have "i = 0" using li(1) assms(1) by simp
  then show ?thesis using li(2) \<open>l = 0\<close> by simp
qed

lemma merkle_root_result:
  assumes "length leaves \<le> 2 ^ 31"
  shows "ComputeMerkleRoot Hash leaves = Some (merkle_root Hash leaves, has_twins Hash leaves (length leaves))"
proof (cases "leaves = []")
  case True
  then show ?thesis by (simp add: ComputeMerkleRoot_def MerkleComputation_def merkle_root_def has_twins_def)
next
  case False
  then show ?thesis using MerkleComputation_spec[of leaves 0 False "0xffffffff" Hash] assms
    by (auto simp: ComputeMerkleRoot_def)
qed

section \<open>Properties\<close>

text \<open>C21: the constant-space computation is the Merkle tree: for up to \<open>2 ^ 31\<close> leaves \<^verbatim>\<open>ComputeMerkleRoot\<close> returns the hash of the tree of
  least height over the leaves in which a node without a right child takes its left one twice, and it sets the flag
  \<^verbatim>\<open>mutated\<close> exactly when two neighbouring full subtrees, at some level, have the same hash. Without leaves the root is null.\<close>

theorem merkle_root_correct:
  assumes "length leaves \<le> 2 ^ 31"
  shows "ComputeMerkleRoot Hash leaves = Some (merkle_root Hash leaves, has_twins Hash leaves (length leaves))"
  by (rule merkle_root_result[OF assms])

theorem merkle_root_correct_witness:
  "ComputeMerkleRoot demo_merkle [[1], [2], [3]] = Some ([1, 2, 3, 3], False)"
proof -
  have "merkle_height (Suc (Suc (Suc 0))) = Suc (Suc 0)" by (simp add: merkle_height.simps)
  then have r: "merkle_root demo_merkle [[1], [2], [3]] = [1, 2, 3, 3]"
    by (simp add: merkle_root_def demo_merkle_def)
  have "\<not> has_twins demo_merkle [[1], [2], [3]] (Suc (Suc (Suc 0)))"
    using has_twins_small[of "Suc (Suc (Suc 0))" demo_merkle "[[1], [2], [3]]"] by (auto simp: node_leaf)
  then show ?thesis using merkle_root_correct[of "[[1], [2], [3]]" demo_merkle] r by simp
qed

text \<open>A branch leads to the root: for every transaction of a block of up to \<open>2 ^ 31\<close> transactions, \<^verbatim>\<open>BlockMerkleBranch\<close> computes a branch from which
  \<^verbatim>\<open>ComputeMerkleRootFromBranch\<close>, given the transaction's id and position, computes the root of the block.\<close>

lemma merkle_branch_correct:
  assumes "length vtx \<le> 2 ^ 31" "pos < length vtx"
  shows "\<exists>branch root mutated. BlockMerkleBranch Hash vtx pos = Some branch \<and> BlockMerkleRoot Hash vtx = Some (root, mutated) \<and>
    ComputeMerkleRootFromBranch Hash (GetHash Hash (vtx ! pos)) branch pos = root"
proof -
  let ?xs = "map (GetHash Hash) vtx"
  have n: "0 < length ?xs" "length ?xs \<le> 2 ^ 31" "pos < length ?xs" using assms by auto
  obtain br where "MerkleComputation Hash ?xs pos True = Some (merkle_root Hash ?xs, has_twins Hash ?xs (length ?xs), br)"
    "ComputeMerkleRootFromBranch Hash (?xs ! pos) br pos = merkle_root Hash ?xs"
    using MerkleComputation_spec[OF n, of True pos Hash] by auto
  moreover obtain br' where "MerkleComputation Hash ?xs 0xffffffff False = Some (merkle_root Hash ?xs, has_twins Hash ?xs (length ?xs), br')"
    using MerkleComputation_spec[OF n, of False "0xffffffff" Hash] by auto
  ultimately show ?thesis using assms(2)
    by (auto simp: BlockMerkleBranch_def BlockMerkleRoot_def ComputeMerkleBranch_def ComputeMerkleRoot_def)
qed

text \<open>C18: the flag closes CVE-2012-2459: for two different lists of 32-byte leaves \<^verbatim>\<open>ComputeMerkleRoot\<close> returns different roots, unless it
  flags one of them as mutated. This needs that the hash function has no collision among what is hashed to form the two trees and that no leaf is one
  of the hashes in them; the lists are not empty and have up to \<open>2 ^ 31\<close> leaves.\<close>

theorem merkle_root_binding:
  assumes "xs \<noteq> ys" "xs \<noteq> []" "ys \<noteq> []" "length xs \<le> 2 ^ 31" "length ys \<le> 2 ^ 31" "\<forall>x\<in>set xs \<union> set ys. length x = 32"
    and "\<And>b. length (Hash b) = 32" "inj_on Hash (merkle_inputs Hash xs \<union> merkle_inputs Hash ys)"
    and "(set xs \<union> set ys) \<inter> Hash ` (merkle_inputs Hash xs \<union> merkle_inputs Hash ys) = {}"
  shows "\<exists>root mutated root' mutated'. ComputeMerkleRoot Hash xs = Some (root, mutated) \<and> ComputeMerkleRoot Hash ys = Some (root', mutated') \<and>
    (root \<noteq> root' \<or> mutated \<or> mutated')"
  using unflagged_roots_bind[OF assms(2,3,6-9)] merkle_root_result[of xs Hash] merkle_root_result[of ys Hash] assms(1,4,5)
  by blast

text \<open>The attack of the CVE: repeating the last of three leaves leaves the root as it is, and sets the flag.\<close>

definition twin_hash :: "byte list \<Rightarrow> byte list" where
  "twin_hash bs = replicate 32 (hd bs + 10)"

lemma replicate_byte_eq [simp]: "replicate 32 x = replicate 32 y \<longleftrightarrow> x = (y :: byte)"
  by (auto dest: arg_cong[of _ _ hd])

lemma twin_hash_replicate [simp]: "twin_hash (replicate 32 x @ bs) = replicate 32 (x + 10)"
  by (simp add: twin_hash_def numeral_eq_Suc)

theorem merkle_root_binding_witness:
  "ComputeMerkleRoot twin_hash [replicate 32 1, replicate 32 2, replicate 32 3] = Some (replicate 32 21, False) \<and>
   ComputeMerkleRoot twin_hash [replicate 32 1, replicate 32 2, replicate 32 3, replicate 32 3] = Some (replicate 32 21, True)"
proof -
  let ?xs = "[replicate 32 1, replicate 32 2, replicate 32 (3 :: byte)]" and ?ys = "[replicate 32 1, replicate 32 2, replicate 32 3, replicate 32 (3 :: byte)]"
  let ?ab = "replicate 32 1 @ replicate 32 (2 :: byte)" and ?cc = "replicate 32 3 @ replicate 32 (3 :: byte)"
    and ?top = "replicate 32 11 @ replicate 32 (13 :: byte)"
  have h2: "merkle_height 2 = 1" by (simp add: merkle_height.simps[of 2] merkle_height.simps[of "Suc 0"])
  have "merkle_height 3 = 2" "merkle_height 4 = 2" by (simp_all add: merkle_height.simps[of 3] merkle_height.simps[of 4] h2)
  then have h: "merkle_height (Suc (Suc (Suc 0))) = Suc (Suc 0)" "merkle_height (Suc (Suc (Suc (Suc 0)))) = Suc (Suc 0)"
    by (simp_all add: numeral_eq_Suc)
  have r: "merkle_root twin_hash ?xs = replicate 32 21" "merkle_root twin_hash ?ys = replicate 32 21"
    using h by (simp_all add: merkle_root_def)
  have i: "merkle_inputs twin_hash ?xs = {?top, ?ab, ?cc}" "merkle_inputs twin_hash ?ys = {?top, ?ab, ?cc}"
    using h by (simp_all add: merkle_inputs_def) auto
  have inj: "inj_on twin_hash {?top, ?ab, ?cc}" and img: "twin_hash ` {?top, ?ab, ?cc} = {replicate 32 21, replicate 32 11, replicate 32 13}"
    by (simp_all add: inj_on_def)
  have b: "\<exists>root mutated root' mutated'. ComputeMerkleRoot twin_hash ?xs = Some (root, mutated) \<and> ComputeMerkleRoot twin_hash ?ys = Some (root', mutated') \<and>
      (root \<noteq> root' \<or> mutated \<or> mutated')"
    by (rule merkle_root_binding) (unfold i, simp_all only: Un_absorb inj img, simp_all add: twin_hash_def)
  have "\<not> has_twins twin_hash ?xs (Suc (Suc (Suc 0)))" using has_twins_small[of "Suc (Suc (Suc 0))" twin_hash ?xs] by (auto simp: node_leaf)
  then have "ComputeMerkleRoot twin_hash ?xs = Some (replicate 32 21, False)" using merkle_root_result[of ?xs twin_hash] r(1) by simp
  moreover have "\<exists>m. ComputeMerkleRoot twin_hash ?ys = Some (replicate 32 21, m)" using merkle_root_result[of ?ys twin_hash] r(2) by simp
  ultimately show ?thesis using b by auto
qed

end
