(* ===== verification/Pow.thy ===== *)
theory Pow
  imports Chain Params Amount
begin

text \<open>
  Proof of work, \<^verbatim>\<open>pow.cpp\<close>: the retarget rule, the check of a hash against its target, the work
  of a block and the time a difference of work stands for. \<open>None\<close> is a failing \<^verbatim>\<open>assert\<close>, a null
  dereference or the exception of a division by zero. The proofs use the contract \<open>big_uint\<close> of the
  256-bit integers.
\<close>

section \<open>The retarget rule\<close>

text \<open>\<^verbatim>\<open>CalculateNextWorkRequired\<close>; \<^verbatim>\<open>bnNew *= nActualTimespan\<close> is the operator on \<^verbatim>\<open>uint32_t\<close>, to which
  the 64-bit timespan is converted.\<close>

definition CalculateNextWorkRequired :: "CBlockIndex \<Rightarrow> int \<Rightarrow> consensus_params \<Rightarrow> u32 option" where
  "CalculateNextWorkRequired pindexLast nFirstBlockTime params =
     (if fPowNoRetargeting params then Some (bi_nBits pindexLast)
      else
        let timespan = PowTargetTimespan params (nHeight pindexLast);
            nActualTimespan0 = GetBlockTime pindexLast - nFirstBlockTime;
            nActualTimespan1 = (if nActualTimespan0 < cdiv timespan 4 then cdiv timespan 4 else nActualTimespan0);
            nActualTimespan = (if nActualTimespan1 > timespan * 4 then timespan * 4 else nActualTimespan1);
            bnPowLimit = UintToArith256 (powLimit params);
            bnOld = fst (SetCompact (bi_nBits pindexLast));
            bnNew0 = bu_mul32 bnOld (word_of_int nActualTimespan)
        in do { bnNew1 \<leftarrow> bu_div bnNew0 (bu_of_u64 (word_of_int timespan));
                let bnNew = (if CompareTo bnNew1 bnPowLimit > 0 then bnPowLimit else bnNew1) in
                GetCompact bnNew False })"

text \<open>The loop of the special rule of the test network.\<close>

partial_function (option) last_non_special ::
    "block_store \<Rightarrow> consensus_params \<Rightarrow> int \<Rightarrow> u32 \<Rightarrow> nat \<Rightarrow> u32 option" where
  "last_non_special st params hLast nProofOfWorkLimit pindex =
     do { b \<leftarrow> st pindex;
          case pprev b of
            Some q \<Rightarrow>
              if cmod (nHeight b) (DifficultyAdjustmentInterval params hLast) \<noteq> 0 \<and> bi_nBits b = nProofOfWorkLimit
              then last_non_special st params hLast nProofOfWorkLimit q
              else Some (bi_nBits b)
          | None \<Rightarrow> Some (bi_nBits b) }"

definition GetNextWorkRequired ::
    "block_store \<Rightarrow> nat option \<Rightarrow> CBlockHeader \<Rightarrow> consensus_params \<Rightarrow> u32 option" where
  "GetNextWorkRequired st pindexLast pblock params =
     do { nProofOfWorkLimit \<leftarrow> GetCompact (UintToArith256 (powLimit params)) False;
          case pindexLast of
            None \<Rightarrow> Some nProofOfWorkLimit
          | Some p \<Rightarrow>
              do { b \<leftarrow> st p;
                   let interval = DifficultyAdjustmentInterval params (nHeight b) in
                   if cmod (nHeight b + 1) interval \<noteq> 0 then
                     if fPowAllowMinDifficultyBlocks params then
                       if header_GetBlockTime pblock > GetBlockTime b + PowTargetSpacing params (nHeight b) * 2
                       then Some nProofOfWorkLimit
                       else last_non_special st params (nHeight b) nProofOfWorkLimit p
                     else Some (bi_nBits b)
                   else
                     let nHeightFirst = nHeight b - (interval - 1) in
                     if nHeightFirst < 0 then None
                     else do { r \<leftarrow> GetAncestor st p nHeightFirst;
                               q \<leftarrow> r;
                               first \<leftarrow> st q;
                               CalculateNextWorkRequired b (GetBlockTime first) params } } }"

section \<open>Checking and measuring work\<close>

definition CheckProofOfWork :: "uint256 \<Rightarrow> u32 \<Rightarrow> consensus_params \<Rightarrow> bool" where
  "CheckProofOfWork hash bits params =
     (case SetCompact bits of (bnTarget, fNegative, fOverflow) \<Rightarrow>
        if fNegative \<or> EqualTo bnTarget 0 \<or> fOverflow \<or> CompareTo bnTarget (UintToArith256 (powLimit params)) > 0
        then False
        else if CompareTo (UintToArith256 hash) bnTarget > 0 then False
        else True)"

definition GetBlockProof :: "CBlockIndex \<Rightarrow> base_uint option" where
  "GetBlockProof block =
     (case SetCompact (bi_nBits block) of (bnTarget, fNegative, fOverflow) \<Rightarrow>
        if fNegative \<or> fOverflow \<or> EqualTo bnTarget 0 then Some (bu_of_u64 0)
        else do { q \<leftarrow> bu_div (bu_not bnTarget) (bu_add bnTarget (bu_of_u64 1));
                  Some (bu_add q (bu_of_u64 1)) })"

text \<open>\<^verbatim>\<open>sign * r.GetLow64()\<close> is a product of unsigned 64-bit numbers, read back as \<^verbatim>\<open>int64_t\<close>.\<close>

definition GetBlockProofEquivalentTime ::
    "CBlockIndex \<Rightarrow> CBlockIndex \<Rightarrow> CBlockIndex \<Rightarrow> consensus_params \<Rightarrow> int option" where
  "GetBlockProofEquivalentTime to from tip params =
     (let (r, sign) = (if CompareTo (nChainWork to) (nChainWork from) > 0
                       then (bu_sub (nChainWork to) (nChainWork from), 1)
                       else (bu_sub (nChainWork from) (nChainWork to), -1)) :: base_uint \<times> int
      in do { proof \<leftarrow> GetBlockProof tip;
              r \<leftarrow> bu_div (bu_mul r (bu_of_u64 (word_of_int (PowTargetSpacing params (-1))))) proof;
              if bu_bits r > 63 then Some (sign * (2 ^ 63 - 1))
              else Some (to_i64 (sign * int (unat (GetLow64 r)))) })"

section \<open>Targets\<close>

lemma SetCompact_length [simp]: "length (fst (SetCompact c)) = 8"
  using SetCompact_value(1)[of c] by (cases "SetCompact c") auto

lemma compact_val_bound: "compact_val c < 2 ^ 256 \<Longrightarrow> compact_val c + 1 < 2 ^ 256"
proof (cases "compact_size c \<le> 3")
  case True
  have "unat c mod 2 ^ 23 < 2 ^ 23" by simp
  then have "compact_val c < 2 ^ 23"
    using True le_less_trans[OF div_le_dividend] by (simp only: compact_val_def Let_def if_True)
  then show ?thesis by simp
next
  case False
  assume lt: "compact_val c < 2 ^ 256"
  have "256 dvd compact_val c" using False by (simp add: compact_val_def Let_def dvd_mult dvd_power)
  moreover have "\<not> 256 dvd (2 ^ 256 - 1 :: nat)" by (simp add: dvd_eq_mod_eq_0)
  ultimately have "compact_val c \<noteq> 2 ^ 256 - 1" by metis
  with lt show ?thesis by linarith
qed

lemma GetBlockProof_value:
  "\<exists>w. GetBlockProof b = Some w \<and> length w = 8 \<and>
     pn_val w = (if bit (bi_nBits b) 23 \<or> compact_val (bi_nBits b) = 0 \<or> compact_val (bi_nBits b) \<ge> 2 ^ 256 then 0
                 else 2 ^ 256 div (compact_val (bi_nBits b) + 1))"
proof -
  let ?c = "bi_nBits b"
  obtain t n f where s: "SetCompact ?c = (t, n, f)" by (cases "SetCompact ?c")
  note sv = SetCompact_value[OF s]
  show ?thesis
  proof (cases "n \<or> f \<or> EqualTo t 0")
    case True
    then have "bit ?c 23 \<or> compact_val ?c = 0 \<or> compact_val ?c \<ge> 2 ^ 256"
      using sv EqualTo_iff[OF sv(1), of 0] by (cases f) auto
    then show ?thesis using True s by (simp add: GetBlockProof_def)
  next
    case False
    then have v: "compact_val ?c < 2 ^ 256" "0 < pn_val t" "pn_val t = compact_val ?c" "\<not> bit ?c 23"
      using sv EqualTo_iff[OF sv(1), of 0] by auto
    obtain q where "bu_div (bu_not t) (bu_add t (bu_of_u64 1)) = Some q" "length (bu_add q (bu_of_u64 1)) = 8"
      "pn_val (bu_add q (bu_of_u64 1)) = 2 ^ 256 div (compact_val ?c + 1)"
      using au.work_quotient[OF sv(1) v(2)] compact_val_bound[OF v(1)] v(3) by (auto simp del: bu_add_length)
    then show ?thesis using False s v by (simp add: GetBlockProof_def del: bu_add_length)
  qed
qed

section \<open>Retargeting\<close>

definition clamp_timespan :: "int \<Rightarrow> int \<Rightarrow> int" where
  "clamp_timespan T t = (if t < T div 4 then T div 4 else if t > T * 4 then T * 4 else t)"

lemma clamp_bounds: "0 < T \<Longrightarrow> T div 4 \<le> clamp_timespan T t \<and> clamp_timespan T t \<le> T * 4"
  by (auto simp: clamp_timespan_def)

lemma unat_word_of_int: "0 \<le> n \<Longrightarrow> n < 2 ^ LENGTH('a) \<Longrightarrow> unat (word_of_int n :: 'a::len word) = nat n"
  by (metis int_nat_eq nat_less_numeral_power_cancel_iff of_int_of_nat_eq unat_of_nat_small)

lemma to_i64_uminus: "k < 2 ^ 63 \<Longrightarrow> to_i64 (- int k) = - to_i64 (int k)"
  by (simp add: to_i64_id int64_ok_def)

lemma Calculate_value:
  fixes b t params
  defines "T \<equiv> PowTargetTimespan params (nHeight b)"
    and "s \<equiv> clamp_timespan (PowTargetTimespan params (nHeight b)) (GetBlockTime b - t)"
    and "L \<equiv> pn_val (UintToArith256 (powLimit params))"
  assumes "\<not> fPowNoRetargeting params" "0 < T" "T * 4 < 2 ^ 32"
  obtains n where "length n = 8" "CalculateNextWorkRequired b t params = GetCompact n False"
    "pn_val n = min L ((compact_val (bi_nBits b) mod 2 ^ 256 * nat s) mod 2 ^ 256 div nat T)"
proof -
  let ?old = "fst (SetCompact (bi_nBits b))"
  have old: "pn_val ?old = compact_val (bi_nBits b) mod 2 ^ 256"
    using SetCompact_value(3)[of "bi_nBits b"] by (cases "SetCompact (bi_nBits b)") auto
  have cl: "(if (if GetBlockTime b - t < cdiv T 4 then cdiv T 4 else GetBlockTime b - t) > T * 4 then T * 4
      else (if GetBlockTime b - t < cdiv T 4 then cdiv T 4 else GetBlockTime b - t)) = s"
    using assms(5) by (auto simp: s_def T_def[symmetric] clamp_timespan_def cdiv_nonneg)
  have "T div 4 \<le> s \<and> s \<le> T * 4" using clamp_bounds[of T] assms(5) by (simp add: s_def T_def)
  moreover have "T * 4 < 4294967296" "0 \<le> T div 4" using assms(5,6) by (simp_all add: pos_imp_zdiv_nonneg_iff)
  ultimately have s: "0 \<le> s" "s < 4294967296" by (blast intro: order_trans, blast intro: le_less_trans)
  have us: "unat (word_of_int s :: u32) = nat s" using s by (intro unat_word_of_int) simp_all
  have uT: "unat (word_of_int T :: u64) = nat T" using assms(5,6) by (intro unat_word_of_int) simp_all
  obtain q where q: "bu_div (bu_mul32 ?old (word_of_int s)) (bu_of_u64 (word_of_int T)) = Some q" "length q = 8"
    "pn_val q = (compact_val (bi_nBits b) mod 2 ^ 256 * nat s) mod 2 ^ 256 div nat T"
    using au.quot_total[of "bu_mul32 ?old (word_of_int s)" "bu_of_u64 (word_of_int T)"] assms(5) uT us
    by (auto simp: bu_mul32_val old)
  define n where "n = (if CompareTo q (UintToArith256 (powLimit params)) > 0 then UintToArith256 (powLimit params) else q)"
  have n: "length n = 8" "pn_val n = min L (pn_val q)"
    using q(2) by (auto simp: n_def L_def au.cmp_gt_iff)
  have "CalculateNextWorkRequired b t params = GetCompact n False"
    unfolding CalculateNextWorkRequired_def Let_def T_def[symmetric] cl using assms(4) q(1)
    by (simp add: n_def)
  with that[OF n(1)] n(2) q(3) show thesis by simp
qed

lemma Calculate_total:
  assumes "fPowNoRetargeting params \<or> (0 < PowTargetTimespan params (nHeight b) \<and> PowTargetTimespan params (nHeight b) * 4 < 2 ^ 32)"
  shows "\<exists>c. CalculateNextWorkRequired b t params = Some c"
proof (cases "fPowNoRetargeting params")
  case True
  then show ?thesis by (simp add: CalculateNextWorkRequired_def)
next
  case False
  then obtain n where n: "length n = 8" "CalculateNextWorkRequired b t params = GetCompact n False"
    using Calculate_value[of params b t thesis] assms by blast
  from n(1) obtain c where "GetCompact n False = Some c" by (rule GetCompact_decode)
  with n(2) show ?thesis by auto
qed

lemma last_non_special_total:
  assumes "tree_ok st" "st p = Some b" "nHeight b = int k"
  shows "\<exists>q d. last_non_special st params h lim p = Some (bi_nBits d) \<and> st q = Some d \<and> (\<exists>n. anc st p n = Some q)"
  using assms(2,3)
proof (induction k arbitrary: p b)
  case 0
  then have "pprev b = None" using tree_okD(1,3)[OF assms(1)] by (cases "pprev b") fastforce+
  then show ?case using 0 anc.simps(1)[of st p] by (subst last_non_special.simps) (auto simp del: anc.simps)
next
  case (Suc k)
  obtain q d where q: "pprev b = Some q" "st q = Some d" "nHeight d = int k"
    using tree_ok_prev[OF assms(1) Suc.prems(1)] Suc.prems(2) by auto
  obtain r e n where r: "last_non_special st params h lim q = Some (bi_nBits e)" "st r = Some e" "anc st q n = Some r"
    using Suc.IH[OF q(2,3)] by blast
  show ?case
  proof (cases "cmod (nHeight b) (DifficultyAdjustmentInterval params h) \<noteq> 0 \<and> bi_nBits b = lim")
    case True
    have "anc st p (Suc n) = Some r" using anc_Suc_front[of st p b q] Suc.prems(1) q(1) r(3) by simp
    moreover have "last_non_special st params h lim p = Some (bi_nBits e)"
      using True Suc.prems(1) q(1) r(1) by (subst last_non_special.simps) simp
    ultimately show ?thesis using r(2) by blast
  next
    case False
    then have "last_non_special st params h lim p = Some (bi_nBits b)"
      using Suc.prems(1) q(1) by (subst last_non_special.simps) auto
    then show ?thesis using Suc.prems(1) anc.simps(1) by blast
  qed
qed

lemma GetNextWorkRequired_total_gen:
  assumes ok: "tree_ok st" "\<forall>p. pindexLast = Some p \<longrightarrow> p \<in> dom st"
    and pos: "\<And>h. 0 < DifficultyAdjustmentInterval params h"
    and span: "\<And>h. fPowNoRetargeting params \<or> (0 < PowTargetTimespan params h \<and> PowTargetTimespan params h * 4 < 2 ^ 32)"
  shows "\<exists>c. GetNextWorkRequired st pindexLast pblock params = Some c"
proof -
  have "length (UintToArith256 (powLimit params)) = 8" by simp
  then obtain lim where lim: "GetCompact (UintToArith256 (powLimit params)) False = Some lim"
    by (rule GetCompact_decode)
  show ?thesis
  proof (cases pindexLast)
    case None
    then show ?thesis using lim by (simp add: GetNextWorkRequired_def)
  next
    case (Some p)
    then obtain b where b: "st p = Some b" using ok(2) by auto
    let ?i = "DifficultyAdjustmentInterval params (nHeight b)"
    have h: "0 \<le> nHeight b" using tree_okD(1)[OF ok(1) b] .
    obtain x where x: "last_non_special st params (nHeight b) lim p = Some x"
      using last_non_special_total[OF ok(1) b] h nonneg_int_cases by metis
    show ?thesis
    proof (cases "cmod (nHeight b + 1) ?i \<noteq> 0")
      case True
      then show ?thesis using Some b lim x by (simp add: GetNextWorkRequired_def Let_def)
    next
      case False
      then have "(nHeight b + 1) mod ?i = 0" using cmod_nonneg[of "nHeight b + 1" ?i] h pos by simp
      then have "?i \<le> nHeight b + 1" using h by (intro zdvd_imp_le) auto
      then have f: "0 \<le> nHeight b - (?i - 1)" "nHeight b - (?i - 1) \<le> nHeight b" using pos[of "nHeight b"] by auto
      obtain q c where q: "GetAncestor st p (nHeight b - (?i - 1)) = Some (Some q)" "st q = Some c"
        using GetAncestor_anc[OF ok(1) b f] anc_height[OF ok(1) b, of "nat (?i - 1)"] f by auto
      obtain r where "CalculateNextWorkRequired b (GetBlockTime c) params = Some r"
        using Calculate_total span by blast
      then show ?thesis using Some b lim False q f by (simp add: GetNextWorkRequired_def Let_def)
    qed
  qed
qed

lemma main_powLimit_bytes: "powLimit CMainParams = replicate 28 255 @ [127, 0, 0, 0]"
proof -
  let ?d = "replicate 28 255 @ [127, 0, 0, 0] :: byte list"
  have "hex2 255 = ''ff''" "GetHex [127, 0, 0, 0] = ''0000007f''"
    by (simp_all add: GetHex_def hex2_def hexchar_def)
  moreover have "''0000007f'' @ concat (replicate 28 ''ff'') =
      ''0000007fffffffffffffffffffffffffffffffffffffffffffffffffffffffff''"
    by code_simp
  ultimately have "''0000007fffffffffffffffffffffffffffffffffffffffffffffffffffffffff'' = GetHex ?d"
    by (simp only: GetHex_append GetHex_replicate)
  from SetHex_digits[OF this, of 32] show ?thesis
    by (simp add: CMainParams_def uint256S_def)
qed

lemma main_powLimit: "pn_val (UintToArith256 (powLimit CMainParams)) = 2 ^ 231 - 1"
  using le_val_ones[of 28] by (simp add: main_powLimit_bytes UintToArith256_val le_val_append)

lemma main_timespan: "PowTargetTimespan CMainParams h = 86400 \<or> PowTargetTimespan CMainParams h = 3600"
  by (simp add: PowTargetTimespan_def CMainParams_def)

section \<open>Properties\<close>

lemma CheckProofOfWork_bounds:
  "CheckProofOfWork hash bits params \<longleftrightarrow>
     \<not> bit bits 23 \<and> 0 < compact_val bits \<and> compact_val bits \<le> pn_val (UintToArith256 (powLimit params)) \<and>
     pn_val (UintToArith256 hash) \<le> compact_val bits"
proof -
  obtain t n f where s: "SetCompact bits = (t, n, f)" by (cases "SetCompact bits")
  note sv = SetCompact_value[OF s]
  have L: "pn_val (UintToArith256 (powLimit params)) < 2 ^ 256" by (rule pn_val_less256) simp
  have "CheckProofOfWork hash bits params \<longleftrightarrow> \<not> n \<and> pn_val t \<noteq> 0 \<and> \<not> f \<and>
      pn_val t \<le> pn_val (UintToArith256 (powLimit params)) \<and> pn_val (UintToArith256 hash) \<le> pn_val t"
    using sv(1) by (auto simp: CheckProofOfWork_def s EqualTo_iff au.cmp_gt_iff)
  also have "\<dots> \<longleftrightarrow> \<not> bit bits 23 \<and> 0 < compact_val bits \<and>
      compact_val bits \<le> pn_val (UintToArith256 (powLimit params)) \<and> pn_val (UintToArith256 hash) \<le> compact_val bits"
  proof (cases "compact_val bits < 2 ^ 256")
    case True
    then show ?thesis using sv by auto
  next
    case False
    then show ?thesis using sv(2) L by auto
  qed
  finally show ?thesis .
qed

text \<open>\<^verbatim>\<open>CheckProofOfWork\<close> accepts exactly the hashes, read as little-endian numbers, that are not above
  the decoded target, for targets that are positive, not negative, do not overflow and are not above the
  limit of the network.\<close>

lemma CheckProofOfWork_iff:
  "CheckProofOfWork hash bits params \<longleftrightarrow>
     \<not> bit bits 23 \<and> 0 < compact_val bits \<and> compact_val bits \<le> pn_val (UintToArith256 (powLimit params)) \<and>
     pn_val (UintToArith256 hash) \<le> compact_val bits"
  by (rule CheckProofOfWork_bounds)

text \<open>The work \<^verbatim>\<open>GetBlockProof\<close> assigns to a block is \<open>2 ^ 256 div (target + 1)\<close>, although
  \<open>2 ^ 256\<close> itself does not fit the integers the code computes with; it is 0 for an invalid target, and the
  division never throws.\<close>

lemma GetBlockProof_correct:
  "\<exists>w. GetBlockProof b = Some w \<and> length w = WIDTH \<and>
     pn_val w = (if bit (bi_nBits b) 23 \<or> compact_val (bi_nBits b) = 0 \<or> compact_val (bi_nBits b) \<ge> 2 ^ 256 then 0
                 else 2 ^ 256 div (compact_val (bi_nBits b) + 1))"
  using GetBlockProof_value[of b] by simp

text \<open>On the main network \<^verbatim>\<open>GetNextWorkRequired\<close> returns for every block of a well-formed tree: neither
  of its assertions fails, no null pointer is followed and the retarget never divides by zero.\<close>

lemma GetNextWorkRequired_total:
  assumes "tree_ok st" "\<forall>p. pindexLast = Some p \<longrightarrow> p \<in> dom st"
  shows "\<exists>c. GetNextWorkRequired st pindexLast pblock CMainParams = Some c"
proof (rule GetNextWorkRequired_total_gen[OF assms])
  show "0 < DifficultyAdjustmentInterval CMainParams h" for h by (simp add: main_intervals)
  show "fPowNoRetargeting CMainParams \<or>
      (0 < PowTargetTimespan CMainParams h \<and> PowTargetTimespan CMainParams h * 4 < 2 ^ 32)" for h
    using main_timespan[of h] by auto
qed



text \<open>Exchanging the two blocks negates \<^verbatim>\<open>GetBlockProofEquivalentTime\<close>, the saturated case included,
  unless both have the same work.\<close>

lemma proof_equivalent_time_antisym:
  assumes "length (nChainWork a) = WIDTH" "length (nChainWork b) = WIDTH" "nChainWork a \<noteq> nChainWork b"
  shows "GetBlockProofEquivalentTime b a tip params = map_option uminus (GetBlockProofEquivalentTime a b tip params)"
proof -
  have l: "length (nChainWork a) = 8" "length (nChainWork b) = 8" using assms by simp_all
  have ne: "pn_val (nChainWork a) \<noteq> pn_val (nChainWork b)" using au.inject l assms(3) by blast
  obtain p where p: "GetBlockProof tip = Some p" "length p = 8" using GetBlockProof_value by blast
  have ti: "to_i64 (- int (unat (GetLow64 r))) = - to_i64 (int (unat (GetLow64 r)))"
    if "length r = 8" "bu_bits r \<le> 63" for r
  proof -
    have "pn_val r < 2 ^ 63"
      using bu_bits_upper[of r] power_increasing[OF that(2), of "2::nat"] by simp
    then show ?thesis using GetLow64_val[OF that(1)] by (intro to_i64_uminus) simp
  qed
  show ?thesis
  proof (cases "pn_val (nChainWork b) < pn_val (nChainWork a)")
    case True
    then have c: "CompareTo (nChainWork a) (nChainWork b) > 0" "\<not> CompareTo (nChainWork b) (nChainWork a) > 0"
      using l by (simp_all add: au.cmp_gt_iff)
    have "length q = 8" if "bu_div (bu_mul x y) p = Some q" for x y q
      using au.quot(2)[OF _ p(2) that] by simp
    with c p(1) ti show ?thesis
      by (auto simp: GetBlockProofEquivalentTime_def Let_def split: Option.bind_splits)
  next
    case False
    then have c: "CompareTo (nChainWork b) (nChainWork a) > 0" "\<not> CompareTo (nChainWork a) (nChainWork b) > 0"
      using l ne by (simp_all add: au.cmp_gt_iff)
    have "length q = 8" if "bu_div (bu_mul x y) p = Some q" for x y q
      using au.quot(2)[OF _ p(2) that] by simp
    with c p(1) ti show ?thesis
      by (auto simp: GetBlockProofEquivalentTime_def Let_def split: Option.bind_splits)
  qed
qed

end
