(* ===== verification/VersionBits.thy ===== *)
theory VersionBits
  imports Chain Params
begin

text \<open>
  The deployment state machine of \<^verbatim>\<open>versionbits.cpp\<close>: \<^verbatim>\<open>AbstractThresholdConditionChecker\<close> is a record of
  its virtual methods, the cache a map from parent blocks (\<^verbatim>\<open>NULL\<close> included) to states.
  \<open>GetStateFor\<close> walks back to a known state and forward again; \<open>vb_ref\<close> is the plain recursion over the
  retarget periods, without a cache and without the shortcut for early blocks.
\<close>

definition VERSIONBITS_LAST_OLD_BLOCK_VERSION :: int where "VERSIONBITS_LAST_OLD_BLOCK_VERSION = 4"
definition VERSIONBITS_TOP_BITS :: u32 where "VERSIONBITS_TOP_BITS = 0x20000000"
definition VERSIONBITS_TOP_MASK :: u32 where "VERSIONBITS_TOP_MASK = 0xE0000000"
definition VERSIONBITS_NUM_BITS :: nat where "VERSIONBITS_NUM_BITS = 29"

datatype ThresholdState = THRESHOLD_DEFINED | THRESHOLD_STARTED | THRESHOLD_LOCKED_IN | THRESHOLD_ACTIVE
  | THRESHOLD_FAILED

type_synonym ThresholdConditionCache = "nat option \<rightharpoonup> ThresholdState"

record ConditionChecker =
  Condition :: "CBlockIndex \<Rightarrow> bool"
  BeginTime :: int
  EndTime :: int
  Period :: nat
  Threshold :: nat

text \<open>The walk back to a block whose state is known, with the blocks passed on the way.\<close>

partial_function (option) vb_back ::
    "block_store \<Rightarrow> ConditionChecker \<Rightarrow> nat option \<Rightarrow> ThresholdConditionCache \<Rightarrow> nat list
       \<Rightarrow> (nat option \<times> ThresholdConditionCache \<times> nat list) option" where
  "vb_back st ck pindexPrev cache vToCompute =
     (if cache pindexPrev \<noteq> None then Some (pindexPrev, cache, vToCompute)
      else case pindexPrev of
        None \<Rightarrow> Some (None, cache(None \<mapsto> THRESHOLD_DEFINED), vToCompute)
      | Some p \<Rightarrow>
          do { m \<leftarrow> GetMedianTimePast st p;
               if m < BeginTime ck then Some (pindexPrev, cache(pindexPrev \<mapsto> THRESHOLD_DEFINED), vToCompute)
               else do { b \<leftarrow> st p;
                         q \<leftarrow> GetAncestor st p (nHeight b - int (Period ck));
                         vb_back st ck q cache (vToCompute @ [p]) } })"

text \<open>The loop that counts the signalling blocks of the period that ends in a block.\<close>

fun vb_count :: "block_store \<Rightarrow> ConditionChecker \<Rightarrow> nat \<Rightarrow> nat option \<Rightarrow> nat option" where
  "vb_count st ck 0 pindexCount = Some 0"
| "vb_count st ck (Suc i) pindexCount =
     do { p \<leftarrow> pindexCount; b \<leftarrow> st p; c \<leftarrow> vb_count st ck i (pprev b);
          Some (c + (if Condition ck b then 1 else 0)) }"

text \<open>The \<^verbatim>\<open>switch\<close> over the state before the period.\<close>

fun vb_next :: "block_store \<Rightarrow> ConditionChecker \<Rightarrow> ThresholdState \<Rightarrow> nat \<Rightarrow> ThresholdState option" where
  "vb_next st ck THRESHOLD_DEFINED p =
     do { m \<leftarrow> GetMedianTimePast st p;
          Some (if m \<ge> EndTime ck then THRESHOLD_FAILED
                else if m \<ge> BeginTime ck then THRESHOLD_STARTED else THRESHOLD_DEFINED) }"
| "vb_next st ck THRESHOLD_STARTED p =
     do { m \<leftarrow> GetMedianTimePast st p;
          if m \<ge> EndTime ck then Some THRESHOLD_FAILED
          else do { count \<leftarrow> vb_count st ck (Period ck) (Some p);
                    Some (if count \<ge> Threshold ck then THRESHOLD_LOCKED_IN else THRESHOLD_STARTED) } }"
| "vb_next st ck THRESHOLD_LOCKED_IN p = Some THRESHOLD_ACTIVE"
| "vb_next st ck THRESHOLD_FAILED p = Some THRESHOLD_FAILED"
| "vb_next st ck THRESHOLD_ACTIVE p = Some THRESHOLD_ACTIVE"

text \<open>The walk forward, from the block pushed last.\<close>

fun vb_forward :: "block_store \<Rightarrow> ConditionChecker \<Rightarrow> nat list \<Rightarrow> ThresholdState \<Rightarrow> ThresholdConditionCache
    \<Rightarrow> (ThresholdState \<times> ThresholdConditionCache) option" where
  "vb_forward st ck [] state cache = Some (state, cache)"
| "vb_forward st ck (p # ps) state cache =
     do { state' \<leftarrow> vb_next st ck state p;
          vb_forward st ck ps state' (cache(Some p \<mapsto> state')) }"

definition GetStateFor :: "block_store \<Rightarrow> ConditionChecker \<Rightarrow> nat option \<Rightarrow> ThresholdConditionCache
    \<Rightarrow> (ThresholdState \<times> ThresholdConditionCache) option" where
  "GetStateFor st ck pindexPrev cache =
     do { p0 \<leftarrow> (case pindexPrev of
                   None \<Rightarrow> Some None
                 | Some p \<Rightarrow> do { b \<leftarrow> st p;
                       GetAncestor st p (nHeight b - (nHeight b + 1) mod int (Period ck)) });
          (p1, cache1, vToCompute) \<leftarrow> vb_back st ck p0 cache [];
          state \<leftarrow> cache1 p1;
          vb_forward st ck (rev vToCompute) state cache1 }"

text \<open>\<^verbatim>\<open>VersionBitsConditionChecker\<close>\<close>

definition VersionBitsMask :: "consensus_params \<Rightarrow> DeploymentPos \<Rightarrow> u32" where
  "VersionBitsMask params pos = push_bit (bip9_bit (vDeployments params pos)) 1"

definition VersionBitsConditionChecker :: "consensus_params \<Rightarrow> DeploymentPos \<Rightarrow> ConditionChecker" where
  "VersionBitsConditionChecker params pos =
     \<lparr> Condition = (\<lambda>b. let v = word_of_int (bi_nVersion b) :: u32
                         in v AND VERSIONBITS_TOP_MASK = VERSIONBITS_TOP_BITS \<and> v AND VersionBitsMask params pos \<noteq> 0),
       BeginTime = nStartTime (vDeployments params pos),
       EndTime = nTimeout (vDeployments params pos),
       Period = nMinerConfirmationWindow params,
       Threshold = nRuleChangeActivationThreshold params \<rparr>"

type_synonym VersionBitsCache = "DeploymentPos \<Rightarrow> ThresholdConditionCache"

definition VersionBitsState :: "block_store \<Rightarrow> nat option \<Rightarrow> consensus_params \<Rightarrow> DeploymentPos \<Rightarrow> VersionBitsCache
    \<Rightarrow> (ThresholdState \<times> VersionBitsCache) option" where
  "VersionBitsState st pindexPrev params pos caches =
     do { (s, c) \<leftarrow> GetStateFor st (VersionBitsConditionChecker params pos) pindexPrev (caches pos);
          Some (s, caches(pos := c)) }"

definition VersionBitsCache_Clear :: VersionBitsCache where
  "VersionBitsCache_Clear = (\<lambda>pos. Map.empty)"

text \<open>\<^verbatim>\<open>ComputeBlockVersion\<close> of \<^verbatim>\<open>main.cpp\<close>: the loop over the deployments.\<close>

definition ComputeBlockVersion :: "block_store \<Rightarrow> nat option \<Rightarrow> consensus_params \<Rightarrow> VersionBitsCache
    \<Rightarrow> (u32 \<times> VersionBitsCache) option" where
  "ComputeBlockVersion st pindexPrev params caches =
     fold (\<lambda>pos acc. do { (v, c) \<leftarrow> acc;
                          (s, c') \<leftarrow> VersionBitsState st pindexPrev params pos c;
                          Some (if s = THRESHOLD_LOCKED_IN \<or> s = THRESHOLD_STARTED
                                then v OR VersionBitsMask params pos else v, c') })
       [DEPLOYMENT_TESTDUMMY, DEPLOYMENT_CSV] (Some (VERSIONBITS_TOP_BITS, caches))"

section \<open>The reference state machine\<close>

text \<open>The state after \<open>k\<close> whole periods, the last of which ends in block \<open>r\<close>.\<close>

fun vb_ref :: "block_store \<Rightarrow> ConditionChecker \<Rightarrow> nat \<Rightarrow> nat option \<Rightarrow> ThresholdState option" where
  "vb_ref st ck 0 r = Some THRESHOLD_DEFINED"
| "vb_ref st ck (Suc k) None = None"
| "vb_ref st ck (Suc k) (Some p) = do { s \<leftarrow> vb_ref st ck k (anc st p (Period ck)); vb_next st ck s p }"

text \<open>Block \<open>r\<close> ends the \<open>k\<close>-th period.\<close>

definition period_end :: "block_store \<Rightarrow> ConditionChecker \<Rightarrow> nat \<Rightarrow> nat option \<Rightarrow> bool" where
  "period_end st ck k r \<longleftrightarrow> (case r of None \<Rightarrow> k = 0
     | Some p \<Rightarrow> k > 0 \<and> (\<exists>b. st p = Some b \<and> nHeight b + 1 = int (k * Period ck)))"

definition cache_ok :: "block_store \<Rightarrow> ConditionChecker \<Rightarrow> ThresholdConditionCache \<Rightarrow> bool" where
  "cache_ok st ck c \<longleftrightarrow> (\<forall>r s. c r = Some s \<longrightarrow> (\<exists>k. period_end st ck k r \<and> vb_ref st ck k r = Some s))"

text \<open>Every block is later than the median time past of its predecessor.\<close>

definition times_ok :: "block_store \<Rightarrow> bool" where
  "times_ok st \<longleftrightarrow> (\<forall>p b q m. st p = Some b \<longrightarrow> pprev b = Some q \<longrightarrow> GetMedianTimePast st q = Some m
     \<longrightarrow> m < GetBlockTime b)"

lemma MTP_total: "tree_ok st \<Longrightarrow> st p = Some b \<Longrightarrow> \<exists>m. GetMedianTimePast st p = Some m"
  using median_times_total[of st p b nMedianTimeSpan] by (auto simp: GetMedianTimePast_eq)

lemma MTP_anc_le:
  assumes "tree_ok st" "times_ok st" "st p = Some b" "GetMedianTimePast st p = Some m"
  shows "anc st p n = Some q \<Longrightarrow> \<exists>m'. GetMedianTimePast st q = Some m' \<and> m' \<le> m"
proof (induction n arbitrary: q)
  case 0
  then show ?case using assms by simp
next
  case (Suc n)
  then obtain r c where r: "anc st p n = Some r" "st r = Some c" "pprev c = Some q"
    by (auto split: Option.bind_splits)
  obtain m1 where m1: "GetMedianTimePast st r = Some m1" "m1 \<le> m" using Suc.IH[OF r(1)] by blast
  obtain d where d: "st q = Some d" using tree_okD(3)[OF assms(1) r(2,3)] by blast
  obtain m2 where m2: "GetMedianTimePast st q = Some m2" using MTP_total[OF assms(1) d] by blast
  have "m2 < GetBlockTime c" using assms(2) r(2,3) m2 unfolding times_ok_def by blast
  with GetMedianTimePast_step[OF assms(1) r(2,3) m2] m1 show ?case using m2 by auto
qed

lemma vb_count_total:
  assumes "tree_ok st"
  shows "st p = Some b \<Longrightarrow> int n \<le> nHeight b + 1 \<Longrightarrow> \<exists>c. vb_count st ck n (Some p) = Some c"
proof (induction n arbitrary: p b)
  case (Suc n)
  show ?case
  proof (cases n)
    case 0
    then show ?thesis using Suc.prems by simp
  next
    case (Suc m)
    then have "0 < nHeight b" using Suc.prems by simp
    then obtain q d where q: "pprev b = Some q" "st q = Some d" "nHeight d = nHeight b - 1"
      using tree_ok_prev[OF assms Suc.prems(1)] by metis
    then show ?thesis using Suc.IH[OF q(2)] Suc.prems by auto
  qed
qed simp

lemma vb_next_total:
  assumes "tree_ok st" "st p = Some b" "int (Period ck) \<le> nHeight b + 1"
  shows "\<exists>s'. vb_next st ck s p = Some s'"
  using MTP_total[OF assms(1,2)] vb_count_total[OF assms, of ck] by (cases s) auto

lemma period_end_back:
  assumes ok: "tree_ok st" "0 < Period ck" and p: "period_end st ck (Suc k) (Some p)"
  shows "period_end st ck k (anc st p (Period ck))"
    and "st p = Some b \<Longrightarrow> GetAncestor st p (nHeight b - int (Period ck)) = Some (anc st p (Period ck))"
proof -
  obtain b where b: "st p = Some b" "nHeight b + 1 = int (Suc k * Period ck)"
    using p by (auto simp: period_end_def)
  show "period_end st ck k (anc st p (Period ck))"
  proof (cases k)
    case 0
    then show ?thesis using anc_beyond[OF ok(1) b(1), of "Period ck"] b(2) by (simp add: period_end_def)
  next
    case (Suc j)
    have "Period ck + 1 \<le> Suc k * Period ck" using Suc ok(2) by (cases "Period ck") simp_all
    then have "int (Period ck) \<le> nHeight b" using b(2) by linarith
    then obtain q d where "anc st p (Period ck) = Some q" "st q = Some d" "nHeight d = nHeight b - int (Period ck)"
      using anc_height[OF ok(1) b(1)] by blast
    then show ?thesis using b(2) Suc by (simp add: period_end_def algebra_simps)
  qed
  show "GetAncestor st p (nHeight b - int (Period ck)) = Some (anc st p (Period ck))" if "st p = Some b" for b
    using GetAncestor_anc[OF ok(1) that, of "nHeight b - int (Period ck)"] anc_beyond[OF ok(1) that, of "Period ck"]
    by (cases "int (Period ck) \<le> nHeight b") (auto simp: GetAncestor_def that)
qed

lemma vb_ref_total:
  assumes "tree_ok st" "0 < Period ck"
  shows "period_end st ck k r \<Longrightarrow> \<exists>s. vb_ref st ck k r = Some s"
proof (induction k arbitrary: r)
  case (Suc k)
  then obtain p b where p: "r = Some p" "st p = Some b" "nHeight b + 1 = int (Suc k * Period ck)"
    by (auto simp: period_end_def split: option.splits)
  obtain s where "vb_ref st ck k (anc st p (Period ck)) = Some s"
    using Suc.IH period_end_back(1)[OF assms] Suc.prems p(1) by blast
  moreover have "int (Period ck) \<le> nHeight b + 1" using p(3) by simp
  ultimately show ?case using vb_next_total[OF assms(1) p(2)] p(1) by auto
qed simp

text \<open>The shortcut of the walk back: a block before the start time is still \<open>DEFINED\<close>.\<close>

lemma vb_ref_early:
  assumes ok: "tree_ok st" "times_ok st" "0 < Period ck" "BeginTime ck \<le> EndTime ck"
  shows "period_end st ck k (Some p) \<Longrightarrow> GetMedianTimePast st p = Some m \<Longrightarrow> m < BeginTime ck \<Longrightarrow>
     vb_ref st ck k (Some p) = Some THRESHOLD_DEFINED"
proof (induction k arbitrary: p m)
  case (Suc k)
  obtain b where b: "st p = Some b" using Suc.prems(1) by (auto simp: period_end_def)
  have "vb_ref st ck k (anc st p (Period ck)) = Some THRESHOLD_DEFINED"
  proof (cases k)
    case k: (Suc j)
    note pe = period_end_back(1)[OF ok(1,3) Suc.prems(1)]
    then obtain q where q: "anc st p (Period ck) = Some q" using k by (auto simp: period_end_def split: option.splits)
    obtain m' where "GetMedianTimePast st q = Some m'" "m' \<le> m"
      using MTP_anc_le[OF ok(1,2) b Suc.prems(2) q] by blast
    then show ?thesis using Suc.IH[of q m'] pe Suc.prems(3) q by simp
  qed simp
  then show ?case using Suc.prems(2,3) ok(4) by simp
qed simp

lemma vb_forward_append:
  "vb_forward st ck (xs @ ys) s c = do { (s', c') \<leftarrow> vb_forward st ck xs s c; vb_forward st ck ys s' c' }"
  by (induction xs arbitrary: s c) (auto simp: Option.bind_assoc intro: Option.bind_cong)

lemma cache_ok_upd:
  "cache_ok st ck c \<Longrightarrow> period_end st ck k r \<Longrightarrow> vb_ref st ck k r = Some s \<Longrightarrow> cache_ok st ck (c(r \<mapsto> s))"
  by (auto simp: cache_ok_def)

lemma period_end_unique:
  assumes "0 < Period ck" "period_end st ck k r" "period_end st ck j r" shows "k = j"
  using assms by (auto simp: period_end_def simp flip: of_nat_mult split: option.splits)

text \<open>The walk back, and the walk forward over the blocks it collected.\<close>

lemma vb_back_forward:
  assumes ok: "tree_ok st" "times_ok st" "0 < Period ck" "BeginTime ck \<le> EndTime ck"
  shows "period_end st ck k r \<Longrightarrow> cache_ok st ck c \<Longrightarrow> vb_ref st ck k r = Some s \<Longrightarrow>
     \<exists>r1 c1 ws s1. vb_back st ck r c v = Some (r1, c1, v @ ws) \<and> cache_ok st ck c1 \<and> c1 r1 = Some s1 \<and>
       (\<forall>c2. cache_ok st ck c2 \<longrightarrow> (\<exists>c3. vb_forward st ck (rev ws) s1 c2 = Some (s, c3) \<and> cache_ok st ck c3))"
proof (induction k arbitrary: r s v)
  case 0
  then have r: "r = None" "s = THRESHOLD_DEFINED" by (auto simp: period_end_def split: option.splits)
  show ?case
  proof (cases "c None")
    case None
    have "cache_ok st ck (c(None \<mapsto> THRESHOLD_DEFINED))"
      by (rule cache_ok_upd[of _ _ _ 0]) (use 0 r in \<open>auto simp: period_end_def\<close>)
    then show ?thesis using None r by (subst vb_back.simps) auto
  next
    case (Some s1)
    then obtain k where "period_end st ck k None" "vb_ref st ck k None = Some s1"
      using "0.prems"(2) unfolding cache_ok_def by blast
    then have "s1 = THRESHOLD_DEFINED" by (simp add: period_end_def)
    then show ?thesis using Some r "0.prems"(2) by (subst vb_back.simps) auto
  qed
next
  case (Suc k)
  obtain p b where p: "r = Some p" "st p = Some b"
    using Suc.prems(1) by (auto simp: period_end_def split: option.splits)
  obtain m where m: "GetMedianTimePast st p = Some m" using MTP_total[OF ok(1) p(2)] by blast
  show ?case
  proof (cases "c r")
    case (Some s1)
    then obtain j where "period_end st ck j r" "vb_ref st ck j r = Some s1" using Suc.prems(2) by (auto simp: cache_ok_def)
    then have "s1 = s" using period_end_unique[OF ok(3) Suc.prems(1)] Suc.prems(3) by auto
    then show ?thesis using Some Suc.prems(2) by (subst vb_back.simps) auto
  next
    case None
    show ?thesis
    proof (cases "m < BeginTime ck")
      case True
      then have "s = THRESHOLD_DEFINED"
        using vb_ref_early[OF ok Suc.prems(1)[unfolded p(1)] m] Suc.prems(3)[unfolded p(1)] by simp
      moreover have "cache_ok st ck (c(r \<mapsto> s))" by (rule cache_ok_upd) (use Suc.prems in auto)
      ultimately show ?thesis using None True m p by (subst vb_back.simps) auto
    next
      case False
      note pe = period_end_back[OF ok(1,3), of k p] Suc.prems(1)[unfolded p(1)]
      let ?q = "anc st p (Period ck)"
      obtain s0 where s0: "vb_ref st ck k ?q = Some s0" "vb_next st ck s0 p = Some s"
        using Suc.prems(3) p(1) by (auto split: Option.bind_splits)
      obtain r1 c1 ws s1 where w: "vb_back st ck ?q c (v @ [p]) = Some (r1, c1, (v @ [p]) @ ws)"
        "cache_ok st ck c1" "c1 r1 = Some s1"
        "\<forall>c2. cache_ok st ck c2 \<longrightarrow> (\<exists>c3. vb_forward st ck (rev ws) s1 c2 = Some (s0, c3) \<and> cache_ok st ck c3)"
        using Suc.IH[OF pe(1)[OF pe(3)] Suc.prems(2) s0(1), of "v @ [p]"] by blast
      have "vb_back st ck r c v = vb_back st ck ?q c (v @ [p])"
        using None False m p pe(2)[OF pe(3) p(2)] by (subst vb_back.simps) simp
      moreover have "\<exists>c3. vb_forward st ck (rev (p # ws)) s1 c2 = Some (s, c3) \<and> cache_ok st ck c3"
        if ok2: "cache_ok st ck c2" for c2
      proof -
        obtain c3 where c3: "vb_forward st ck (rev ws) s1 c2 = Some (s0, c3)" "cache_ok st ck c3" using w(4) ok2 by blast
        moreover have "cache_ok st ck (c3(Some p \<mapsto> s))"
          by (rule cache_ok_upd[OF c3(2)]) (use Suc.prems p(1) in auto)
        ultimately show ?thesis using s0(2) by (simp add: vb_forward_append)
      qed
      ultimately show ?thesis using w(1-3) by (intro exI[of _ r1] exI[of _ c1] exI[of _ "p # ws"] exI[of _ s1]) simp
    qed
  qed
qed

text \<open>The block that ends the last whole period before the child of \<open>pindexPrev\<close>, and its number.\<close>

definition last_period :: "block_store \<Rightarrow> ConditionChecker \<Rightarrow> nat option \<Rightarrow> nat \<times> nat option" where
  "last_period st ck r = (case r of None \<Rightarrow> (0, None)
     | Some p \<Rightarrow> let n = nat (nHeight (the (st p)) + 1) in (n div Period ck, anc st p (n mod Period ck)))"

lemma last_period_end:
  assumes ok: "tree_ok st" "0 < Period ck" "\<forall>p. r = Some p \<longrightarrow> p \<in> dom st" and "last_period st ck r = (k, e)"
  shows "period_end st ck k e"
    and "(case r of None \<Rightarrow> Some None | Some p \<Rightarrow> do { b \<leftarrow> st p;
            GetAncestor st p (nHeight b - (nHeight b + 1) mod int (Period ck)) }) = Some e"
proof -
  have "period_end st ck k e \<and> (case r of None \<Rightarrow> Some None | Some p \<Rightarrow> do { b \<leftarrow> st p;
            GetAncestor st p (nHeight b - (nHeight b + 1) mod int (Period ck)) }) = Some e"
  proof (cases r)
    case None
    then show ?thesis using assms(4) by (simp add: last_period_def period_end_def)
  next
    case (Some p)
    then obtain b where b: "st p = Some b" using ok(3) by auto
    obtain h where h: "nHeight b = int h" using tree_okD(1)[OF ok(1) b] nonneg_int_cases by metis
    define m where "m = Suc h mod Period ck"
    have ke: "k = Suc h div Period ck" "e = anc st p m"
      using assms(4) Some b h by (auto simp: last_period_def m_def nat_add_distrib Let_def)
    have im: "(nHeight b + 1) mod int (Period ck) = int m"
      unfolding h m_def zmod_int by (simp add: add.commute)
    have sum: "Suc h = k * Period ck + m" by (simp add: ke m_def)
    show ?thesis
    proof (cases "m \<le> h")
      case True
      then obtain q d where q: "anc st p m = Some q" "st q = Some d" "nHeight d = nHeight b - int m"
        using anc_height[OF ok(1) b, of m] h by auto
      have "0 < k" using sum True by (cases k) auto
      moreover have "nHeight d + 1 = int (k * Period ck)" using q(3) h sum by linarith
      ultimately have "period_end st ck k e" using q ke(2) by (auto simp: period_end_def)
      moreover have "GetAncestor st p (nHeight b - int m) = Some e"
        using GetAncestor_anc[OF ok(1) b, of "nHeight b - int m"] True h ke(2) by simp
      ultimately show ?thesis using Some b im by simp
    next
      case False
      then have "k * Period ck = 0" "m = Suc h" using sum by linarith+
      then have "k = 0" using ok(2) by simp
      moreover have "e = None" using anc_beyond[OF ok(1) b, of m] h ke(2) \<open>m = Suc h\<close> by simp
      ultimately show ?thesis using Some b im h \<open>m = Suc h\<close> by (simp add: period_end_def GetAncestor_def)
    qed
  qed
  then show "period_end st ck k e" "(case r of None \<Rightarrow> Some None | Some p \<Rightarrow> do { b \<leftarrow> st p;
            GetAncestor st p (nHeight b - (nHeight b + 1) mod int (Period ck)) }) = Some e" by simp_all
qed

lemma GetStateFor_ref:
  assumes ok: "tree_ok st" "times_ok st" "0 < Period ck" "BeginTime ck \<le> EndTime ck"
    and c: "cache_ok st ck c" "\<forall>p. r = Some p \<longrightarrow> p \<in> dom st" and lp: "last_period st ck r = (k, e)"
  shows "\<exists>s c'. GetStateFor st ck r c = Some (s, c') \<and> cache_ok st ck c' \<and> vb_ref st ck k e = Some s"
proof -
  note le = last_period_end[OF ok(1,3) c(2) lp]
  obtain s where s: "vb_ref st ck k e = Some s" using vb_ref_total[OF ok(1,3) le(1)] by blast
  obtain r1 c1 ws s1 where w: "vb_back st ck e c [] = Some (r1, c1, ws)" "cache_ok st ck c1" "c1 r1 = Some s1"
    "\<forall>c2. cache_ok st ck c2 \<longrightarrow> (\<exists>c3. vb_forward st ck (rev ws) s1 c2 = Some (s, c3) \<and> cache_ok st ck c3)"
    using vb_back_forward[OF ok le(1) c(1) s, of "[]"] by auto
  then obtain c3 where "vb_forward st ck (rev ws) s1 c1 = Some (s, c3)" "cache_ok st ck c3" by blast
  then have "GetStateFor st ck r c = Some (s, c3)" unfolding GetStateFor_def le(2) using w by simp
  with s \<open>cache_ok st ck c3\<close> show ?thesis by blast
qed

section \<open>Properties\<close>

text \<open>\<^verbatim>\<open>GetStateFor\<close> terminates, and for every cache of correct entries it returns the state of the
  reference recursion over whole periods and leaves a cache of correct entries; the cache and the shortcut
  for blocks before the start time change nothing. The blocks obey the rule on median time past.\<close>

lemma GetStateFor_correct:
  assumes "tree_ok st" "times_ok st" "0 < Period ck" "BeginTime ck \<le> EndTime ck"
    and "cache_ok st ck cache" "\<forall>p. pindexPrev = Some p \<longrightarrow> p \<in> dom st"
  shows "\<exists>s cache'. GetStateFor st ck pindexPrev cache = Some (s, cache') \<and> cache_ok st ck cache' \<and>
           Some s = (case last_period st ck pindexPrev of (k, e) \<Rightarrow> vb_ref st ck k e)"
  using GetStateFor_ref[OF assms] by (cases "last_period st ck pindexPrev") fastforce

lemma vb_ref_no_window:
  assumes "BeginTime ck = EndTime ck"
  shows "vb_ref st ck k r = Some s \<Longrightarrow> s = THRESHOLD_DEFINED \<or> s = THRESHOLD_FAILED"
proof (induction k arbitrary: r s)
  case (Suc k)
  then obtain p s0 where "r = Some p" "vb_ref st ck k (anc st p (Period ck)) = Some s0" "vb_next st ck s0 p = Some s"
    by (cases r) (auto split: Option.bind_splits)
  moreover from this(2) have "s0 = THRESHOLD_DEFINED \<or> s0 = THRESHOLD_FAILED" by (rule Suc.IH)
  ultimately show ?case using assms by (auto split: Option.bind_splits if_splits)
qed simp

text \<open>C40: on the main network the deployment window of both deployments is empty (the start time equals the
  timeout), so neither the CSV rules nor the test deployment is ever started, locked in or active: the state
  is \<open>DEFINED\<close> or \<open>FAILED\<close> for every block.\<close>

theorem main_deployments_never_start:
  assumes "tree_ok st" "times_ok st" "\<forall>p. pindexPrev = Some p \<longrightarrow> p \<in> dom st"
    and "\<forall>pos. cache_ok st (VersionBitsConditionChecker CMainParams pos) (caches pos)"
  shows "\<exists>s caches'. VersionBitsState st pindexPrev CMainParams pos caches = Some (s, caches') \<and>
           (s = THRESHOLD_DEFINED \<or> s = THRESHOLD_FAILED)"
proof -
  let ?ck = "VersionBitsConditionChecker CMainParams pos"
  have w: "0 < Period ?ck" "BeginTime ?ck = EndTime ?ck"
    by (cases pos; simp add: VersionBitsConditionChecker_def CMainParams_def)+
  obtain k e where lp: "last_period st ?ck pindexPrev = (k, e)" by (cases "last_period st ?ck pindexPrev")
  from GetStateFor_ref[OF assms(1,2) w(1) _ _ assms(3) lp, of "caches pos"] w(2) assms(4)
  obtain s c' where "GetStateFor st ?ck pindexPrev (caches pos) = Some (s, c')" "vb_ref st ?ck k e = Some s"
    by auto
  with vb_ref_no_window[OF w(2)] show ?thesis by (auto simp: VersionBitsState_def)
qed

text \<open>The last state of a deployment is final: once a period ends \<open>ACTIVE\<close> or \<open>FAILED\<close>, every later
  period on every branch above it ends in the same state.\<close>

lemma terminal_states_final:
  assumes "vb_ref st ck k (Some e) = Some s" "s = THRESHOLD_ACTIVE \<or> s = THRESHOLD_FAILED"
  shows "anc st p (n * Period ck) = Some e \<Longrightarrow> vb_ref st ck (k + n) (Some p) = Some s"
proof (induction n arbitrary: p)
  case (Suc n)
  have "anc st p (Suc n * Period ck) = do { q \<leftarrow> anc st p (Period ck); anc st q (n * Period ck) }"
    using anc_add[of st p "Period ck" "n * Period ck"] by (simp only: mult_Suc)
  then obtain q where "anc st p (Period ck) = Some q" "anc st q (n * Period ck) = Some e"
    using Suc.prems by (auto split: Option.bind_splits)
  then show ?case using Suc.IH[of q] assms(2) by auto
qed (use assms in simp)

section \<open>Witnesses\<close>

lemma demo_times_ok: "times_ok demo_tree"
proof -
  have t: "GetBlockTime (block_at t h a s) = 1558007865 + 120 * int t" if "t < 5" for t h a s
  proof -
    have "1558007865 + 120 * t < 2 ^ LENGTH(32)" using that by simp
    then show ?thesis unfolding GetBlockTime_def block_at_sel by (subst unat_of_nat_small) simp_all
  qed
  have m: "median_times demo_tree (Suc (Suc (Suc (Suc n)))) (Some 12) = Some [1558008105, 1558007985, 1558007865]"
    "median_times demo_tree (Suc (Suc (Suc (Suc n)))) (Some 11) = Some [1558007985, 1558007865]"
    "median_times demo_tree (Suc (Suc (Suc (Suc n)))) (Some 10) = Some [1558007865]" for n
    by (simp_all add: t median_times_None)
  have mtp: "GetMedianTimePast demo_tree 12 = Some 1558007985" "GetMedianTimePast demo_tree 11 = Some 1558007985"
    "GetMedianTimePast demo_tree 10 = Some 1558007865"
    using m[of 7] by (simp_all add: GetMedianTimePast_eq nMedianTimeSpan_def median_def)
  show ?thesis
    unfolding times_ok_def
  proof (intro allI impI)
    fix p b q m assume a: "demo_tree p = Some b" "pprev b = Some q" "GetMedianTimePast demo_tree q = Some m"
    show "m < GetBlockTime b" using demo_dom[OF a(1)] a by (elim disjE) (auto simp: mtp t)
  qed
qed

theorem main_deployments_never_start_witness:
  "\<exists>s caches'. VersionBitsState demo_tree (Some 13) CMainParams DEPLOYMENT_CSV VersionBitsCache_Clear = Some (s, caches') \<and>
           (s = THRESHOLD_DEFINED \<or> s = THRESHOLD_FAILED)"
  by (rule main_deployments_never_start[OF demo_tree_ok demo_times_ok])
    (simp_all add: domIff cache_ok_def VersionBitsCache_Clear_def)

end
