(* ===== verification/Block.thy ===== *)
theory Block
  imports Validation Merkle Pow VersionBits
begin

text \<open>
  Blocks and the checks on them: \<^verbatim>\<open>CBlock\<close> of \<^verbatim>\<open>primitives/block.h\<close>, and from \<^verbatim>\<open>main.cpp\<close> \<^verbatim>\<open>CheckBlockHeader\<close>, \<^verbatim>\<open>CheckBlock\<close>, \<^verbatim>\<open>IsSuperMajority\<close>,
  \<^verbatim>\<open>ContextualCheckBlockHeader\<close> and \<^verbatim>\<open>ContextualCheckBlock\<close>. Checks return results as in \<open>Validation\<close>; \<open>need\<close> turns the
  dereference of a null pointer into \<open>Aborted\<close>.

  The main property is that marking the header of a rejected block as invalid for good, as \<^verbatim>\<open>AcceptBlock\<close> does unless the
  state says that the block may have been corrupted, never shuts out a good block with the same header.
\<close>

section \<open>Blocks\<close>

record CBlock = CBlockHeader +
  vtx :: "CTransaction list"
  fChecked :: bool

definition Serialize_CBlockHeader :: "'a CBlockHeader_scheme \<Rightarrow> byte list" where
  "Serialize_CBlockHeader h =
     ser_int32 (CBlockHeader.nVersion h) @ hashPrevBlock h @ hashMerkleRoot h @ ser_writedata32 (nTime h) @
     ser_writedata32 (nBits h) @ ser_writedata32 (nNonce h)"

definition header_GetHash :: "(byte list \<Rightarrow> uint256) \<Rightarrow> 'a CBlockHeader_scheme \<Rightarrow> uint256" where
  "header_GetHash Hash h = Hash (Serialize_CBlockHeader h)"

definition Serialize_CBlock :: "CBlock \<Rightarrow> byte list" where
  "Serialize_CBlock b = Serialize_CBlockHeader b @ Serialize_vector Serialize_CTransaction (vtx b)"

definition CBlock_SetNull :: CBlock where
  "CBlock_SetNull = CBlockHeader.extend CBlockHeader_SetNull (CBlock.fields [] False)"

definition block_GetBlockHeader :: "CBlock \<Rightarrow> CBlockHeader" where
  "block_GetBlockHeader b = CBlockHeader.truncate b"

definition need :: "'a option \<Rightarrow> check_fail + 'a" where
  "need r = (case r of None \<Rightarrow> Inl Aborted | Some a \<Rightarrow> Inr a)"

section \<open>Checks without context\<close>

definition CheckBlockHeader ::
    "(byte list \<Rightarrow> uint256) \<Rightarrow> consensus_params \<Rightarrow> int \<Rightarrow> 'a CBlockHeader_scheme \<Rightarrow> CValidationState \<Rightarrow> bool \<Rightarrow> check_fail + unit" where
  "CheckBlockHeader Hash params adjustedTime block state fCheckPOW =
     (if fCheckPOW \<and> \<not> CheckProofOfWork (header_GetHash Hash block) (nBits block) params
      then reject_DoS state 50 ''high-hash''
      else if int (unat (nTime block)) > adjustedTime + 1 * 60 * 60
      then Inl (Rejected (state_Invalid state REJECT_INVALID ''time-too-new''))
      else Inr ())"

text \<open>The merkle root part of \<^verbatim>\<open>CheckBlock\<close>; both rejections say that the block may be corrupted.\<close>

definition check_merkle :: "(byte list \<Rightarrow> uint256) \<Rightarrow> CBlock \<Rightarrow> CValidationState \<Rightarrow> check_fail + unit" where
  "check_merkle Hash block state =
     andThen (need (BlockMerkleRoot Hash (vtx block))) (\<lambda>(hashMerkleRoot2, mutated).
       if hashMerkleRoot block \<noteq> hashMerkleRoot2
       then Inl (Rejected (state_DoS state 100 REJECT_INVALID ''bad-txnmrklroot'' True))
       else if mutated then Inl (Rejected (state_DoS state 100 REJECT_INVALID ''bad-txns-duplicate'' True))
       else Inr ())"

text \<open>The part on the transactions.\<close>

definition check_block_txs :: "CBlock \<Rightarrow> CValidationState \<Rightarrow> check_fail + unit" where
  "check_block_txs block state =
     (if vtx block = [] \<or> length (vtx block) > MAX_BLOCK_SIZE \<or> length (Serialize_CBlock block) > MAX_BLOCK_SIZE
      then reject_DoS state 100 ''bad-blk-length''
      else if vtx block = [] \<or> \<not> IsCoinBase (vtx block ! 0) then reject_DoS state 100 ''bad-cb-missing''
      else if list_ex IsCoinBase (tl (vtx block)) then reject_DoS state 100 ''bad-cb-multiple''
      else andThen (foldE (\<lambda>tx _. CheckTransaction tx state) (vtx block) ()) (\<lambda>_.
        if fold (\<lambda>tx n. n + GetLegacySigOpCount tx) (vtx block) 0 > MAX_BLOCK_SIGOPS
        then reject_DoS state 100 ''bad-blk-sigops'' else Inr ()))"

text \<open>\<^verbatim>\<open>CheckBlock\<close> returns the block with the flag \<^verbatim>\<open>fChecked\<close> that it may set.\<close>

definition CheckBlock ::
    "(byte list \<Rightarrow> uint256) \<Rightarrow> consensus_params \<Rightarrow> int \<Rightarrow> CBlock \<Rightarrow> CValidationState \<Rightarrow> bool \<Rightarrow> bool \<Rightarrow> check_fail + CBlock" where
  "CheckBlock Hash params adjustedTime block state fCheckPOW fCheckMerkleRoot =
     (if fChecked block then Inr block
      else andThen (CheckBlockHeader Hash params adjustedTime block state fCheckPOW) (\<lambda>_.
           andThen (if fCheckMerkleRoot then check_merkle Hash block state else Inr ()) (\<lambda>_.
           andThen (check_block_txs block state) (\<lambda>_.
           Inr (if fCheckPOW \<and> fCheckMerkleRoot then block\<lparr>fChecked := True\<rparr> else block)))))"

section \<open>Checks against the chain\<close>

fun super_majority_loop :: "block_store \<Rightarrow> int \<Rightarrow> nat \<Rightarrow> nat \<Rightarrow> nat option \<Rightarrow> nat \<Rightarrow> nat option" where
  "super_majority_loop st minVersion nRequired 0 pstart nFound = Some nFound"
| "super_majority_loop st minVersion nRequired (Suc n) pstart nFound =
     (if \<not> nFound < nRequired then Some nFound
      else case pstart of
        None \<Rightarrow> Some nFound
      | Some p \<Rightarrow>
          (case st p of
             None \<Rightarrow> None
           | Some b \<Rightarrow> super_majority_loop st minVersion nRequired n (pprev b)
                         (if bi_nVersion b \<ge> minVersion then nFound + 1 else nFound)))"

definition IsSuperMajority :: "block_store \<Rightarrow> int \<Rightarrow> nat option \<Rightarrow> int \<Rightarrow> consensus_params \<Rightarrow> bool option" where
  "IsSuperMajority st minVersion pstart nRequired params =
     map_option (\<lambda>nFound. nFound \<ge> nat nRequired)
       (super_majority_loop st minVersion (nat nRequired) (nat (nMajorityWindow params)) pstart 0)"

text \<open>The three rejections of outdated versions.\<close>

definition outdated :: "block_store \<Rightarrow> consensus_params \<Rightarrow> int \<Rightarrow> CValidationState \<Rightarrow> nat \<Rightarrow> int \<Rightarrow> check_fail + unit" where
  "outdated st params version state pindexPrev v =
     (if version < v
      then andThen (need (IsSuperMajority st v (Some pindexPrev) (nMajorityRejectBlockOutdated params) params)) (\<lambda>b.
             if b then Inl (Rejected (state_Invalid state REJECT_OBSOLETE ''bad-version'')) else Inr ())
      else Inr ())"

definition ContextualCheckBlockHeader ::
    "block_store \<Rightarrow> consensus_params \<Rightarrow> CBlockHeader \<Rightarrow> CValidationState \<Rightarrow> nat \<Rightarrow> check_fail + unit" where
  "ContextualCheckBlockHeader st params block state pindexPrev =
     andThen (need (GetNextWorkRequired st (Some pindexPrev) block params)) (\<lambda>bits.
     if nBits block \<noteq> bits then reject_DoS state 100 ''bad-diffbits''
     else andThen (need (GetMedianTimePast st pindexPrev)) (\<lambda>mtp.
     if int (unat (nTime block)) \<le> mtp then Inl (Rejected (state_Invalid state REJECT_INVALID ''time-too-old''))
     else andThen (outdated st params (CBlockHeader.nVersion block) state pindexPrev 2) (\<lambda>_.
          andThen (outdated st params (CBlockHeader.nVersion block) state pindexPrev 3) (\<lambda>_.
          outdated st params (CBlockHeader.nVersion block) state pindexPrev 4))))"

definition ContextualCheckBlock ::
    "block_store \<Rightarrow> consensus_params \<Rightarrow> VersionBitsCache \<Rightarrow> CBlock \<Rightarrow> CValidationState \<Rightarrow> nat option \<Rightarrow> check_fail + VersionBitsCache" where
  "ContextualCheckBlock st params caches block state pindexPrev =
     andThen (case pindexPrev of None \<Rightarrow> Inr 0 | Some p \<Rightarrow> andThen (need (st p)) (\<lambda>b. Inr (nHeight b + 1))) (\<lambda>height.
     andThen (need (VersionBitsState st pindexPrev params DEPLOYMENT_CSV caches)) (\<lambda>(s, caches').
     andThen (if s = THRESHOLD_ACTIVE
              then andThen (need pindexPrev) (\<lambda>p. need (GetMedianTimePast st p))
              else Inr (int (unat (nTime block)))) (\<lambda>nLockTimeCutoff.
     if list_ex (\<lambda>tx. \<not> IsFinalTx tx height nLockTimeCutoff) (vtx block)
     then reject_DoS state 10 ''bad-txns-nonfinal''
     else andThen (if CBlockHeader.nVersion block \<ge> 2
                   then need (IsSuperMajority st 2 pindexPrev (nMajorityEnforceBlockUpgrade params) params)
                   else Inr False) (\<lambda>enforce.
     if enforce then
       (case vtx block of
          [] \<Rightarrow> Inl Aborted
        | cb # _ \<Rightarrow>
            (case vin cb of
               [] \<Rightarrow> Inl Aborted
             | i # _ \<Rightarrow>
                 let expect = push_int64 height in
                 if length (scriptSig i) < length expect \<or> take (length expect) (scriptSig i) \<noteq> expect
                 then reject_DoS state 100 ''bad-cb-height'' else Inr caches'))
     else Inr caches'))))"

text \<open>The checks of \<^verbatim>\<open>AcceptBlock\<close> on a block whose header is in the block tree, with what it makes of the status of the header: \<open>True\<close> for
  \<^verbatim>\<open>BLOCK_FAILED_VALID\<close>, which bars every block with that header from then on.\<close>

definition AcceptBlock_checks ::
    "(byte list \<Rightarrow> uint256) \<Rightarrow> consensus_params \<Rightarrow> int \<Rightarrow> block_store \<Rightarrow> VersionBitsCache \<Rightarrow> CBlock \<Rightarrow> CValidationState \<Rightarrow> nat option \<Rightarrow>
     (check_fail + CBlock \<times> VersionBitsCache) \<times> bool" where
  "AcceptBlock_checks Hash params adjustedTime st caches block state pprev0 =
     (let r = andThen (CheckBlock Hash params adjustedTime block state True True) (\<lambda>block.
              andThen (ContextualCheckBlock st params caches block state pprev0) (\<lambda>caches. Inr (block, caches)))
      in (r, case r of Inl (Rejected s) \<Rightarrow> state_IsInvalid s \<and> \<not> corruptionPossible s | _ \<Rightarrow> False))"

section \<open>A mark is never wrong\<close>

text \<open>What the hash function is relied on for: the bytes that are hashed for the transactions of two blocks and for their merkle trees
  have distinct hashes, none of them null, and no transaction has the length of an inner node of a tree.\<close>

definition collision_free :: "(byte list \<Rightarrow> uint256) \<Rightarrow> CTransaction list \<Rightarrow> CTransaction list \<Rightarrow> bool" where
  "collision_free Hash txs txs' \<longleftrightarrow>
     (let D = merkle_inputs Hash (map (GetHash Hash) txs) \<union> merkle_inputs Hash (map (GetHash Hash) txs') \<union>
              Serialize_CTransaction ` (set txs \<union> set txs')
      in inj_on Hash D \<and> blob_null 32 \<notin> Hash ` D \<and> (\<forall>tx\<in>set txs \<union> set txs'. length (Serialize_CTransaction tx) \<noteq> 64))"

lemma hashed_length:
  assumes "\<And>b. length (Hash b) = 32" "xs \<noteq> []" "\<forall>x\<in>set xs. length x = 32"
  shows "\<forall>b\<in>hashed Hash k xs. length b = 64"
  using assms(2,3)
proof (induction k arbitrary: xs)
  case (Suc k)
  have t: "length (tree_hash Hash k ys) = 32" if "ys \<noteq> []" "\<forall>x\<in>set ys. length x = 32" for ys
    using tree_hash_length[of Hash ys k] assms(1) that by blast
  show ?case
  proof (cases "length xs \<le> 2 ^ k")
    case True
    then show ?thesis using Suc t[of xs] by auto
  next
    case False
    then have ne: "take (2 ^ k) xs \<noteq> []" "drop (2 ^ k) xs \<noteq> []" using Suc.prems(1) by auto
    have l: "\<forall>x\<in>set (take (2 ^ k) xs). length x = 32" "\<forall>x\<in>set (drop (2 ^ k) xs). length x = 32"
      using Suc.prems(2) in_set_takeD in_set_dropD by fastforce+
    show ?thesis using False Suc.IH[OF ne(1) l(1)] Suc.IH[OF ne(2) l(2)] t[OF ne(1) l(1)] t[OF ne(2) l(2)] by auto
  qed
qed simp

lemma merkle_root_null:
  assumes "\<And>b. length (Hash b) = 32" "xs \<noteq> []" "merkle_root Hash xs = blob_null 32" "blob_null 32 \<notin> set xs"
  shows "blob_null 32 \<in> Hash ` merkle_inputs Hash xs"
proof (cases "merkle_height (length xs)")
  case 0
  then have "hd xs = blob_null 32" using assms(2,3) by (simp add: merkle_root_def)
  then show ?thesis using assms(2,4) hd_in_set by metis
next
  case (Suc k)
  then have "Hash (top_input Hash k xs) = blob_null 32" using assms(2,3) by (simp only: merkle_root_def top_input_hash(1) if_False)
  then show ?thesis using top_input_hash(2)[of Hash k xs] unfolding merkle_inputs_def Suc by (metis image_eqI)
qed

lemma same_root_same_txs:
  assumes "\<And>b. length (Hash b) = 32" "collision_free Hash txs txs'" "list_all tx_ok txs" "list_all tx_ok txs'"
    and "length txs \<le> 2 ^ 31" "length txs' \<le> 2 ^ 31" "txs' \<noteq> []"
    and "BlockMerkleRoot Hash txs = Some (root, False)" "BlockMerkleRoot Hash txs' = Some (root, False)"
  shows "txs = txs'"
proof -
  let ?xs = "map (GetHash Hash) txs" and ?ys = "map (GetHash Hash) txs'"
  let ?D = "merkle_inputs Hash ?xs \<union> merkle_inputs Hash ?ys \<union> Serialize_CTransaction ` (set txs \<union> set txs')"
  have inj: "inj_on Hash ?D" and nn: "blob_null 32 \<notin> Hash ` ?D" and n64: "\<forall>tx\<in>set txs \<union> set txs'. length (Serialize_CTransaction tx) \<noteq> 64"
    using assms(2) unfolding collision_free_def Let_def by blast+
  have len: "\<forall>x\<in>set ?xs \<union> set ?ys. length x = 32" by (auto simp: GetHash_def assms(1))
  have roots: "merkle_root Hash ?xs = root" "\<not> has_twins Hash ?xs (length ?xs)" "merkle_root Hash ?ys = root" "\<not> has_twins Hash ?ys (length ?ys)"
    using assms(8,9) merkle_root_result[of ?xs Hash] merkle_root_result[of ?ys Hash] assms(5,6) unfolding BlockMerkleRoot_def by auto
  have leaf: "x \<in> Hash ` (Serialize_CTransaction ` (set txs \<union> set txs'))" if "x \<in> set ?xs \<union> set ?ys" for x
    using that by (auto simp: GetHash_def)
  have ne: "?xs \<noteq> []"
  proof
    assume "?xs = []"
    then have "merkle_root Hash ?ys = blob_null 32" using roots by (simp add: merkle_root_def)
    moreover have "blob_null 32 \<notin> set ?ys" using leaf nn by blast
    ultimately show False using merkle_root_null[of Hash ?ys] assms(1,7) nn by blast
  qed
  have ne': "?ys \<noteq> []" using assms(7) by simp
  have l64: "\<forall>b\<in>merkle_inputs Hash ?xs \<union> merkle_inputs Hash ?ys. length b = 64"
    using hashed_length[of Hash ?xs] hashed_length[of Hash ?ys] assms(1) ne ne' len unfolding merkle_inputs_def by blast
  have disj: "(set ?xs \<union> set ?ys) \<inter> Hash ` (merkle_inputs Hash ?xs \<union> merkle_inputs Hash ?ys) = {}"
  proof (rule ccontr)
    assume "\<not> ?thesis"
    then obtain x where x: "x \<in> set ?xs \<union> set ?ys" "x \<in> Hash ` (merkle_inputs Hash ?xs \<union> merkle_inputs Hash ?ys)" by blast
    from x(2) obtain b where b: "b \<in> merkle_inputs Hash ?xs \<union> merkle_inputs Hash ?ys" "x = Hash b" by (rule imageE)
    from leaf[OF x(1)] obtain tx where "tx \<in> set txs \<union> set txs'" "x = Hash (Serialize_CTransaction tx)" by auto
    with b show False using inj_onD[OF inj, of b "Serialize_CTransaction tx"] l64 n64 by blast
  qed
  have "?xs = ?ys"
    using roots by (intro unflagged_roots_bind[OF ne ne' len assms(1) inj_on_subset[OF inj] disj]) simp_all
  moreover have "inj_on (GetHash Hash) (set txs \<union> set txs')"
  proof (rule inj_onI)
    fix x y assume xy: "x \<in> set txs \<union> set txs'" "y \<in> set txs \<union> set txs'" "GetHash Hash x = GetHash Hash y"
    have d: "Serialize_CTransaction z \<in> ?D" if "z \<in> set txs \<union> set txs'" for z using that by blast
    have "Serialize_CTransaction x = Serialize_CTransaction y"
      using inj_onD[OF inj _ d[OF xy(1)] d[OF xy(2)]] xy(3) by (simp only: GetHash_def)
    moreover have "tx_ok x" "tx_ok y" using xy(1,2) assms(3,4) by (auto simp: list_all_iff)
    ultimately show "x = y" using tx.read_back[of x "[]"] tx.read_back[of y "[]"] by simp
  qed
  ultimately show ?thesis by (simp add: inj_on_map_eq_map)
qed

lemma CheckBlock_Inr:
  assumes "CheckBlock Hash params t block state True True = Inr b" "\<not> fChecked block"
  shows "check_merkle Hash block state = Inr ()" "check_block_txs block state = Inr ()" "b = block\<lparr>fChecked := True\<rparr>"
  using assms by (auto simp: CheckBlock_def andThen_Inr_iff)

lemma check_merkle_Inr:
  assumes "check_merkle Hash block state = Inr ()"
  shows "BlockMerkleRoot Hash (vtx block) = Some (hashMerkleRoot block, False)"
  using assms by (auto simp: check_merkle_def need_def andThen_Inr_iff split: option.split_asm if_split_asm)

text \<open>C17: a mark that bars a header for good never shuts out a good block. \<^verbatim>\<open>ProcessNewBlock\<close> checks a block, and \<^verbatim>\<open>AcceptBlock\<close> gets
  it with \<^verbatim>\<open>fChecked\<close> set. If \<^verbatim>\<open>AcceptBlock\<close> then marks the header with \<^verbatim>\<open>BLOCK_FAILED_VALID\<close>, no block with that header ever passes the checks of
  both against the same block tree, at whatever time: its transactions would be those of the block that was rejected. Rejections that an altered copy of a good block
  could cause, a wrong merkle root or duplicated subtrees, come before the mark. This is up to collisions: hashes have 32 bytes, and \<open>collision_free\<close>
  holds for the transactions of the two blocks, that is, what is hashed for their ids and merkle trees has distinct hashes other than
  null, and none of the transactions is serialized in 64 bytes, as the inner nodes of a tree are. The transactions of both blocks are of the kind that is read back
  as it was written (\<open>tx_ok\<close>), and there are at most \<open>2 ^ 31\<close> of them.\<close>

theorem permanent_mark_is_safe:
  assumes "CheckBlock Hash params t0 block0 CValidationState_new True True = Inr block" "\<not> fChecked block0"
    and "AcceptBlock_checks Hash params t st caches block CValidationState_new pprev0 = (r, True)"
    and "block_GetBlockHeader block1 = block_GetBlockHeader block0" "\<not> fChecked block1"
    and "\<And>b. length (Hash b) = 32" "collision_free Hash (vtx block0) (vtx block1)"
    and "list_all tx_ok (vtx block0)" "list_all tx_ok (vtx block1)" "length (vtx block0) \<le> 2 ^ 31" "length (vtx block1) \<le> 2 ^ 31"
  shows "\<exists>e. andThen (CheckBlock Hash params t1 block1 CValidationState_new True True)
    (\<lambda>b. fst (AcceptBlock_checks Hash params t2 st caches b CValidationState_new pprev0)) = Inl e"
proof (rule ccontr)
  let ?s = "CValidationState_new"
  assume "\<not> ?thesis"
  then obtain p where "andThen (CheckBlock Hash params t1 block1 ?s True True)
      (\<lambda>b. fst (AcceptBlock_checks Hash params t2 st caches b ?s pprev0)) = Inr p" by (metis sum.exhaust)
  then obtain b1 where b1: "CheckBlock Hash params t1 block1 ?s True True = Inr b1"
    "fst (AcceptBlock_checks Hash params t2 st caches b1 ?s pprev0) = Inr p" unfolding andThen_Inr_iff by blast
  note ok0 = CheckBlock_Inr[OF assms(1,2)] and ok1 = CheckBlock_Inr[OF b1(1) assms(5)]
  have hdr: "CBlockHeader.truncate block1 = CBlockHeader.truncate block0" using assms(4) by (simp add: block_GetBlockHeader_def)
  then have root: "hashMerkleRoot block1 = hashMerkleRoot block0" by (simp add: CBlockHeader.defs)
  have "vtx block1 \<noteq> []" using ok1(2) by (auto simp: check_block_txs_def)
  then have "vtx block0 = vtx block1"
    using same_root_same_txs[OF assms(6-11)] check_merkle_Inr[OF ok0(1)] check_merkle_Inr[OF ok1(1)] root by metis
  then have "block0 = block1" using hdr assms(2,5) by (intro CBlock.equality) (simp_all add: CBlockHeader.defs)
  then have same: "b1 = block" using ok0(3) ok1(3) by simp
  have "CheckBlock Hash params t' block ?s True True = Inr block" for t' by (simp add: CheckBlock_def ok0(3))
  then show False using b1(2) assms(3) unfolding same by (auto simp: AcceptBlock_checks_def Let_def)
qed

text \<open>Blocks with the same header, and a hash function that is the same for every input.\<close>

definition demo_block_hash :: "byte list \<Rightarrow> uint256" where
  "demo_block_hash _ = 1 # replicate 31 0"

definition demo_block :: "CTransaction list \<Rightarrow> CBlock" where
  "demo_block txs = \<lparr>CBlockHeader.nVersion = 1, hashPrevBlock = blob_null 32, hashMerkleRoot = 1 # replicate 31 0, nTime = 0, nBits = 0x03000005,
     nNonce = 0, vtx = txs, fChecked = False\<rparr>"

lemma demo_block_fields [simp]:
  "vtx (demo_block txs) = txs" "fChecked (demo_block txs) = False" "hashMerkleRoot (demo_block txs) = 1 # replicate 31 0"
  by (simp_all add: demo_block_def)

lemma demo_proof_of_work: "CheckProofOfWork (1 # replicate 31 0) 0x03000005 CMainParams"
proof -
  have "le_val (replicate 31 0) = 0" by (simp add: numeral_eq_Suc)
  moreover have "compact_size 0x03000005 = 3" by (simp add: compact_size_def)
  ultimately show ?thesis by (simp add: CheckProofOfWork_bounds main_powLimit compact_val_def UintToArith256_val)
qed

lemma one_leaf_no_twins: "\<not> has_twins Hash [x] (Suc 0)"
proof
  assume "has_twins Hash [x] (Suc 0)"
  then obtain l i where "(2 * i + 2) * 2 ^ l \<le> Suc 0" by (auto simp: has_twins_def)
  moreover have "2 * (1::nat) \<le> (2 * i + 2) * 2 ^ l" by (intro mult_le_mono) simp_all
  ultimately show False by simp
qed

lemma demo_header: "CheckBlockHeader demo_block_hash CMainParams 0 (demo_block txs) CValidationState_new True = Inr ()"
  by (simp add: CheckBlockHeader_def demo_block_def header_GetHash_def demo_block_hash_def demo_proof_of_work)

lemma demo_root: "BlockMerkleRoot demo_block_hash [tx] = Some (1 # replicate 31 0, False)"
  using merkle_root_result[of "[1 # replicate 31 0]" demo_block_hash]
  by (simp add: BlockMerkleRoot_def merkle_root_def GetHash_def demo_block_hash_def one_leaf_no_twins merkle_height.simps)

text \<open>A coinbase with a lock time that is not reached yet, whose block is rejected and marked, and one without a lock time, with which no block has that header.\<close>

definition late_coinbase :: "u32 \<Rightarrow> CTransaction" where
  "late_coinbase lock = \<lparr>CTransaction.nVersion = 1, vin = [\<lparr>prevout = COutPoint_SetNull, scriptSig = [0x51, 0x51], nSequence = 0\<rparr>],
     vout = [\<lparr>nValue = 5, scriptPubKey = [0x51]\<rparr>], nLockTime = lock\<rparr>"

definition late_hash :: "byte list \<Rightarrow> uint256" where
  "late_hash b = (if b = Serialize_CTransaction (late_coinbase 0) then 2 # replicate 31 0 else 1 # replicate 31 0)"

lemma late_coinbase_ok:
  "CheckTransaction (late_coinbase lock) state = Inr ()" "IsCoinBase (late_coinbase lock)" "length (Serialize_CTransaction (late_coinbase lock)) = 63"
  "GetLegacySigOpCount (late_coinbase lock) \<le> 60" "tx_ok (late_coinbase lock)"
proof -
  have "length (Serialize_CTransaction (late_coinbase lock)) = 63 \<and> tx_wellformed (late_coinbase lock)"
    by (simp add: tx_wellformed_def late_coinbase_def IsCoinBase_def COutPoint_SetNull_def COutPoint_IsNull_def
      GetSerializeSize_def Serialize_CTransaction_def Serialize_vector_def Serialize_CTxIn_def Serialize_CTxOut_def Serialize_COutPoint_def
      Serialize_bytes_def ser_int32_def ser_int64_def ser_writedata32_def ser_writedata64_def ser_writedata8_def WriteCompactSize_def
      WriteLE32_def WriteLE64_def MAX_BLOCK_SIZE_def MAX_MONEY_def COIN_def blob_null_def)
  then show "CheckTransaction (late_coinbase lock) state = Inr ()" "length (Serialize_CTransaction (late_coinbase lock)) = 63"
    using CheckTransaction_result[of "late_coinbase lock" state] by simp_all
  show "IsCoinBase (late_coinbase lock)"
    by (simp add: late_coinbase_def IsCoinBase_def COutPoint_SetNull_def COutPoint_IsNull_def blob_IsNull_def blob_null_def list_all_iff)
  show "GetLegacySigOpCount (late_coinbase lock) \<le> 60"
    using sigops_bounded[of "[0x51, 0x51]" False] sigops_bounded[of "[0x51]" False]
    by (simp add: GetLegacySigOpCount_def late_coinbase_def MAX_PUBKEYS_PER_MULTISIG_def)
  show "tx_ok (late_coinbase lock)"
    by (simp add: late_coinbase_def tx_ok_def txin_ok_def txout_ok_def outpoint_ok_def int32_ok_def int64_ok_def MAX_SIZE_def COutPoint_SetNull_def blob_null_def)
qed

lemma late_coinbase_distinct: "Serialize_CTransaction (late_coinbase 1) \<noteq> Serialize_CTransaction (late_coinbase 0)"
  using tx.read_back[OF late_coinbase_ok(5)[of 0], of "[]"] tx.read_back[OF late_coinbase_ok(5)[of 1], of "[]"] by (auto simp: late_coinbase_def)

lemma late_header: "CheckBlockHeader late_hash CMainParams 0 (demo_block txs) CValidationState_new True = Inr ()"
proof -
  have "length (Serialize_CBlockHeader (demo_block txs)) = 80"
    by (simp add: Serialize_CBlockHeader_def demo_block_def ser_int32_def ser_writedata32_def WriteLE32_def blob_null_def)
  then have "Serialize_CBlockHeader (demo_block txs) \<noteq> Serialize_CTransaction (late_coinbase 0)" using late_coinbase_ok(3)[of 0] by auto
  then have "header_GetHash late_hash (demo_block txs) = 1 # replicate 31 0" by (simp only: header_GetHash_def late_hash_def if_False)
  then show ?thesis by (simp add: CheckBlockHeader_def demo_proof_of_work) (simp add: demo_block_def demo_proof_of_work)
qed

lemma late_CheckBlock: "CheckBlock late_hash CMainParams 0 (demo_block [late_coinbase 1]) CValidationState_new True True
    = Inr ((demo_block [late_coinbase 1])\<lparr>fChecked := True\<rparr>)"
proof -
  have "check_block_txs (demo_block [late_coinbase 1]) CValidationState_new = Inr ()"
    using late_coinbase_ok(4)[of 1]
    by (simp add: check_block_txs_def late_coinbase_ok(1-3) Serialize_CBlock_def Serialize_CBlockHeader_def Serialize_vector_def WriteCompactSize_def
        ser_writedata8_def ser_writedata32_def ser_int32_def WriteLE32_def MAX_BLOCK_SIZE_def MAX_BLOCK_SIGOPS_def demo_block_def blob_null_def)
  moreover have "BlockMerkleRoot late_hash [late_coinbase 1] = Some (1 # replicate 31 0, False)"
    using merkle_root_result[of "[1 # replicate 31 0]" late_hash] late_coinbase_distinct
    by (simp add: BlockMerkleRoot_def merkle_root_def GetHash_def late_hash_def one_leaf_no_twins merkle_height.simps)
  ultimately show ?thesis by (simp add: CheckBlock_def late_header check_merkle_def need_def)
qed

lemma late_AcceptBlock: "\<exists>r. AcceptBlock_checks late_hash CMainParams 0 Map.empty VersionBitsCache_Clear ((demo_block [late_coinbase 1])\<lparr>fChecked := True\<rparr>)
    CValidationState_new None = (r, True)"
proof -
  let ?b = "(demo_block [late_coinbase 1])\<lparr>fChecked := True\<rparr>"
  obtain c where "VersionBitsState Map.empty None CMainParams DEPLOYMENT_CSV VersionBitsCache_Clear = Some (THRESHOLD_DEFINED, c)"
    by (simp add: VersionBitsState_def GetStateFor_def VersionBitsConditionChecker_def CMainParams_def VersionBitsCache_Clear_def vb_back.simps vb_forward.simps)
  moreover have "\<not> IsFinalTx (late_coinbase 1) 0 n" for n
    by (simp add: IsFinalTx_def late_coinbase_def SEQUENCE_FINAL_def LOCKTIME_THRESHOLD_def)
  ultimately have "ContextualCheckBlock Map.empty CMainParams VersionBitsCache_Clear ?b CValidationState_new None
      = reject_DoS CValidationState_new 10 ''bad-txns-nonfinal''"
    by (simp add: ContextualCheckBlock_def need_def)
  then show ?thesis
    by (simp add: AcceptBlock_checks_def CheckBlock_def state_DoS_def state_IsInvalid_def CValidationState_new_def Let_def)
qed

theorem permanent_mark_is_safe_witness:
  "\<exists>e. andThen (CheckBlock late_hash CMainParams 60 (demo_block [late_coinbase 0]) CValidationState_new True True)
    (\<lambda>b. fst (AcceptBlock_checks late_hash CMainParams 60 Map.empty VersionBitsCache_Clear b CValidationState_new None)) = Inl e"
proof -
  obtain r where r: "AcceptBlock_checks late_hash CMainParams 0 Map.empty VersionBitsCache_Clear ((demo_block [late_coinbase 1])\<lparr>fChecked := True\<rparr>)
      CValidationState_new None = (r, True)" using late_AcceptBlock by blast
  have one: "merkle_height (Suc 0) = 0" by (simp add: merkle_height.simps)
  have "collision_free late_hash (vtx (demo_block [late_coinbase 1])) (vtx (demo_block [late_coinbase 0]))"
    using late_coinbase_distinct
    by (simp add: collision_free_def merkle_inputs_def one late_coinbase_ok(3) late_hash_def blob_null_def numeral_eq_Suc)
  then show ?thesis
    by (intro permanent_mark_is_safe[OF late_CheckBlock _ r])
       (simp_all add: late_coinbase_ok(5), simp_all add: demo_block_def block_GetBlockHeader_def CBlockHeader.defs late_hash_def)
qed

end
