(* ===== verification/Ledger.thy ===== *)
theory Ledger
  imports Coins
begin

text \<open>
  How blocks change the unspent outputs: \<^verbatim>\<open>UpdateCoins\<close> with its undo data (\<^verbatim>\<open>undo.h\<close>), and \<^verbatim>\<open>ApplyTxInUndo\<close> and the loop of
  \<^verbatim>\<open>DisconnectBlock\<close> that take a block back, \<^verbatim>\<open>main.cpp\<close>. The optional address, timestamp and spent indexes are kept in another
  database and are left out. The main property is that disconnecting undoes connecting.
\<close>

section \<open>Undo data\<close>

record CTxInUndo =
  u_txout :: CTxOut
  u_fCoinBase :: bool
  u_nHeight :: int
  u_nVersion :: int

definition CTxInUndo_of :: "CTxOut \<Rightarrow> CTxInUndo" where
  "CTxInUndo_of txoutIn = \<lparr>u_txout = txoutIn, u_fCoinBase = False, u_nHeight = 0, u_nVersion = 0\<rparr>"

type_synonym CTxUndo = "CTxInUndo list"

section \<open>Connecting\<close>

text \<open>The undo record for an output of \<open>before\<close> whose spending leaves \<open>after\<close>.\<close>

definition spend_undo :: "CCoins \<Rightarrow> nat \<Rightarrow> CCoins \<Rightarrow> CTxInUndo" where
  "spend_undo before nPos after =
     (let u = CTxInUndo_of (cvout before ! nPos)
      in if length (cvout after) = 0
         then u\<lparr>u_nHeight := cHeight after, u_fCoinBase := fCoinBase after, u_nVersion := cVersion after\<rparr> else u)"

text \<open>The loop over the inputs; \<open>None\<close> is the failed assertion.\<close>

fun update_inputs :: "GetCoins_fun \<Rightarrow> CTxIn list \<Rightarrow> CCoinsViewCache \<Rightarrow> CTxUndo \<Rightarrow> (CCoinsViewCache \<times> CTxUndo) option" where
  "update_inputs base [] c undo = Some (c, undo)"
| "update_inputs base (txin # ins) c undo =
     (let txid = outhash (prevout txin);
          nPos = unat (outn (prevout txin));
          before = coins (modifier_entry base c txid) in
      if nPos \<ge> length (cvout before) \<or> CTxOut_IsNull (cvout before ! nPos) then None
      else let after = fst (Spend before nPos)
           in update_inputs base ins (ModifyCoins base c txid (\<lambda>_. after)) (undo @ [spend_undo before nPos after]))"

definition UpdateCoins ::
    "(byte list \<Rightarrow> uint256) \<Rightarrow> GetCoins_fun \<Rightarrow> CTransaction \<Rightarrow> int \<Rightarrow> CCoinsViewCache \<Rightarrow> (CCoinsViewCache \<times> CTxUndo) option" where
  "UpdateCoins Hash base tx nHeight inputs =
     (if \<not> IsCoinBase tx then
        (case update_inputs base (vin tx) inputs [] of
           None \<Rightarrow> None
         | Some (c, txundo) \<Rightarrow> Some (ModifyNewCoins c (GetHash Hash tx) (\<lambda>_. FromTx tx nHeight), txundo))
      else Some (ModifyCoins base inputs (GetHash Hash tx) (\<lambda>_. FromTx tx nHeight), []))"

text \<open>The transactions of a block in order, with the undo data of each.\<close>

fun connect_txs ::
    "(byte list \<Rightarrow> uint256) \<Rightarrow> GetCoins_fun \<Rightarrow> int \<Rightarrow> CTransaction list \<Rightarrow> CCoinsViewCache \<Rightarrow> (CCoinsViewCache \<times> CTxUndo list) option" where
  "connect_txs Hash base nHeight [] c = Some (c, [])"
| "connect_txs Hash base nHeight (tx # txs) c =
     (case UpdateCoins Hash base tx nHeight c of
        None \<Rightarrow> None
      | Some (c1, undo) \<Rightarrow>
          (case connect_txs Hash base nHeight txs c1 of None \<Rightarrow> None | Some (c2, undos) \<Rightarrow> Some (c2, undo # undos)))"

section \<open>Disconnecting\<close>

text \<open>\<^verbatim>\<open>ApplyTxInUndo\<close>: what it does to the coins, and whether it finds them as expected.\<close>

definition undo_coins :: "CTxInUndo \<Rightarrow> nat \<Rightarrow> CCoins \<Rightarrow> CCoins" where
  "undo_coins undo n c0 =
     (let c = (if u_nHeight undo \<noteq> 0
               then CCoins_Clear\<lparr>fCoinBase := u_fCoinBase undo, cHeight := u_nHeight undo, cVersion := u_nVersion undo\<rparr>
               else c0);
          v = (if length (cvout c) < n + 1 then cvout c @ replicate (n + 1 - length (cvout c)) CTxOut_SetNull else cvout c)
      in c\<lparr>cvout := v[n := u_txout undo]\<rparr>)"

definition undo_clean :: "CTxInUndo \<Rightarrow> nat \<Rightarrow> CCoins \<Rightarrow> bool" where
  "undo_clean undo n c0 \<longleftrightarrow>
     (if u_nHeight undo \<noteq> 0 then IsPruned c0 else \<not> IsPruned c0) \<and> \<not> (u_nHeight undo = 0 \<and> IsAvailable c0 n)"

definition ApplyTxInUndo :: "GetCoins_fun \<Rightarrow> CTxInUndo \<Rightarrow> COutPoint \<Rightarrow> CCoinsViewCache \<Rightarrow> CCoinsViewCache \<times> bool" where
  "ApplyTxInUndo base undo out view =
     (ModifyCoins base view (outhash out) (undo_coins undo (unat (outn out))),
      undo_clean undo (unat (outn out)) (coins (modifier_entry base view (outhash out))))"

fun undo_inputs :: "GetCoins_fun \<Rightarrow> (CTxInUndo \<times> COutPoint) list \<Rightarrow> CCoinsViewCache \<Rightarrow> bool \<Rightarrow> CCoinsViewCache \<times> bool" where
  "undo_inputs base [] view fClean = (view, fClean)"
| "undo_inputs base ((undo, out) # r) view fClean =
     (case ApplyTxInUndo base undo out view of (view', ok) \<Rightarrow> undo_inputs base r view' (fClean \<and> ok))"

text \<open>Taking the outputs of a transaction away, with the comparison against the block's.\<close>

definition outputs_match :: "CTransaction \<Rightarrow> int \<Rightarrow> CCoins \<Rightarrow> bool" where
  "outputs_match tx nHeight outs0 =
     (let outs = ClearUnspendable outs0; outsBlock = FromTx tx nHeight
      in CCoins_eq (if cVersion outsBlock < 0 then outs\<lparr>cVersion := cVersion outsBlock\<rparr> else outs) outsBlock)"

definition disconnect_tx ::
    "(byte list \<Rightarrow> uint256) \<Rightarrow> GetCoins_fun \<Rightarrow> int \<Rightarrow> bool \<Rightarrow> CTransaction \<Rightarrow> CTxUndo \<Rightarrow> CCoinsViewCache \<Rightarrow> bool \<Rightarrow> (CCoinsViewCache \<times> bool) option" where
  "disconnect_tx Hash base nHeight fFirst tx txundo view fClean =
     (let hash = GetHash Hash tx;
          ok = outputs_match tx nHeight (coins (modifier_entry base view hash));
          view1 = ModifyCoins base view hash (\<lambda>_. CCoins_Clear) in
      if fFirst then Some (view1, fClean \<and> ok)
      else if length txundo \<noteq> length (vin tx) then None
      else Some (undo_inputs base (rev (zip txundo (map prevout (vin tx)))) view1 (fClean \<and> ok)))"

text \<open>The loop of \<^verbatim>\<open>DisconnectBlock\<close>, from the last transaction to the first; the transactions come with their undo data.\<close>

fun disconnect_txs ::
    "(byte list \<Rightarrow> uint256) \<Rightarrow> GetCoins_fun \<Rightarrow> int \<Rightarrow> (CTransaction \<times> CTxUndo) list \<Rightarrow> CCoinsViewCache \<Rightarrow> bool \<Rightarrow> (CCoinsViewCache \<times> bool) option" where
  "disconnect_txs Hash base nHeight [] view fClean = Some (view, fClean)"
| "disconnect_txs Hash base nHeight ((tx, txundo) # earlier) view fClean =
     (case disconnect_tx Hash base nHeight (earlier = []) tx txundo view fClean of
        None \<Rightarrow> None
      | Some (view1, ok) \<Rightarrow> disconnect_txs Hash base nHeight earlier view1 ok)"

datatype disconnect_error = Best_block_differs | Undo_data_inconsistent | Tx_undo_inconsistent

text \<open>\<^verbatim>\<open>DisconnectBlock\<close> on the undo data once it has been read; \<open>vtxundo\<close> has no entry for the coinbase. The best block of the view
  is asserted to be the block, and moves to its predecessor.\<close>

definition DisconnectBlock ::
    "(byte list \<Rightarrow> uint256) \<Rightarrow> GetCoins_fun \<Rightarrow> uint256 \<Rightarrow> CTransaction list \<Rightarrow> CTxUndo list \<Rightarrow> int \<Rightarrow> uint256 \<Rightarrow> uint256 \<Rightarrow>
     CCoinsViewCache \<Rightarrow> disconnect_error + CCoinsViewCache \<times> bool" where
  "DisconnectBlock Hash base base_best vtx vtxundo nHeight blockHash prevHash view =
     (case cache_GetBestBlock base_best view of (view0, best) \<Rightarrow>
      if best \<noteq> blockHash then Inl Best_block_differs
      else if length vtxundo + 1 \<noteq> length vtx then Inl Undo_data_inconsistent
      else (case disconnect_txs Hash base nHeight (rev (zip vtx ([] # vtxundo))) view0 True of
              None \<Rightarrow> Inl Tx_undo_inconsistent
            | Some (view1, fClean) \<Rightarrow> Inr (SetBestBlock view1 prevHash, fClean)))"

section \<open>Well-formed coins\<close>

definition coins_wf :: "CCoins \<Rightarrow> bool" where
  "coins_wf c \<longleftrightarrow> Cleanup_vout (cvout c) = cvout c \<and> list_all (\<lambda>t. CTxOut_IsNull t \<longrightarrow> t = CTxOut_SetNull) (cvout c) \<and> cHeight c \<noteq> 0"

abbreviation view_of :: "GetCoins_fun \<Rightarrow> CCoinsViewCache \<Rightarrow> GetCoins_fun" where
  "view_of base c \<equiv> (\<lambda>x. live (cache_get base c x))"

definition view_wf :: "GetCoins_fun \<Rightarrow> bool" where
  "view_wf v \<longleftrightarrow> (\<forall>x c. v x = Some c \<longrightarrow> coins_wf c)"

definition spendable_outputs :: "CTransaction \<Rightarrow> bool" where
  "spendable_outputs tx \<longleftrightarrow> list_all (\<lambda>t. \<not> CTxOut_IsNull t) (vout tx)"

definition tx_connectable :: "(byte list \<Rightarrow> uint256) \<Rightarrow> GetCoins_fun \<Rightarrow> CCoinsViewCache \<Rightarrow> CTransaction \<Rightarrow> bool" where
  "tx_connectable Hash base c tx \<longleftrightarrow> spendable_outputs tx \<and>
     live (base (GetHash Hash tx)) = None \<and> live (cache_get base c (GetHash Hash tx)) = None"

text \<open>A small block for the witness: a coinbase and a transaction that spends the only coin of the view.\<close>

definition demo_hash :: "byte list \<Rightarrow> uint256" where
  "demo_hash b = [of_nat (length b)]"

definition demo_out :: CTxOut where
  "demo_out = \<lparr>nValue = 50, scriptPubKey = [0x51]\<rparr>"

definition demo_cb :: CTransaction where
  "demo_cb = \<lparr>nVersion = 1, vin = [\<lparr>prevout = \<lparr>outhash = replicate 32 0, outn = 0xffffffff\<rparr>, scriptSig = [1], nSequence = 0\<rparr>],
     vout = [demo_out], nLockTime = 0\<rparr>"

definition demo_spend :: CTransaction where
  "demo_spend = \<lparr>nVersion = 1, vin = [\<lparr>prevout = \<lparr>outhash = replicate 32 7, outn = 0\<rparr>, scriptSig = [], nSequence = 0\<rparr>],
     vout = [demo_out], nLockTime = 0\<rparr>"

definition demo_coins :: CCoinsViewCache where
  "demo_coins = CCoinsViewCache_new\<lparr>cacheCoins := [replicate 32 7 \<mapsto>
     \<lparr>coins = \<lparr>fCoinBase = False, cvout = [demo_out], cHeight = 1, cVersion = 1\<rparr>, DIRTY = True, FRESH = True\<rparr>]\<rparr>"

lemma clean_suffix:
  assumes "Cleanup_vout (a @ r) = a @ r" "list_all CTxOut_IsNull r"
  shows "r = []"
proof -
  have "dropWhile CTxOut_IsNull (rev (a @ r)) = dropWhile CTxOut_IsNull (rev a)"
    unfolding rev_append by (rule dropWhile_append2) (use assms(2) in \<open>auto simp: list_all_iff\<close>)
  then have "length (Cleanup_vout (a @ r)) \<le> length a"
    by (simp add: Cleanup_vout_def length_dropWhile_le[of _ "rev a", simplified])
  then show ?thesis using assms(1) by simp
qed

lemma null_is_null [simp]: "CTxOut_IsNull CTxOut_SetNull"
  by (simp add: CTxOut_IsNull_def CTxOut_SetNull_def)

lemma restore_vout:
  assumes clean: "Cleanup_vout v = v" and null: "\<forall>t\<in>set v. CTxOut_IsNull t \<longrightarrow> t = CTxOut_SetNull" and n: "n < length v"
  defines "w \<equiv> Cleanup_vout (v[n := CTxOut_SetNull])"
  shows "(if length w < n + 1 then w @ replicate (n + 1 - length w) CTxOut_SetNull else w)[n := v ! n] = v"
proof -
  obtain r where r: "v[n := CTxOut_SetNull] = w @ r" "list_all CTxOut_IsNull r"
    using Cleanup_vout_split w_def by blast
  have "\<forall>t\<in>set r. t = CTxOut_SetNull"
  proof
    fix t assume t: "t \<in> set r"
    then have "t \<in> set (v[n := CTxOut_SetNull])" by (simp add: r(1))
    then have "t \<in> set v \<or> t = CTxOut_SetNull" using set_update_subset_insert by fast
    then show "t = CTxOut_SetNull" using null r(2) t by (auto simp: list_all_iff)
  qed
  then have rr: "r = replicate (length r) CTxOut_SetNull" by (simp add: replicate_length_same)
  have len: "length v = length w + length r" using arg_cong[OF r(1), of length] by simp
  show ?thesis
  proof (cases "n < length w")
    case True
    then have "drop (length w) v = r" using arg_cong[OF r(1), of "drop (length w)"] by simp
    then have "v = take (length w) v @ r" by (metis append_take_drop_id)
    then have "r = []" using clean_suffix[of "take (length w) v" r] clean r(2) by metis
    then have "w = v[n := CTxOut_SetNull]" using r(1) by simp
    then show ?thesis using True by simp
  next
    case False
    have "drop (n + 1) v = drop (n + 1) (v[n := CTxOut_SetNull])" by simp
    also have "\<dots> = drop (n + 1 - length w) r" using False by (simp add: r(1))
    finally have "list_all CTxOut_IsNull (drop (n + 1) v)" using r(2) by (metis append_take_drop_id list_all_append)
    then have "drop (n + 1) v = []" using clean_suffix[of "take (n + 1) v" "drop (n + 1) v"] clean by simp
    then have "n + 1 = length v" using n by simp
    then have "w @ replicate (n + 1 - length w) CTxOut_SetNull = v[n := CTxOut_SetNull]"
      using r(1) rr len False by simp
    then show ?thesis using False n by simp
  qed
qed

lemma coins_wf_Cleanup: "coins_wf c \<Longrightarrow> Cleanup c = c"
  by (simp add: coins_wf_def Cleanup_def)

lemma Spend_available:
  "IsAvailable c n \<Longrightarrow> fst (Spend c n) = Cleanup (c\<lparr>cvout := (cvout c)[n := CTxOut_SetNull]\<rparr>)"
  by (auto simp: Spend_def IsAvailable_def)

lemma spend_then_undo:
  assumes wf: "coins_wf c" and av: "IsAvailable c n"
  defines "after \<equiv> fst (Spend c n)"
  assumes c1: "if IsPruned after then IsPruned c1 else c1 = after"
  shows "undo_coins (spend_undo c n after) n c1 = c" "undo_clean (spend_undo c n after) n c1"
proof -
  let ?w = "Cleanup_vout ((cvout c)[n := CTxOut_SetNull])"
  have a: "after = c\<lparr>cvout := ?w\<rparr>" using Spend_available[OF av] by (simp add: after_def Cleanup_def)
  have h: "cHeight c \<noteq> 0" using wf by (simp add: coins_wf_def)
  have v: "(if length ?w < n + 1 then ?w @ replicate (n + 1 - length ?w) CTxOut_SetNull else ?w)[n := cvout c ! n] = cvout c"
    by (rule restore_vout) (use wf av in \<open>auto simp: coins_wf_def IsAvailable_def list_all_iff\<close>)
  have pr: "IsPruned after \<longleftrightarrow> ?w = []"
    using Cleanup_pruned[of after] by (auto simp: a Cleanup_def IsPruned_def)
  show "undo_coins (spend_undo c n after) n c1 = c"
  proof (cases "?w = []")
    case True
    then show ?thesis using v h by (simp add: undo_coins_def spend_undo_def CTxInUndo_of_def a CCoins_Clear_def Let_def)
  next
    case False
    then have "c1 = after" using c1 pr by simp
    then show ?thesis using v False
      by (cases "length ?w < n + 1") (simp_all add: undo_coins_def spend_undo_def CTxInUndo_of_def a Let_def)
  qed
  have "\<not> IsAvailable after n"
  proof
    assume "IsAvailable after n"
    then have n: "n < length ?w" "\<not> CTxOut_IsNull (?w ! n)" by (auto simp: IsAvailable_def a)
    obtain r where "(cvout c)[n := CTxOut_SetNull] = ?w @ r" using Cleanup_vout_split by blast
    then have "?w ! n = (cvout c)[n := CTxOut_SetNull] ! n" using n(1) by (metis nth_append)
    then show False using n(2) av by (simp add: IsAvailable_def)
  qed
  then show "undo_clean (spend_undo c n after) n c1"
    using c1 pr h by (cases "?w = []") (simp_all add: undo_clean_def spend_undo_def CTxInUndo_of_def a)
qed

lemma undo_inputs_append:
  "undo_inputs base (xs @ ys) d b = (case undo_inputs base xs d b of (d', b') \<Rightarrow> undo_inputs base ys d' b')"
  by (induction base xs d b rule: undo_inputs.induct) (auto split: prod.splits)

lemma coins_wf_spend:
  assumes "coins_wf c" "IsAvailable c n"
  shows "coins_wf (fst (Spend c n))"
proof -
  let ?v = "(cvout c)[n := CTxOut_SetNull]"
  obtain r where "?v = Cleanup_vout ?v @ r" using Cleanup_vout_split by blast
  then have "set (Cleanup_vout ?v) \<subseteq> set ?v" by (metis Un_upper1 set_append)
  then have "set (Cleanup_vout ?v) \<subseteq> insert CTxOut_SetNull (set (cvout c))" using set_update_subset_insert by fast
  then show ?thesis using assms by (auto simp: Spend_available Cleanup_def coins_wf_def list_all_iff)
qed

text \<open>Spending the inputs and undoing it, in terms of the view.\<close>

lemma update_inputs_undone:
  assumes "update_inputs base ins c undo0 = Some (c', undo)" "cache_ok base c" "view_wf (view_of base c)"
  shows "\<exists>us. undo = undo0 @ us \<and> length us = length ins \<and> cache_ok base c' \<and> view_wf (view_of base c') \<and>
    (\<forall>x. view_of base c x = None \<longrightarrow> view_of base c' x = None) \<and>
    (\<forall>d b. cache_ok base d \<longrightarrow> view_of base d = view_of base c' \<longrightarrow>
       (\<exists>d'. undo_inputs base (rev (zip us (map prevout ins))) d b = (d', b) \<and> cache_ok base d' \<and> view_of base d' = view_of base c))"
  using assms
proof (induction ins arbitrary: c undo0)
  case (Cons txin ins)
  let ?x = "outhash (prevout txin)" and ?n = "unat (outn (prevout txin))"
  let ?before = "coins (modifier_entry base c ?x)"
  let ?after = "fst (Spend ?before ?n)" and ?c1 = "ModifyCoins base c ?x (\<lambda>_. fst (Spend ?before ?n))"
  let ?u = "spend_undo ?before ?n ?after"
  have av: "IsAvailable ?before ?n" and rest: "update_inputs base ins ?c1 (undo0 @ [?u]) = Some (c', undo)"
    using Cons.prems(1) by (auto simp: Let_def IsAvailable_def split: if_split_asm)
  have "\<not> IsPruned ?before" using av by (auto simp: IsAvailable_def IsPruned_def list_all_length)
  then have vx: "view_of base c ?x = Some ?before" using modifier_entry_live(1)[OF Cons.prems(2), of ?x] by simp
  then have wf: "coins_wf ?before" using Cons.prems(3) by (auto simp: view_wf_def)
  have wfa: "coins_wf ?after" by (rule coins_wf_spend[OF wf av])
  have ok1: "cache_ok base ?c1" by (rule ModifyCoins_ok[OF Cons.prems(2)])
  have v1: "view_of base ?c1 = (view_of base c)(?x := live (Some ?after))"
    by (intro ext) (simp add: ModifyCoins_get[OF Cons.prems(2)] coins_wf_Cleanup[OF wfa] del: live_simps)
  have wf1: "view_wf (view_of base ?c1)"
    unfolding v1 using Cons.prems(3) wfa by (auto simp: view_wf_def split: if_split_asm)
  obtain us where us: "undo = (undo0 @ [?u]) @ us" "length us = length ins" "cache_ok base c'" "view_wf (view_of base c')"
    and nn: "\<forall>x. view_of base ?c1 x = None \<longrightarrow> view_of base c' x = None"
    and undone: "\<forall>d b. cache_ok base d \<longrightarrow> view_of base d = view_of base c' \<longrightarrow>
       (\<exists>d'. undo_inputs base (rev (zip us (map prevout ins))) d b = (d', b) \<and> cache_ok base d' \<and> view_of base d' = view_of base ?c1)"
    using Cons.IH[OF rest ok1 wf1] by blast
  have "\<exists>d'. undo_inputs base (rev (zip (?u # us) (map prevout (txin # ins)))) d b = (d', b) \<and> cache_ok base d' \<and> view_of base d' = view_of base c"
    if d: "cache_ok base d" "view_of base d = view_of base c'" for d b
  proof -
    obtain d1 where d1: "undo_inputs base (rev (zip us (map prevout ins))) d b = (d1, b)" "cache_ok base d1"
      "view_of base d1 = view_of base ?c1" using undone d by blast
    let ?m = "coins (modifier_entry base d1 ?x)"
    have "view_of base ?c1 ?x = live (Some ?after)" using fun_cong[OF v1, of ?x] by (simp only: fun_upd_same)
    then have "live (Some ?m) = live (Some ?after)"
      using modifier_entry_live(1)[OF d1(2), of ?x] fun_cong[OF d1(3), of ?x] by (simp only:)
    then have m: "if IsPruned ?after then IsPruned ?m else ?m = ?after" by (simp split: if_splits)
    note undo1 = spend_then_undo[OF wf av m]
    let ?d' = "ModifyCoins base d1 ?x (undo_coins ?u ?n)"
    have "view_of base ?d' = (view_of base d1)(?x := live (Some ?before))"
      by (intro ext) (simp add: ModifyCoins_get[OF d1(2)] undo1(1) coins_wf_Cleanup[OF wf] del: live_simps)
    also have "\<dots> = view_of base c"
      unfolding d1(3) v1 using vx \<open>\<not> IsPruned ?before\<close> by (intro ext) simp
    finally show ?thesis
      using d1(1) undo1(2) ModifyCoins_ok[OF d1(2)] by (simp add: undo_inputs_append ApplyTxInUndo_def)
  qed
  moreover have "\<forall>x. view_of base c x = None \<longrightarrow> view_of base c' x = None"
  proof (intro allI impI)
    fix y assume y: "view_of base c y = None"
    then have "y \<noteq> ?x" using vx by auto
    then have "view_of base ?c1 y = None" using fun_cong[OF v1, of y] y by (simp del: live_simps)
    then show "view_of base c' y = None" using nn by blast
  qed
  ultimately show ?case using us by (intro exI[of _ "?u # us"]) auto
qed auto

section \<open>Outputs\<close>

lemma set_Cleanup_vout: "set (Cleanup_vout v) \<subseteq> set v"
  using Cleanup_vout_split[of v] by (metis Un_upper1 set_append)

lemma FromTx_wf: "spendable_outputs tx \<Longrightarrow> h \<noteq> 0 \<Longrightarrow> coins_wf (FromTx tx h)"
  using set_Cleanup_vout[of "map (\<lambda>t. if IsUnspendable (scriptPubKey t) then CTxOut_SetNull else t) (vout tx)"]
  by (auto simp: FromTx_def ClearUnspendable_def coins_wf_def Cleanup_def spendable_outputs_def list_all_iff
      split: if_split_asm)

lemma ClearUnspendable_FromTx: "ClearUnspendable (FromTx tx h) = FromTx tx h"
proof -
  let ?f = "\<lambda>t. if IsUnspendable (scriptPubKey t) then CTxOut_SetNull else t"
  have n: "\<not> IsUnspendable (scriptPubKey CTxOut_SetNull)" by (simp add: CTxOut_SetNull_def IsUnspendable_def)
  have "?f t = t" if "t \<in> set (map ?f v)" for t v using that n by (auto split: if_split_asm)
  then have "map ?f (Cleanup_vout (map ?f v)) = Cleanup_vout (map ?f v)" for v
    using set_Cleanup_vout[of "map ?f v"] by (intro map_idI) (simp, blast)
  then show ?thesis by (simp add: FromTx_def ClearUnspendable_def Cleanup_def)
qed

lemma outputs_match_FromTx:
  assumes "live (Some m) = live (Some (FromTx tx h))"
  shows "outputs_match tx h m"
proof (cases "IsPruned (FromTx tx h)")
  case True
  then have "IsPruned m" using assms by (simp split: if_splits)
  then have "IsPruned (ClearUnspendable m)" "\<And>v. IsPruned ((ClearUnspendable m)\<lparr>cVersion := v\<rparr>)"
    by (simp_all add: ClearUnspendable_def IsPruned_def Cleanup_def, insert set_Cleanup_vout)
       (auto simp: list_all_iff split: if_split_asm dest!: subsetD[OF set_Cleanup_vout])
  then show ?thesis using True by (simp add: outputs_match_def Let_def CCoins_eq_def)
next
  case False
  then have "m = FromTx tx h" using assms by (simp split: if_splits)
  then show ?thesis by (simp add: outputs_match_def Let_def CCoins_eq_def ClearUnspendable_FromTx)
qed

section \<open>A transaction and a block, there and back\<close>

lemma tx_undone:
  assumes up: "UpdateCoins Hash base tx h c = Some (c', undo)" and ok: "cache_ok base c" and wf: "view_wf (view_of base c)"
    and con: "tx_connectable Hash base c tx" and h: "h \<noteq> 0"
  shows "cache_ok base c' \<and> view_wf (view_of base c') \<and>
    (\<forall>x. view_of base c x = None \<longrightarrow> x \<noteq> GetHash Hash tx \<longrightarrow> view_of base c' x = None) \<and>
    (\<forall>d b. cache_ok base d \<longrightarrow> view_of base d = view_of base c' \<longrightarrow>
      (\<exists>d'. disconnect_tx Hash base h (IsCoinBase tx) tx undo d b = Some (d', b) \<and> cache_ok base d' \<and> view_of base d' = view_of base c))"
proof -
  let ?x = "GetHash Hash tx" and ?o = "FromTx tx h"
  have nx: "live (base ?x) = None" "view_of base c ?x = None" and wfo: "coins_wf ?o"
    using con FromTx_wf[OF _ h] by (auto simp: tx_connectable_def)
  obtain c1 us where in1: "if IsCoinBase tx then c1 = c \<and> us = [] else update_inputs base (vin tx) c [] = Some (c1, us)"
    and c': "c' = (if IsCoinBase tx then ModifyCoins base c1 ?x (\<lambda>_. ?o) else ModifyNewCoins c1 ?x (\<lambda>_. ?o))" "undo = us"
    using up by (auto simp: UpdateCoins_def split: if_split_asm option.split_asm prod.split_asm)
  have P: "cache_ok base c1 \<and> view_wf (view_of base c1) \<and> (\<forall>x. view_of base c x = None \<longrightarrow> view_of base c1 x = None) \<and>
    (IsCoinBase tx \<or> length us = length (vin tx)) \<and>
    (\<forall>d b. cache_ok base d \<longrightarrow> view_of base d = view_of base c1 \<longrightarrow>
       (\<exists>d'. (if IsCoinBase tx then (d, b) else undo_inputs base (rev (zip us (map prevout (vin tx)))) d b) = (d', b) \<and>
          cache_ok base d' \<and> view_of base d' = view_of base c))"
  proof (cases "IsCoinBase tx")
    case False
    then show ?thesis using update_inputs_undone[OF _ ok wf, of "vin tx" "[]" c1 us] in1 by auto
  qed (use in1 ok wf in auto)
  have ok1: "cache_ok base c1" and wf1: "view_wf (view_of base c1)" and n1: "view_of base c1 ?x = None"
    using P nx by blast+
  have v': "view_of base c' = (view_of base c1)(?x := live (Some ?o))"
    unfolding c'(1) by (intro ext)
      (simp add: ModifyCoins_get[OF ok1] ModifyNewCoins_get[of base "GetHash Hash tx", OF nx(1)] coins_wf_Cleanup[OF wfo] del: live_simps)
  have ok': "cache_ok base c'"
    unfolding c'(1) using ModifyCoins_ok[OF ok1] ModifyNewCoins_ok[of base c1 "GetHash Hash tx", OF ok1 nx(1)] by simp
  have wf': "view_wf (view_of base c')"
    unfolding v' using wf1 wfo by (auto simp: view_wf_def split: if_split_asm)
  have "\<exists>d'. disconnect_tx Hash base h (IsCoinBase tx) tx undo d b = Some (d', b) \<and> cache_ok base d' \<and> view_of base d' = view_of base c"
    if d: "cache_ok base d" "view_of base d = view_of base c'" for d b
  proof -
    let ?m = "coins (modifier_entry base d ?x)" and ?d1 = "ModifyCoins base d ?x (\<lambda>_. CCoins_Clear)"
    have "view_of base c' ?x = live (Some ?o)" using fun_cong[OF v', of ?x] by (simp only: fun_upd_same)
    then have "live (Some ?m) = live (Some ?o)"
      using modifier_entry_live(1)[OF d(1), of ?x] fun_cong[OF d(2), of ?x] by (simp only:)
    then have match: "outputs_match tx h ?m" by (rule outputs_match_FromTx)
    have "IsPruned (Cleanup CCoins_Clear)" unfolding IsPruned_Cleanup by (simp add: IsPruned_def CCoins_Clear_def)
    then have "view_of base ?d1 = (view_of base d)(?x := None)"
      by (intro ext) (simp add: ModifyCoins_get[OF d(1)])
    also have "\<dots> = view_of base c1" unfolding d(2) v' using n1 by (intro ext) simp
    finally obtain d' where "(if IsCoinBase tx then (?d1, b) else undo_inputs base (rev (zip us (map prevout (vin tx)))) ?d1 b) = (d', b)"
      "cache_ok base d'" "view_of base d' = view_of base c"
      using P ModifyCoins_ok[OF d(1)] by blast
    then show ?thesis using match P c'(2) by (auto simp: disconnect_tx_def Let_def split: if_split_asm)
  qed
  moreover have "view_of base c' y = None" if "view_of base c y = None" "y \<noteq> ?x" for y
    using fun_cong[OF v', of y] that P by (simp del: live_simps)
  ultimately show ?thesis using ok' wf' by blast
qed

lemma connect_txs_length: "connect_txs Hash base h txs c = Some (c', undos) \<Longrightarrow> length undos = length txs"
  by (induction txs arbitrary: c undos) (auto split: option.split_asm prod.split_asm)

lemma disconnect_txs_undo:
  assumes "connect_txs Hash base h txs c = Some (c', undos)" "cache_ok base c" "view_wf (view_of base c)" "h \<noteq> 0"
    and "\<forall>tx\<in>set txs. \<not> IsCoinBase tx \<and> tx_connectable Hash base c tx" "distinct (map (GetHash Hash) txs)"
  shows "cache_ok base c' \<and> (\<forall>d b ys. cache_ok base d \<longrightarrow> view_of base d = view_of base c' \<longrightarrow> ys \<noteq> [] \<longrightarrow>
      (\<exists>d'. disconnect_txs Hash base h (rev (zip txs undos) @ ys) d b = disconnect_txs Hash base h ys d' b \<and>
         cache_ok base d' \<and> view_of base d' = view_of base c))"
  using assms
proof (induction txs arbitrary: c undos)
  case Nil
  then show ?case by auto
next
  case (Cons tx txs)
  obtain c1 undo us where up: "UpdateCoins Hash base tx h c = Some (c1, undo)"
    and cs: "connect_txs Hash base h txs c1 = Some (c', us)" "undos = undo # us"
    using Cons.prems(1) by (auto split: option.split_asm prod.split_asm)
  have con: "tx_connectable Hash base c tx" and nc: "\<not> IsCoinBase tx" using Cons.prems(5) by simp_all
  note T = tx_undone[OF up Cons.prems(2,3) con Cons.prems(4)]
  have ok1: "cache_ok base c1" and wf1: "view_wf (view_of base c1)"
    and keep: "view_of base c x = None \<Longrightarrow> x \<noteq> GetHash Hash tx \<Longrightarrow> view_of base c1 x = None" for x
    using T by blast+
  have "\<forall>t\<in>set txs. \<not> IsCoinBase t \<and> tx_connectable Hash base c1 t"
  proof
    fix t assume t: "t \<in> set txs"
    have "GetHash Hash t \<noteq> GetHash Hash tx" using Cons.prems(6) t by (auto simp: image_iff)
    moreover have "\<not> IsCoinBase t" "tx_connectable Hash base c t" using Cons.prems(5) t by simp_all
    ultimately show "\<not> IsCoinBase t \<and> tx_connectable Hash base c1 t" using keep by (simp add: tx_connectable_def)
  qed
  moreover have "distinct (map (GetHash Hash) txs)" using Cons.prems(6) by simp
  ultimately have R: "cache_ok base c' \<and> (\<forall>d b ys. cache_ok base d \<longrightarrow> view_of base d = view_of base c' \<longrightarrow> ys \<noteq> [] \<longrightarrow>
      (\<exists>d'. disconnect_txs Hash base h (rev (zip txs us) @ ys) d b = disconnect_txs Hash base h ys d' b \<and>
         cache_ok base d' \<and> view_of base d' = view_of base c1))"
    by (rule Cons.IH[OF cs(1) ok1 wf1 Cons.prems(4)])
  have "\<exists>d'. disconnect_txs Hash base h (rev (zip (tx # txs) undos) @ ys) d b = disconnect_txs Hash base h ys d' b \<and>
         cache_ok base d' \<and> view_of base d' = view_of base c"
    if d: "cache_ok base d" "view_of base d = view_of base c'" "ys \<noteq> []" for d b ys
  proof -
    obtain d1 where d1: "disconnect_txs Hash base h (rev (zip txs us) @ (tx, undo) # ys) d b = disconnect_txs Hash base h ((tx, undo) # ys) d1 b"
      "cache_ok base d1" "view_of base d1 = view_of base c1"
      using R d(1,2) by blast
    have "\<exists>d'. disconnect_tx Hash base h (IsCoinBase tx) tx undo d1 b = Some (d', b) \<and> cache_ok base d' \<and> view_of base d' = view_of base c"
      using T d1(2,3) by blast
    then obtain d' where "disconnect_tx Hash base h False tx undo d1 b = Some (d', b)" "cache_ok base d'" "view_of base d' = view_of base c"
      using nc by auto
    then show ?thesis using d1(1) cs(2) d(3) by auto
  qed
  then show ?case using R by blast
qed

lemma demo_hashes: "GetHash demo_hash demo_cb = [62]" "GetHash demo_hash demo_spend = [61]"
  by (simp_all add: GetHash_def demo_hash_def demo_cb_def demo_spend_def demo_out_def Serialize_CTransaction_def Serialize_vector_def
      Serialize_CTxIn_def Serialize_CTxOut_def Serialize_COutPoint_def Serialize_bytes_def ser_int32_def ser_int64_def
      ser_writedata32_def ser_writedata64_def ser_writedata8_def WriteCompactSize_def WriteLE32_def WriteLE64_def)

lemma demo_fields:
  "IsCoinBase demo_cb" "\<not> IsCoinBase demo_spend" "spendable_outputs demo_cb" "spendable_outputs demo_spend"
  "(replicate 32 7 :: byte list) \<noteq> [61]" "(replicate 32 7 :: byte list) \<noteq> [62]" "[61] \<noteq> (replicate 32 7 :: byte list)" "[62] \<noteq> (replicate 32 7 :: byte list)"
  by (simp_all add: IsCoinBase_def demo_cb_def demo_spend_def COutPoint_IsNull_def blob_IsNull_def list_all_iff spendable_outputs_def
      demo_out_def CTxOut_IsNull_def) (auto dest: arg_cong[of _ _ length])

lemma demo_connects: "connect_txs demo_hash Map.empty 1 [demo_cb, demo_spend] demo_coins \<noteq> None"
proof -
  have "\<exists>c1 u. UpdateCoins demo_hash Map.empty demo_cb 1 demo_coins = Some (c1, u) \<and>
      cacheCoins c1 (replicate 32 7) = cacheCoins demo_coins (replicate 32 7)"
    by (simp add: UpdateCoins_def demo_fields demo_hashes ModifyCoins_def modifier_end_def Let_def)
  then obtain c1 u where c1: "UpdateCoins demo_hash Map.empty demo_cb 1 demo_coins = Some (c1, u)"
    "cacheCoins c1 (replicate 32 7) = cacheCoins demo_coins (replicate 32 7)" by blast
  have "coins (modifier_entry Map.empty c1 (replicate 32 7)) = \<lparr>fCoinBase = False, cvout = [demo_out], cHeight = 1, cVersion = 1\<rparr>"
    by (simp add: modifier_entry_def c1(2) demo_coins_def)
  then have "update_inputs Map.empty (vin demo_spend) c1 [] \<noteq> None"
    by (simp add: demo_spend_def Let_def demo_out_def CTxOut_IsNull_def)
  then show ?thesis by (auto simp: c1(1) UpdateCoins_def[of _ _ demo_spend] demo_fields split: option.splits)
qed

lemma demo_facts:
  "connect_txs demo_hash Map.empty 1 [demo_cb, demo_spend] demo_coins = Some (fst (the (connect_txs demo_hash Map.empty 1 [demo_cb, demo_spend] demo_coins)), snd (the (connect_txs demo_hash Map.empty 1 [demo_cb, demo_spend] demo_coins)))"
  "cache_ok Map.empty demo_coins" "view_wf (view_of Map.empty demo_coins)" "(1::int) \<noteq> 0"
  "IsCoinBase demo_cb" "\<forall>tx\<in>set [demo_spend]. \<not> IsCoinBase tx"
  "\<forall>tx\<in>set [demo_cb, demo_spend]. tx_connectable demo_hash Map.empty demo_coins tx"
  "distinct (map (GetHash demo_hash) [demo_cb, demo_spend])" "\<not> blob_IsNull [9]"
  subgoal using demo_connects by (auto split: option.splits)
  subgoal by (simp add: cache_ok_def demo_coins_def)
  subgoal by (auto simp: view_wf_def coins_wf_def demo_coins_def cache_get_def demo_out_def Cleanup_vout_def CTxOut_IsNull_def CCoinsViewCache_new_def split: if_split_asm)
  subgoal by simp
  subgoal by (rule demo_fields)
  subgoal by (simp add: demo_fields)
  subgoal by (simp add: tx_connectable_def demo_hashes demo_fields demo_coins_def cache_get_def CCoinsViewCache_new_def)
  subgoal by (simp add: demo_hashes)
  subgoal by (simp add: blob_IsNull_def)
  done

section \<open>Properties\<close>

text \<open>C15: disconnecting a block undoes connecting it. Take any cache over any parent view, and a block whose first transaction,
  and no other, is a coinbase, whose transactions have distinct ids that are neither in the view nor in its parent, and
  whose outputs have values. If its transactions connect, then \<^verbatim>\<open>DisconnectBlock\<close>, given the undo data that connecting
  produced (the coinbase's left out) and the view with the block as its best block, succeeds, reports no inconsistency, moves
  the best block back, and gives back the same coins for every transaction id, metadata and
  trailing spent outputs included. The coins in the view must have a height other than 0: the undo data uses that
  height as its mark.\<close>

theorem disconnect_undoes_connect:
  assumes "connect_txs Hash base h (cb # txs) c = Some (c', undos)" "cache_ok base c" "view_wf (view_of base c)" "h \<noteq> 0"
    and "IsCoinBase cb" "\<forall>tx\<in>set txs. \<not> IsCoinBase tx"
    and "\<forall>tx\<in>set (cb # txs). tx_connectable Hash base c tx" "distinct (map (GetHash Hash) (cb # txs))"
    and "\<not> blob_IsNull blockHash"
  shows "\<exists>d. DisconnectBlock Hash base base_best (cb # txs) (tl undos) h blockHash prevHash (SetBestBlock c' blockHash) = Inr (d, True) \<and>
    hashBlock d = prevHash \<and> (\<forall>x. live (cache_get base d x) = live (cache_get base c x))"
proof -
  obtain c1 undo us where up: "UpdateCoins Hash base cb h c = Some (c1, undo)"
    and cs: "connect_txs Hash base h txs c1 = Some (c', us)" "undos = undo # us"
    using assms(1) by (auto split: option.split_asm prod.split_asm)
  have undo: "undo = []" using up assms(5) by (simp add: UpdateCoins_def)
  have con: "tx_connectable Hash base c cb" using assms(7) by simp
  note T = tx_undone[OF up assms(2,3) con assms(4)]
  have ok1: "cache_ok base c1" and wf1: "view_wf (view_of base c1)"
    and keep: "view_of base c x = None \<Longrightarrow> x \<noteq> GetHash Hash cb \<Longrightarrow> view_of base c1 x = None" for x
    using T by blast+
  have "\<forall>t\<in>set txs. \<not> IsCoinBase t \<and> tx_connectable Hash base c1 t"
    using assms(6,7,8) keep by (auto simp: tx_connectable_def image_iff)
  then have R: "cache_ok base c' \<and> (\<forall>d b ys. cache_ok base d \<longrightarrow> view_of base d = view_of base c' \<longrightarrow> ys \<noteq> [] \<longrightarrow>
      (\<exists>d'. disconnect_txs Hash base h (rev (zip txs us) @ ys) d b = disconnect_txs Hash base h ys d' b \<and>
         cache_ok base d' \<and> view_of base d' = view_of base c1))"
    using disconnect_txs_undo[OF cs(1) ok1 wf1 assms(4)] assms(8) by simp
  let ?c = "SetBestBlock c' blockHash"
  have c: "cache_ok base ?c" "view_of base ?c = view_of base c'"
    using R by (simp_all add: SetBestBlock_def cache_ok_def cache_get_def)
  obtain d1 where d1: "disconnect_txs Hash base h (rev (zip txs us) @ [(cb, undo)]) ?c True = disconnect_txs Hash base h [(cb, undo)] d1 True"
    "cache_ok base d1" "view_of base d1 = view_of base c1" using R c by blast
  have "\<exists>d. disconnect_tx Hash base h (IsCoinBase cb) cb undo d1 True = Some (d, True) \<and> cache_ok base d \<and> view_of base d = view_of base c"
    using T d1(2,3) by blast
  then obtain d where d: "disconnect_tx Hash base h True cb undo d1 True = Some (d, True)" "view_of base d = view_of base c"
    using assms(5) by auto
  have dx: "disconnect_txs Hash base h (rev (zip (cb # txs) ([] # us))) ?c True = Some (d, True)"
    using d1(1) d(1) undo by simp
  have best: "cache_GetBestBlock base_best ?c = (?c, blockHash)"
    using assms(9) by (simp add: cache_GetBestBlock_def SetBestBlock_def)
  have "DisconnectBlock Hash base base_best (cb # txs) (tl undos) h blockHash prevHash ?c = Inr (SetBestBlock d prevHash, True)"
    using dx connect_txs_length[OF cs(1)] by (simp add: DisconnectBlock_def best cs(2))
  moreover have "live (cache_get base (SetBestBlock d prevHash) x) = live (cache_get base c x)" for x
    using fun_cong[OF d(2), of x] by (simp add: SetBestBlock_def cache_get_def)
  ultimately show ?thesis by (simp add: SetBestBlock_def)
qed

theorem disconnect_undoes_connect_witness:
  "\<exists>d. DisconnectBlock demo_hash Map.empty [] [demo_cb, demo_spend]
       (tl (snd (the (connect_txs demo_hash Map.empty 1 [demo_cb, demo_spend] demo_coins)))) 1 [9] [8]
       (SetBestBlock (fst (the (connect_txs demo_hash Map.empty 1 [demo_cb, demo_spend] demo_coins))) [9]) = Inr (d, True) \<and>
     hashBlock d = [8] \<and> (\<forall>x. live (cache_get Map.empty d x) = live (cache_get Map.empty demo_coins x))"
  by (rule disconnect_undoes_connect) (rule demo_facts)+

end
