(* ===== verification/CheckQueue.thy ===== *)
theory CheckQueue
  imports Prelude
begin

text \<open>
  The queue of \<^verbatim>\<open>checkqueue.h\<close> on which the script checks of a block run in parallel: \<^verbatim>\<open>CCheckQueue\<close>, its loop run by the worker
  threads and by the master in \<^verbatim>\<open>Wait\<close>, and \<^verbatim>\<open>CCheckQueueControl\<close>. The threads are a list with the master first. A part of the loop that holds the mutex
  is one step, running one check is one step, and the steps of the threads interleave freely; a waiting thread may wake at any
  time, as condition variables allow, so \<open>Waiting True\<close> marks those that have been notified. \<open>run\<close> is the check's \<^verbatim>\<open>operator()\<close>; the last component of
  a configuration lists the checks added since the last \<^verbatim>\<open>Wait\<close> returned, and only the properties look at it.
\<close>

section \<open>The queue\<close>

record 'c CCheckQueue =
  cq_queue :: "'c list"
  nIdle :: nat
  nTotal :: nat
  fAllOk :: bool
  nTodo :: nat
  fQuit :: bool
  nBatchSize :: nat

definition CCheckQueue_new :: "nat \<Rightarrow> 'c CCheckQueue" where
  "CCheckQueue_new nBatchSizeIn =
     \<lparr>cq_queue = [], nIdle = 0, nTotal = 0, fAllOk = True, nTodo = 0, fQuit = False, nBatchSize = nBatchSizeIn\<rparr>"

definition queue_Add :: "'c list \<Rightarrow> 'c CCheckQueue \<Rightarrow> 'c CCheckQueue" where
  "queue_Add vChecks q = q\<lparr>cq_queue := cq_queue q @ vChecks, nTodo := nTodo q + length vChecks\<rparr>"

definition queue_IsIdle :: "'c CCheckQueue \<Rightarrow> bool" where
  "queue_IsIdle q \<longleftrightarrow> nTotal q = nIdle q \<and> nTodo q = 0 \<and> fAllOk q"

section \<open>The loop\<close>

text \<open>Where a thread is: outside the loop, with what its last run returned; about to take the mutex after a batch of \<open>nNow\<close> checks
  (none, before the first); waiting; or running the rest of a batch.\<close>

datatype 'c thread =
    Outside "bool option"
  | Ready nat bool
  | Waiting bool
  | Executing "'c list" nat bool

text \<open>The clean-up of the previous run, and whether it notifies the master.\<close>

definition loop_cleanup :: "bool \<Rightarrow> nat \<Rightarrow> bool \<Rightarrow> 'c CCheckQueue \<Rightarrow> 'c CCheckQueue \<times> bool" where
  "loop_cleanup fMaster nNow fOk q =
     (if nNow \<noteq> 0
      then let q1 = q\<lparr>fAllOk := (fAllOk q \<and> fOk), nTodo := nTodo q - nNow\<rparr> in (q1, nTodo q1 = 0 \<and> \<not> fMaster)
      else (q\<lparr>nTotal := nTotal q + 1\<rparr>, False))"

definition batch_size :: "'c CCheckQueue \<Rightarrow> nat" where
  "batch_size q = max 1 (min (nBatchSize q) (length (cq_queue q) div (nTotal q + nIdle q + 1)))"

text \<open>The part from the test of the queue on, still under the mutex: the thread returns, waits, or takes a batch from the end.\<close>

definition loop_head :: "bool \<Rightarrow> 'c CCheckQueue \<Rightarrow> 'c CCheckQueue \<times> 'c thread" where
  "loop_head fMaster q =
     (if cq_queue q = [] then
        (if (fMaster \<or> fQuit q) \<and> nTodo q = 0
         then (q\<lparr>nTotal := nTotal q - 1, fAllOk := (if fMaster then True else fAllOk q)\<rparr>, Outside (Some (fAllOk q)))
         else (q\<lparr>nIdle := nIdle q + 1\<rparr>, Waiting False))
      else let nNow = batch_size q
           in (q\<lparr>cq_queue := take (length (cq_queue q) - nNow) (cq_queue q)\<rparr>,
               Executing (take nNow (rev (cq_queue q))) nNow (fAllOk q)))"

text \<open>Waking up, with the mutex taken again.\<close>

definition loop_wake :: "bool \<Rightarrow> 'c CCheckQueue \<Rightarrow> 'c CCheckQueue \<times> 'c thread" where
  "loop_wake fMaster q = loop_head fMaster (q\<lparr>nIdle := nIdle q - 1\<rparr>)"

section \<open>Notifications\<close>

fun notify :: "'c thread \<Rightarrow> 'c thread" where
  "notify (Waiting _) = Waiting True"
| "notify t = t"

definition notify_master :: "'c thread list \<Rightarrow> 'c thread list" where
  "notify_master ts = ts[0 := notify (ts ! 0)]"

text \<open>\<^verbatim>\<open>Add\<close> notifies one waiting worker (any of them, if there is one), all, or none.\<close>

definition added_notify :: "nat \<Rightarrow> 'c thread list \<Rightarrow> 'c thread list \<Rightarrow> bool" where
  "added_notify n ts ts' \<longleftrightarrow>
     (if n = 0 then ts' = ts
      else if n = 1 then
        (\<exists>i. 0 < i \<and> i < length ts \<and> ts ! i = Waiting False \<and> ts' = ts[i := Waiting True]) \<or>
        (\<forall>i. 0 < i \<and> i < length ts \<longrightarrow> ts ! i \<noteq> Waiting False) \<and> ts' = ts
      else ts' = hd ts # map notify (tl ts))"

section \<open>All threads together\<close>

type_synonym 'c queue_config = "'c CCheckQueue \<times> 'c thread list \<times> 'c list"

definition initial :: "nat \<Rightarrow> nat \<Rightarrow> 'c queue_config" where
  "initial nBatchSizeIn workers = (CCheckQueue_new nBatchSizeIn, Outside None # replicate workers (Ready 0 True), [])"

text \<open>A step of one thread inside the loop that does not need a spurious wake-up.\<close>

inductive thread_step :: "('c \<Rightarrow> bool) \<Rightarrow> 'c queue_config \<Rightarrow> 'c queue_config \<Rightarrow> bool" for run where
  lock: "i < length ts \<Longrightarrow> ts ! i = Ready nNow fOk \<Longrightarrow> loop_cleanup (i = 0) nNow fOk q = (q1, b) \<Longrightarrow> loop_head (i = 0) q1 = (q2, t) \<Longrightarrow>
    thread_step run (q, ts, added)
      (q2, (if b then notify_master ts else ts)[i := t], if i = 0 \<and> t \<in> range Outside then [] else added)"
| check: "i < length ts \<Longrightarrow> ts ! i = Executing (c # cs) nNow fOk \<Longrightarrow>
    thread_step run (q, ts, added) (q, ts[i := Executing cs nNow (if fOk then run c else fOk)], added)"
| batch_done: "i < length ts \<Longrightarrow> ts ! i = Executing [] nNow fOk \<Longrightarrow>
    thread_step run (q, ts, added) (q, ts[i := Ready nNow fOk], added)"
| wake: "i < length ts \<Longrightarrow> ts ! i = Waiting True \<Longrightarrow> loop_wake (i = 0) q = (q1, t) \<Longrightarrow>
    thread_step run (q, ts, added) (q1, ts[i := t], if i = 0 \<and> t \<in> range Outside then [] else added)"

text \<open>Any step: also spurious wake-ups, and the calls of \<^verbatim>\<open>Add\<close> and \<^verbatim>\<open>Wait\<close> by the master.\<close>

inductive queue_step :: "('c \<Rightarrow> bool) \<Rightarrow> 'c queue_config \<Rightarrow> 'c queue_config \<Rightarrow> bool" for run where
  thread: "thread_step run s s' \<Longrightarrow> queue_step run s s'"
| spurious: "i < length ts \<Longrightarrow> ts ! i = Waiting False \<Longrightarrow> loop_wake (i = 0) q = (q1, t) \<Longrightarrow>
    queue_step run (q, ts, added) (q1, ts[i := t], if i = 0 \<and> t \<in> range Outside then [] else added)"
| add: "ts \<noteq> [] \<Longrightarrow> ts ! 0 = Outside r \<Longrightarrow> added_notify (length vChecks) ts ts' \<Longrightarrow>
    queue_step run (q, ts, added) (queue_Add vChecks q, ts', added @ vChecks)"
| wait: "ts \<noteq> [] \<Longrightarrow> ts ! 0 = Outside r \<Longrightarrow> queue_step run (q, ts, added) (q, ts[0 := Ready 0 True], added)"

inductive reachable :: "('c \<Rightarrow> bool) \<Rightarrow> 'c queue_config \<Rightarrow> bool" for run where
  start: "reachable run (initial nBatchSizeIn workers)"
| step: "reachable run s \<Longrightarrow> queue_step run s s' \<Longrightarrow> reachable run s'"

inductive_cases thread_stepE: "thread_step run (q, ts, added) s'"
inductive_cases queue_stepE: "queue_step run (q, ts, added) s'"

section \<open>The invariant\<close>

text \<open>What a thread holds of \<open>nTodo\<close>, whether what it holds is fine, and whether it is counted in \<open>nTotal\<close> and \<open>nIdle\<close>.\<close>

fun pending :: "'c thread \<Rightarrow> nat" where
  "pending (Ready n fOk) = n"
| "pending (Executing cs n fOk) = n"
| "pending _ = 0"

fun fine :: "('c \<Rightarrow> bool) \<Rightarrow> 'c thread \<Rightarrow> bool" where
  "fine run (Ready n fOk) = fOk"
| "fine run (Executing cs n fOk) = (fOk \<and> list_all run cs)"
| "fine run _ = True"

fun in_total :: "'c thread \<Rightarrow> nat" where
  "in_total (Ready n fOk) = (if n = 0 then 0 else 1)"
| "in_total (Outside r) = 0"
| "in_total _ = 1"

fun in_idle :: "'c thread \<Rightarrow> nat" where
  "in_idle (Waiting b) = 1"
| "in_idle _ = 0"

fun thread_ok :: "'c thread \<Rightarrow> bool" where
  "thread_ok (Ready n fOk) = (n = 0 \<longrightarrow> fOk)"
| "thread_ok (Executing cs n fOk) = (0 < n)"
| "thread_ok _ = True"

text \<open>The master only waits, not notified, while checks are pending elsewhere and none are queued.\<close>

definition master_ok :: "'c CCheckQueue \<Rightarrow> 'c thread \<Rightarrow> bool" where
  "master_ok q t \<longleftrightarrow> (t = Waiting False \<longrightarrow> cq_queue q = [] \<and> 0 < nTodo q)"

definition queue_inv :: "('c \<Rightarrow> bool) \<Rightarrow> 'c queue_config \<Rightarrow> bool" where
  "queue_inv run s = (case s of (q, ts, added) \<Rightarrow>
     ts \<noteq> [] \<and> list_all thread_ok ts \<and>
     nTodo q = length (cq_queue q) + sum_list (map pending ts) \<and>
     nTotal q = sum_list (map in_total ts) \<and> nIdle q = sum_list (map in_idle ts) \<and>
     ((fAllOk q \<and> list_all run (cq_queue q) \<and> list_all (fine run) ts) = list_all run added) \<and>
     \<not> fQuit q \<and> master_ok q (ts ! 0))"

lemma outside_simps: "pending (Outside r) = 0" "in_total (Outside r) = 0" "in_idle (Outside r) = 0" "thread_ok (Outside r)" "fine run (Outside r)"
  by simp_all

lemma sum_update:
  "i < length ts \<Longrightarrow> sum_list (map f (ts[i := t])) + f (ts ! i) = sum_list (map f ts) + (f t :: nat)"
  by (induction ts arbitrary: i) (auto split: nat.splits)

lemma sum_rest:
  assumes "i < length ts" "f (Outside None) = (0 :: nat)"
  shows "sum_list (map f (ts[i := t])) = f t + sum_list (map f (ts[i := Outside None]))"
    "sum_list (map f ts) = f (ts ! i) + sum_list (map f (ts[i := Outside None]))"
  using sum_update[OF assms(1), of f t] sum_update[OF assms(1), of f "Outside None"] assms(2) by simp_all

lemma all_rest:
  assumes "i < length ts" "P (Outside None)"
  shows "list_all P (ts[i := t]) \<longleftrightarrow> P t \<and> list_all P (ts[i := Outside None])"
    "list_all P ts \<longleftrightarrow> P (ts ! i) \<and> list_all P (ts[i := Outside None])"
proof -
  have "list_all P (ts[i := u]) \<longleftrightarrow> P u \<and> (\<forall>j<length ts. j \<noteq> i \<longrightarrow> P (ts ! j))" for u
    using assms(1) by (auto simp: list_all_length nth_list_update)
  note u = this
  show "list_all P (ts[i := t]) \<longleftrightarrow> P t \<and> list_all P (ts[i := Outside None])" using u assms(2) by simp
  show "list_all P ts \<longleftrightarrow> P (ts ! i) \<and> list_all P (ts[i := Outside None])"
    using u[of "ts ! i"] u[of "Outside None"] assms(2) by simp
qed

text \<open>While a thread holds the mutex between the clean-up and the rest: the thread itself holds nothing, but it is counted.\<close>

definition locked_inv :: "('c \<Rightarrow> bool) \<Rightarrow> 'c CCheckQueue \<Rightarrow> 'c thread list \<Rightarrow> nat \<Rightarrow> 'c list \<Rightarrow> bool" where
  "locked_inv run q ts i added \<longleftrightarrow> (let rest = ts[i := Outside None] in
     i < length ts \<and> list_all thread_ok rest \<and>
     nTodo q = length (cq_queue q) + sum_list (map pending rest) \<and>
     nTotal q = sum_list (map in_total rest) + 1 \<and> nIdle q = sum_list (map in_idle rest) \<and>
     ((fAllOk q \<and> list_all run (cq_queue q) \<and> list_all (fine run) rest) = list_all run added) \<and>
     \<not> fQuit q)"

lemma nothing_pending:
  assumes "sum_list (map pending ts) = 0" "list_all thread_ok ts"
  shows "list_all (fine run) ts"
proof -
  have "fine run t" if "t \<in> set ts" for t
  proof -
    have "pending t = 0" "thread_ok t" using assms that by (auto simp: list_all_iff)
    then show ?thesis by (cases t) auto
  qed
  then show ?thesis by (simp add: list_all_iff)
qed

lemma batch_size_bounds: "cq_queue q \<noteq> [] \<Longrightarrow> 0 < batch_size q \<and> batch_size q \<le> length (cq_queue q)"
proof -
  assume "cq_queue q \<noteq> []"
  then have "1 \<le> length (cq_queue q)" by (simp add: Suc_leI)
  moreover have "length (cq_queue q) div (nTotal q + nIdle q + 1) \<le> length (cq_queue q)" by (rule div_le_dividend)
  ultimately show ?thesis unfolding batch_size_def by linarith
qed

lemma list_all_batch:
  "n \<le> length xs \<Longrightarrow> list_all P xs \<longleftrightarrow> list_all P (take (length xs - n) xs) \<and> list_all P (take n (rev xs))"
  by (simp add: take_rev list_all_iff) (metis Un_iff append_take_drop_id set_append)

lemma loop_head_inv:
  assumes "locked_inv run q ts i added" "loop_head (i = 0) q = (q', t)" "i \<noteq> 0 \<Longrightarrow> master_ok q (ts ! 0)"
  shows "queue_inv run (q', ts[i := t], if i = 0 \<and> t \<in> range Outside then [] else added)"
    "i = 0 \<Longrightarrow> t = Outside r \<Longrightarrow> r = Some (list_all run added) \<and> cq_queue q' = [] \<and> nTodo q' = 0"
proof -
  let ?rest = "ts[i := Outside None]"
  have i: "i < length ts" using assms(1) by (simp add: locked_inv_def Let_def)
  note L = assms(1)[unfolded locked_inv_def Let_def]
  note S = sum_rest(1)[where f = pending and t = t, OF i outside_simps(1)] sum_rest(1)[where f = in_total and t = t, OF i outside_simps(2)]
    sum_rest(1)[where f = in_idle and t = t, OF i outside_simps(3)] all_rest(1)[where P = thread_ok and t = t, OF i outside_simps(4)]
    all_rest(1)[where P = "fine run" and t = t, OF i outside_simps(5)]
  have nq: "\<not> fQuit q" using L by blast
  have ne: "ts \<noteq> []" using i by auto
  have m: "master_ok q' (ts[i := t] ! 0)" if "i \<noteq> 0 \<Longrightarrow> cq_queue q = [] \<Longrightarrow> cq_queue q' = []" "nTodo q' = nTodo q" "i = 0 \<Longrightarrow> master_ok q' t"
    using assms(3) that i by (cases "i = 0") (auto simp: master_ok_def)
  show "queue_inv run (q', ts[i := t], if i = 0 \<and> t \<in> range Outside then [] else added)"
  proof (cases "cq_queue q = []")
    case e: True
    show ?thesis
    proof (cases "i = 0 \<and> nTodo q = 0")
      case True
      then have q': "q' = q\<lparr>nTotal := nTotal q - 1, fAllOk := True\<rparr>" "t = Outside (Some (fAllOk q))"
        using assms(2) e by (auto simp: loop_head_def)
      have "list_all (fine run) ?rest" using nothing_pending[of ?rest] L True by simp
      moreover have "pending t = 0" "in_total t = 0" "in_idle t = 0" "thread_ok t" "fine run t" "t \<in> range Outside" by (simp_all add: q'(2))
      moreover have "master_ok q' (ts[i := t] ! 0)" using True i by (simp add: master_ok_def q'(2))
      ultimately show ?thesis unfolding queue_inv_def prod.case S using L e True q'(1) ne by (simp del: sum_list_eq_0_iff)
    next
      case False
      then have q': "q' = q\<lparr>nIdle := nIdle q + 1\<rparr>" "t = Waiting False" using assms(2) e nq by (auto simp: loop_head_def)
      have "master_ok q' (ts[i := t] ! 0)" by (rule m) (use q' e False in \<open>auto simp: master_ok_def\<close>)
      moreover have "pending t = 0" "in_total t = 1" "in_idle t = 1" "thread_ok t" "fine run t" "t \<notin> range Outside" by (auto simp: q'(2))
      ultimately show ?thesis unfolding queue_inv_def prod.case S using L q'(1) ne e by (simp del: sum_list_eq_0_iff)
    qed
  next
    case False
    let ?n = "batch_size q"
    have q': "q' = q\<lparr>cq_queue := take (length (cq_queue q) - ?n) (cq_queue q)\<rparr>" "t = Executing (take ?n (rev (cq_queue q))) ?n (fAllOk q)"
      using assms(2) False by (auto simp: loop_head_def Let_def)
    have n: "0 < ?n" "?n \<le> length (cq_queue q)" using batch_size_bounds[OF False] by auto
    have "master_ok q' (ts[i := t] ! 0)" by (rule m) (use q' False in \<open>auto simp: master_ok_def\<close>)
    moreover have "pending t = ?n" "in_total t = 1" "in_idle t = 0" "thread_ok t" "t \<notin> range Outside"
      "fine run t \<longleftrightarrow> fAllOk q \<and> list_all run (take ?n (rev (cq_queue q)))" using n by (auto simp: q'(2))
    ultimately show ?thesis unfolding queue_inv_def prod.case S using L q'(1) ne n list_all_batch[OF n(2), of run]
      by (simp del: sum_list_eq_0_iff) blast
  qed
  show "r = Some (list_all run added) \<and> cq_queue q' = [] \<and> nTodo q' = 0" if "i = 0" "t = Outside r"
  proof -
    have e: "cq_queue q = []" "nTodo q = 0" "r = Some (fAllOk q)" "cq_queue q' = []" "nTodo q' = 0"
      using assms(2) that by (auto simp: loop_head_def Let_def split: if_split_asm)
    moreover have "list_all (fine run) ?rest" using nothing_pending[of ?rest] L e by simp
    ultimately show ?thesis using L by auto
  qed
qed

lemma notify_simps [simp]:
  "pending (notify t) = pending t" "in_total (notify t) = in_total t" "in_idle (notify t) = in_idle t"
  "thread_ok (notify t) = thread_ok t" "fine run (notify t) = fine run t" "notify t = Outside r \<longleftrightarrow> t = Outside r" "Outside r = notify t \<longleftrightarrow> t = Outside r" "notify t \<noteq> Waiting False"
  by (cases t; auto)+

lemma list_all_map_id: "list_all P xs \<longleftrightarrow> list_all (\<lambda>b. b) (map P xs)"
  by (simp add: list.pred_map comp_def)

text \<open>Threads that differ only in notifications hold the same.\<close>

definition alike :: "'c thread list \<Rightarrow> 'c thread list \<Rightarrow> bool" where
  "alike ts us \<longleftrightarrow> length us = length ts \<and> (\<forall>i<length ts. us ! i = ts ! i \<or> us ! i = notify (ts ! i))"

lemma alike_map: "alike ts us \<Longrightarrow> (\<And>t. f (notify t) = f t) \<Longrightarrow> map f us = map f ts"
  unfolding alike_def by (intro nth_equalityI) (simp_all, metis)

lemma alike_update: "alike ts us \<Longrightarrow> alike (ts[i := x]) (us[i := x])"
  unfolding alike_def by (cases "i < length ts") (auto simp: nth_list_update)

lemma alike_refl: "alike ts ts"
  by (simp add: alike_def)

lemma alike_notify: "alike ts (ts[i := notify (ts ! i)])"
  by (cases "i < length ts") (auto simp: alike_def nth_list_update)

lemma alike_locked:
  assumes "alike ts us" "locked_inv run q ts i added"
  shows "locked_inv run q us i added"
proof -
  have a: "alike (ts[i := Outside None]) (us[i := Outside None])" using assms(1) by (rule alike_update)
  have "list_all thread_ok (us[i := Outside None]) = list_all thread_ok (ts[i := Outside None])"
    "list_all (fine run) (us[i := Outside None]) = list_all (fine run) (ts[i := Outside None])"
    unfolding list_all_map_id[of thread_ok] list_all_map_id[of "fine run"]
    by (simp_all only: alike_map[OF a, of thread_ok] alike_map[OF a, of "fine run"] notify_simps)
  then show ?thesis
    using assms alike_map[OF a, of pending] alike_map[OF a, of in_total] alike_map[OF a, of in_idle]
    unfolding locked_inv_def Let_def by (simp add: alike_def)
qed

lemma rest_sums:
  assumes "i < length ts"
  shows "sum_list (map pending ts) = pending (ts ! i) + sum_list (map pending (ts[i := Outside None]))"
    "sum_list (map in_total ts) = in_total (ts ! i) + sum_list (map in_total (ts[i := Outside None]))"
    "sum_list (map in_idle ts) = in_idle (ts ! i) + sum_list (map in_idle (ts[i := Outside None]))"
    "list_all thread_ok ts \<longleftrightarrow> thread_ok (ts ! i) \<and> list_all thread_ok (ts[i := Outside None])"
    "list_all (fine run) ts \<longleftrightarrow> fine run (ts ! i) \<and> list_all (fine run) (ts[i := Outside None])"
  by (rule sum_rest(2) all_rest(2); simp add: assms)+

lemma cleanup_locked:
  assumes "queue_inv run (q, ts, added)" "i < length ts" "ts ! i = Ready nNow fOk" "loop_cleanup (i = 0) nNow fOk q = (q1, b)"
  defines "us \<equiv> if b then notify_master ts else ts"
  shows "locked_inv run q1 us i added" "i \<noteq> 0 \<Longrightarrow> master_ok q1 (us ! 0)"
proof -
  note I = assms(1)[unfolded queue_inv_def prod.case rest_sums[OF assms(2)] assms(3)]
  have "locked_inv run q1 ts i added"
    using I assms(2,4) by (cases "nNow = 0") (auto simp: locked_inv_def loop_cleanup_def Let_def simp del: sum_list_eq_0_iff)
  then show "locked_inv run q1 us i added"
    using alike_locked[OF alike_notify[of ts 0]] by (simp add: us_def notify_master_def)
  show "master_ok q1 (us ! 0)" if "i \<noteq> 0"
    using I assms(2,4) that
    by (cases "nNow = 0") (auto simp: us_def notify_master_def master_ok_def loop_cleanup_def Let_def simp del: sum_list_eq_0_iff)
qed

lemma wake_locked:
  assumes "queue_inv run (q, ts, added)" "i < length ts" "ts ! i = Waiting b"
  shows "locked_inv run (q\<lparr>nIdle := nIdle q - 1\<rparr>) ts i added" "i \<noteq> 0 \<Longrightarrow> master_ok (q\<lparr>nIdle := nIdle q - 1\<rparr>) (ts ! 0)"
  using assms(1)[unfolded queue_inv_def prod.case rest_sums[OF assms(2)] assms(3)] assms(2)
  by (auto simp: locked_inv_def master_ok_def simp del: sum_list_eq_0_iff)

lemma initial_inv: "queue_inv run (initial n workers)"
  by (simp add: queue_inv_def initial_def CCheckQueue_new_def master_ok_def list_all_iff sum_list_replicate map_replicate)

lemma thread_step_inv:
  assumes "thread_step run s s'" "queue_inv run s"
  shows "queue_inv run s'"
  using assms
proof (induction rule: thread_step.induct)
  case (lock i ts nNow fOk q q1 b q2 t added)
  note c = cleanup_locked[OF lock.prems lock.hyps(1-3)]
  show ?case by (rule loop_head_inv(1)[OF c(1) lock.hyps(4) c(2)])
next
  case (check i ts c cs nNow fOk q added)
  then show ?case
    unfolding queue_inv_def prod.case rest_sums[OF check.hyps(1)] rest_sums[of i "ts[i := Executing cs nNow (if fOk then run c else fOk)]" for x, simplified length_list_update, OF check.hyps(1)]
    by (auto simp: master_ok_def nth_list_update simp del: sum_list_eq_0_iff)
next
  case (batch_done i ts nNow fOk q added)
  then show ?case
    unfolding queue_inv_def prod.case rest_sums[OF batch_done.hyps(1)] rest_sums[of i "ts[i := Ready nNow fOk]", simplified length_list_update, OF batch_done.hyps(1)]
    by (auto simp: master_ok_def nth_list_update simp del: sum_list_eq_0_iff)
next
  case (wake i ts q q1 t added)
  note w = wake_locked[OF wake.prems wake.hyps(1,2)]
  show ?case using loop_head_inv(1)[OF w(1) _ w(2)] wake.hyps(3) unfolding loop_wake_def by blast
qed

lemma added_notify_alike: "added_notify n ts ts' \<Longrightarrow> ts \<noteq> [] \<Longrightarrow> alike ts ts' \<and> ts' ! 0 = ts ! 0"
  unfolding added_notify_def alike_def
  by (cases ts) (auto simp: nth_list_update nth_Cons split: if_split_asm nat.splits)

lemma alike_inv:
  assumes "alike ts us" "us ! 0 = ts ! 0" "queue_inv run (q, ts, added)"
  shows "queue_inv run (q, us, added)"
proof -
  have "list_all thread_ok us = list_all thread_ok ts" "list_all (fine run) us = list_all (fine run) ts"
    unfolding list_all_map_id[of thread_ok] list_all_map_id[of "fine run"]
    by (simp_all only: alike_map[OF assms(1), of thread_ok] alike_map[OF assms(1), of "fine run"] notify_simps)
  then show ?thesis
    using assms alike_map[OF assms(1), of pending] alike_map[OF assms(1), of in_total] alike_map[OF assms(1), of in_idle]
    unfolding queue_inv_def prod.case by (auto simp: alike_def)
qed

lemma queue_step_inv:
  assumes "queue_step run s s'" "queue_inv run s"
  shows "queue_inv run s'"
  using assms
proof (induction rule: queue_step.induct)
  case (thread s s')
  then show ?case by (rule thread_step_inv)
next
  case (spurious i ts q q1 t added)
  note w = wake_locked[OF spurious.prems spurious.hyps(1,2)]
  show ?case using loop_head_inv(1)[OF w(1) _ w(2)] spurious.hyps(3) unfolding loop_wake_def by blast
next
  case (add ts r vChecks ts' q added)
  have "queue_inv run (q, ts', added)"
    using alike_inv[OF _ _ add.prems] added_notify_alike[OF add.hyps(3,1)] by blast
  moreover have "ts' ! 0 = Outside r" using added_notify_alike[OF add.hyps(3,1)] add.hyps(2) by simp
  ultimately show ?case unfolding queue_inv_def prod.case queue_Add_def by (auto simp: master_ok_def)
next
  case (wait ts r q added)
  have i: "0 < length ts" using wait.hyps(1) by simp
  show ?case using wait.prems wait.hyps
    unfolding queue_inv_def prod.case rest_sums[OF i] rest_sums[of 0 "ts[0 := Ready 0 True]", simplified length_list_update, OF i]
    by (auto simp: master_ok_def nth_list_update simp del: sum_list_eq_0_iff)
qed

lemma reachable_inv: "reachable run s \<Longrightarrow> queue_inv run s"
  by (induction rule: reachable.induct) (auto intro: initial_inv queue_step_inv)

section \<open>The work left\<close>

text \<open>Every step of a thread but a spurious wake-up uses up some of this measure.\<close>

fun thread_work :: "'c thread \<Rightarrow> nat" where
  "thread_work (Outside r) = 0"
| "thread_work (Ready n fOk) = 3"
| "thread_work (Waiting b) = (if b then 1 else 0)"
| "thread_work (Executing cs n fOk) = 4 + 2 * length cs"

definition queue_work :: "'c queue_config \<Rightarrow> nat" where
  "queue_work s = (case s of (q, ts, added) \<Rightarrow> 7 * length (cq_queue q) + sum_list (map thread_work ts))"

lemma head_work:
  assumes "loop_head m q = (q', t)"
  shows "7 * length (cq_queue q') + thread_work t \<le> 7 * length (cq_queue q)"
proof (cases "cq_queue q = []")
  case False
  then show ?thesis using assms batch_size_bounds[OF False] by (auto simp: loop_head_def Let_def)
qed (use assms in \<open>auto simp: loop_head_def Let_def split: if_split_asm\<close>)

lemma notify_master_work: "sum_list (map thread_work (notify_master ts)) \<le> sum_list (map thread_work ts) + 1"
proof (cases ts)
  case (Cons t us)
  then show ?thesis by (cases t) (auto simp: notify_master_def)
qed (simp add: notify_master_def)

lemma thread_step_work: "thread_step run s s' \<Longrightarrow> queue_work s' < queue_work s"
proof (induction rule: thread_step.induct)
  case (lock i ts nNow fOk q q1 b q2 t added)
  let ?us = "if b then notify_master ts else ts"
  have q1: "cq_queue q1 = cq_queue q" using lock.hyps(3) by (auto simp: loop_cleanup_def Let_def split: if_split_asm)
  have "b \<Longrightarrow> i \<noteq> 0" using lock.hyps(3) by (auto simp: loop_cleanup_def Let_def split: if_split_asm)
  then have "thread_work (?us ! i) = 3" "i < length ?us" using lock.hyps(1,2) by (auto simp: notify_master_def)
  then show ?case
    using sum_update[of i ?us thread_work t] notify_master_work[of ts] head_work[OF lock.hyps(4)] q1
    by (auto simp: queue_work_def split: if_split_asm)
next
  case (check i ts c cs nNow fOk q added)
  then show ?case
    using sum_update[OF check.hyps(1), of thread_work "Executing cs nNow (if fOk then run c else fOk)"] by (simp add: queue_work_def)
next
  case (batch_done i ts nNow fOk q added)
  then show ?case
    using sum_update[OF batch_done.hyps(1), of thread_work "Ready nNow fOk"] by (simp add: queue_work_def)
next
  case (wake i ts q q1 t added)
  then show ?case
    using sum_update[OF wake.hyps(1), of thread_work t] head_work[of "i = 0" "q\<lparr>nIdle := nIdle q - 1\<rparr>" q1 t]
    by (simp add: queue_work_def loop_wake_def)
qed

lemma some_pending: "0 < sum_list (map f ts) \<Longrightarrow> \<exists>t\<in>set ts. 0 < (f t :: nat)"
  by (induction ts) auto

lemma thread_progress:
  assumes "queue_inv run (q, ts, added)" "ts ! 0 \<notin> range Outside"
  shows "\<exists>s'. thread_step run (q, ts, added) s'"
proof -
  have ne: "0 < length ts" using assms(1) by (auto simp: queue_inv_def)
  have active: "\<exists>s'. thread_step run (q, ts, added) s'" if i: "i < length ts" and p: "\<exists>n ok cs. ts ! i = Ready n ok \<or> ts ! i = Executing cs n ok" for i
  proof -
    obtain n ok cs where "ts ! i = Ready n ok \<or> ts ! i = Executing cs n ok" using p by blast
    moreover obtain q1 b where "loop_cleanup (i = 0) n ok q = (q1, b)" by fastforce
    moreover obtain q2 t where "loop_head (i = 0) q1 = (q2, t)" by fastforce
    ultimately show ?thesis using i thread_step.lock thread_step.check thread_step.batch_done by (metis neq_Nil_conv)
  qed
  show ?thesis
  proof (cases "ts ! 0")
    case (Waiting b)
    show ?thesis
    proof (cases b)
      case True
      obtain q1 t where "loop_wake True q = (q1, t)" by fastforce
      then show ?thesis using thread_step.wake[OF ne, of q q1 t run added] Waiting True by auto
    next
      case False
      then have "0 < sum_list (map pending ts)" using assms(1) Waiting by (auto simp: queue_inv_def master_ok_def)
      then obtain t where t: "t \<in> set ts" "0 < pending t" using some_pending by blast
      then obtain i where "i < length ts" "ts ! i = t" by (auto simp: in_set_conv_nth)
      then show ?thesis using active[of i] t(2) by (cases t) auto
    qed
  qed (use assms(2) active[OF ne] in auto)
qed

lemma thread_steps_reachable: "(thread_step run ^^ n) s s' \<Longrightarrow> reachable run s \<Longrightarrow> reachable run s' \<and> n + queue_work s' \<le> queue_work s"
proof (induction n arbitrary: s')
  case (Suc n)
  then obtain u where u: "(thread_step run ^^ n) s u" "thread_step run u s'" by auto
  then show ?case using Suc thread_step_work[OF u(2)] reachable.step[OF _ queue_step.thread[OF u(2)]] by fastforce
qed simp

lemma notify_master_0: "ts \<noteq> [] \<Longrightarrow> notify_master ts ! 0 = notify (ts ! 0)" "length (notify_master ts) = length ts"
  by (simp_all add: notify_master_def)

lemma loop_head_todo: "loop_head m q = (q', t) \<Longrightarrow> nTodo q' = nTodo q \<and> (m \<longrightarrow> t = Outside r \<longrightarrow> nTodo q = 0)"
  by (auto simp: loop_head_def Let_def split: if_split_asm)

lemma thread_step_nothing:
  assumes "thread_step run (q, ts, added) (q', ts', added')" "ts' ! 0 = Outside r" "\<And>r. ts ! 0 = Outside r \<Longrightarrow> nTodo q = 0"
  shows "nTodo q' = 0"
  using assms(1)
proof (cases rule: thread_step.cases)
  case (lock i nNow fOk q1 b t)
  note h = loop_head_todo[OF lock(6)]
  show ?thesis
  proof (cases "i = 0")
    case True
    then have "t = Outside r" using assms(2) lock(1,3) by (simp add: notify_master_0 split: if_split_asm)
    then show ?thesis using h True by metis
  next
    case False
    then have "ts ! 0 = Outside r" using assms(2) lock(1,3) notify_master_0(1)[of ts] by (cases "ts = []") (auto split: if_split_asm)
    then have "nTodo q = 0" by (rule assms(3))
    then have "nTodo q1 = 0" using lock(5) by (auto simp: loop_cleanup_def Let_def split: if_split_asm)
    then show ?thesis using h by simp
  qed
next
  case (check i c cs nNow fOk)
  then show ?thesis using assms(2,3) by (cases "i = 0") auto
next
  case (batch_done i nNow fOk)
  then show ?thesis using assms(2,3) by (cases "i = 0") auto
next
  case (wake i t)
  note h = loop_head_todo[OF wake(5)[unfolded loop_wake_def]]
  show ?thesis
  proof (cases "i = 0")
    case True
    then have "t = Outside r" using assms(2) wake(1,3) by simp
    then show ?thesis using h True by auto
  next
    case False
    then show ?thesis using assms(2,3) wake(1) h by auto
  qed
qed

lemma thread_step_added:
  "thread_step run (q, ts, added) (q', ts', added') \<Longrightarrow> ts ! 0 = Outside r \<Longrightarrow> added' = added"
  by (erule thread_stepE) (auto split: if_split_asm)

lemma outside_nothing:
  "reachable run s \<Longrightarrow> s = (q, ts, added) \<Longrightarrow> ts ! 0 = Outside r \<Longrightarrow> added = [] \<Longrightarrow> nTodo q = 0"
proof (induction arbitrary: q ts added r rule: reachable.induct)
  case (start nBatchSizeIn workers)
  then show ?case by (auto simp: initial_def CCheckQueue_new_def)
next
  case (step s s')
  obtain q0 ts0 added0 where s: "s = (q0, ts0, added0)" by (cases s)
  from step.hyps(2)[unfolded s step.prems(1)] show ?case
  proof (cases rule: queue_step.cases)
    case thread
    show ?thesis
    proof (rule thread_step_nothing[OF thread step.prems(2)])
      fix r' assume "ts0 ! 0 = Outside r'"
      then show "nTodo q0 = 0" using step.IH[OF s] thread_step_added[OF thread] step.prems(3) by blast
    qed
  next
    case (spurious i t)
    note h = loop_head_todo[OF spurious(5)[unfolded loop_wake_def], of r]
    show ?thesis
    proof (cases "i = 0")
      case True
      then show ?thesis using h spurious(1,3) step.prems(2) by simp
    next
      case False
      then show ?thesis using h spurious(1-3) step.IH[OF s] step.prems by simp
    qed
  next
    case (add r vChecks)
    then show ?thesis using step.IH[OF s] step.prems by (simp add: queue_Add_def)
  next
    case (wait r)
    then show ?thesis using step.prems(2) by simp
  qed
qed

lemma idle_when_nothing:
  assumes "queue_inv run (q, ts, added)" "nTodo q = 0" "added = []"
  shows "queue_IsIdle q"
proof -
  have "in_total t = in_idle t" if "t \<in> set ts" for t
  proof -
    have "pending t = 0" "thread_ok t" using assms(1,2) that by (auto simp: queue_inv_def list_all_iff)
    then show ?thesis by (cases t) auto
  qed
  then have "map in_total ts = map in_idle ts" by simp
  then have "sum_list (map in_total ts) = sum_list (map in_idle ts)" by (rule arg_cong)
  then show ?thesis using assms by (simp add: queue_inv_def queue_IsIdle_def)
qed

text \<open>The assertion of \<^verbatim>\<open>CCheckQueueControl\<close> holds: between blocks, when the master is outside the loop and nothing has been added since it
  returned, the queue is idle, whatever the workers are doing.\<close>

lemma control_assertion:
  assumes "reachable run (q, ts, [])" "ts ! 0 = Outside r"
  shows "queue_IsIdle q"
  using idle_when_nothing[OF reachable_inv[OF assms(1)]] outside_nothing[OF assms(1) refl assms(2)] by simp

text \<open>A master without workers that has added one check, which fails, and goes on by itself.\<close>

definition demo_queue :: "nat \<Rightarrow> bool queue_config" where
  "demo_queue n =
     (let q = queue_Add [False] (CCheckQueue_new 1); q1 = q\<lparr>cq_queue := [], nTotal := 1\<rparr> in
      if n = 0 then (q, [Ready 0 True], [False])
      else if n = 1 then (q1, [Executing [False] 1 True], [False])
      else if n = 2 then (q1, [Executing [] 1 False], [False])
      else if n = 3 then (q1, [Ready 1 False], [False])
      else (q1\<lparr>nTotal := 0, nTodo := 0\<rparr>, [Outside (Some False)], []))"

lemmas demo_queue_simps = demo_queue_def queue_Add_def CCheckQueue_new_def loop_cleanup_def loop_head_def batch_size_def Let_def

lemma lock_step:
  "i < length ts \<Longrightarrow> ts ! i = Ready nNow fOk \<Longrightarrow>
   thread_step run (q, ts, added)
     (case loop_cleanup (i = 0) nNow fOk q of (q1, b) \<Rightarrow> case loop_head (i = 0) q1 of (q2, t) \<Rightarrow>
        (q2, (if b then notify_master ts else ts)[i := t], if i = 0 \<and> t \<in> range Outside then [] else added))"
  by (cases "loop_cleanup (i = 0) nNow fOk q"; cases "loop_head (i = 0) (fst (loop_cleanup (i = 0) nNow fOk q))")
     (simp add: thread_step.lock)

lemma demo_queue_steps:
  "thread_step id (demo_queue 0) (demo_queue 1)" "thread_step id (demo_queue 1) (demo_queue 2)"
  "thread_step id (demo_queue 2) (demo_queue 3)" "thread_step id (demo_queue 3) (demo_queue 4)"
  subgoal using lock_step[of 0 "[Ready 0 True]" 0 True id "fst (demo_queue 0)" "[False]"] by (simp add: demo_queue_simps image_iff)
  subgoal using thread_step.check[of 0 "[Executing [False] 1 True]" False "[]" 1 True id "fst (demo_queue 1)" "[False]"]
    by (simp add: demo_queue_simps)
  subgoal using thread_step.batch_done[of 0 "[Executing [] 1 False]" 1 False id "fst (demo_queue 2)" "[False]"]
    by (simp add: demo_queue_simps)
  subgoal using lock_step[of 0 "[Ready 1 False]" 1 False id "fst (demo_queue 3)" "[False]"] by (simp add: demo_queue_simps)
  done

lemma demo_queue_reachable: "reachable id (demo_queue 0)" "reachable id (demo_queue 3)"
proof -
  have "reachable id (queue_Add [False] (CCheckQueue_new 1), [Outside None], [] @ [False])"
    using reachable.step[OF reachable.start[of id 1 0], of "(queue_Add [False] (CCheckQueue_new 1), [Outside None], [] @ [False])"]
      queue_step.add[of "[Outside None]" None "[False]" "[Outside None]" id "CCheckQueue_new 1" "[]"]
    by (simp add: added_notify_def initial_def)
  then show r: "reachable id (demo_queue 0)"
    by (rule reachable.step) (use queue_step.wait[of "[Outside None]" None id] in \<open>simp add: demo_queue_def Let_def\<close>)
  show "reachable id (demo_queue 3)"
    using r demo_queue_steps(1-3) by (meson queue_step.thread reachable.step)
qed

section \<open>Properties\<close>

text \<open>C13: when the loop returns to the master, all checks added since it last returned have been dealt with, and its answer is
  whether all of them hold, however the threads were scheduled: also when workers skipped checks because one had already
  failed, took batches of any size, or woke up without cause. The queue is left empty and ready for the next block.\<close>

theorem Wait_correct:
  assumes "reachable run (q, ts, added)" "queue_step run (q, ts, added) (q', ts', added')"
    and "ts ! 0 \<notin> range Outside" "ts' ! 0 = Outside r"
  shows "r = Some (list_all run added) \<and> cq_queue q' = [] \<and> added' = [] \<and> queue_IsIdle q'"
proof -
  have inv: "queue_inv run (q, ts, added)" and inv': "queue_inv run (q', ts', added')"
    using reachable_inv assms(1) reachable.step[OF assms(1,2)] by blast+
  have *: "r = Some (list_all run added) \<and> cq_queue q' = [] \<and> nTodo q' = 0 \<and> added' = []"
    using assms(2)
  proof (cases rule: queue_step.cases)
    case thread
    then show ?thesis
    proof (cases rule: thread_step.cases)
      case (lock i nNow fOk q1 b t)
      have "i = 0" using lock assms(3,4) notify_master_0(1)[of ts] by (cases "i = 0"; cases "ts = []") (auto split: if_split_asm)
      moreover note c = cleanup_locked[OF inv lock(3-5)]
      ultimately show ?thesis
        using loop_head_inv(2)[OF c(1) lock(6) c(2), of r] lock assms(4) by (auto simp: notify_master_0 split: if_split_asm)
    next
      case (wake i t)
      then have "i = 0" using assms(3,4) by (cases "i = 0") auto
      then show ?thesis
        using loop_head_inv(2)[OF wake_locked(1)[OF inv wake(3,4)], of q' t r] wake assms(4) by (auto simp: loop_wake_def)
    qed (use assms(3,4) in \<open>auto simp: nth_list_update split: if_split_asm\<close>)
  next
    case (spurious i t)
    then have "i = 0" using assms(3,4) by (cases "i = 0") auto
    then show ?thesis
      using loop_head_inv(2)[OF wake_locked(1)[OF inv spurious(3,4)], of q' t r] spurious assms(4) by (auto simp: loop_wake_def)
  qed (use assms(3) in auto)
  then show ?thesis using idle_when_nothing[OF inv'] by blast
qed

theorem Wait_correct_witness:
  "\<exists>q' r. queue_step id (demo_queue 3) (q', [Outside r], []) \<and> r = Some False \<and> queue_IsIdle q'"
proof -
  obtain q ts added where s: "demo_queue 3 = (q, ts, added)" by (cases "demo_queue 3")
  obtain q' where s': "demo_queue 4 = (q', [Outside (Some False)], [])" by (simp add: demo_queue_def Let_def)
  have st: "queue_step id (q, ts, added) (q', [Outside (Some False)], [])"
    using queue_step.thread[OF demo_queue_steps(4)] by (simp add: s s')
  moreover have "ts ! 0 \<notin> range Outside" using s by (auto simp: demo_queue_def Let_def)
  ultimately have "queue_IsIdle q'" using Wait_correct[OF demo_queue_reachable(2)[unfolded s] st, of "Some False"] by simp
  then show ?thesis using st s by metis
qed

text \<open>C14: the loop returns to the master. While the master is in it some thread can go on without a spurious wake-up, so no
  notification is lost and the threads never all wait; and all the threads together can take no more
  steps, spurious wake-ups apart, than the work in the configuration. So where no thread can go on the master has returned.\<close>

theorem Wait_returns:
  assumes "reachable run s" "(thread_step run ^^ n) s s'"
  shows "n \<le> queue_work s \<and> ((\<exists>s''. thread_step run s' s'') \<or> fst (snd s') ! 0 \<in> range Outside)"
proof -
  have r: "reachable run s'" "n \<le> queue_work s" using thread_steps_reachable[OF assms(2,1)] by auto
  obtain q ts added where s': "s' = (q, ts, added)" by (cases s')
  show ?thesis using thread_progress[of run q ts added] reachable_inv[OF r(1)] r(2) by (auto simp: s')
qed

theorem Wait_returns_witness:
  "1 \<le> queue_work (demo_queue 0) \<and> ((\<exists>s''. thread_step id (demo_queue 1) s'') \<or> fst (snd (demo_queue 1)) ! 0 \<in> range Outside)"
  by (rule Wait_returns[OF demo_queue_reachable(1)]) (use demo_queue_steps(1) in auto)

end
