(* ===== verification/Connect.thy ===== *)
theory Connect
  imports Block Ledger CheckQueue
begin

text \<open>
  \<^verbatim>\<open>ConnectBlock\<close> of \<^verbatim>\<open>main.cpp\<close>: the checks of a block against the unspent outputs together with the change it makes to them, and
  \<^verbatim>\<open>GetLastCheckpoint\<close> of \<^verbatim>\<open>checkpoints.cpp\<close>. The view that is read is \<open>cache_get\<close> of the cache: that a read also copies
  an entry of the parent into the cache changes no answer (\<open>FetchCoins_get\<close>). The script checks that the queue collects are run by \<open>control_Wait\<close>,
  which is what the threads of \<open>CheckQueue\<close> compute whatever their order. The optional indexes, the files with the undo data and
  the timing are left out.

  The main property is that no block creates money: the value of all unspent outputs grows by at most the subsidy of the block.
\<close>

section \<open>The surroundings of a block\<close>

text \<open>What \<^verbatim>\<open>ConnectBlock\<close> reads of the global state: the hash function, the cryptography of the checks, the parameters, the adjusted time, the block tree
  with its map from hashes, the checkpoints in the order of their heights, and the number of threads for scripts.\<close>

record connect_env =
  env_Hash :: "byte list \<Rightarrow> uint256"
  env_crypto :: crypto
  env_params :: consensus_params
  env_time :: int
  env_tree :: block_store
  env_index :: "uint256 \<rightharpoonup> nat"
  fCheckpointsEnabled :: bool
  mapCheckpoints :: "(int \<times> uint256) list"
  nScriptCheckThreads :: nat

definition GetLastCheckpoint :: "(int \<times> uint256) list \<Rightarrow> (uint256 \<rightharpoonup> nat) \<Rightarrow> nat option" where
  "GetLastCheckpoint checkpoints mapBlockIndex =
     (case List.map_filter (\<lambda>i. mapBlockIndex (snd i)) (rev checkpoints) of [] \<Rightarrow> None | t # _ \<Rightarrow> Some t)"

definition GetTotalBlocksEstimate :: "(int \<times> uint256) list \<Rightarrow> int" where
  "GetTotalBlocksEstimate checkpoints = (if checkpoints = [] then 0 else fst (last checkpoints))"

text \<open>Scripts are not checked below a checkpoint.\<close>

definition script_checks_needed :: "connect_env \<Rightarrow> nat \<Rightarrow> CBlockIndex \<Rightarrow> check_fail + bool" where
  "script_checks_needed e pindex b =
     (if fCheckpointsEnabled e then
        (case GetLastCheckpoint (mapCheckpoints e) (env_index e) of
           None \<Rightarrow> Inr True
         | Some p \<Rightarrow> andThen (need (GetAncestor (env_tree e) p (nHeight b))) (\<lambda>a. Inr (a \<noteq> Some pindex)))
      else Inr True)"

section \<open>Duplicate transactions\<close>

text \<open>\<^verbatim>\<open>fEnforceBIP30\<close>\<close>

definition enforce_BIP30 :: "connect_env \<Rightarrow> CBlockIndex \<Rightarrow> check_fail + bool" where
  "enforce_BIP30 e b =
     (let f = (\<not> (nHeight b = 91842 \<and>
                  phashBlock b = Some (uint256S ''0x00000000000a4d0a398161ffc163c503763b1f4360639393e0e4c8e300e0caec'') \<or>
                  nHeight b = 91880 \<and>
                  phashBlock b = Some (uint256S ''0x00000000000743f190a18c5577a3c2d2a1f610ae9601ac046a38084ccb7cd721'')))
      in andThen (need (pprev b)) (\<lambda>p.
         andThen (need (GetAncestor (env_tree e) p (BIP34Height (env_params e)))) (\<lambda>a.
         if f then
           (case a of
              None \<Rightarrow> Inr True
            | Some q \<Rightarrow> andThen (need (GetBlockHash (env_tree e) q)) (\<lambda>h. Inr (h \<noteq> BIP34Hash (env_params e))))
         else Inr False)))"

definition check_BIP30 :: "(byte list \<Rightarrow> uint256) \<Rightarrow> GetCoins_fun \<Rightarrow> CTransaction list \<Rightarrow> CValidationState \<Rightarrow> check_fail + unit" where
  "check_BIP30 Hash view txs state =
     (if list_ex (\<lambda>tx. case view (GetHash Hash tx) of None \<Rightarrow> False | Some c \<Rightarrow> \<not> IsPruned c) txs
      then reject_DoS state 100 ''bad-txns-BIP30'' else Inr ())"

section \<open>Flags\<close>

text \<open>Strict pay-to-script-hash, the script flags and the lock time flags, with the version bits caches.\<close>

definition strict_P2SH :: "CBlockIndex \<Rightarrow> bool" where
  "strict_P2SH b \<longleftrightarrow> GetBlockTime b \<ge> 1333238400"

definition upgraded :: "connect_env \<Rightarrow> CBlock \<Rightarrow> CBlockIndex \<Rightarrow> int \<Rightarrow> check_fail + bool" where
  "upgraded e block b v =
     (if CBlockHeader.nVersion block \<ge> v
      then need (IsSuperMajority (env_tree e) v (pprev b) (nMajorityEnforceBlockUpgrade (env_params e)) (env_params e))
      else Inr False)"

definition block_flags :: "connect_env \<Rightarrow> CBlock \<Rightarrow> CBlockIndex \<Rightarrow> VersionBitsCache \<Rightarrow> check_fail + u32 \<times> int \<times> VersionBitsCache" where
  "block_flags e block b caches =
     (let flags0 = (if strict_P2SH b then SCRIPT_VERIFY_P2SH else SCRIPT_VERIFY_NONE)
      in andThen (upgraded e block b 3) (\<lambda>u3.
         andThen (upgraded e block b 4) (\<lambda>u4.
         andThen (need (VersionBitsState (env_tree e) (pprev b) (env_params e) DEPLOYMENT_CSV caches)) (\<lambda>(s, caches').
         let flags1 = (if u3 then flags0 OR SCRIPT_VERIFY_DERSIG else flags0);
             flags2 = (if u4 then flags1 OR SCRIPT_VERIFY_CHECKLOCKTIMEVERIFY else flags1)
         in Inr (if s = THRESHOLD_ACTIVE
                 then (flags2 OR SCRIPT_VERIFY_CHECKSEQUENCEVERIFY, int LOCKTIME_VERIFY_SEQUENCE, caches')
                 else (flags2, 0, caches'))))))"

section \<open>The transactions of the block\<close>

text \<open>The variables of the loop: the view, \<^verbatim>\<open>nFees\<close>, \<^verbatim>\<open>nSigOps\<close>, the checks given to the queue, and the undo data of all transactions so far.\<close>

record connect_state =
  cs_view :: CCoinsViewCache
  cs_fees :: CAmount
  cs_sigops :: nat
  cs_checks :: "CScriptCheck list"
  cs_undo :: "CTxUndo list"

record block_context =
  bc_base :: GetCoins_fun
  bc_spendHeight :: "check_fail + int"
  bc_pindex :: nat
  bc_height :: int
  bc_flags :: u32
  bc_lockFlags :: int
  bc_strictP2SH :: bool
  bc_scriptChecks :: bool

text \<open>What a transaction other than a coinbase must pass first: its inputs are there, and its sequence locks are satisfied.\<close>

definition connect_inputs :: "connect_env \<Rightarrow> block_context \<Rightarrow> CTransaction \<Rightarrow> CValidationState \<Rightarrow> GetCoins_fun \<Rightarrow> check_fail + unit" where
  "connect_inputs e bc tx state view =
     (if \<not> HaveInputs view tx then reject_DoS state 100 ''bad-txns-inputs-missingorspent''
      else if list_ex (\<lambda>i. view (outhash (prevout i)) = None) (vin tx) then Inl Aborted
      else let prevheights = map (\<lambda>i. cHeight (the (view (outhash (prevout i))))) (vin tx)
           in andThen (need (SequenceLocks (env_tree e) tx (bc_lockFlags bc) prevheights (bc_pindex bc))) (\<lambda>ok.
              if \<not> ok then reject_DoS state 100 ''bad-txns-nonfinal'' else Inr ()))"

text \<open>Then its pay-to-script-hash signature operations are counted, its fee is added, and its inputs are checked.\<close>

definition connect_spend ::
    "connect_env \<Rightarrow> block_context \<Rightarrow> CTransaction \<Rightarrow> CValidationState \<Rightarrow> GetCoins_fun \<Rightarrow> connect_state \<Rightarrow> check_fail + connect_state" where
  "connect_spend e bc tx state view s =
     andThen (if bc_strictP2SH bc
              then andThen (need (GetP2SHSigOpCount tx view)) (\<lambda>n.
                     if cs_sigops s + n > MAX_BLOCK_SIGOPS then reject_DoS state 100 ''bad-blk-sigops'' else Inr (cs_sigops s + n))
              else Inr (cs_sigops s)) (\<lambda>sigops.
     andThen (need (GetValueIn view tx)) (\<lambda>valueIn.
     andThen (need (GetValueOut tx)) (\<lambda>valueOut.
     andThen (CheckInputs (env_crypto e) tx state view (bc_spendHeight bc) (bc_scriptChecks bc) (bc_flags bc) (nScriptCheckThreads e \<noteq> 0)) (\<lambda>vChecks.
     Inr (s\<lparr>cs_sigops := sigops, cs_fees := cs_fees s + (valueIn - valueOut), cs_checks := cs_checks s @ vChecks\<rparr>)))))"

definition connect_tx :: "connect_env \<Rightarrow> block_context \<Rightarrow> CValidationState \<Rightarrow> CTransaction \<Rightarrow> connect_state \<Rightarrow> check_fail + connect_state" where
  "connect_tx e bc state tx s =
     (let view = cache_get (bc_base bc) (cs_view s); s1 = s\<lparr>cs_sigops := cs_sigops s + GetLegacySigOpCount tx\<rparr> in
      if cs_sigops s1 > MAX_BLOCK_SIGOPS then reject_DoS state 100 ''bad-blk-sigops''
      else andThen (if \<not> IsCoinBase tx
                    then andThen (connect_inputs e bc tx state view) (\<lambda>_. connect_spend e bc tx state view s1)
                    else Inr s1) (\<lambda>s2.
           andThen (need (UpdateCoins (env_Hash e) (bc_base bc) tx (bc_height bc) (cs_view s2))) (\<lambda>(view', undo).
           Inr (s2\<lparr>cs_view := view', cs_undo := cs_undo s2 @ [undo]\<rparr>))))"

text \<open>The coinbase may claim the fees and the subsidy.\<close>

definition check_reward :: "connect_env \<Rightarrow> CBlock \<Rightarrow> CValidationState \<Rightarrow> int \<Rightarrow> CAmount \<Rightarrow> check_fail + unit" where
  "check_reward e block state height nFees =
     (case vtx block of
        [] \<Rightarrow> Inl Aborted
      | cb # _ \<Rightarrow> andThen (need (GetValueOut cb)) (\<lambda>v.
          if v > nFees + GetBlockSubsidy height (env_params e) then reject_DoS state 100 ''bad-cb-amount'' else Inr ()))"

text \<open>\<^verbatim>\<open>CCheckQueueControl::Wait\<close>: without a queue there is nothing to wait for. A check that aborts takes the process down.\<close>

definition control_Wait :: "crypto \<Rightarrow> bool \<Rightarrow> CScriptCheck list \<Rightarrow> check_fail + bool" where
  "control_Wait cr fQueue checks =
     (if \<not> fQueue then Inr True
      else if list_ex (\<lambda>c. CScriptCheck_run cr c = None) checks then Inl Aborted
      else Inr (list_all (\<lambda>c. CScriptCheck_run cr c = Some (Inr ())) checks))"

section \<open>The block\<close>

text \<open>The result has the view, the undo data of all transactions but the first, and the version bits caches.\<close>

definition ConnectBlock ::
    "connect_env \<Rightarrow> GetCoins_fun \<Rightarrow> uint256 \<Rightarrow> CBlock \<Rightarrow> CValidationState \<Rightarrow> nat \<Rightarrow> VersionBitsCache \<Rightarrow> CCoinsViewCache \<Rightarrow> bool \<Rightarrow>
     check_fail + CCoinsViewCache \<times> CTxUndo list \<times> VersionBitsCache" where
  "ConnectBlock e base base_best block state pindex caches view fJustCheck =
     andThen (CheckBlock (env_Hash e) (env_params e) (env_time e) block state (\<not> fJustCheck) (\<not> fJustCheck)) (\<lambda>block.
     andThen (need (env_tree e pindex)) (\<lambda>b.
     andThen (case pprev b of None \<Rightarrow> Inr (blob_null 32) | Some p \<Rightarrow> need (GetBlockHash (env_tree e) p)) (\<lambda>hashPrev.
     let (view0, best) = cache_GetBestBlock base_best view in
     if hashPrev \<noteq> best then Inl Aborted
     else if header_GetHash (env_Hash e) block = hashGenesisBlock (env_params e) then
       (if fJustCheck then Inr (view0, [], caches)
        else andThen (need (GetBlockHash (env_tree e) pindex)) (\<lambda>h. Inr (SetBestBlock view0 h, [], caches)))
     else
       andThen (script_checks_needed e pindex b) (\<lambda>fScriptChecks.
       andThen (enforce_BIP30 e b) (\<lambda>fEnforceBIP30.
       andThen (if fEnforceBIP30 then check_BIP30 (env_Hash e) (cache_get base view0) (vtx block) state else Inr ()) (\<lambda>_.
       andThen (block_flags e block b caches) (\<lambda>(flags, nLockTimeFlags, caches').
       let bc = \<lparr>bc_base = base, bc_spendHeight = GetSpendHeight (env_index e) (env_tree e) best, bc_pindex = pindex,
                 bc_height = nHeight b, bc_flags = flags, bc_lockFlags = nLockTimeFlags, bc_strictP2SH = strict_P2SH b,
                 bc_scriptChecks = fScriptChecks\<rparr>
       in andThen (foldE (connect_tx e bc state) (vtx block)
                    \<lparr>cs_view = view0, cs_fees = 0, cs_sigops = 0, cs_checks = [], cs_undo = []\<rparr>) (\<lambda>s.
          andThen (check_reward e block state (nHeight b) (cs_fees s)) (\<lambda>_.
          andThen (control_Wait (env_crypto e) (fScriptChecks \<and> nScriptCheckThreads e \<noteq> 0) (cs_checks s)) (\<lambda>ok.
          if \<not> ok then Inl (Rejected (state_DoS state 100 0 [] False))
          else if fJustCheck then Inr (cs_view s, tl (cs_undo s), caches')
          else andThen (need (GetBlockHash (env_tree e) pindex)) (\<lambda>h.
               Inr (SetBestBlock (cs_view s) h, tl (cs_undo s), caches'))))))))))))"

end
