(* ===== verification/Supply.thy ===== *)
theory Supply
  imports Connect
begin

text \<open>
  What blocks do to the amount of money: the value of all unspent outputs of a view, and how \<open>UpdateCoins\<close>, the loop over the transactions and
  \<open>ConnectBlock\<close> change it. The accounts balance whatever the order of the transactions and wherever their coins are in the caches,
  so along a chain of blocks the supply stays below the sum of the subsidies.
\<close>

section \<open>The value of a view\<close>

definition txout_value :: "CTxOut \<Rightarrow> CAmount" where
  "txout_value t = (if CTxOut_IsNull t then 0 else nValue t)"

definition coin_value :: "CCoins option \<Rightarrow> CAmount" where
  "coin_value c = (case c of None \<Rightarrow> 0 | Some x \<Rightarrow> sum_list (map txout_value (cvout x)))"

definition view_value :: "GetCoins_fun \<Rightarrow> CAmount" where
  "view_value v = (\<Sum>x\<in>dom v. coin_value (v x))"

definition sound_view :: "GetCoins_fun \<Rightarrow> bool" where
  "sound_view v \<longleftrightarrow> finite (dom v) \<and> (\<forall>x c. v x = Some c \<longrightarrow> (\<forall>t\<in>set (cvout c). 0 \<le> txout_value t))"

lemma coin_value_simps [simp]:
  "coin_value None = 0" "coin_value (Some c) = sum_list (map txout_value (cvout c))"
  by (simp_all add: coin_value_def)

lemma view_value_over:
  assumes "finite A" "dom v \<subseteq> A"
  shows "view_value v = (\<Sum>x\<in>A. coin_value (v x))"
  unfolding view_value_def
proof (rule sum.mono_neutral_left[OF assms])
  show "\<forall>x\<in>A - dom v. coin_value (v x) = 0" by (simp add: domIff)
qed

lemma view_value_upd:
  assumes "finite (dom v)"
  shows "view_value (v(x := y)) = view_value v - coin_value (v x) + coin_value y"
proof -
  let ?A = "insert x (dom v)"
  have "view_value (v(x := y)) = (\<Sum>z\<in>?A. coin_value ((v(x := y)) z))" by (rule view_value_over) (use assms in auto)
  also have "\<dots> = coin_value y + (\<Sum>z\<in>?A - {x}. coin_value (v z))" using assms by (subst sum.remove[of _ x]) auto
  also have "view_value v = coin_value (v x) + (\<Sum>z\<in>?A - {x}. coin_value (v z))"
    using view_value_over[of ?A v] assms by (subst sum.remove[of _ x, symmetric]) auto
  ultimately show ?thesis by simp
qed

lemma sum_null: "list_all CTxOut_IsNull r \<Longrightarrow> sum_list (map txout_value r) = 0"
  by (induction r) (auto simp: txout_value_def)

lemma coin_value_live: "coin_value (live (Some c)) = sum_list (map txout_value (cvout c))"
  by (simp add: IsPruned_def sum_null)

lemma coin_value_Cleanup: "sum_list (map txout_value (cvout (Cleanup c))) = sum_list (map txout_value (cvout c))"
proof -
  obtain r where "cvout c = Cleanup_vout (cvout c) @ r" "list_all CTxOut_IsNull r" using Cleanup_vout_split by blast
  then have "sum_list (map txout_value (cvout c)) = sum_list (map txout_value (Cleanup_vout (cvout c))) + sum_list (map txout_value r)"
    by (metis map_append sum_list_append)
  then show ?thesis using sum_null[of r] \<open>list_all CTxOut_IsNull r\<close> by (simp add: Cleanup_def)
qed

lemma txout_null: "txout_value CTxOut_SetNull = 0"
  by (simp add: txout_value_def)

lemma sum_values_update:
  "n < length ts \<Longrightarrow> sum_list (map txout_value (ts[n := t])) = sum_list (map txout_value ts) - txout_value (ts ! n) + txout_value t"
  by (induction ts arbitrary: n) (auto split: nat.splits)

lemma coin_value_Spend:
  assumes "IsAvailable c n"
  shows "sum_list (map txout_value (cvout (fst (Spend c n)))) = sum_list (map txout_value (cvout c)) - nValue (cvout c ! n)"
proof -
  have n: "n < length (cvout c)" "txout_value (cvout c ! n) = nValue (cvout c ! n)"
    using assms by (auto simp: IsAvailable_def txout_value_def)
  have "sum_list (map txout_value ((cvout c)[n := CTxOut_SetNull])) = sum_list (map txout_value (cvout c)) - nValue (cvout c ! n)"
    using n by (simp add: sum_values_update txout_null)
  then show ?thesis by (simp add: Spend_available[OF assms] coin_value_Cleanup)
qed

lemma set_cvout_Cleanup: "set (cvout (Cleanup c)) \<subseteq> set (cvout c)"
  using set_Cleanup_vout by (simp add: Cleanup_def)

lemma set_cvout_Spend: "IsAvailable c n \<Longrightarrow> set (cvout (fst (Spend c n))) \<subseteq> insert CTxOut_SetNull (set (cvout c))"
  using set_cvout_Cleanup[of "c\<lparr>cvout := (cvout c)[n := CTxOut_SetNull]\<rparr>"] set_update_subset_insert[of "cvout c" n CTxOut_SetNull]
  by (simp add: Spend_available)

lemma sound_view_upd:
  assumes "sound_view v" "\<forall>t\<in>set (cvout c). 0 \<le> txout_value t"
  shows "sound_view (v(x := live (Some c)))"
  using assms by (auto simp: sound_view_def split: if_split_asm intro: finite_subset[of _ "insert x (dom v)"])

section \<open>Spending\<close>

lemma GetOutputFor_live: "GetOutputFor (\<lambda>x. live (v x)) i = GetOutputFor v i"
  by (auto simp: GetOutputFor_def IsAvailable_def IsPruned_def live_def list_all_length split: option.splits)

lemma input_value_live: "input_value (\<lambda>x. live (v x)) = input_value v"
  by (intro ext) (simp add: input_value_def GetOutputFor_live)

lemma Spend_keeps:
  assumes "IsAvailable c n" "IsAvailable (fst (Spend c n)) m"
  shows "IsAvailable c m \<and> cvout (fst (Spend c n)) ! m = cvout c ! m"
proof -
  let ?v = "(cvout c)[n := CTxOut_SetNull]"
  have c: "cvout (fst (Spend c n)) = Cleanup_vout ?v" using Spend_available[OF assms(1)] by (simp add: Cleanup_def)
  obtain r where r: "?v = Cleanup_vout ?v @ r" using Cleanup_vout_split by blast
  have m: "m < length (Cleanup_vout ?v)" "\<not> CTxOut_IsNull (Cleanup_vout ?v ! m)" using assms(2) by (auto simp: IsAvailable_def c)
  then have eq: "?v ! m = Cleanup_vout ?v ! m" "m < length ?v" using r by (metis nth_append, metis length_append trans_less_add1)
  then have "m \<noteq> n" using m(2) assms(1) by (auto simp: IsAvailable_def)
  then show ?thesis using eq m by (auto simp: IsAvailable_def c)
qed

text \<open>Spending the inputs of a transaction takes exactly the value that \<^verbatim>\<open>GetValueIn\<close> saw before.\<close>

lemma update_inputs_value:
  assumes "update_inputs base ins c undo0 = Some (c', undo)" "Coins.cache_ok base c" "sound_view (view_of base c)"
  shows "Coins.cache_ok base c' \<and> sound_view (view_of base c') \<and> (\<forall>i\<in>set ins. GetOutputFor (view_of base c) i \<noteq> None) \<and>
    view_value (view_of base c') = view_value (view_of base c) - sum_list (map (input_value (view_of base c)) ins)"
  using assms
proof (induction ins arbitrary: c undo0)
  case (Cons i ins)
  let ?x = "outhash (prevout i)" and ?n = "unat (outn (prevout i))"
  let ?before = "coins (modifier_entry base c ?x)"
  let ?after = "fst (Spend ?before ?n)" and ?c1 = "ModifyCoins base c ?x (\<lambda>_. fst (Spend ?before ?n))"
  have av: "IsAvailable ?before ?n"
    and rest: "update_inputs base ins ?c1 (undo0 @ [spend_undo ?before ?n ?after]) = Some (c', undo)"
    using Cons.prems(1) by (auto simp: Let_def IsAvailable_def split: if_split_asm)
  have "\<not> IsPruned ?before" using av by (auto simp: IsAvailable_def IsPruned_def list_all_length)
  then have vx: "view_of base c ?x = Some ?before" using modifier_entry_live(1)[OF Cons.prems(2), of ?x] by simp
  have ok1: "Coins.cache_ok base ?c1" by (rule ModifyCoins_ok[OF Cons.prems(2)])
  have "Cleanup ?after = ?after" by (simp add: Spend_available[OF av])
  then have v1: "view_of base ?c1 = (view_of base c)(?x := live (Some ?after))"
    by (intro ext) (simp add: ModifyCoins_get[OF Cons.prems(2)] del: live_simps)
  have "\<forall>t\<in>set (cvout ?before). 0 \<le> txout_value t" using Cons.prems(3) vx by (auto simp: sound_view_def)
  then have "\<forall>t\<in>set (cvout ?after). 0 \<le> txout_value t" using set_cvout_Spend[OF av] txout_null by fastforce
  then have s1: "sound_view (view_of base ?c1)" unfolding v1 by (rule sound_view_upd[OF Cons.prems(3)])
  note IH = Cons.IH[OF rest ok1 s1]
  have out: "GetOutputFor (view_of base c) i = Some (cvout ?before ! ?n)" using vx av by (simp add: GetOutputFor_def)
  have keep: "GetOutputFor (view_of base c) j = GetOutputFor (view_of base ?c1) j" if "GetOutputFor (view_of base ?c1) j \<noteq> None" for j
  proof (cases "outhash (prevout j) = ?x")
    case True
    then have "live (Some ?after) \<noteq> None" "IsAvailable ?after (unat (outn (prevout j)))"
      using that unfolding v1 by (auto simp: GetOutputFor_def split: option.split_asm if_split_asm)
    then show ?thesis using Spend_keeps[OF av] True vx unfolding v1 by (auto simp: GetOutputFor_def split: if_split_asm)
  qed (simp add: v1 GetOutputFor_def)
  have "finite (dom (view_of base c))" using Cons.prems(3) by (simp add: sound_view_def)
  then have "view_value (view_of base ?c1) = view_value (view_of base c) - input_value (view_of base c) i"
    unfolding v1 view_value_upd[OF \<open>finite _\<close>] coin_value_live
    using coin_value_Spend[OF av] vx out by (simp add: input_value_def del: live_simps)
  moreover have "sum_list (map (input_value (view_of base ?c1)) ins) = sum_list (map (input_value (view_of base c)) ins)"
    by (intro arg_cong[of _ _ sum_list] map_cong refl) (use IH keep in \<open>simp add: input_value_def\<close>)
  ultimately have "view_value (view_of base c') = view_value (view_of base c) - sum_list (map (input_value (view_of base c)) (i # ins))"
    using IH by simp
  moreover have "\<forall>j\<in>set (i # ins). GetOutputFor (view_of base c) j \<noteq> None" using IH keep out by simp
  ultimately show ?case using IH by blast
qed simp

section \<open>A transaction\<close>

definition output_value :: "CTransaction \<Rightarrow> CAmount" where
  "output_value tx = sum_list (map nValue (vout tx))"

lemma FromTx_value:
  assumes "\<forall>t\<in>set (vout tx). 0 \<le> nValue t"
  shows "\<forall>t\<in>set (cvout (FromTx tx h)). 0 \<le> txout_value t" "sum_list (map txout_value (cvout (FromTx tx h))) \<le> output_value tx"
proof -
  let ?f = "\<lambda>t. if IsUnspendable (scriptPubKey t) then CTxOut_SetNull else t"
  have "\<forall>t\<in>set (map ?f (vout tx)). 0 \<le> txout_value t" using assms by (auto simp: txout_value_def)
  then show "\<forall>t\<in>set (cvout (FromTx tx h)). 0 \<le> txout_value t"
    using set_Cleanup_vout[of "map ?f (vout tx)"] by (auto simp: FromTx_def ClearUnspendable_def Cleanup_def)
  have "sum_list (map (txout_value \<circ> ?f) ts) \<le> sum_list (map nValue ts)" if "\<forall>t\<in>set ts. 0 \<le> nValue t" for ts
    using that by (induction ts) (auto simp: txout_value_def)
  then show "sum_list (map txout_value (cvout (FromTx tx h))) \<le> output_value tx"
    using assms unfolding FromTx_def ClearUnspendable_def coin_value_Cleanup by (simp add: output_value_def)
qed

lemma UpdateCoins_value:
  assumes "UpdateCoins Hash base tx h c = Some (c', undo)" "Coins.cache_ok base c" "sound_view (view_of base c)"
    and "live (base (GetHash Hash tx)) = None" "\<forall>t\<in>set (vout tx). 0 \<le> nValue t"
  shows "Coins.cache_ok base c' \<and> sound_view (view_of base c') \<and>
    view_value (view_of base c') \<le> view_value (view_of base c) + output_value tx -
      (if IsCoinBase tx then 0 else sum_list (map (input_value (view_of base c)) (vin tx)))"
proof -
  let ?x = "GetHash Hash tx" and ?o = "FromTx tx h"
  let ?in = "if IsCoinBase tx then 0 else sum_list (map (input_value (view_of base c)) (vin tx))"
  obtain c1 where c1: "Coins.cache_ok base c1" "sound_view (view_of base c1)" "view_value (view_of base c1) = view_value (view_of base c) - ?in"
    and c': "c' = (if IsCoinBase tx then ModifyCoins base c1 ?x (\<lambda>_. ?o) else ModifyNewCoins c1 ?x (\<lambda>_. ?o))"
  proof (cases "IsCoinBase tx")
    case True
    then show ?thesis using that[of c] assms(1-3) by (auto simp: UpdateCoins_def)
  next
    case False
    then obtain c1 us where "update_inputs base (vin tx) c [] = Some (c1, us)" "c' = ModifyNewCoins c1 ?x (\<lambda>_. ?o)"
      using assms(1) by (auto simp: UpdateCoins_def split: option.split_asm prod.split_asm)
    then show ?thesis using that[of c1] update_inputs_value[OF _ assms(2,3), of "vin tx" "[]" c1 us] False by auto
  qed
  have "Cleanup ?o = ?o" by (simp add: FromTx_def ClearUnspendable_def)
  then have v': "view_of base c' = (view_of base c1)(?x := live (Some ?o))"
    unfolding c' by (intro ext) (simp add: ModifyCoins_get[OF c1(1)] ModifyNewCoins_get[of base ?x, OF assms(4)] del: live_simps)
  have "Coins.cache_ok base c'"
    unfolding c' using ModifyCoins_ok[OF c1(1)] ModifyNewCoins_ok[of base c1 ?x, OF c1(1) assms(4)] by simp
  moreover have "sound_view (view_of base c')" unfolding v' by (rule sound_view_upd[OF c1(2) FromTx_value(1)[OF assms(5)]])
  moreover have "0 \<le> coin_value (view_of base c1 ?x)"
    using c1(2) by (cases "view_of base c1 ?x") (auto simp: sound_view_def intro!: sum_list_nonneg)
  moreover have "finite (dom (view_of base c1))" using c1(2) by (simp add: sound_view_def)
  ultimately show ?thesis
    using FromTx_value(2)[OF assms(5), of h] c1(3) unfolding v' view_value_upd[OF \<open>finite _\<close>] coin_value_live by linarith
qed

section \<open>A block\<close>

definition accounts :: "block_context \<Rightarrow> CAmount \<Rightarrow> connect_state \<Rightarrow> bool" where
  "accounts bc funds s \<longleftrightarrow> Coins.cache_ok (bc_base bc) (cs_view s) \<and> sound_view (view_of (bc_base bc) (cs_view s)) \<and> 0 \<le> cs_fees s \<and>
     view_value (view_of (bc_base bc) (cs_view s)) + cs_fees s \<le> funds"

lemma CheckInputs_values:
  assumes "CheckInputs cr tx state view h sc flags q = Inr cs" "\<not> IsCoinBase tx" "GetValueIn view tx = Some i" "GetValueOut tx = Some v"
  shows "v \<le> i \<and> i = sum_list (map (input_value view) (vin tx)) \<and> v = output_value tx"
proof -
  obtain h' where "CheckTxInputs tx state view h' = Inr ()" using assms(1,2) by (auto simp: CheckInputs_def andThen_Inr_iff)
  then have h: "HaveInputs view tx" and r: "andThen (check_input_values view state h' (vin tx) 0) (\<lambda>n. if n < v then
      reject_DoS state 100 ''bad-txns-in-belowout'' else Inr ()) = Inr ()"
    using assms(4) by (auto simp: CheckTxInputs_def andThen_Inr_iff Let_def split: if_split_asm)
  have out: "\<forall>i\<in>set (vin tx). GetOutputFor view i \<noteq> None" using HaveInputs_iff[OF assms(2)] h by blast
  have i: "i = sum_list (map (input_value view) (vin tx))"
    using value_in_loop_sum[OF out, of 0] assms(2,3) by (simp add: GetValueIn_def)
  have "MoneyRange 0" by (simp add: MoneyRange_def MAX_MONEY_def COIN_def)
  then have "v \<le> i" using r check_input_values_Inr[OF _ out, of 0 state h'] by (auto simp: andThen_Inr_iff i split: if_split_asm)
  then show ?thesis using i GetValueOut_range[OF assms(4)] by (simp add: output_value_def)
qed

lemma connect_tx_accounts:
  assumes "connect_tx e bc state tx s = Inr s'" "accounts bc funds s"
    and "live (bc_base bc (GetHash (env_Hash e) tx)) = None" "\<forall>t\<in>set (vout tx). 0 \<le> nValue t"
  shows "accounts bc (funds + (if IsCoinBase tx then output_value tx else 0)) s'"
proof -
  let ?v = "cache_get (bc_base bc) (cs_view s)"
  obtain s2 view' undo where s2: "(if \<not> IsCoinBase tx
        then andThen (connect_inputs e bc tx state ?v) (\<lambda>_. connect_spend e bc tx state ?v (s\<lparr>cs_sigops := cs_sigops s + GetLegacySigOpCount tx\<rparr>))
        else Inr (s\<lparr>cs_sigops := cs_sigops s + GetLegacySigOpCount tx\<rparr>)) = Inr s2"
    and up: "UpdateCoins (env_Hash e) (bc_base bc) tx (bc_height bc) (cs_view s2) = Some (view', undo)"
    and s': "s' = s2\<lparr>cs_view := view', cs_undo := cs_undo s2 @ [undo]\<rparr>"
    using assms(1) by (auto simp: connect_tx_def Let_def andThen_Inr_iff need_def split: if_split_asm option.split_asm)
  note a = assms(2)[unfolded accounts_def]
  show ?thesis
  proof (cases "IsCoinBase tx")
    case True
    then have "cs_view s2 = cs_view s" "cs_fees s2 = cs_fees s" using s2 by auto
    then show ?thesis using UpdateCoins_value[OF up _ _ assms(3,4)] a True s' by (simp add: accounts_def)
  next
    case False
    then obtain i v cs where iv: "GetValueIn ?v tx = Some i" "GetValueOut tx = Some v"
      and ci: "CheckInputs (env_crypto e) tx state ?v (bc_spendHeight bc) (bc_scriptChecks bc) (bc_flags bc) (nScriptCheckThreads e \<noteq> 0) = Inr cs"
      and f: "cs_fees s2 = cs_fees s + (i - v)" "cs_view s2 = cs_view s"
      using s2 by (auto simp: connect_spend_def andThen_Inr_iff need_def split: option.split_asm)
    note val = CheckInputs_values[OF ci False iv]
    have "sum_list (map (input_value (view_of (bc_base bc) (cs_view s))) (vin tx)) = i"
      using val by (simp add: input_value_live)
    then show ?thesis using UpdateCoins_value[OF up _ _ assms(3,4)] a False s' f val by (simp add: accounts_def)
  qed
qed

lemma block_txs_shape:
  assumes "check_block_txs block state = Inr ()"
  shows "\<exists>cb txs. vtx block = cb # txs \<and> IsCoinBase cb \<and> (\<forall>tx\<in>set txs. \<not> IsCoinBase tx) \<and>
    (\<forall>tx\<in>set (vtx block). \<forall>t\<in>set (vout tx). 0 \<le> nValue t)"
proof -
  obtain cb txs where v: "vtx block = cb # txs" "IsCoinBase cb" "\<forall>tx\<in>set txs. \<not> IsCoinBase tx"
    and f: "foldE (\<lambda>tx _. CheckTransaction tx state) (vtx block) () = Inr ()"
    using assms by (cases "vtx block") (auto simp: check_block_txs_def andThen_Inr_iff list_ex_iff split: if_split_asm)
  have ok: "foldE (\<lambda>tx _. CheckTransaction tx state) ts () = Inr () \<Longrightarrow> tx \<in> set ts \<Longrightarrow> CheckTransaction tx state = Inr ()" for ts tx
    by (induction ts) (auto simp: andThen_Inr_iff)
  have "tx_wellformed tx" if "tx \<in> set (vtx block)" for tx
    using ok[OF f that] CheckTransaction_result[of tx state] by (auto split: if_split_asm)
  then show ?thesis using v by (fastforce simp: tx_wellformed_def)
qed

lemma connect_txs_accounts:
  assumes "foldE (connect_tx e bc state) (cb # txs) s = Inr s'" "accounts bc funds s" "IsCoinBase cb" "\<forall>tx\<in>set txs. \<not> IsCoinBase tx"
    and "\<forall>tx\<in>set (cb # txs). live (bc_base bc (GetHash (env_Hash e) tx)) = None \<and> (\<forall>t\<in>set (vout tx). 0 \<le> nValue t)"
  shows "accounts bc (funds + output_value cb) s'"
proof -
  obtain s1 where s1: "connect_tx e bc state cb s = Inr s1" "foldE (connect_tx e bc state) txs s1 = Inr s'"
    using assms(1) by (auto simp: andThen_Inr_iff)
  have "accounts bc (funds + output_value cb) s1" using connect_tx_accounts[OF s1(1) assms(2)] assms(3,5) by simp
  then show ?thesis
    by (rule foldE_invariant[where P = "accounts bc (funds + output_value cb)", OF s1(2)])
       (use connect_tx_accounts[of e bc state] assms(4,5) in fastforce)
qed

text \<open>A block that is flagged as checked has passed the checks on its transactions.\<close>

definition honest_flag :: "CBlock \<Rightarrow> CValidationState \<Rightarrow> bool" where
  "honest_flag block state \<longleftrightarrow> (fChecked block \<longrightarrow> check_block_txs block state = Inr ())"

text \<open>The parts of a successful \<open>ConnectBlock\<close>.\<close>

lemma ConnectBlock_parts:
  assumes "ConnectBlock e base base_best block state pindex caches view fJustCheck = Inr (view', undos, caches')"
    and "cache_GetBestBlock base_best view = (view0, best)" "env_tree e pindex = Some b" "enforce_BIP30 e b \<noteq> Inr False" "honest_flag block state"
  obtains (genesis) "cacheCoins view' = cacheCoins view0"
  | (other) bc s where "bc_base bc = base" "check_block_txs block state = Inr ()"
      "check_BIP30 (env_Hash e) (cache_get base view0) (vtx block) state = Inr ()"
      "foldE (connect_tx e bc state) (vtx block) \<lparr>cs_view = view0, cs_fees = 0, cs_sigops = 0, cs_checks = [], cs_undo = []\<rparr> = Inr s"
      "check_reward e block state (nHeight b) (cs_fees s) = Inr ()" "cacheCoins view' = cacheCoins (cs_view s)"
proof -
  obtain block' where cb: "CheckBlock (env_Hash e) (env_params e) (env_time e) block state (\<not> fJustCheck) (\<not> fJustCheck) = Inr block'"
    using assms(1) by (auto simp: ConnectBlock_def andThen_Inr_iff)
  have blk: "vtx block' = vtx block" and txs: "check_block_txs block state = Inr ()"
    using cb assms(5) by (auto simp: CheckBlock_def honest_flag_def andThen_Inr_iff split: if_split_asm)
  have rw: "check_reward e block' = check_reward e block" by (intro ext) (simp add: check_reward_def blk)
  show thesis
  proof (cases "header_GetHash (env_Hash e) block' = hashGenesisBlock (env_params e)")
    case True
    then show thesis
      using assms(1-3) cb genesis by (auto simp: ConnectBlock_def SetBestBlock_def andThen_Inr_iff need_def split: option.split_asm if_split_asm)
  next
    case False
    obtain f where f: "enforce_BIP30 e b = Inr f" using assms(1-3) cb False
      by (auto simp: ConnectBlock_def andThen_Inr_iff need_def Let_def split: option.split_asm if_split_asm)
    then have "enforce_BIP30 e b = Inr True" using assms(4) by (cases f) auto
    then obtain sc flags lf s where
      "foldE (connect_tx e \<lparr>bc_base = base, bc_spendHeight = GetSpendHeight (env_index e) (env_tree e) best, bc_pindex = pindex,
           bc_height = nHeight b, bc_flags = flags, bc_lockFlags = lf, bc_strictP2SH = strict_P2SH b, bc_scriptChecks = sc\<rparr> state)
         (vtx block') \<lparr>cs_view = view0, cs_fees = 0, cs_sigops = 0, cs_checks = [], cs_undo = []\<rparr> = Inr s"
      "check_BIP30 (env_Hash e) (cache_get base view0) (vtx block') state = Inr ()"
      "check_reward e block' state (nHeight b) (cs_fees s) = Inr ()" "cacheCoins view' = cacheCoins (cs_view s)"
      using assms(1-3) cb False
      by (auto simp: ConnectBlock_def SetBestBlock_def andThen_Inr_iff need_def Let_def split: option.split_asm if_split_asm)
    then show thesis unfolding blk rw by (intro other[OF _ txs]) auto
  qed
qed

lemma ConnectBlock_value:
  assumes "ConnectBlock e base base_best block state pindex caches view fJustCheck = Inr (view', undos, caches')"
    and "cacheCoins view = Map.empty" "env_tree e pindex = Some b" "enforce_BIP30 e b \<noteq> Inr False" "honest_flag block state"
    and "sound_view (\<lambda>x. live (base x))"
  shows "sound_view (view_of base view') \<and>
    view_value (view_of base view') \<le> view_value (\<lambda>x. live (base x)) + GetBlockSubsidy (nHeight b) (env_params e)"
proof -
  obtain view0 best where v0: "cache_GetBestBlock base_best view = (view0, best)" by fastforce
  have c0: "cacheCoins view0 = Map.empty" using v0 assms(2) by (auto simp: cache_GetBestBlock_def Let_def split: if_split_asm)
  then have base0: "view_of base view0 = (\<lambda>x. live (base x))" and ok0: "Coins.cache_ok base view0"
    by (auto simp: cache_get_def Coins.cache_ok_def)
  have same: "view_of base c = view_of base d" if "cacheCoins c = cacheCoins d" for c d using that by (simp add: cache_get_def)
  have sub: "0 \<le> GetBlockSubsidy h p" for h p by (rule GetBlockSubsidy_nonneg)
  show ?thesis
    using assms(1) v0 assms(3-5)
  proof (cases rule: ConnectBlock_parts)
    case genesis
    then have "view_of base view' = (\<lambda>x. live (base x))" using base0 same by metis
    then show ?thesis using assms(6) sub by simp
  next
    case (other bc s)
    obtain cb txs where v: "vtx block = cb # txs" "IsCoinBase cb" "\<forall>tx\<in>set txs. \<not> IsCoinBase tx"
      and nn: "\<forall>tx\<in>set (vtx block). \<forall>t\<in>set (vout tx). 0 \<le> nValue t" using block_txs_shape[OF other(2)] by blast
    have "live (base (GetHash (env_Hash e) tx)) = None" if "tx \<in> set (vtx block)" for tx
      using other(3) that fun_cong[OF base0, of "GetHash (env_Hash e) tx"]
      by (auto simp: check_BIP30_def list_ex_iff live_def split: if_split_asm option.splits)
    moreover have "accounts bc (view_value (\<lambda>x. live (base x))) \<lparr>cs_view = view0, cs_fees = 0, cs_sigops = 0, cs_checks = [], cs_undo = []\<rparr>"
      using ok0 assms(6) by (simp add: accounts_def other(1) base0)
    ultimately have acc: "accounts bc (view_value (\<lambda>x. live (base x)) + output_value cb) s"
      using connect_txs_accounts[OF other(4)[unfolded v(1)] _ v(2,3)] nn v(1) by (simp add: other(1))
    have "output_value cb \<le> cs_fees s + GetBlockSubsidy (nHeight b) (env_params e)"
      using other(5) GetValueOut_range[of cb]
      by (auto simp: check_reward_def v(1) andThen_Inr_iff need_def output_value_def split: option.split_asm if_split_asm)
    moreover have "view_of base view' = view_of base (cs_view s)" using other(6) by (rule same)
    ultimately show ?thesis using acc by (simp add: accounts_def other(1))
  qed
qed

section \<open>A chain of blocks\<close>

text \<open>The coins after the blocks up to a height, each connected to a fresh cache that is then flushed. The coinbase of the genesis block cannot be spent.\<close>

inductive ledger :: "consensus_params \<Rightarrow> GetCoins_fun \<Rightarrow> nat \<Rightarrow> bool" for params where
  genesis: "ledger params Map.empty 0"
| block: "ledger params base h \<Longrightarrow>
    ConnectBlock e base base_best block CValidationState_new pindex caches view False = Inr (view', undos, caches') \<Longrightarrow>
    cacheCoins view = Map.empty \<Longrightarrow> env_params e = params \<Longrightarrow> env_tree e pindex = Some b \<Longrightarrow> nHeight b = int (Suc h) \<Longrightarrow>
    enforce_BIP30 e b \<noteq> Inr False \<Longrightarrow> honest_flag block CValidationState_new \<Longrightarrow>
    \<forall>x. live (base' x) = live (cache_get base view' x) \<Longrightarrow> ledger params base' (Suc h)"

lemma ledger_value:
  "ledger params base h \<Longrightarrow> sound_view (\<lambda>x. live (base x)) \<and>
     view_value (\<lambda>x. live (base x)) \<le> (\<Sum>k<Suc h. GetBlockSubsidy (int k) params)"
proof (induction rule: ledger.induct)
  case genesis
  then show ?case by (simp add: sound_view_def view_value_def GetBlockSubsidy_nonneg)
next
  case (block base h e base_best block pindex caches view view' undos caches' b base')
  have "(\<lambda>x. live (base' x)) = view_of base view'" using block.hyps(9) by (simp add: fun_eq_iff)
  then show ?case using ConnectBlock_value[OF block.hyps(2,3,5,7,8)] block.IH block.hyps(4,6) by simp
qed

lemma view_value_nonneg: "sound_view v \<Longrightarrow> 0 \<le> view_value v"
  unfolding view_value_def
proof (rule sum_nonneg)
  fix x assume "sound_view v" "x \<in> dom v"
  then show "0 \<le> coin_value (v x)" by (auto simp: sound_view_def intro!: sum_list_nonneg)
qed

section \<open>A block for the witnesses\<close>

text \<open>The block of height 1 of the main network, under a constant hash function, with one transaction.\<close>

lemma main_genesis: "hashGenesisBlock CMainParams \<noteq> 1 # replicate 31 0"
proof -
  let ?d = "[0x18, 0x3c, 0xe5, 0x1d, 0x74, 0x02, 0x38, 0x99, 0xa6, 0xf4, 0x74, 0x9d, 0x80, 0x27, 0x43, 0x2a, 0xd7, 0x28, 0x60, 0x92, 0xb9, 0x81, 0xcf, 0x1f, 0x2b, 0xdb, 0x67, 0x1c, 0x3b, 0x00, 0x00, 0x00] :: byte list"
  have "''0000003b1c67db2b1fcf81b9926028d72a4327809d74f4a6993802741de53c18'' = GetHex ?d"
    by (simp add: GetHex_def hex2_def hexchar_def)
  moreover have len: "32 = length ?d" by simp
  have h: "SetHex 32 ([] @ ''0x'' @ GetHex ?d) = ?d" unfolding len by (rule conjunct2[OF SetHex_GetHex]) simp
  ultimately have "hashGenesisBlock CMainParams = ?d"
    using h by (simp add: CMainParams_def uint256S_def)
  then show ?thesis by simp
qed

definition demo_coinbase :: CTransaction where
  "demo_coinbase = \<lparr>CTransaction.nVersion = 1,
     vin = [\<lparr>prevout = COutPoint_SetNull, scriptSig = [0x51, 0x51], nSequence = 0\<rparr>],
     vout = [\<lparr>nValue = 5, scriptPubKey = [0x51]\<rparr>], nLockTime = 0\<rparr>"

definition demo_index :: CBlockIndex where
  "demo_index = CBlockIndex_SetNull\<lparr>phashBlock := Some (1 # replicate 31 0), pprev := Some 0, nHeight := 1\<rparr>"

definition demo_two_blocks :: block_store where
  "demo_two_blocks = [0 \<mapsto> CBlockIndex_SetNull\<lparr>phashBlock := Some [9]\<rparr>,
                1 \<mapsto> demo_index]"


lemma demo_versionbits: "\<exists>c. VersionBitsState demo_two_blocks (Some 0) CMainParams DEPLOYMENT_CSV VersionBitsCache_Clear = Some (THRESHOLD_DEFINED, c)"
  by (simp add: VersionBitsState_def GetStateFor_def demo_two_blocks_def CBlockIndex_SetNull_def GetAncestor_def
      VersionBitsConditionChecker_def CMainParams_def VersionBitsCache_Clear_def vb_back.simps vb_forward.simps)

lemma demo_coinbase_ok: "CheckTransaction demo_coinbase state = Inr ()" "IsCoinBase demo_coinbase" "length (Serialize_CTransaction demo_coinbase) = 63"
proof -
  have "length (Serialize_CTransaction demo_coinbase) = 63 \<and> tx_wellformed demo_coinbase"
    by (simp add: tx_wellformed_def demo_coinbase_def IsCoinBase_def COutPoint_SetNull_def COutPoint_IsNull_def
      GetSerializeSize_def Serialize_CTransaction_def Serialize_vector_def Serialize_CTxIn_def Serialize_CTxOut_def Serialize_COutPoint_def
      Serialize_bytes_def ser_int32_def ser_int64_def ser_writedata32_def ser_writedata64_def ser_writedata8_def WriteCompactSize_def
      WriteLE32_def WriteLE64_def MAX_BLOCK_SIZE_def MAX_MONEY_def COIN_def blob_null_def)
  then show "CheckTransaction demo_coinbase state = Inr ()" "length (Serialize_CTransaction demo_coinbase) = 63"
    using CheckTransaction_result[of demo_coinbase state] by simp_all
  show "IsCoinBase demo_coinbase" by (simp add: demo_coinbase_def IsCoinBase_def COutPoint_SetNull_def COutPoint_IsNull_def blob_IsNull_def blob_null_def list_all_iff)
qed

lemma demo_sigops: "GetLegacySigOpCount demo_coinbase \<le> 60"
  using sigops_bounded[of "[0x51, 0x51]" False] sigops_bounded[of "[0x51]" False]
  by (simp add: GetLegacySigOpCount_def demo_coinbase_def MAX_PUBKEYS_PER_MULTISIG_def)

definition demo_connect_env :: connect_env where
  "demo_connect_env = \<lparr>env_Hash = demo_block_hash, env_crypto = demo_crypto, env_params = CMainParams, env_time = 0, env_tree = demo_two_blocks,
     env_index = Map.empty, fCheckpointsEnabled = False, mapCheckpoints = [], nScriptCheckThreads = 0\<rparr>"

lemma demo_CheckBlock: "CheckBlock demo_block_hash CMainParams 0 (demo_block [demo_coinbase]) CValidationState_new True True
    = Inr ((demo_block [demo_coinbase])\<lparr>fChecked := True\<rparr>)"
proof -
  have "check_block_txs (demo_block [demo_coinbase]) CValidationState_new = Inr ()"
    using demo_sigops
    by (simp add: check_block_txs_def demo_coinbase_ok Serialize_CBlock_def Serialize_CBlockHeader_def Serialize_vector_def WriteCompactSize_def
        ser_writedata8_def ser_writedata32_def ser_int32_def WriteLE32_def MAX_BLOCK_SIZE_def MAX_BLOCK_SIGOPS_def demo_block_def blob_null_def)
  then show ?thesis by (simp add: CheckBlock_def demo_header check_merkle_def demo_root need_def)
qed

lemma demo_entry: "demo_two_blocks 1 = Some demo_index"
  by (simp add: demo_two_blocks_def demo_index_def)

lemma demo_BIP30: "enforce_BIP30 demo_connect_env demo_index = Inr True"
  by (simp add: enforce_BIP30_def demo_connect_env_def need_def GetAncestor_def demo_two_blocks_def demo_index_def CMainParams_def CBlockIndex_SetNull_def)

lemma demo_connect_facts:
  "env_params demo_connect_env = CMainParams" "env_tree demo_connect_env = demo_two_blocks" "nHeight demo_index = 1"
  "cacheCoins CCoinsViewCache_new = Map.empty" "honest_flag (demo_block txs) CValidationState_new" "demo_two_blocks (Suc 0) = Some demo_index"
  by (simp_all add: demo_connect_env_def demo_index_def CBlockIndex_SetNull_def CCoinsViewCache_new_def honest_flag_def demo_two_blocks_def)

lemma demo_block_connects:
  "\<exists>view' undos caches'. ConnectBlock demo_connect_env Map.empty [9] (demo_block [demo_coinbase]) CValidationState_new 1
     VersionBitsCache_Clear CCoinsViewCache_new False = Inr (view', undos, caches')"
proof -
  let ?b = demo_index
  have env: "env_Hash demo_connect_env = demo_block_hash" "env_params demo_connect_env = CMainParams" "env_time demo_connect_env = 0"
    "env_tree demo_connect_env = demo_two_blocks" "nScriptCheckThreads demo_connect_env = 0" by (simp_all add: demo_connect_env_def)
  have st: "demo_two_blocks 1 = Some ?b" "demo_two_blocks 0 = Some (CBlockIndex_SetNull\<lparr>phashBlock := Some [9]\<rparr>)" by (simp_all add: demo_two_blocks_def)
  note bip = demo_BIP30
  have scr: "script_checks_needed demo_connect_env 1 ?b = Inr True" by (simp add: script_checks_needed_def demo_connect_env_def)
  obtain c where vb: "VersionBitsState demo_two_blocks (Some 0) CMainParams DEPLOYMENT_CSV VersionBitsCache_Clear = Some (THRESHOLD_DEFINED, c)"
    using demo_versionbits by blast
  have "CBlockHeader.nVersion (demo_block [demo_coinbase]) = 1" by (simp add: demo_block_def)
  then obtain flags where fl: "block_flags demo_connect_env ((demo_block [demo_coinbase])\<lparr>fChecked := True\<rparr>) ?b VersionBitsCache_Clear = Inr (flags, 0, c)"
    by (auto simp: block_flags_def upgraded_def env vb need_def Let_def demo_index_def)
  have tx: "\<exists>s'. connect_tx demo_connect_env bc state demo_coinbase s = Inr s' \<and> cs_fees s' = cs_fees s \<and> cs_checks s' = cs_checks s"
    if "cs_sigops s = 0" for bc state s
    using demo_sigops that
    by (simp add: connect_tx_def Let_def demo_coinbase_ok UpdateCoins_def need_def MAX_BLOCK_SIGOPS_def MAX_BLOCK_SIZE_def)
  obtain s' where s': "foldE (connect_tx demo_connect_env \<lparr>bc_base = Map.empty, bc_spendHeight = GetSpendHeight (env_index demo_connect_env) demo_two_blocks [9],
      bc_pindex = 1, bc_height = 1, bc_flags = flags, bc_lockFlags = 0, bc_strictP2SH = strict_P2SH ?b, bc_scriptChecks = True\<rparr> CValidationState_new)
      [demo_coinbase] \<lparr>cs_view = CCoinsViewCache_new\<lparr>hashBlock := [9]\<rparr>, cs_fees = 0, cs_sigops = 0, cs_checks = [], cs_undo = []\<rparr> = Inr s'"
    "cs_fees s' = 0" "cs_checks s' = []"
    using tx[of "\<lparr>cs_view = CCoinsViewCache_new\<lparr>hashBlock := [9]\<rparr>, cs_fees = 0, cs_sigops = 0, cs_checks = [], cs_undo = []\<rparr>"]
    by (fastforce simp: andThen_Inr_iff)
  have rw: "check_reward demo_connect_env ((demo_block [demo_coinbase])\<lparr>fChecked := True\<rparr>) CValidationState_new 1 0 = Inr ()"
    by (simp add: check_reward_def env need_def GetValueOut_def demo_coinbase_def MoneyRange_def MAX_MONEY_def COIN_def GetBlockSubsidy_def
        CMainParams_def cdiv_def)
  have bip30: "check_BIP30 demo_block_hash (cache_get Map.empty c0) txs state = Inr ()" if "cacheCoins c0 = Map.empty" for c0 txs state
    using that by (simp add: check_BIP30_def cache_get_def list_ex_iff)
  have best: "cache_GetBestBlock [9] CCoinsViewCache_new = (CCoinsViewCache_new\<lparr>hashBlock := [9]\<rparr>, [9])"
    by (simp add: cache_GetBestBlock_def CCoinsViewCache_new_def blob_IsNull_def blob_null_def list_all_iff Let_def)
  have ng: "header_GetHash demo_block_hash x \<noteq> hashGenesisBlock CMainParams" for x :: CBlock
    using main_genesis by (simp add: header_GetHash_def demo_block_hash_def)
  have h: "nHeight ?b = 1" "pprev ?b = Some 0" by (simp_all add: demo_index_def CBlockIndex_SetNull_def)
  have "cacheCoins (CCoinsViewCache_new\<lparr>hashBlock := [9]\<rparr>) = Map.empty" by (simp add: CCoinsViewCache_new_def)
  note bip30' = bip30[OF this]
  have gh: "GetBlockHash demo_two_blocks 0 = Some [9]" "GetBlockHash demo_two_blocks 1 = Some (1 # replicate 31 0)"
    by (simp_all add: GetBlockHash_def st st[simplified] demo_index_def CBlockIndex_SetNull_def)
  show ?thesis
    unfolding ConnectBlock_def env best
    using s' rw bip scr fl bip30' ng gh h st
    by (simp add: need_def control_Wait_def env demo_CheckBlock del: foldE.simps)
qed

section \<open>Properties\<close>

text \<open>C4: no block creates money. A block that \<^verbatim>\<open>ConnectBlock\<close> accepts on a fresh cache over any view of coins raises the value of all
  unspent outputs by at most the subsidy of its height, whatever its transactions do, and leaves no output with a
  negative value. This holds with or without script checks; it needs that the check against duplicate transactions was on, and that a block flagged
  as checked has indeed passed the checks.\<close>

theorem ConnectBlock_no_inflation:
  assumes "ConnectBlock e base base_best block state pindex caches view fJustCheck = Inr (view', undos, caches')"
    and "cacheCoins view = Map.empty" "env_tree e pindex = Some b" "enforce_BIP30 e b \<noteq> Inr False" "honest_flag block state"
    and "sound_view (\<lambda>x. live (base x))"
  shows "sound_view (\<lambda>x. live (cache_get base view' x)) \<and>
    view_value (\<lambda>x. live (cache_get base view' x)) \<le> view_value (\<lambda>x. live (base x)) + GetBlockSubsidy (nHeight b) (env_params e)"
  by (rule ConnectBlock_value[OF assms])

theorem ConnectBlock_no_inflation_witness:
  "\<exists>view' undos caches'. ConnectBlock demo_connect_env Map.empty [9] (demo_block [demo_coinbase]) CValidationState_new 1
     VersionBitsCache_Clear CCoinsViewCache_new False = Inr (view', undos, caches') \<and>
   view_value (\<lambda>x. live (cache_get Map.empty view' x)) \<le> GetBlockSubsidy 1 CMainParams"
proof -
  obtain view' undos caches' where c: "ConnectBlock demo_connect_env Map.empty [9] (demo_block [demo_coinbase]) CValidationState_new 1
     VersionBitsCache_Clear CCoinsViewCache_new False = Inr (view', undos, caches')" using demo_block_connects by blast
  have "view_value (\<lambda>x. live (cache_get Map.empty view' x)) \<le> view_value (\<lambda>x. live (Map.empty x)) +
      GetBlockSubsidy (nHeight demo_index) (env_params demo_connect_env)"
    by (rule conjunct2[OF ConnectBlock_no_inflation[OF c]])
       (simp_all add: demo_connect_facts demo_BIP30 sound_view_def)
  then have "view_value (\<lambda>x. live (cache_get Map.empty view' x)) \<le> GetBlockSubsidy 1 CMainParams"
    by (simp add: demo_connect_facts view_value_def)
  with c show ?thesis by blast
qed



end
