(* ===== verification/LongData.thy ===== *)
theory LongData
  imports Script
begin

text \<open>
  Messages in outputs, the part of \<^verbatim>\<open>script/standard.cpp\<close> that is particular to LONG, and the writer of such messages in
  \<^verbatim>\<open>rpcrawtransaction.cpp\<close> and \<^verbatim>\<open>wallet/rpcwallet.cpp\<close>. A message is pushed behind \<^verbatim>\<open>OP_RETURN\<close>: four magic bytes, a version, the addressee, the sender, marks for
  type and encryption, and the body.

  The readers index the bytes without looking at their number. An \<open>answer\<close> is what such a reader gives: false, true with the
  values it sets, or \<open>Out_of_range\<close> for an access beyond the end of a vector, which is undefined in C++. What a reader leaves
  in its reference parameters when it returns false is fixed: offsets, sizes and types are 0, \<^verbatim>\<open>type\<close> is \<^verbatim>\<open>TX_NULL_DATA\<close>, vectors are unchanged.
\<close>

section \<open>Answers\<close>

datatype 'a answer = Out_of_range | No | Yes 'a

definition ifYes :: "'a answer \<Rightarrow> ('a \<Rightarrow> 'b answer) \<Rightarrow> 'b answer" where
  "ifYes r f = (case r of Out_of_range \<Rightarrow> Out_of_range | No \<Rightarrow> No | Yes a \<Rightarrow> f a)"

lemma ifYes_simps [simp]:
  "ifYes Out_of_range f = Out_of_range"
  "ifYes No f = No"
  "ifYes (Yes a) f = f a"
  by (simp_all add: ifYes_def)

lemma ifYes_eq_iff:
  "ifYes r f = Yes b \<longleftrightarrow> (\<exists>a. r = Yes a \<and> f a = Yes b)"
  "ifYes r f = Out_of_range \<longleftrightarrow> r = Out_of_range \<or> (\<exists>a. r = Yes a \<and> f a = Out_of_range)"
  by (cases r; simp)+

definition byte_at :: "valtype \<Rightarrow> nat \<Rightarrow> byte answer" where
  "byte_at v i = (if i < length v then Yes (v ! i) else Out_of_range)"

text \<open>The vector of the \<open>n\<close> bytes from \<open>i\<close> on, or what \<^verbatim>\<open>memcpy\<close> reads there.\<close>

definition bytes_at :: "valtype \<Rightarrow> nat \<Rightarrow> nat \<Rightarrow> valtype answer" where
  "bytes_at v i n = (if i + n \<le> length v then Yes (take n (drop i v)) else Out_of_range)"

section \<open>The pushed data\<close>

text \<open>The size of the push whose opcode is at \<open>i\<close>.\<close>

definition push_size :: "valtype \<Rightarrow> nat \<Rightarrow> nat answer" where
  "push_size v i = ifYes (byte_at v i) (\<lambda>op.
     if op \<le> OP_PUSHDATA4 then
       (if op < OP_PUSHDATA1 then Yes (unat op)
        else if op = OP_PUSHDATA1 then ifYes (byte_at v (i + 1)) (\<lambda>b. Yes (unat b))
        else if op = OP_PUSHDATA2 then ifYes (bytes_at v (i + 1) 2) (\<lambda>b. Yes (unat (ReadLE16 b)))
        else ifYes (bytes_at v (i + 1) 4) (\<lambda>b. Yes (unat (ReadLE32 b))))
     else No)"

definition is_data_script :: "CScript \<Rightarrow> bool" where
  "is_data_script s \<longleftrightarrow> length s \<ge> 1 \<and> s ! 0 = OP_RETURN \<and> IsPushOnly (drop 1 s)"

definition getOffsetPushedReturnData :: "CScript \<Rightarrow> nat answer" where
  "getOffsetPushedReturnData s =
     (if is_data_script s
      then ifYes (byte_at s 1) (\<lambda>op.
             if op \<le> OP_PUSHDATA4
             then Yes (if op < OP_PUSHDATA1 then 1 else if op = OP_PUSHDATA1 then 2 else if op = OP_PUSHDATA2 then 3 else 5)
             else No)
      else No)"

definition getSizePushedReturnData :: "CScript \<Rightarrow> nat answer" where
  "getSizePushedReturnData s = (if is_data_script s then push_size s 1 else No)"

definition getPushedReturnData :: "CScript \<Rightarrow> valtype answer" where
  "getPushedReturnData s =
     ifYes (getOffsetPushedReturnData s) (\<lambda>offset. ifYes (getSizePushedReturnData s) (\<lambda>n. bytes_at s (1 + offset) n))"

section \<open>Reading a message\<close>

datatype txnouttype = TX_NONSTANDARD | TX_PUBKEY | TX_PUBKEYHASH | TX_SCRIPTHASH | TX_MULTISIG | TX_NULL_DATA

text \<open>The test for the magic bytes; the conjunction stops at the first byte that differs.\<close>

fun bytes_match :: "valtype \<Rightarrow> nat \<Rightarrow> valtype \<Rightarrow> bool answer" where
  "bytes_match v i [] = Yes True"
| "bytes_match v i (m # ms) = ifYes (byte_at v i) (\<lambda>b. if b = m then bytes_match v (Suc i) ms else Yes False)"

definition long_magic :: valtype where
  "long_magic = [0x0c, 0x0f, 0x0e, 0x07]"

definition isLong :: "CScript \<Rightarrow> unit answer" where
  "isLong s = ifYes (getPushedReturnData s) (\<lambda>v. ifYes (bytes_match v 0 long_magic) (\<lambda>m. if m then Yes () else No))"

definition getLongVersion :: "CScript \<Rightarrow> nat answer" where
  "getLongVersion s =
     ifYes (getPushedReturnData s) (\<lambda>v. ifYes (bytes_match v 0 long_magic) (\<lambda>m.
       if m then ifYes (byte_at v 4) (\<lambda>b. Yes (unat b)) else No))"

text \<open>What the other readers begin with: the pushed data and the offset behind magic and version.\<close>

definition long_start :: "CScript \<Rightarrow> (valtype \<times> nat) answer" where
  "long_start s =
     ifYes (isLong s) (\<lambda>_. ifYes (getPushedReturnData s) (\<lambda>v. ifYes (bytes_match v 0 long_magic) (\<lambda>m.
       Yes (v, if m then 5 else 0))))"

text \<open>An address at an offset: its kind, and a key or hash.\<close>

definition read_address :: "valtype \<Rightarrow> nat \<Rightarrow> (valtype \<times> txnouttype) answer" where
  "read_address v offset = ifYes (byte_at v offset) (\<lambda>k.
     if k = 0xfe then ifYes (bytes_at v (offset + 1) 33) (\<lambda>a. Yes (a, TX_PUBKEY))
     else if k = 0xff then ifYes (bytes_at v (offset + 1) 65) (\<lambda>a. Yes (a, TX_PUBKEY))
     else if k = 0xfd then ifYes (bytes_at v (offset + 1) 20) (\<lambda>a. Yes (a, TX_PUBKEYHASH))
     else if k = 0xfc then ifYes (bytes_at v (offset + 1) 20) (\<lambda>a. Yes (a, TX_SCRIPTHASH))
     else No)"

definition skip_address :: "valtype \<Rightarrow> nat \<Rightarrow> nat answer" where
  "skip_address v offset = ifYes (byte_at v offset) (\<lambda>k.
     Yes (if k = 0xfe then offset + 1 + 33 else if k = 0xff then offset + 1 + 65
          else if k = 0xfd \<or> k = 0xfc then offset + 1 + 20 else offset))"

text \<open>\<^verbatim>\<open>if (pushedReturnData[offset] == op)\<close> skip it with its address.\<close>

definition skip_party :: "byte \<Rightarrow> valtype \<Rightarrow> nat \<Rightarrow> nat answer" where
  "skip_party op v offset =
     ifYes (byte_at v offset) (\<lambda>b. if b = op then skip_address v (offset + 1) else Yes offset)"

definition getLongToPubKey :: "CScript \<Rightarrow> (valtype \<times> txnouttype) answer" where
  "getLongToPubKey s =
     ifYes (long_start s) (\<lambda>(v, offset). ifYes (byte_at v offset) (\<lambda>b. if b = 0xf0 then read_address v (offset + 1) else No))"

definition getLongFromPubKey :: "CScript \<Rightarrow> (valtype \<times> txnouttype) answer" where
  "getLongFromPubKey s =
     ifYes (long_start s) (\<lambda>(v, start). ifYes (skip_party 0xf0 v start) (\<lambda>offset.
       ifYes (byte_at v offset) (\<lambda>b. if b = 0xf1 then read_address v (offset + 1) else No)))"

definition getOffsetLongData :: "CScript \<Rightarrow> nat answer" where
  "getOffsetLongData s =
     ifYes (long_start s) (\<lambda>(v, start). ifYes (skip_party 0xf0 v start) (\<lambda>offset. skip_party 0xf1 v offset))"

text \<open>The bytes and the offset of the data, for the last three readers.\<close>

definition long_data :: "CScript \<Rightarrow> (valtype \<times> nat) answer" where
  "long_data s =
     ifYes (isLong s) (\<lambda>_. ifYes (getPushedReturnData s) (\<lambda>v. ifYes (getOffsetLongData s) (\<lambda>offset. Yes (v, offset))))"

definition getTypeLongData :: "CScript \<Rightarrow> nat answer" where
  "getTypeLongData s = ifYes (long_data s) (\<lambda>(v, offset). ifYes (byte_at v offset) (\<lambda>b.
     if b = 0xf2 then ifYes (byte_at v (offset + 1)) (\<lambda>t. Yes (unat t)) else No))"

definition getEncryptionLongData :: "CScript \<Rightarrow> nat answer" where
  "getEncryptionLongData s = ifYes (long_data s) (\<lambda>(v, offset). ifYes (byte_at v (offset + 2)) (\<lambda>b.
     if b = 0xf3 then ifYes (byte_at v (offset + 3)) (\<lambda>t. Yes (unat t)) else No))"

definition skip_marks :: "valtype \<Rightarrow> nat \<Rightarrow> nat answer" where
  "skip_marks v offset =
     ifYes (byte_at v offset) (\<lambda>b. let offset = (if b = 0xf2 then offset + 2 else offset) in
       ifYes (byte_at v offset) (\<lambda>b. Yes (if b = 0xf3 then offset + 2 else offset)))"

definition getSizeLongData :: "CScript \<Rightarrow> nat answer" where
  "getSizeLongData s = ifYes (long_data s) (\<lambda>(v, offset). ifYes (skip_marks v offset) (\<lambda>offset. push_size v offset))"

definition getBodyLongData :: "CScript \<Rightarrow> valtype answer" where
  "getBodyLongData s =
     ifYes (long_data s) (\<lambda>(v, offset). ifYes (getSizeLongData s) (\<lambda>size. ifYes (skip_marks v offset) (\<lambda>offset.
       bytes_at v (offset + (if size \<le> 75 then 1 else if size \<le> 255 then 2 else if size \<le> 65535 then 3 else 5)) size)))"

section \<open>Writing a message\<close>

text \<open>The writers know a party by a public key, or by the hash of a key or of a script. Every key is marked with \<open>0xfe\<close>.\<close>

datatype long_party = By_PubKey valtype | By_KeyID valtype | By_ScriptID valtype

fun write_party :: "long_party \<Rightarrow> valtype" where
  "write_party (By_PubKey k) = 0xfe # k"
| "write_party (By_KeyID h) = 0xfd # h"
| "write_party (By_ScriptID h) = 0xfc # h"

text \<open>\<open>encrypted\<close> tells whether the body is the result of the encryption.\<close>

definition createrawdata :: "long_party \<Rightarrow> long_party \<Rightarrow> bool \<Rightarrow> valtype \<Rightarrow> valtype" where
  "createrawdata to from encrypted body =
     long_magic @ [0x00] @ [0xf0] @ write_party to @ [0xf1] @ write_party from @ [0xf2, 0x00] @
     [0xf3, if encrypted then 0x01 else 0x00] @ push_data body"

definition data_output :: "valtype \<Rightarrow> CScript" where
  "data_output data = [OP_RETURN] @ push_data data"

text \<open>What the readers make of a party.\<close>

fun party_ok :: "long_party \<Rightarrow> bool" where
  "party_ok (By_PubKey k) = (length k = 33)"
| "party_ok (By_KeyID h) = (length h = 20)"
| "party_ok (By_ScriptID h) = (length h = 20)"

fun party_read :: "long_party \<Rightarrow> valtype \<times> txnouttype" where
  "party_read (By_PubKey k) = (k, TX_PUBKEY)"
| "party_read (By_KeyID h) = (h, TX_PUBKEYHASH)"
| "party_read (By_ScriptID h) = (h, TX_SCRIPTHASH)"

section \<open>The pushed data: lemmas\<close>

lemma byte_at_append [simp]:
  "i < length a \<Longrightarrow> byte_at (a @ b) i = byte_at a i"
  "length a \<le> i \<Longrightarrow> byte_at (a @ b) i = byte_at b (i - length a)"
  by (auto simp: byte_at_def nth_append)

lemma bytes_at_append [simp]:
  "length a \<le> i \<Longrightarrow> bytes_at (a @ b) i n = bytes_at b (i - length a) n"
  by (auto simp: bytes_at_def)

lemma byte_at_Cons [simp]:
  "byte_at (x # v) 0 = Yes x" "byte_at (x # v) (Suc i) = byte_at v i" "byte_at [] i = Out_of_range"
  by (auto simp: byte_at_def)

lemma bytes_at_Cons [simp]: "bytes_at (x # v) (Suc i) n = bytes_at v i n"
  by (auto simp: bytes_at_def)

lemma bytes_at_all [simp]: "length a = n \<Longrightarrow> bytes_at (a @ b) 0 n = Yes a" "length a = n \<Longrightarrow> bytes_at a 0 n = Yes a"
  by (auto simp: bytes_at_def)

lemmas read_simps = bytes_at_def byte_at_def

lemma ReadLE_take: "ReadLE16 (take 2 v) = ReadLE16 v" "ReadLE32 (take 4 v) = ReadLE32 v"
  by (simp_all add: ReadLE16_def ReadLE32_def)

lemma GetOp_push_size:
  assumes "GetOp s = Some (op, d, r)"
  shows "op \<le> OP_PUSHDATA4 \<Longrightarrow> push_size s 0 = Yes (length d) \<and>
    bytes_at s (if op < OP_PUSHDATA1 then 1 else if op = OP_PUSHDATA1 then 2 else if op = OP_PUSHDATA2 then 3 else 5) (length d) = Yes d"
    "s \<noteq> [] \<and> hd s = op"
  using assms
  by (auto simp: GetOp_def push_size_def Let_def read_simps ReadLE_take opcode_defs Suc_le_eq split: list.splits if_splits option.splits)
     (metis Suc_pred length_greater_0_conv less_Suc_eq_le not_less)

lemma IsPushOnly_GetOp: "IsPushOnly s \<Longrightarrow> s \<noteq> [] \<Longrightarrow> \<exists>op d r. GetOp s = Some (op, d, r)"
  by (cases "GetOp s") (auto simp: IsPushOnly_def script_ops.simps[of s])

lemma push_size_Cons: "push_size (x # v) (Suc i) = push_size v i"
  by (simp add: push_size_def cong: if_cong)

lemma getPushedReturnData_eq:
  "getPushedReturnData s =
     (if \<not> is_data_script s then No else if length s = 1 then Out_of_range
      else case GetOp (tl s) of None \<Rightarrow> No | Some (op, d, r) \<Rightarrow> if op \<le> OP_PUSHDATA4 then Yes d else No)"
proof (cases "is_data_script s \<and> length s \<noteq> 1")
  case False
  then show ?thesis
    by (auto simp: getPushedReturnData_def getOffsetPushedReturnData_def byte_at_def)
next
  case True
  then obtain x t where s: "s = x # t" "t \<noteq> []" "IsPushOnly t" by (cases s) (auto simp: is_data_script_def)
  then obtain op d r where g: "GetOp t = Some (op, d, r)" using IsPushOnly_GetOp by blast
  then obtain t' where t: "t = op # t'" using GetOp_push_size(2)[OF g] by (cases t) auto
  show ?thesis
    using True g GetOp_push_size(1)[OF g] s(1)
    by (auto simp: t getPushedReturnData_def getOffsetPushedReturnData_def getSizePushedReturnData_def push_size_Cons)
qed

lemma data_output_read:
  assumes "length data < 2 ^ 32"
  shows "is_data_script (data_output data)" "getPushedReturnData (data_output data) = Yes data"
proof -
  obtain op where g: "GetOp (push_data data @ []) = Some (op, data, [])" "op \<le> OP_PUSHDATA4"
    using GetOp_push_data[OF assms] by blast
  have ne: "push_data data \<noteq> []" using GetOp_push_size(2)[OF g(1)] by simp
  have "IsPushOnly (push_data data)"
    using pushes_read_back[of "[data]"] assms by simp
  then show d: "is_data_script (data_output data)" by (simp add: is_data_script_def data_output_def)
  have "length (data_output data) \<noteq> 1" using ne by (simp add: data_output_def)
  then show "getPushedReturnData (data_output data) = Yes data"
    using d g by (simp add: getPushedReturnData_eq data_output_def)
qed

section \<open>Messages read back\<close>

lemma bytes_match_append: "i = length a \<Longrightarrow> bytes_match (a @ m @ b) i m = Yes True"
  by (induction m arbitrary: a i) (auto, metis append.assoc append_Cons append_Nil length_append_singleton)

lemma long_start_output:
  assumes "data = long_magic @ r" "length data < 2 ^ 32"
  shows "isLong (data_output data) = Yes ()" "long_start (data_output data) = Yes (data, 5)"
  using data_output_read(2)[OF assms(2)] bytes_match_append[of 0 "[]" long_magic r] assms(1)
  by (simp_all add: isLong_def long_start_def)

lemma read_party:
  assumes "party_ok p" "length a = i"
  shows "read_address (a @ write_party p @ b) i = Yes (party_read p)"
    "skip_address (a @ write_party p @ b) i = Yes (i + length (write_party p))"
  using assms by (cases p; simp add: read_address_def skip_address_def)+

lemma push_size_push_data:
  assumes "length b < 2 ^ 32" "length a = i"
  shows "push_size (a @ push_data b) i = Yes (length b)"
    "bytes_at (a @ push_data b) (i + (if length b \<le> 75 then 1 else if length b \<le> 255 then 2 else if length b \<le> 65535 then 3 else 5))
       (length b) = Yes b"
proof -
  obtain op where g: "GetOp (push_data b @ []) = Some (op, b, [])" "op \<le> OP_PUSHDATA4"
    using GetOp_push_data[OF assms(1)] by blast
  have "push_size (a @ v) i = push_size v 0" for v using assms(2) by (simp add: push_size_def cong: if_cong)
  then show "push_size (a @ push_data b) i = Yes (length b)" using GetOp_push_size(1)[OF g] by simp
  show "bytes_at (a @ push_data b) (i + (if length b \<le> 75 then 1 else if length b \<le> 255 then 2 else if length b \<le> 65535 then 3 else 5))
       (length b) = Yes b"
    using assms by (auto simp: push_data_def OP_PUSHDATA1_def bytes_at_def)
qed

lemma createrawdata_parts:
  "createrawdata to from encrypted body = (long_magic @ [0x00]) @ [0xf0] @ write_party to @
     ([0xf1] @ write_party from @ ([0xf2, 0x00, 0xf3, if encrypted then 0x01 else 0x00] @ push_data body))"
  by (simp add: createrawdata_def)

lemma read_party_at:
  assumes "party_ok p" "length a = i"
  shows "byte_at (a @ [b] @ write_party p @ c) i = Yes b"
    "read_address (a @ [b] @ write_party p @ c) (i + 1) = Yes (party_read p)"
    "skip_party b (a @ [b] @ write_party p @ c) i = Yes (i + 1 + length (write_party p))"
proof -
  show b: "byte_at (a @ [b] @ write_party p @ c) i = Yes b" using assms(2) by simp
  show "read_address (a @ [b] @ write_party p @ c) (i + 1) = Yes (party_read p)"
    using read_party(1)[OF assms(1), of "a @ [b]" "i + 1" c] assms(2) by simp
  show "skip_party b (a @ [b] @ write_party p @ c) i = Yes (i + 1 + length (write_party p))"
    using read_party(2)[OF assms(1), of "a @ [b]" "i + 1" c] assms(2) b by (simp add: skip_party_def)
qed

text \<open>The marks behind the parties, and the body.\<close>

lemma read_marks:
  fixes t e :: byte
  assumes "length a = i" "length body < 2 ^ 32"
  defines "v \<equiv> a @ [0xf2, t, 0xf3, e] @ push_data body"
  shows "byte_at v i = Yes 0xf2" "byte_at v (i + 1) = Yes t" "byte_at v (i + 2) = Yes 0xf3" "byte_at v (i + 3) = Yes e"
    "skip_marks v i = Yes (i + 4)" "push_size v (i + 4) = Yes (length body)"
    "bytes_at v (i + 4 + (if length body \<le> 75 then 1 else if length body \<le> 255 then 2 else if length body \<le> 65535 then 3 else 5))
       (length body) = Yes body"
proof -
  have 4: "i + 4 = length (a @ [0xf2, t, 0xf3, e])" using assms(1) by simp
  have v: "v = (a @ [0xf2, t, 0xf3, e]) @ push_data body" by (simp add: v_def)
  show "push_size v (i + 4) = Yes (length body)"
    "bytes_at v (i + 4 + (if length body \<le> 75 then 1 else if length body \<le> 255 then 2 else if length body \<le> 65535 then 3 else 5))
       (length body) = Yes body"
    using push_size_push_data[OF assms(2) 4[symmetric], folded v] by simp_all
  show "byte_at v i = Yes 0xf2" "byte_at v (i + 1) = Yes t" "byte_at v (i + 2) = Yes 0xf3" "byte_at v (i + 3) = Yes e"
    using assms(1) by (simp_all add: v_def numeral_2_eq_2 numeral_3_eq_3)
  then show "skip_marks v i = Yes (i + 4)" by (simp add: skip_marks_def)
qed

lemma message_read_back:
  assumes "party_ok to" "party_ok from" "length (createrawdata to from encrypted body) < 2 ^ 32"
  defines "s \<equiv> data_output (createrawdata to from encrypted body)"
  shows "isLong s = Yes ()" "getLongVersion s = Yes 0"
    "getLongToPubKey s = Yes (party_read to)" "getLongFromPubKey s = Yes (party_read from)"
    "getTypeLongData s = Yes 0" "getEncryptionLongData s = Yes (if encrypted then 1 else 0)"
    "getSizeLongData s = Yes (length body)" "getBodyLongData s = Yes body"
proof -
  let ?v = "createrawdata to from encrypted body" and ?e = "if encrypted then 0x01 else (0x00 :: byte)"
  let ?rest = "[0xf2, 0x00, 0xf3, ?e] @ push_data body"
  let ?i = "6 + length (write_party to)" and ?j = "7 + length (write_party to) + length (write_party from)"
  have m: "?v = long_magic @ [0x00] @ [0xf0] @ write_party to @ ([0xf1] @ write_party from @ ?rest)"
    by (simp add: createrawdata_def)
  note start = long_start_output[OF m assms(3), folded s_def]
  have pushed: "getPushedReturnData s = Yes ?v" using data_output_read(2)[OF assms(3)] by (simp add: s_def)
  show "isLong s = Yes ()" by (rule start(1))
  have "byte_at ?v 4 = Yes 0" unfolding m by (simp add: long_magic_def byte_at_def)
  then show "getLongVersion s = Yes 0"
    using pushed bytes_match_append[of 0 "[]" long_magic] m by (simp add: getLongVersion_def)
  have v1: "?v = (long_magic @ [0x00]) @ [0xf0] @ write_party to @ ([0xf1] @ write_party from @ ?rest)" using m by simp
  have v2: "?v = (long_magic @ [0x00] @ [0xf0] @ write_party to) @ [0xf1] @ write_party from @ ?rest" using m by simp
  have v3: "?v = (long_magic @ [0x00] @ [0xf0] @ write_party to @ [0xf1] @ write_party from) @ ?rest" using m by simp
  have len: "length (long_magic @ [0x00]) = 5" "length (long_magic @ [0x00] @ [0xf0] @ write_party to) = ?i"
    "length (long_magic @ [0x00] @ [0xf0] @ write_party to @ [0xf1] @ write_party from) = ?j"
    by (simp_all add: long_magic_def)
  note to = read_party_at[OF assms(1) len(1), of "0xf0" "[0xf1] @ write_party from @ ?rest", folded v1]
  note fr = read_party_at[OF assms(2) len(2), of "0xf1" ?rest, folded v2]
  have lb: "length body < 2 ^ 32" using assms(3) m by (simp add: push_data_def)
  note marks = read_marks[OF len(3) lb, of "0x00" ?e, folded v3]
  show "getLongToPubKey s = Yes (party_read to)" using start(2) to(1,2) by (simp add: getLongToPubKey_def)
  have skip: "skip_party 0xf0 ?v 5 = Yes ?i" "skip_party 0xf1 ?v ?i = Yes ?j" using to(3) fr(3) by simp_all
  show "getLongFromPubKey s = Yes (party_read from)"
    using start(2) skip(1) fr(1,2) by (simp add: getLongFromPubKey_def)
  have data: "long_data s = Yes (?v, ?j)"
    using start pushed skip by (simp add: long_data_def getOffsetLongData_def)
  show "getTypeLongData s = Yes 0" "getEncryptionLongData s = Yes (if encrypted then 1 else 0)"
    using data marks(1-4) by (simp_all add: getTypeLongData_def getEncryptionLongData_def)
  show size: "getSizeLongData s = Yes (length body)"
    using data marks(5,6) by (simp add: getSizeLongData_def)
  show "getBodyLongData s = Yes body" using data size marks(5,7) by (simp add: getBodyLongData_def)
qed

section \<open>Messages cut short\<close>

definition party_length :: "byte \<Rightarrow> nat" where
  "party_length k = (if k = 0xfe then 33 else if k = 0xff then 65 else if k = 0xfd \<or> k = 0xfc then 20 else 0)"

text \<open>The pushed data that make the readers go beyond its end.\<close>

definition magic_cut :: "valtype \<Rightarrow> bool" where
  "magic_cut v \<longleftrightarrow> length v < 4 \<and> v = take (length v) long_magic"

definition addressee_cut :: "valtype \<Rightarrow> bool" where
  "addressee_cut v \<longleftrightarrow> take 4 v = long_magic \<and>
     (length v \<le> 5 \<or> v ! 5 = 0xf0 \<and> (length v \<le> 6 \<or> length v < 7 + party_length (v ! 6)))"

lemma bytes_match_magic:
  "bytes_match v 0 long_magic = (if take 4 v = long_magic then Yes True else if magic_cut v then Out_of_range else Yes False)"
proof -
  consider "v = []" | a where "v = [a]" | a b where "v = [a, b]" | a b c where "v = [a, b, c]"
    | a b c d w where "v = a # b # c # d # w"
    by (metis list.exhaust)
  then show ?thesis by cases (auto simp: long_magic_def magic_cut_def)
qed

lemma isLong_out_of_range_iff:
  "isLong s = Out_of_range \<longleftrightarrow> s = [OP_RETURN] \<or> (\<exists>v. getPushedReturnData s = Yes v \<and> magic_cut v)"
proof -
  have "getPushedReturnData s = Out_of_range \<longleftrightarrow> s = [OP_RETURN]"
    by (cases s) (auto simp: getPushedReturnData_eq is_data_script_def IsPushOnly_def script_ops.simps[of "[]"] GetOp_def[of "[]"]
        split: option.splits)
  moreover have "\<not> magic_cut v" if "take 4 v = long_magic" for v
    using that arg_cong[OF that, of length] by (auto simp: magic_cut_def long_magic_def)
  ultimately show ?thesis
    by (auto simp: isLong_def ifYes_eq_iff bytes_match_magic split: if_split_asm)
qed

lemma isLong_Yes_iff: "isLong s = Yes u \<longleftrightarrow> (\<exists>v. getPushedReturnData s = Yes v \<and> take 4 v = long_magic)"
  by (auto simp: isLong_def ifYes_eq_iff bytes_match_magic split: if_split_asm)

lemma long_start_Yes_iff: "long_start s = Yes (v, i) \<longleftrightarrow> getPushedReturnData s = Yes v \<and> take 4 v = long_magic \<and> i = 5"
  by (auto simp: long_start_def ifYes_eq_iff isLong_Yes_iff bytes_match_magic)

lemma long_start_out_of_range_iff: "long_start s = Out_of_range \<longleftrightarrow> isLong s = Out_of_range"
  by (cases "isLong s") (auto simp: long_start_def ifYes_eq_iff isLong_Yes_iff bytes_match_magic dest: isLong_Yes_iff[THEN iffD1])

lemma read_address_out_of_range_iff:
  "read_address v i = Out_of_range \<longleftrightarrow> length v \<le> i \<or> length v < i + 1 + party_length (v ! i)"
  by (auto simp: read_address_def byte_at_def bytes_at_def party_length_def)

lemma getLongToPubKey_out_of_range_iff:
  "getLongToPubKey s = Out_of_range \<longleftrightarrow>
     s = [OP_RETURN] \<or> (\<exists>v. getPushedReturnData s = Yes v \<and> (magic_cut v \<or> addressee_cut v))"
proof -
  have "getLongToPubKey s = Out_of_range \<longleftrightarrow> isLong s = Out_of_range \<or> (\<exists>v. getPushedReturnData s = Yes v \<and> addressee_cut v)"
    by (auto simp: getLongToPubKey_def ifYes_eq_iff long_start_out_of_range_iff long_start_Yes_iff addressee_cut_def byte_at_def
        read_address_out_of_range_iff split: if_split_asm)
  then show ?thesis unfolding isLong_out_of_range_iff by blast
qed

section \<open>Properties\<close>

text \<open>C23: every message is read back. From the output that carries what \<^verbatim>\<open>createrawdata\<close> (or \<^verbatim>\<open>sendhexdata\<close>) writes, with each party given by a
  compressed public key or by a hash, the readers of \<^verbatim>\<open>script/standard.cpp\<close> recognise a message and give back its version, both parties
  with their kinds, the type of the data, the encryption mark, the size and the body, whichever of the four push encodings the
  sizes need.\<close>

theorem long_message_roundtrip:
  assumes "party_ok to" "party_ok from" "length (createrawdata to from encrypted body) < 2 ^ 32"
  shows "let s = data_output (createrawdata to from encrypted body) in
    isLong s = Yes () \<and> getLongVersion s = Yes 0 \<and> getLongToPubKey s = Yes (party_read to) \<and>
    getLongFromPubKey s = Yes (party_read from) \<and> getTypeLongData s = Yes 0 \<and>
    getEncryptionLongData s = Yes (if encrypted then 1 else 0) \<and> getSizeLongData s = Yes (length body) \<and>
    getBodyLongData s = Yes body"
  using message_read_back[OF assms] by (simp add: Let_def)

theorem long_message_roundtrip_witness:
  "getBodyLongData (data_output (createrawdata (By_KeyID (replicate 20 1)) (By_PubKey (replicate 33 2)) False (replicate 300 7))) =
     Yes (replicate 300 7)"
  using long_message_roundtrip[of "By_KeyID (replicate 20 1)" "By_PubKey (replicate 33 2)" False "replicate 300 7"]
  by (simp add: Let_def createrawdata_def long_magic_def push_data_def OP_PUSHDATA1_def)

text \<open>C28: messages that name the addressee by an uncompressed key are not read back. The writers mark a key of 65 bytes as a compressed one,
  so the readers take its first 33 bytes for the key; and unless the byte after them happens to be the mark of the sender, they find no sender.\<close>

theorem uncompressed_key_misread:
  assumes "length k = 65" "length (createrawdata (By_PubKey k) from encrypted body) < 2 ^ 32"
  shows "getLongToPubKey (data_output (createrawdata (By_PubKey k) from encrypted body)) = Yes (take 33 k, TX_PUBKEY) \<and>
    (k ! 33 \<noteq> 0xf1 \<longrightarrow> getLongFromPubKey (data_output (createrawdata (By_PubKey k) from encrypted body)) = No)"
proof -
  let ?v = "createrawdata (By_PubKey k) from encrypted body"
  define t where "t = drop 33 k @ [0xf1] @ write_party from @ [0xf2, 0x00, 0xf3, if encrypted then 0x01 else 0x00] @ push_data body"
  have "?v = long_magic @ [0x00, 0xf0, 0xfe] @ take 33 k @ t" by (simp add: createrawdata_def t_def)
  then have v: "?v = long_magic @ ([0x00] @ [0xf0] @ write_party (By_PubKey (take 33 k)) @ t)" by simp
  note start = long_start_output(2)[OF v assms(2)]
  have ok: "party_ok (By_PubKey (take 33 k))" using assms(1) by simp
  have v1: "?v = (long_magic @ [0x00]) @ [0xf0] @ write_party (By_PubKey (take 33 k)) @ t" using v by simp
  note to = read_party_at[OF ok, of "long_magic @ [0x00]" 5 "0xf0" t, folded v1]
  have 5: "length (long_magic @ [0x00]) = 5" by (simp add: long_magic_def)
  have "getLongToPubKey (data_output ?v) = Yes (take 33 k, TX_PUBKEY)"
    using start to(1,2)[OF 5] by (simp add: getLongToPubKey_def)
  moreover have "byte_at ?v 40 = Yes (k ! 33)"
    unfolding v using assms(1) by (simp add: long_magic_def byte_at_def t_def nth_append)
  ultimately show ?thesis using start to(3)[OF 5] assms(1) by (simp add: getLongFromPubKey_def)
qed

theorem uncompressed_key_misread_witness:
  "getLongFromPubKey (data_output (createrawdata (By_PubKey (replicate 65 4)) (By_KeyID (replicate 20 1)) False [])) = No"
  using uncompressed_key_misread[of "replicate 65 4" "By_KeyID (replicate 20 1)" False "[]"]
  by (simp add: createrawdata_def long_magic_def push_data_def OP_PUSHDATA1_def)

end
