(* ===== verification/Standard.thy ===== *)
theory Standard
  imports LongData SigHash Coins
begin

text \<open>
  Standard scripts, \<^verbatim>\<open>script/standard.cpp\<close>, and the relay policy of \<^verbatim>\<open>policy/policy.cpp\<close>: \<^verbatim>\<open>Solver\<close> with its templates, destinations, and the
  standard forms of transactions and of what they spend.

  \<^verbatim>\<open>Solver\<close> reads messages with the readers of \<open>LongData\<close>, so everything above it gives an \<open>answer\<close>; \<open>Out_of_range\<close> also stands for a failed
  assertion. The globals of the policy are a record.
\<close>

section \<open>Templates\<close>

definition GetTxnOutputType :: "txnouttype \<Rightarrow> string" where
  "GetTxnOutputType t = (case t of TX_NONSTANDARD \<Rightarrow> ''nonstandard'' | TX_PUBKEY \<Rightarrow> ''pubkey'' | TX_PUBKEYHASH \<Rightarrow> ''pubkeyhash''
     | TX_SCRIPTHASH \<Rightarrow> ''scripthash'' | TX_MULTISIG \<Rightarrow> ''multisig'' | TX_NULL_DATA \<Rightarrow> ''nulldata'')"

text \<open>The loop for \<^verbatim>\<open>OP_PUBKEYS\<close>: opcode, data and iterator after it, and the solutions.\<close>

function collect_keys :: "byte \<Rightarrow> valtype \<Rightarrow> CScript \<Rightarrow> valtype list \<Rightarrow> byte \<times> valtype \<times> CScript \<times> valtype list" where
  "collect_keys opcode1 vch1 pc1 vSolutions =
     (if 33 \<le> length vch1 \<and> length vch1 \<le> 65
      then (case GetOp pc1 of
              None \<Rightarrow> (OP_INVALIDOPCODE, [], pc1, vSolutions @ [vch1])
            | Some (opcode1, vch2, pc2) \<Rightarrow> collect_keys opcode1 vch2 pc2 (vSolutions @ [vch1]))
      else (opcode1, vch1, pc1, vSolutions))"
  by pat_completeness auto
termination
  by (relation "measure (\<lambda>(opcode1, vch1, pc1, v). length pc1)") (auto dest: GetOp_shorter)

declare collect_keys.simps [simp del]

text \<open>One instruction against one of the template; the result is what is added to the solutions.\<close>

definition match_op :: "byte \<Rightarrow> valtype \<Rightarrow> byte \<Rightarrow> valtype \<Rightarrow> valtype list option" where
  "match_op opcode1 vch1 opcode2 vch2 =
     (if opcode2 = OP_PUBKEY then (if length vch1 < 33 \<or> length vch1 > 65 then None else Some [vch1])
      else if opcode2 = OP_PUBKEYHASH \<or> opcode2 = OP_SCRIPTHASH then (if length vch1 \<noteq> 20 then None else Some [vch1])
      else if opcode2 = OP_SMALLINTEGER then
        (if opcode1 = OP_0 \<or> (opcode1 \<ge> OP_1 \<and> opcode1 \<le> OP_16)
         then map_option (\<lambda>n. [[word_of_int n]]) (DecodeOP_N opcode1) else None)
      else if opcode1 \<noteq> opcode2 \<or> vch1 \<noteq> vch2 then None
      else Some [])"

function match_template :: "CScript \<Rightarrow> CScript \<Rightarrow> valtype list \<Rightarrow> valtype list option" where
  "match_template pc1 pc2 vSolutions =
     (if pc1 = [] \<and> pc2 = [] then Some vSolutions
      else case GetOp pc1 of
        None \<Rightarrow> None
      | Some (opcode1, vch1, pc1) \<Rightarrow>
          (case GetOp pc2 of
             None \<Rightarrow> None
           | Some (opcode2, vch2, pc2) \<Rightarrow>
               if opcode2 = OP_PUBKEYS
               then (case collect_keys opcode1 vch1 pc1 vSolutions of
                       (opcode1, vch1, pc1, vSolutions) \<Rightarrow>
                         (case GetOp pc2 of
                            None \<Rightarrow> None
                          | Some (opcode2, vch2, pc2) \<Rightarrow>
                              (case match_op opcode1 vch1 opcode2 vch2 of
                                 None \<Rightarrow> None
                               | Some new \<Rightarrow> match_template pc1 pc2 (vSolutions @ new))))
               else (case match_op opcode1 vch1 opcode2 vch2 of
                       None \<Rightarrow> None
                     | Some new \<Rightarrow> match_template pc1 pc2 (vSolutions @ new))))"
  by pat_completeness auto
termination
  by (relation "measure (\<lambda>(pc1, pc2, v). length pc2)") (auto dest!: GetOp_shorter)

declare match_template.simps [simp del]

definition mTemplates :: "(txnouttype \<times> CScript) list" where
  "mTemplates =
     [(TX_PUBKEY, [OP_PUBKEY, OP_CHECKSIG]),
      (TX_PUBKEYHASH, [OP_DUP, OP_HASH160, OP_PUBKEYHASH, OP_EQUALVERIFY, OP_CHECKSIG]),
      (TX_MULTISIG, [OP_SMALLINTEGER, OP_PUBKEYS, OP_SMALLINTEGER, OP_CHECKMULTISIG])]"

text \<open>The loop over the templates: the result, the type and the solutions.\<close>

fun scan_templates :: "CScript \<Rightarrow> (txnouttype \<times> CScript) list \<Rightarrow> bool \<times> txnouttype \<times> valtype list" where
  "scan_templates s [] = (False, TX_NONSTANDARD, [])"
| "scan_templates s ((t, script2) # ts) =
     (case match_template s script2 [] of
        None \<Rightarrow> scan_templates s ts
      | Some vSolutions \<Rightarrow>
          if t = TX_MULTISIG
          then let m = hd (hd vSolutions); n = hd (last vSolutions)
               in if m < 1 \<or> n < 1 \<or> m > n \<or> length vSolutions - 2 \<noteq> unat n then (False, t, vSolutions) else (True, t, vSolutions)
          else (True, t, vSolutions))"

definition Solver :: "CScript \<Rightarrow> (bool \<times> txnouttype \<times> valtype list) answer" where
  "Solver s =
     (if is_data_script s then
        (case isLong s of
           Out_of_range \<Rightarrow> Out_of_range
         | No \<Rightarrow> Yes (True, TX_NULL_DATA, [])
         | Yes _ \<Rightarrow>
             (case getLongToPubKey s of
                Out_of_range \<Rightarrow> Out_of_range
              | No \<Rightarrow> Yes (True, TX_NULL_DATA, [])
              | Yes (vchToPubKey, t) \<Rightarrow> Yes (True, t, [vchToPubKey])))
      else if IsPayToScriptHash s then Yes (True, TX_SCRIPTHASH, [take 20 (drop 2 s)])
      else Yes (scan_templates s mTemplates))"

section \<open>Destinations\<close>

datatype CTxDestination = CNoDestination | CKeyID valtype | CScriptID valtype

definition CPubKey_GetID :: "(byte list \<Rightarrow> valtype) \<Rightarrow> valtype \<Rightarrow> valtype" where
  "CPubKey_GetID H160 pubkey = H160 (take (CPubKey_size pubkey) pubkey)"

definition ExtractDestination :: "(byte list \<Rightarrow> valtype) \<Rightarrow> CScript \<Rightarrow> CTxDestination answer" where
  "ExtractDestination H160 s =
     ifYes (Solver s) (\<lambda>(ok, whichType, vSolutions).
       if \<not> ok then No
       else if whichType = TX_PUBKEY then
         (let pubKey = CPubKey_Set (vSolutions ! 0) in
          if \<not> CPubKey_IsValid pubKey then No else Yes (CKeyID (CPubKey_GetID H160 pubKey)))
       else if whichType = TX_PUBKEYHASH then Yes (CKeyID (vSolutions ! 0))
       else if whichType = TX_SCRIPTHASH then Yes (CScriptID (vSolutions ! 0))
       else No)"

text \<open>The type, the addresses and the number of signatures.\<close>

definition ExtractDestinations :: "(byte list \<Rightarrow> valtype) \<Rightarrow> CScript \<Rightarrow> (txnouttype \<times> CTxDestination list \<times> nat) answer" where
  "ExtractDestinations H160 s =
     ifYes (Solver s) (\<lambda>(ok, typeRet, vSolutions).
       if \<not> ok then No
       else if typeRet = TX_NULL_DATA then No
       else if typeRet = TX_MULTISIG then
         (let pubKeys = map CPubKey_Set (butlast (tl vSolutions));
              addressRet = map (\<lambda>p. CKeyID (CPubKey_GetID H160 p)) (filter CPubKey_IsValid pubKeys)
          in if addressRet = [] then No else Yes (typeRet, addressRet, unat (hd (hd vSolutions))))
       else ifYes (ExtractDestination H160 s) (\<lambda>address. Yes (typeRet, [address], 1)))"

fun GetScriptForDestination :: "CTxDestination \<Rightarrow> CScript" where
  "GetScriptForDestination CNoDestination = []"
| "GetScriptForDestination (CKeyID keyID) = script_for_key keyID"
| "GetScriptForDestination (CScriptID scriptID) = script_for_script scriptID"

definition GetScriptForRawPubKey :: "valtype \<Rightarrow> CScript" where
  "GetScriptForRawPubKey pubKey = push_data pubKey @ [OP_CHECKSIG]"

text \<open>\<open>None\<close>: the assertion of \<^verbatim>\<open>EncodeOP_N\<close> fails.\<close>

definition GetScriptForMultisig :: "int \<Rightarrow> valtype list \<Rightarrow> CScript option" where
  "GetScriptForMultisig nRequired keys =
     (case (EncodeOP_N nRequired, EncodeOP_N (int (length keys))) of
        (Some m, Some n) \<Rightarrow> Some ([m] @ concat (map push_data keys) @ [n] @ [OP_CHECKMULTISIG])
      | _ \<Rightarrow> None)"

section \<open>Relay policy\<close>

record policy =
  fAcceptDatacarrier :: bool
  nMaxDatacarrierBytes :: nat
  fIsBareMultisigStd :: bool
  minRelayTxFee :: CFeeRate

definition MAX_OP_RETURN_RELAY :: nat where "MAX_OP_RETURN_RELAY = 64 * 1024 * 4 div 3 + 1"
definition DEFAULT_ACCEPT_DATACARRIER :: bool where "DEFAULT_ACCEPT_DATACARRIER = True"
definition MAX_STANDARD_TX_SIZE :: nat where "MAX_STANDARD_TX_SIZE = 100000"
definition MAX_P2SH_SIGOPS :: nat where "MAX_P2SH_SIGOPS = 15"

definition IsStandard :: "policy \<Rightarrow> CScript \<Rightarrow> (bool \<times> txnouttype) answer" where
  "IsStandard pol s =
     ifYes (Solver s) (\<lambda>(ok, whichType, vSolutions). Yes
       (if \<not> ok then False
        else if whichType = TX_MULTISIG then
          (let m = hd (hd vSolutions); n = hd (last vSolutions)
           in if n < 1 \<or> n > 3 then False else if m < 1 \<or> m > n then False else True)
        else if whichType = TX_NULL_DATA \<and> (\<not> fAcceptDatacarrier pol \<or> length s > nMaxDatacarrierBytes pol) then False
        else whichType \<noteq> TX_NONSTANDARD,
        whichType))"

text \<open>\<^verbatim>\<open>IsStandardTx\<close> gives the reason of a refusal, or \<open>Range\<close>.\<close>

datatype nonstandard = Reason string | Range

definition standard_input :: "CTxIn \<Rightarrow> nonstandard + unit" where
  "standard_input i =
     (if length (scriptSig i) > 1650 then Inl (Reason ''scriptsig-size'')
      else if \<not> IsPushOnly (scriptSig i) then Inl (Reason ''scriptsig-not-pushonly'') else Inr ())"

definition standard_output :: "policy \<Rightarrow> CTxOut \<Rightarrow> nat \<Rightarrow> nonstandard + nat" where
  "standard_output pol t nDataOut =
     (case IsStandard pol (scriptPubKey t) of
        Yes (ok, whichType) \<Rightarrow>
          if \<not> ok then Inl (Reason ''scriptpubkey'')
          else if whichType = TX_NULL_DATA then Inr (nDataOut + 1)
          else if whichType = TX_MULTISIG \<and> \<not> fIsBareMultisigStd pol then Inl (Reason ''bare-multisig'')
          else if IsDust t (minRelayTxFee pol) then Inl (Reason ''dust'')
          else Inr nDataOut
      | _ \<Rightarrow> Inl Range)"

definition IsStandardTx :: "policy \<Rightarrow> CTransaction \<Rightarrow> nonstandard + unit" where
  "IsStandardTx pol tx =
     (if nVersion tx > MAX_STANDARD_VERSION \<or> nVersion tx < 1 then Inl (Reason ''version'')
      else if GetSerializeSize tx \<ge> MAX_STANDARD_TX_SIZE then Inl (Reason ''tx-size'')
      else andThen (foldE (\<lambda>i _. standard_input i) (vin tx) ()) (\<lambda>_.
           andThen (foldE (standard_output pol) (vout tx) 0) (\<lambda>nDataOut.
           if nDataOut > 2 then Inl (Reason ''multi-op-return'') else Inr ())))"

text \<open>\<^verbatim>\<open>BaseSignatureChecker\<close> refuses everything.\<close>

definition BaseSignatureChecker :: "script_env \<Rightarrow> script_env" where
  "BaseSignatureChecker env = env\<lparr>CheckSig := \<lambda>_ _ _. False, CheckLockTime := \<lambda>_. False, CheckSequence := \<lambda>_. False\<rparr>"

definition input_standard :: "script_env \<Rightarrow> GetCoins_fun \<Rightarrow> CTxIn \<Rightarrow> unit answer" where
  "input_standard env mapInputs i =
     (case GetOutputFor mapInputs i of
        None \<Rightarrow> Out_of_range
      | Some prev \<Rightarrow>
          ifYes (Solver (scriptPubKey prev)) (\<lambda>(ok, whichType, _).
            if \<not> ok then No
            else if whichType = TX_SCRIPTHASH then
              (case EvalScript (BaseSignatureChecker env) 0 [] (scriptSig i) of
                 Inl _ \<Rightarrow> No
               | Inr st \<Rightarrow> if st = [] then No else if GetSigOpCount (hd st) True > MAX_P2SH_SIGOPS then No else Yes ())
            else Yes ()))"

definition AreInputsStandard :: "script_env \<Rightarrow> CTransaction \<Rightarrow> GetCoins_fun \<Rightarrow> unit answer" where
  "AreInputsStandard env tx mapInputs =
     (if IsCoinBase tx then Yes () else foldr (\<lambda>i r. ifYes (input_standard env mapInputs i) (\<lambda>_. r)) (vin tx) (Yes ()))"

section \<open>Matching instructions\<close>

lemma GetOp_plain: "\<not> o1 \<le> OP_PUSHDATA4 \<Longrightarrow> GetOp (o1 # rest) = Some (o1, [], rest)"
  by (simp add: GetOp_def)

lemma GetOp_Nil [simp]: "GetOp [] = None"
  by (simp add: GetOp_def)

lemma match_template_Nil: "match_template s [] sols = Some r \<longleftrightarrow> s = [] \<and> r = sols"
  by (subst match_template.simps) (auto split: option.splits)

lemma match_template_step:
  assumes "\<not> o1 \<le> OP_PUSHDATA4" "o1 \<noteq> OP_PUBKEYS"
  shows "match_template s (o1 # rest) sols = Some r \<longleftrightarrow>
    (\<exists>op d s' new. GetOp s = Some (op, d, s') \<and> match_op op d o1 [] = Some new \<and> match_template s' rest (sols @ new) = Some r)"
  using assms by (subst match_template.simps) (auto simp: GetOp_plain split: option.splits)

lemma match_template_keys:
  assumes "\<not> o2 \<le> OP_PUSHDATA4"
  shows "match_template s (OP_PUBKEYS # o2 # rest) sols = Some r \<longleftrightarrow>
    (\<exists>op d s' op1 d1 s1 sols1 new. GetOp s = Some (op, d, s') \<and> collect_keys op d s' sols = (op1, d1, s1, sols1) \<and>
       match_op op1 d1 o2 [] = Some new \<and> match_template s1 rest (sols1 @ new) = Some r)"
  using assms
  by (subst match_template.simps) (auto simp: GetOp_plain OP_PUBKEYS_def OP_PUSHDATA4_def split: option.splits prod.splits)

lemma script_ops_Cons_iff:
  "script_ops s = ((op, d) # ops, r) \<longleftrightarrow> (\<exists>s'. GetOp s = Some (op, d, s') \<and> script_ops s' = (ops, r))"
  by (subst script_ops.simps) (auto split: option.splits prod.splits)

lemma script_ops_Nil_iff: "script_ops s = ([], []) \<longleftrightarrow> s = []"
  by (subst script_ops.simps) (auto split: option.splits prod.splits)

definition key_sized :: "valtype \<Rightarrow> bool" where
  "key_sized k \<longleftrightarrow> 33 \<le> length k \<and> length k \<le> 65"

text \<open>Reading the keys is reading instructions as long as their data has the size of a key.\<close>

lemma collect_keys_reads:
  "collect_keys op d s sols = (op1, d1, s1, sols1) \<Longrightarrow> script_ops s1 = (ops, r) \<Longrightarrow> op1 \<noteq> OP_INVALIDOPCODE \<Longrightarrow>
   \<exists>keys. (op, d) # fst (script_ops s) = keys @ (op1, d1) # ops \<and> snd (script_ops s) = r \<and> list_all (\<lambda>(_, k). key_sized k) keys \<and>
     \<not> key_sized d1 \<and> sols1 = sols @ map snd keys"
proof (induction op d s sols rule: collect_keys.induct)
  case (1 op d s sols)
  show ?case
  proof (cases "key_sized d")
    case False
    then show ?thesis using "1.prems" by (subst (asm) collect_keys.simps) (auto simp: key_sized_def intro!: exI[of _ "[]"])
  next
    case True
    then have len: "33 \<le> length d \<and> length d \<le> 65" by (simp add: key_sized_def)
    obtain op' d' s' where g: "GetOp s = Some (op', d', s')"
      using "1.prems"(1,3) len by (subst (asm) collect_keys.simps) (auto split: option.splits)
    then have c: "collect_keys op' d' s' (sols @ [d]) = (op1, d1, s1, sols1)"
      using "1.prems"(1) len by (subst (asm) collect_keys.simps) auto
    obtain keys where k: "(op', d') # fst (script_ops s') = keys @ (op1, d1) # ops" "snd (script_ops s') = r"
      "list_all (\<lambda>(_, k). key_sized k) keys" "\<not> key_sized d1" "sols1 = (sols @ [d]) @ map snd keys"
      using "1.IH"[OF len g refl refl c "1.prems"(2,3)] by blast
    have "script_ops s = ((op', d') # fst (script_ops s'), snd (script_ops s'))"
      using g by (simp add: script_ops_Cons_iff)
    then show ?thesis using k True by (intro exI[of _ "(op, d) # keys"]) auto
  qed
qed

lemma collect_keys_complete:
  assumes "list_all (\<lambda>(_, k). key_sized k) keys" "\<not> key_sized d1"
    and "(op, d) # fst (script_ops s) = keys @ (op1, d1) # ops" "snd (script_ops s) = r"
  shows "\<exists>s1. collect_keys op d s sols = (op1, d1, s1, sols @ map snd keys) \<and> script_ops s1 = (ops, r)"
  using assms
proof (induction keys arbitrary: op d s sols)
  case Nil
  then show ?case by (subst collect_keys.simps) (auto simp: key_sized_def intro: prod_eqI)
next
  case (Cons x keys)
  then obtain op' d' rest where eq: "fst (script_ops s) = (op', d') # rest" "(op', d') # rest = keys @ (op1, d1) # ops"
    by (cases keys) auto
  then have "script_ops s = ((op', d') # rest, r)" using Cons.prems(4) by (metis prod.collapse)
  then obtain s' where g: "GetOp s = Some (op', d', s')" "script_ops s' = (rest, r)" by (auto simp: script_ops_Cons_iff)
  obtain s1 where "collect_keys op' d' s' (sols @ [d]) = (op1, d1, s1, (sols @ [d]) @ map snd keys)" "script_ops s1 = (ops, r)"
    using Cons.IH[of op' d' s' "sols @ [d]"] Cons.prems(1,2) eq(2) g(2) by auto
  then show ?case
    using Cons.prems(1,3) g(1) by (subst collect_keys.simps) (auto simp: key_sized_def)
qed

section \<open>The templates as instructions\<close>

lemmas template_ops = OP_PUBKEY_def OP_PUBKEYHASH_def OP_SCRIPTHASH_def OP_SMALLINTEGER_def OP_PUBKEYS_def OP_PUSHDATA4_def
  OP_CHECKSIG_def OP_DUP_def OP_HASH160_def OP_EQUALVERIFY_def OP_CHECKMULTISIG_def

lemma match_op_plain:
  "o1 \<notin> {OP_PUBKEY, OP_PUBKEYHASH, OP_SCRIPTHASH, OP_SMALLINTEGER} \<Longrightarrow>
   match_op op d o1 [] = Some new \<longleftrightarrow> op = o1 \<and> d = [] \<and> new = []"
  by (auto simp: match_op_def)

lemma match_op_key: "match_op op d OP_PUBKEY [] = Some new \<longleftrightarrow> key_sized d \<and> new = [d]"
  by (auto simp: match_op_def key_sized_def)

lemma match_op_hash: "match_op op d OP_PUBKEYHASH [] = Some new \<longleftrightarrow> length d = 20 \<and> new = [d]"
  by (auto simp: match_op_def template_ops)

definition small_int :: "byte \<Rightarrow> nat \<Rightarrow> bool" where
  "small_int op n \<longleftrightarrow> (op = OP_0 \<and> n = 0) \<or> (OP_1 \<le> op \<and> op \<le> OP_16 \<and> n = unat op - 80)"

lemma match_op_int: "match_op op d OP_SMALLINTEGER [] = Some new \<longleftrightarrow> (\<exists>n. small_int op n \<and> new = [[word_of_nat n]])"
proof -
  have "80 < unat op" if "OP_1 \<le> op" using that by (simp add: OP_1_def word_le_nat_alt)
  then show ?thesis
    by (auto simp: match_op_def template_ops small_int_def DecodeOP_N_def opcode_defs of_nat_diff)
qed

lemmas match_op_iffs = match_op_plain match_op_key[unfolded template_ops] match_op_hash[unfolded template_ops]
  match_op_int[unfolded template_ops]

lemma match_pubkey:
  "match_template s [OP_PUBKEY, OP_CHECKSIG] [] = Some sols \<longleftrightarrow>
   (\<exists>op k. script_ops s = ([(op, k), (OP_CHECKSIG, [])], []) \<and> key_sized k \<and> sols = [k])"
  by (auto simp: match_template_step match_template_Nil match_op_iffs template_ops script_ops_Cons_iff script_ops_Nil_iff)

lemma match_pubkeyhash:
  "match_template s [OP_DUP, OP_HASH160, OP_PUBKEYHASH, OP_EQUALVERIFY, OP_CHECKSIG] [] = Some sols \<longleftrightarrow>
   (\<exists>op h. script_ops s = ([(OP_DUP, []), (OP_HASH160, []), (op, h), (OP_EQUALVERIFY, []), (OP_CHECKSIG, [])], []) \<and>
      length h = 20 \<and> sols = [h])"
  by (auto simp: match_template_step match_template_Nil match_op_iffs template_ops script_ops_Cons_iff script_ops_Nil_iff)

lemma GetOp_small_int: "GetOp s = Some (op, d, s') \<Longrightarrow> small_int op n \<Longrightarrow> d = []"
  by (auto simp: GetOp_def small_int_def opcode_defs word_le_nat_alt Let_def split: list.splits if_splits)

lemma small_int_valid: "small_int op n \<Longrightarrow> op \<noteq> OP_INVALIDOPCODE"
  by (auto simp: small_int_def opcode_defs)

text \<open>A script of the form of a multisignature.\<close>

definition multisig_script :: "CScript \<Rightarrow> nat \<Rightarrow> valtype list \<Rightarrow> nat \<Rightarrow> bool" where
  "multisig_script s m keys n \<longleftrightarrow>
     (\<exists>opm ops opn. script_ops s = ((opm, []) # ops @ [(opn, []), (OP_CHECKMULTISIG, [])], []) \<and>
        small_int opm m \<and> small_int opn n \<and> map snd ops = keys \<and> list_all key_sized keys)"

lemma match_multisig:
  "match_template s [OP_SMALLINTEGER, OP_PUBKEYS, OP_SMALLINTEGER, OP_CHECKMULTISIG] [] = Some sols \<longleftrightarrow>
   (\<exists>m keys n. multisig_script s m keys n \<and> sols = [word_of_nat m] # keys @ [[word_of_nat n]])"
  (is "?match = _ \<longleftrightarrow> _")
proof
  assume "?match = Some sols"
  then obtain opm dm s1 m op d s2 op1 d1 s3 sols1 n s4 where
    m: "GetOp s = Some (opm, dm, s1)" "small_int opm m" and k: "GetOp s1 = Some (op, d, s2)"
    "collect_keys op d s2 [[word_of_nat m]] = (op1, d1, s3, sols1)" "small_int op1 n"
    "sols = sols1 @ [[word_of_nat n]]" and e: "GetOp s3 = Some (OP_CHECKMULTISIG, [], s4)" "s4 = []"
    by (auto simp: match_template_step match_template_keys[unfolded template_ops] match_template_Nil match_op_iffs template_ops)
  have s3: "script_ops s3 = ([(OP_CHECKMULTISIG, [])], [])" using e by (simp add: script_ops_Cons_iff script_ops_Nil_iff)
  obtain ops where ops: "(op, d) # fst (script_ops s2) = ops @ (op1, d1) # [(OP_CHECKMULTISIG, [])]" "snd (script_ops s2) = []"
    "list_all (\<lambda>(_, k). key_sized k) ops" "sols1 = [[word_of_nat m]] @ map snd ops"
    using collect_keys_reads[OF k(2) s3 small_int_valid[OF k(3)]] by blast
  have s1: "script_ops s1 = (ops @ [(op1, d1), (OP_CHECKMULTISIG, [])], [])"
    using k(1) ops(1,2) by (metis script_ops_Cons_iff append_Cons append_Nil prod.collapse)
  have "d1 = []"
  proof -
    have "script_ops t = (xs @ (op1, d1) # ys, r) \<Longrightarrow> d1 = []" for t xs ys r
    proof (induction xs arbitrary: t)
      case Nil
      then show ?case using GetOp_small_int k(3) by (auto simp: script_ops_Cons_iff)
    next
      case (Cons x xs)
      then show ?case by (cases x) (auto simp: script_ops_Cons_iff)
    qed
    then show ?thesis using s1 by blast
  qed
  moreover have "list_all key_sized (map snd ops)" using ops(3) by (auto simp: list_all_iff)
  ultimately have "multisig_script s m (map snd ops) n"
    unfolding multisig_script_def using m k(3) s1 GetOp_small_int[OF m] by (auto simp: script_ops_Cons_iff)
  then show "\<exists>m keys n. multisig_script s m keys n \<and> sols = [word_of_nat m] # keys @ [[word_of_nat n]]"
    using k(4) ops(4) by auto
next
  assume "\<exists>m keys n. multisig_script s m keys n \<and> sols = [word_of_nat m] # keys @ [[word_of_nat n]]"
  then obtain m n opm ops opn where a: "script_ops s = ((opm, []) # ops @ [(opn, []), (OP_CHECKMULTISIG, [])], [])"
    "small_int opm m" "small_int opn n" "list_all key_sized (map snd ops)" "sols = [word_of_nat m] # map snd ops @ [[word_of_nat n]]"
    by (auto simp: multisig_script_def)
  then obtain s1 where s1: "GetOp s = Some (opm, [], s1)" "script_ops s1 = (ops @ [(opn, []), (OP_CHECKMULTISIG, [])], [])"
    by (auto simp: script_ops_Cons_iff)
  then obtain op d rest where eq: "ops @ [(opn, []), (OP_CHECKMULTISIG, [])] = (op, d) # rest" by (cases ops) auto
  then obtain s2 where s2: "GetOp s1 = Some (op, d, s2)" "script_ops s2 = (rest, [])" using s1(2) by (auto simp: script_ops_Cons_iff)
  have "list_all (\<lambda>(_, k). key_sized k) ops" using a(4) by (auto simp: list_all_iff)
  then obtain s3 where "collect_keys op d s2 [[word_of_nat m]] = (opn, [], s3, [[word_of_nat m]] @ map snd ops)"
    "script_ops s3 = ([(OP_CHECKMULTISIG, [])], [])"
    using collect_keys_complete[of ops "[]" op d s2 opn "[(OP_CHECKMULTISIG, [])]" "[]" "[[word_of_nat m]]"] eq s2(2)
    by (auto simp: key_sized_def)
  then show "?match = Some sols"
    using s1(1) s2(1) a(2,3,5)
    by (fastforce simp: match_template_step match_template_keys[unfolded template_ops] match_template_Nil match_op_iffs template_ops script_ops_Cons_iff
        script_ops_Nil_iff)
qed

section \<open>Solver\<close>

lemma script_for_script_bytes: "length h = 20 \<Longrightarrow> script_for_script h = OP_HASH160 # 0x14 # h @ [OP_EQUAL]"
  by (simp add: script_for_script_def push_data_def OP_PUSHDATA1_def)

lemma IsPayToScriptHash_iff: "IsPayToScriptHash s \<longleftrightarrow> (\<exists>h. length h = 20 \<and> s = script_for_script h)"
proof
  assume a: "IsPayToScriptHash s"
  then have l: "length s = 23" and n: "s ! 0 = OP_HASH160" "s ! 1 = 0x14" "s ! 22 = OP_EQUAL" by (auto simp: IsPayToScriptHash_def)
  have "take 2 s = [s ! 0, s ! 1]" using l by (simp add: numeral_2_eq_2 take_Suc_conv_app_nth)
  moreover have "drop 22 s = [s ! 22]" using l Cons_nth_drop_Suc[of 22 s] by simp
  moreover have "s = take 2 s @ take 20 (drop 2 s) @ drop 22 s" using append_take_drop_id[of 20 "drop 2 s"] by simp
  ultimately have "s = [OP_HASH160, 0x14] @ take 20 (drop 2 s) @ [OP_EQUAL]" using n by simp
  then show "\<exists>h. length h = 20 \<and> s = script_for_script h"
    using l by (intro exI[of _ "take 20 (drop 2 s)"]) (simp add: script_for_script_bytes)
next
  assume "\<exists>h. length h = 20 \<and> s = script_for_script h"
  then show "IsPayToScriptHash s" by (auto simp: IsPayToScriptHash_def script_for_script_bytes nth_append numeral_2_eq_2)
qed

lemma script_ops_for_script:
  "length h = 20 \<Longrightarrow> script_ops (script_for_script h) = ([(OP_HASH160, []), (0x14, h), (OP_EQUAL, [])], [])"
  by (simp add: script_for_script_bytes script_ops_Cons_iff script_ops_Nil_iff GetOp_def opcode_defs)

lemma small_int_le: "small_int op n \<Longrightarrow> n \<le> 16"
  by (auto simp: small_int_def opcode_defs word_le_nat_alt)

lemma multisig_counts:
  assumes "multisig_script s m keys n"
  shows "unat (word_of_nat m :: byte) = m" "unat (word_of_nat n :: byte) = n"
  using assms by (auto simp: multisig_script_def dest!: small_int_le intro: unat_of_nat_small)

text \<open>The solved forms, as instructions.\<close>

definition pubkey_script :: "CScript \<Rightarrow> valtype \<Rightarrow> bool" where
  "pubkey_script s k \<longleftrightarrow> key_sized k \<and> (\<exists>op. script_ops s = ([(op, k), (OP_CHECKSIG, [])], []))"

definition pubkeyhash_script :: "CScript \<Rightarrow> valtype \<Rightarrow> bool" where
  "pubkeyhash_script s h \<longleftrightarrow> length h = 20 \<and>
     (\<exists>op. script_ops s = ([(OP_DUP, []), (OP_HASH160, []), (op, h), (OP_EQUALVERIFY, []), (OP_CHECKSIG, [])], []))"

lemma scan_templates_eq:
  "scan_templates s mTemplates = r \<longleftrightarrow>
    (\<exists>k. pubkey_script s k \<and> r = (True, TX_PUBKEY, [k])) \<or>
    (\<exists>h. pubkeyhash_script s h \<and> r = (True, TX_PUBKEYHASH, [h])) \<or>
    (\<exists>m keys n. multisig_script s m keys n \<and>
        r = (1 \<le> m \<and> m \<le> n \<and> n = length keys, TX_MULTISIG, [word_of_nat m] # keys @ [[word_of_nat n]])) \<or>
    (\<nexists>k. pubkey_script s k) \<and> (\<nexists>h. pubkeyhash_script s h) \<and> (\<nexists>m keys n. multisig_script s m keys n) \<and>
      r = (False, TX_NONSTANDARD, [])"
proof -
  let ?A = "match_template s [OP_PUBKEY, OP_CHECKSIG] []"
  let ?B = "match_template s [OP_DUP, OP_HASH160, OP_PUBKEYHASH, OP_EQUALVERIFY, OP_CHECKSIG] []"
  let ?C = "match_template s [OP_SMALLINTEGER, OP_PUBKEYS, OP_SMALLINTEGER, OP_CHECKMULTISIG] []"
  have A: "?A = Some v \<longleftrightarrow> (\<exists>k. pubkey_script s k \<and> v = [k])" for v
    by (auto simp: match_pubkey pubkey_script_def)
  have B: "?B = Some v \<longleftrightarrow> (\<exists>h. pubkeyhash_script s h \<and> v = [h])" for v
    by (auto simp: match_pubkeyhash pubkeyhash_script_def)
  have "\<not> (pubkey_script s k \<and> pubkeyhash_script s h)" "\<not> (pubkey_script s k \<and> multisig_script s m keys n)"
    "\<not> (pubkeyhash_script s h \<and> multisig_script s m keys n)" for k h m keys n
    by (auto simp: pubkey_script_def pubkeyhash_script_def multisig_script_def opcode_defs Cons_eq_append_conv)
  then consider k where "pubkey_script s k" "?A = Some [k]" "?B = None" "?C = None"
    | h where "pubkeyhash_script s h" "?A = None" "?B = Some [h]" "?C = None"
    | m keys n where "multisig_script s m keys n" "?A = None" "?B = None" "?C = Some ([word_of_nat m] # keys @ [[word_of_nat n]])"
    | "?A = None" "?B = None" "?C = None"
    by (metis A B match_multisig option.exhaust)
  then show ?thesis
  proof cases
    case 3
    have "m' = m \<and> keys' = keys \<and> n' = n" if "multisig_script s m' keys' n'" for m' keys' n'
    proof -
      have "?C = Some ([word_of_nat m'] # keys' @ [[word_of_nat n']])" using that match_multisig by blast
      then show ?thesis using 3(4) multisig_counts[OF that] multisig_counts[OF 3(1)] by (auto dest: arg_cong[of _ _ unat])
    qed
    moreover have "\<nexists>k. pubkey_script s k" "\<nexists>h. pubkeyhash_script s h" using 3 A B by (metis option.distinct(1))+
    moreover have "scan_templates s mTemplates =
        (1 \<le> m \<and> m \<le> n \<and> n = length keys, TX_MULTISIG, [word_of_nat m] # keys @ [[word_of_nat n]])"
      using 3 multisig_counts[OF 3(1)] by (auto simp: mTemplates_def Let_def word_less_nat_alt word_le_nat_alt)
    ultimately show ?thesis using 3(1) by blast
  next
    case 1
    have "k' = k" if "pubkey_script s k'" for k' using that A[of "[k']"] 1(2) by auto
    moreover have "\<nexists>h. pubkeyhash_script s h" "\<nexists>m keys n. multisig_script s m keys n"
      using 1(3,4) B match_multisig by (metis option.distinct(1))+
    moreover have "scan_templates s mTemplates = (True, TX_PUBKEY, [k])" using 1(2) by (simp add: mTemplates_def)
    ultimately show ?thesis using 1(1) by blast
  next
    case 2
    have "h' = h" if "pubkeyhash_script s h'" for h' using that B[of "[h']"] 2(3) by auto
    moreover have "\<nexists>k. pubkey_script s k" "\<nexists>m keys n. multisig_script s m keys n"
      using 2(2,4) A match_multisig by (metis option.distinct(1))+
    moreover have "scan_templates s mTemplates = (True, TX_PUBKEYHASH, [h])" using 2(2,3) by (simp add: mTemplates_def)
    ultimately show ?thesis using 2(1) by blast
  next
    case 4
    have "\<nexists>k. pubkey_script s k" "\<nexists>h. pubkeyhash_script s h" "\<nexists>m keys n. multisig_script s m keys n"
      using 4 A B match_multisig by (metis option.distinct(1))+
    moreover have "scan_templates s mTemplates = (False, TX_NONSTANDARD, [])" using 4 by (simp add: mTemplates_def)
    ultimately show ?thesis by blast
  qed
qed

lemma Solver_data:
  assumes "is_data_script s"
  shows "Solver s = (case getLongToPubKey s of
    Out_of_range \<Rightarrow> Out_of_range | No \<Rightarrow> Yes (True, TX_NULL_DATA, []) | Yes (k, t) \<Rightarrow> Yes (True, t, [k]))"
proof -
  have "getLongToPubKey s = No" if "isLong s = No" using that by (simp add: getLongToPubKey_def long_start_def)
  moreover have "getLongToPubKey s = Out_of_range" if "isLong s = Out_of_range" using that by (simp add: getLongToPubKey_def long_start_def)
  ultimately show ?thesis using assms by (cases "isLong s") (auto simp: Solver_def)
qed

lemma Solver_True_iff:
  assumes "\<not> is_data_script s"
  shows "Solver s = Yes (True, t, sols) \<longleftrightarrow>
    (\<exists>h. t = TX_SCRIPTHASH \<and> length h = 20 \<and> s = script_for_script h \<and> sols = [h]) \<or>
    (\<exists>k. t = TX_PUBKEY \<and> pubkey_script s k \<and> sols = [k]) \<or>
    (\<exists>h. t = TX_PUBKEYHASH \<and> pubkeyhash_script s h \<and> sols = [h]) \<or>
    (\<exists>m keys. t = TX_MULTISIG \<and> multisig_script s m keys (length keys) \<and> 1 \<le> m \<and> m \<le> length keys \<and>
       sols = [word_of_nat m] # keys @ [[word_of_nat (length keys)]])"
proof (cases "IsPayToScriptHash s")
  case True
  then obtain h where h: "length h = 20" "s = script_for_script h" by (auto simp: IsPayToScriptHash_iff)
  have other: "\<not> pubkey_script s k" "\<not> pubkeyhash_script s k" "\<not> multisig_script s m keys n" for k m keys n
    using script_ops_for_script[OF h(1)]
    by (auto simp: h(2) pubkey_script_def pubkeyhash_script_def multisig_script_def small_int_def opcode_defs word_le_nat_alt)
  have "take 20 (drop 2 s) = h" using h by (simp add: script_for_script_bytes)
  then have "Solver s = Yes (True, TX_SCRIPTHASH, [h])" using assms True by (simp add: Solver_def)
  then have "Solver s = Yes (True, t, sols) \<longleftrightarrow> t = TX_SCRIPTHASH \<and> sols = [h]" by auto
  moreover have uniq: "h' = h" if "length h' = 20" "s = script_for_script h'" for h'
    using that h by (simp add: script_for_script_bytes)
  moreover have "(\<exists>h'. t = TX_SCRIPTHASH \<and> length h' = 20 \<and> s = script_for_script h' \<and> sols = [h']) \<longleftrightarrow>
      t = TX_SCRIPTHASH \<and> sols = [h]"
    by (metis h uniq)
  ultimately show ?thesis using other by simp
next
  case False
  then have p2sh: "\<nexists>h. length h = 20 \<and> s = script_for_script h" by (simp add: IsPayToScriptHash_iff)
  have "Solver s = Yes (scan_templates s mTemplates)" using assms False by (simp add: Solver_def)
  then show ?thesis using p2sh by (auto simp: scan_templates_eq)
qed

lemma Solver_out_of_range:
  "Solver s = Out_of_range \<longleftrightarrow>
     s = [OP_RETURN] \<or> (\<exists>v. getPushedReturnData s = Yes v \<and> (magic_cut v \<or> addressee_cut v))"
proof (cases "is_data_script s")
  case True
  then show ?thesis using getLongToPubKey_out_of_range_iff[of s] by (auto simp: Solver_data split: answer.splits)
next
  case False
  moreover have "is_data_script [OP_RETURN]"
    by (simp add: is_data_script_def IsPushOnly_def script_ops.simps[of "[]"])
  ultimately show ?thesis by (auto simp: Solver_def getPushedReturnData_eq)
qed

section \<open>Destinations and messages\<close>

lemma not_data_script: "s \<noteq> [] \<Longrightarrow> hd s \<noteq> OP_RETURN \<Longrightarrow> \<not> is_data_script s"
  by (cases s) (auto simp: is_data_script_def)

lemma Solver_destination:
  "length h = 20 \<Longrightarrow> Solver (script_for_key h) = Yes (True, TX_PUBKEYHASH, [h])"
  "length h = 20 \<Longrightarrow> Solver (script_for_script h) = Yes (True, TX_SCRIPTHASH, [h])"
proof -
  assume h: "length h = 20"
  have "\<not> is_data_script (script_for_key h)" "\<not> is_data_script (script_for_script h)"
    using not_data_script[of "script_for_key h"] not_data_script[of "script_for_script h"]
    by (simp_all add: script_for_key_def script_for_script_def opcode_defs)
  then show "Solver (script_for_key h) = Yes (True, TX_PUBKEYHASH, [h])"
    "Solver (script_for_script h) = Yes (True, TX_SCRIPTHASH, [h])"
    using script_ops_for_key[OF h] h by (auto simp: Solver_True_iff pubkeyhash_script_def)
qed

lemma script_ops_append_pushes:
  assumes "\<forall>b\<in>set bs. length b < 2 ^ 32" "script_ops s = (ops, r)"
  shows "\<exists>pushes. script_ops (concat (map push_data bs) @ s) = (pushes @ ops, r) \<and> map snd pushes = bs"
  using assms(1)
proof (induction bs)
  case (Cons b bs)
  then obtain pushes where p: "script_ops (concat (map push_data bs) @ s) = (pushes @ ops, r)" "map snd pushes = bs" by auto
  obtain op where "GetOp (push_data b @ (concat (map push_data bs) @ s)) = Some (op, b, concat (map push_data bs) @ s)"
    using GetOp_push_data[of b] Cons.prems by auto
  then have "script_ops (concat (map push_data (b # bs)) @ s) = ((op, b) # pushes @ ops, r)"
    using p(1) by (simp add: script_ops_Cons_iff)
  then show ?case using p(2) by (intro exI[of _ "(op, b) # pushes"]) simp
qed (use assms(2) in simp)

lemma EncodeOP_N_small_int:
  assumes "n \<le> 16"
  shows "\<exists>op. EncodeOP_N (int n) = Some op \<and> small_int op n \<and> \<not> (0 < op \<and> op \<le> OP_PUSHDATA4) \<and> op \<noteq> OP_RETURN"
proof (cases "n = 0")
  case True
  then show ?thesis by (simp add: EncodeOP_N_def small_int_def opcode_defs)
next
  case False
  have "int (unat OP_1) + int n - 1 = int (80 + n)" by (simp add: opcode_defs)
  then have "word_of_int (int (unat OP_1) + int n - 1) = (word_of_nat (80 + n) :: byte)" by (simp only: of_int_of_nat_eq)
  moreover have "unat (word_of_nat (80 + n) :: byte) = 80 + n" using assms by (intro unat_of_nat_small) simp
  ultimately show ?thesis
    using False assms by (auto simp: EncodeOP_N_def small_int_def opcode_defs word_le_nat_alt word_less_nat_alt simp del: of_nat_add)
qed

lemma Solver_multisig:
  assumes "1 \<le> m" "m \<le> length keys" "length keys \<le> 16" "list_all key_sized keys"
  shows "\<exists>s. GetScriptForMultisig (int m) keys = Some s \<and>
    Solver s = Yes (True, TX_MULTISIG, [word_of_nat m] # keys @ [[word_of_nat (length keys)]])"
proof -
  obtain opm opn where o: "EncodeOP_N (int m) = Some opm" "small_int opm m" "opm \<noteq> OP_RETURN" "\<not> (0 < opm \<and> opm \<le> OP_PUSHDATA4)"
    "EncodeOP_N (int (length keys)) = Some opn" "small_int opn (length keys)" "\<not> (0 < opn \<and> opn \<le> OP_PUSHDATA4)"
    using EncodeOP_N_small_int[of m] EncodeOP_N_small_int[of "length keys"] assms by auto
  let ?s = "[opm] @ concat (map push_data keys) @ [opn] @ [OP_CHECKMULTISIG]"
  have g: "GetOp (op # t) = Some (op, [], t)" if "\<not> (0 < op \<and> op \<le> OP_PUSHDATA4)" "small_int op n" "1 \<le> n" for op t n
    using that by (auto simp: GetOp_def small_int_def opcode_defs word_le_nat_alt word_less_nat_alt)
  have "script_ops ([opn] @ [OP_CHECKMULTISIG]) = ([(opn, []), (OP_CHECKMULTISIG, [])], [])"
    using g[OF o(7,6)] assms by (simp add: script_ops_Cons_iff script_ops_Nil_iff GetOp_plain opcode_defs)
  then obtain pushes where p: "script_ops (concat (map push_data keys) @ [opn] @ [OP_CHECKMULTISIG]) =
      (pushes @ [(opn, []), (OP_CHECKMULTISIG, [])], [])" "map snd pushes = keys"
    using script_ops_append_pushes[of keys] assms(4) by (fastforce simp: list_all_iff key_sized_def)
  have "script_ops ?s = ((opm, []) # pushes @ [(opn, []), (OP_CHECKMULTISIG, [])], [])"
    using p(1) g[OF o(4,2) assms(1)] by (simp add: script_ops_Cons_iff)
  then have "multisig_script ?s m keys (length keys)"
    unfolding multisig_script_def using o p(2) assms(4) by blast
  moreover have "\<not> is_data_script ?s" using o(3) by (intro not_data_script) auto
  ultimately have "Solver ?s = Yes (True, TX_MULTISIG, [word_of_nat m] # keys @ [[word_of_nat (length keys)]])"
    using assms(1,2) by (auto simp: Solver_True_iff)
  then show ?thesis using o by (simp add: GetScriptForMultisig_def)
qed

lemma message_solved:
  assumes "party_ok to" "party_ok fr" "length (createrawdata to fr encrypted body) < 2 ^ 32"
  shows "Solver (data_output (createrawdata to fr encrypted body)) = Yes (True, snd (party_read to), [fst (party_read to)])"
  using message_read_back(3)[OF assms] data_output_read(1)[OF assms(3)]
  by (simp add: Solver_data split: prod.splits)

lemma unspendable_not_verified:
  assumes "IsUnspendable s" shows "VerifyScript env flags sig s \<noteq> Some (Inr ())"
proof -
  have "EvalScript env flags st s \<noteq> Inr r" for st r using EvalScript_unspendable[OF assms, of env flags st] by auto
  then show ?thesis by (auto simp: VerifyScript_def andThen_def split: sum.split_asm if_split_asm)
qed

section \<open>Properties\<close>

text \<open>C26: what \<^verbatim>\<open>Solver\<close> accepts. A script that is not a data output is solved exactly when it is the script for a script hash, or when its
  instructions are, in any encoding of the pushes, a push of the size of a key and \<^verbatim>\<open>OP_CHECKSIG\<close>, the script for a key hash, or a
  multisignature with \<open>1 \<le> m \<le> n \<le> 16\<close> where \<open>n\<close> is the number of keys; the solutions are the hash, the key, or the two numbers around the keys.\<close>

theorem Solver_iff:
  assumes "\<not> is_data_script s"
  shows "Solver s = Yes (True, t, sols) \<longleftrightarrow>
    (\<exists>h. t = TX_SCRIPTHASH \<and> length h = 20 \<and> s = script_for_script h \<and> sols = [h]) \<or>
    (\<exists>k. t = TX_PUBKEY \<and> pubkey_script s k \<and> sols = [k]) \<or>
    (\<exists>h. t = TX_PUBKEYHASH \<and> pubkeyhash_script s h \<and> sols = [h]) \<or>
    (\<exists>m keys. t = TX_MULTISIG \<and> multisig_script s m keys (length keys) \<and> 1 \<le> m \<and> m \<le> length keys \<and>
       sols = [word_of_nat m] # keys @ [[word_of_nat (length keys)]])"
  by (rule Solver_True_iff[OF assms])

theorem Solver_iff_witness:
  "Solver (script_for_script (replicate 20 9)) = Yes (True, TX_SCRIPTHASH, [replicate 20 9])"
proof -
  have "\<not> is_data_script (script_for_script (replicate 20 9))"
    using not_data_script[of "script_for_script (replicate 20 9)"] by (simp add: script_for_script_def opcode_defs)
  from Solver_iff[OF this, of TX_SCRIPTHASH "[replicate 20 9]"] show ?thesis by auto
qed

text \<open>C24: which outputs make a node read beyond the end of a vector. \<^verbatim>\<open>Solver\<close>, which runs on the outputs of every transaction that arrives, leaves
  the pushed data exactly for a bare \<^verbatim>\<open>OP_RETURN\<close>, for data that stop within the magic bytes, and for messages that stop within the addressee.\<close>

theorem Solver_out_of_range_iff:
  "Solver s = Out_of_range \<longleftrightarrow>
     s = [OP_RETURN] \<or> (\<exists>v. getPushedReturnData s = Yes v \<and> (magic_cut v \<or> addressee_cut v))"
  by (rule Solver_out_of_range)

text \<open>C27: the scripts the node writes for a payee are solved as what they were written for: a destination is extracted from its script, and
  the script for a multisignature of at most 16 keys of a size between 33 and 65 bytes has the numbers and the keys as solutions.\<close>

theorem standard_scripts_solved:
  assumes "length h = 20" "1 \<le> m" "m \<le> length keys" "length keys \<le> 16" "list_all key_sized keys"
  shows "ExtractDestination H160 (GetScriptForDestination (CKeyID h)) = Yes (CKeyID h) \<and>
    ExtractDestination H160 (GetScriptForDestination (CScriptID h)) = Yes (CScriptID h) \<and>
    (\<exists>s. GetScriptForMultisig (int m) keys = Some s \<and>
       Solver s = Yes (True, TX_MULTISIG, [word_of_nat m] # keys @ [[word_of_nat (length keys)]]))"
  using Solver_destination[OF assms(1)] Solver_multisig[OF assms(2-5)] by (simp add: ExtractDestination_def)

theorem standard_scripts_solved_witness:
  "ExtractDestination (\<lambda>_. []) (GetScriptForDestination (CKeyID (replicate 20 5))) = Yes (CKeyID (replicate 20 5))"
  using standard_scripts_solved[of "replicate 20 5" 1 "[replicate 33 2]" "\<lambda>_. []"] by (simp add: key_sized_def)

text \<open>C25: a message passes the relay policy under every setting. An output that carries a message counts as a payment to the addressee: it is standard
  whatever its size and even where data outputs are refused, it does not count against the limit on data outputs, and yet no
  input can ever spend it.\<close>

theorem messages_pass_policy:
  assumes "party_ok to" "party_ok from" "length (createrawdata to from encrypted body) < 2 ^ 32"
    and "scriptPubKey t = data_output (createrawdata to from encrypted body)"
  shows "IsStandard pol (scriptPubKey t) = Yes (True, snd (party_read to)) \<and> standard_output pol t nDataOut = Inr nDataOut \<and>
    VerifyScript env flags sig (scriptPubKey t) \<noteq> Some (Inr ())"
proof -
  have "IsUnspendable (scriptPubKey t)" by (simp add: assms(4) data_output_def IsUnspendable_def)
  then have "VerifyScript env flags sig (scriptPubKey t) \<noteq> Some (Inr ())" by (rule unspendable_not_verified)
  moreover have std: "IsStandard pol (scriptPubKey t) = Yes (True, snd (party_read to))"
    using message_solved[OF assms(1-3)] assms(4) by (cases to) (simp_all add: IsStandard_def)
  then have "standard_output pol t nDataOut = Inr nDataOut" by (cases to) (simp_all add: standard_output_def IsDust_def)
  ultimately show ?thesis using std by blast
qed

definition demo_message :: CScript where
  "demo_message = data_output (createrawdata (By_KeyID (replicate 20 1)) (By_KeyID (replicate 20 2)) False (replicate 100 7))"

theorem messages_pass_policy_witness:
  "standard_output \<lparr>fAcceptDatacarrier = False, nMaxDatacarrierBytes = 0, fIsBareMultisigStd = False, minRelayTxFee = CFeeRate_of 1000\<rparr>
     \<lparr>nValue = 0, scriptPubKey = demo_message\<rparr> 2 = Inr 2"
  using messages_pass_policy[of "By_KeyID (replicate 20 1)" "By_KeyID (replicate 20 2)" False "replicate 100 7"
      "\<lparr>nValue = 0, scriptPubKey = demo_message\<rparr>"
      "\<lparr>fAcceptDatacarrier = False, nMaxDatacarrierBytes = 0, fIsBareMultisigStd = False, minRelayTxFee = CFeeRate_of 1000\<rparr>" 2]
  by (simp add: demo_message_def createrawdata_def long_magic_def push_data_def OP_PUSHDATA1_def)

end
