(* ===== verification/Bloom.thy ===== *)
theory Bloom
  imports Standard
begin

text \<open>
  Bloom filters, \<^verbatim>\<open>bloom.h\<close> and \<^verbatim>\<open>bloom.cpp\<close>, with the hash \<^verbatim>\<open>MurmurHash3\<close> of \<^verbatim>\<open>hash.cpp\<close> that they use: the filters of light clients, with the
  test for relevant transactions, and the rolling filter that remembers the latest items.

  The constructors compute the two sizes of a filter in floating point; here the sizes are arguments. An index is computed modulo the
  number of bits: \<open>None\<close> is the division by zero in a filter without bytes, and an access that \<open>Solver\<close> makes out of range.
\<close>

section \<open>The hash\<close>

definition ROTL32 :: "u32 \<Rightarrow> nat \<Rightarrow> u32" where
  "ROTL32 x r = push_bit r x OR drop_bit (32 - r) x"

definition murmur_mix :: "u32 \<Rightarrow> u32" where
  "murmur_mix k1 = ROTL32 (k1 * 0xcc9e2d51) 15 * 0x1b873593"

definition murmur_block :: "valtype \<Rightarrow> nat \<Rightarrow> u32 \<Rightarrow> u32" where
  "murmur_block v i h1 = ROTL32 (h1 XOR murmur_mix (ReadLE32 (drop (4 * i) v))) 13 * 5 + 0xe6546b64"

text \<open>The switch over the bytes behind the last block falls through.\<close>

definition murmur_tail :: "valtype \<Rightarrow> u32 \<Rightarrow> u32" where
  "murmur_tail tail h1 =
     (if tail = [] then h1
      else h1 XOR murmur_mix
        ((if length tail \<ge> 3 then push_bit 16 (ucast (tail ! 2)) else 0) XOR
         (if length tail \<ge> 2 then push_bit 8 (ucast (tail ! 1)) else 0) XOR ucast (tail ! 0)))"

definition murmur_final :: "u32 \<Rightarrow> u32" where
  "murmur_final h1 =
     (let h1 = h1 XOR drop_bit 16 h1; h1 = h1 * 0x85ebca6b; h1 = h1 XOR drop_bit 13 h1; h1 = h1 * 0xc2b2ae35
      in h1 XOR drop_bit 16 h1)"

definition MurmurHash3 :: "u32 \<Rightarrow> valtype \<Rightarrow> u32" where
  "MurmurHash3 nHashSeed v =
     (let nblocks = length v div 4;
          h1 = fold (murmur_block v) [0..<nblocks] nHashSeed;
          h1 = murmur_tail (drop (4 * nblocks) v) h1
      in murmur_final (h1 XOR word_of_nat (length v)))"

section \<open>Filters\<close>

definition MAX_BLOOM_FILTER_SIZE :: nat where "MAX_BLOOM_FILTER_SIZE = 36000"
definition MAX_HASH_FUNCS :: nat where "MAX_HASH_FUNCS = 50"

definition BLOOM_UPDATE_NONE :: byte where "BLOOM_UPDATE_NONE = 0"
definition BLOOM_UPDATE_ALL :: byte where "BLOOM_UPDATE_ALL = 1"
definition BLOOM_UPDATE_P2PUBKEY_ONLY :: byte where "BLOOM_UPDATE_P2PUBKEY_ONLY = 2"
definition BLOOM_UPDATE_MASK :: byte where "BLOOM_UPDATE_MASK = 3"

record CBloomFilter =
  vData :: "byte list"
  isFull :: bool
  isEmpty :: bool
  nHashFuncs :: u32
  nTweak :: u32
  nFlags :: byte

definition CBloomFilter_default :: CBloomFilter where
  "CBloomFilter_default = \<lparr>vData = [], isFull = True, isEmpty = False, nHashFuncs = 0, nTweak = 0, nFlags = 0\<rparr>"

text \<open>The public constructor, and the private one for the rolling filter, from the computed numbers of bytes and of functions.\<close>

definition CBloomFilter_new :: "nat \<Rightarrow> u32 \<Rightarrow> u32 \<Rightarrow> byte \<Rightarrow> CBloomFilter" where
  "CBloomFilter_new nBytes nFuncs nTweakIn nFlagsIn =
     \<lparr>vData = replicate nBytes 0, isFull = False, isEmpty = False, nHashFuncs = nFuncs, nTweak = nTweakIn, nFlags = nFlagsIn\<rparr>"

definition CBloomFilter_rolling :: "nat \<Rightarrow> u32 \<Rightarrow> u32 \<Rightarrow> CBloomFilter" where
  "CBloomFilter_rolling nBytes nFuncs nTweakIn =
     \<lparr>vData = replicate nBytes 0, isFull = False, isEmpty = True, nHashFuncs = nFuncs, nTweak = nTweakIn, nFlags = BLOOM_UPDATE_NONE\<rparr>"

definition bloom_Hash :: "CBloomFilter \<Rightarrow> nat \<Rightarrow> valtype \<Rightarrow> nat option" where
  "bloom_Hash f nHashNum data =
     (if vData f = [] then None
      else Some (unat (MurmurHash3 (word_of_nat nHashNum * 0xFBA4C795 + nTweak f) data) mod (length (vData f) * 8)))"

text \<open>One turn of the loops of \<^verbatim>\<open>insert\<close> and \<^verbatim>\<open>contains\<close>.\<close>

definition set_bit_at :: "nat \<Rightarrow> byte list \<Rightarrow> byte list" where
  "set_bit_at nIndex v = v[nIndex div 8 := v ! (nIndex div 8) OR push_bit (nIndex mod 8) 1]"

definition bit_at :: "nat \<Rightarrow> byte list \<Rightarrow> bool" where
  "bit_at nIndex v \<longleftrightarrow> v ! (nIndex div 8) AND push_bit (nIndex mod 8) 1 \<noteq> 0"

fun insert_bits :: "CBloomFilter \<Rightarrow> valtype \<Rightarrow> nat list \<Rightarrow> CBloomFilter option" where
  "insert_bits f vKey [] = Some f"
| "insert_bits f vKey (i # is) =
     (case bloom_Hash f i vKey of
        None \<Rightarrow> None
      | Some nIndex \<Rightarrow> insert_bits (f\<lparr>vData := set_bit_at nIndex (vData f)\<rparr>) vKey is)"

definition bloom_insert :: "CBloomFilter \<Rightarrow> valtype \<Rightarrow> CBloomFilter option" where
  "bloom_insert f vKey =
     (if isFull f then Some f
      else map_option (\<lambda>f. f\<lparr>isEmpty := False\<rparr>) (insert_bits f vKey [0..<unat (nHashFuncs f)]))"

fun contains_bits :: "CBloomFilter \<Rightarrow> valtype \<Rightarrow> nat list \<Rightarrow> bool option" where
  "contains_bits f vKey [] = Some True"
| "contains_bits f vKey (i # is) =
     (case bloom_Hash f i vKey of
        None \<Rightarrow> None
      | Some nIndex \<Rightarrow> if \<not> bit_at nIndex (vData f) then Some False else contains_bits f vKey is)"

definition bloom_contains :: "CBloomFilter \<Rightarrow> valtype \<Rightarrow> bool option" where
  "bloom_contains f vKey =
     (if isFull f then Some True
      else if isEmpty f then Some False
      else contains_bits f vKey [0..<unat (nHashFuncs f)])"

definition insert_outpoint :: "CBloomFilter \<Rightarrow> COutPoint \<Rightarrow> CBloomFilter option" where
  "insert_outpoint f p = bloom_insert f (Serialize_COutPoint p)"

definition contains_outpoint :: "CBloomFilter \<Rightarrow> COutPoint \<Rightarrow> bool option" where
  "contains_outpoint f p = bloom_contains f (Serialize_COutPoint p)"

text \<open>The overloads for \<^verbatim>\<open>uint256\<close> pass the bytes of the hash.\<close>

definition bloom_clear :: "CBloomFilter \<Rightarrow> CBloomFilter" where
  "bloom_clear f = f\<lparr>vData := replicate (length (vData f)) 0, isFull := False, isEmpty := True\<rparr>"

definition bloom_reset :: "u32 \<Rightarrow> CBloomFilter \<Rightarrow> CBloomFilter" where
  "bloom_reset nNewTweak f = (bloom_clear f)\<lparr>nTweak := nNewTweak\<rparr>"

definition IsWithinSizeConstraints :: "CBloomFilter \<Rightarrow> bool" where
  "IsWithinSizeConstraints f \<longleftrightarrow> length (vData f) \<le> MAX_BLOOM_FILTER_SIZE \<and> unat (nHashFuncs f) \<le> MAX_HASH_FUNCS"

definition UpdateEmptyFull :: "CBloomFilter \<Rightarrow> CBloomFilter" where
  "UpdateEmptyFull f = f\<lparr>isFull := list_all (\<lambda>b. b = 0xff) (vData f), isEmpty := list_all (\<lambda>b. b = 0) (vData f)\<rparr>"

definition Serialize_CBloomFilter :: "CBloomFilter \<Rightarrow> byte list" where
  "Serialize_CBloomFilter f =
     Serialize_bytes (vData f) @ ser_writedata32 (nHashFuncs f) @ ser_writedata32 (nTweak f) @ ser_writedata8 (nFlags f)"

text \<open>A filter is read into one that was made by the default constructor.\<close>

definition Unserialize_CBloomFilter :: "CBloomFilter reader" where
  "Unserialize_CBloomFilter =
     readThen Unserialize_bytes (\<lambda>v. readThen ser_readdata32 (\<lambda>n. readThen ser_readdata32 (\<lambda>t. readThen ser_readdata8 (\<lambda>fl.
       readReturn (CBloomFilter_default\<lparr>vData := v, nHashFuncs := n, nTweak := t, nFlags := fl\<rparr>)))))"

section \<open>Relevant transactions\<close>

text \<open>The loop over the data of a script, which ends at the first that is contained.\<close>

fun any_contained :: "CBloomFilter \<Rightarrow> valtype list \<Rightarrow> bool option" where
  "any_contained f [] = Some False"
| "any_contained f (data # ds) =
     (if data = [] then any_contained f ds
      else case bloom_contains f data of
             None \<Rightarrow> None
           | Some True \<Rightarrow> Some True
           | Some False \<Rightarrow> any_contained f ds)"

definition script_data :: "CScript \<Rightarrow> valtype list" where
  "script_data s = map snd (fst (script_ops s))"

text \<open>Whether a matched output is added to the filter.\<close>

definition adds_outpoint :: "CBloomFilter \<Rightarrow> CScript \<Rightarrow> bool option" where
  "adds_outpoint f s =
     (if nFlags f AND BLOOM_UPDATE_MASK = BLOOM_UPDATE_ALL then Some True
      else if nFlags f AND BLOOM_UPDATE_MASK = BLOOM_UPDATE_P2PUBKEY_ONLY
      then (case Solver s of
              Out_of_range \<Rightarrow> None
            | No \<Rightarrow> Some False
            | Yes (ok, t, _) \<Rightarrow> Some (ok \<and> (t = TX_PUBKEY \<or> t = TX_MULTISIG)))
      else Some False)"

fun match_outputs :: "uint256 \<Rightarrow> CTxOut list \<Rightarrow> nat \<Rightarrow> bool \<Rightarrow> CBloomFilter \<Rightarrow> (bool \<times> CBloomFilter) option" where
  "match_outputs h [] i fFound f = Some (fFound, f)"
| "match_outputs h (t # ts) i fFound f =
     (case any_contained f (script_data (scriptPubKey t)) of
        None \<Rightarrow> None
      | Some False \<Rightarrow> match_outputs h ts (i + 1) fFound f
      | Some True \<Rightarrow>
          (case adds_outpoint f (scriptPubKey t) of
             None \<Rightarrow> None
           | Some False \<Rightarrow> match_outputs h ts (i + 1) True f
           | Some True \<Rightarrow>
               (case insert_outpoint f \<lparr>outhash = h, outn = word_of_nat i\<rparr> of
                  None \<Rightarrow> None
                | Some f \<Rightarrow> match_outputs h ts (i + 1) True f)))"

fun match_inputs :: "CBloomFilter \<Rightarrow> CTxIn list \<Rightarrow> bool option" where
  "match_inputs f [] = Some False"
| "match_inputs f (i # is) =
     (case contains_outpoint f (prevout i) of
        None \<Rightarrow> None
      | Some True \<Rightarrow> Some True
      | Some False \<Rightarrow>
          (case any_contained f (script_data (scriptSig i)) of
             None \<Rightarrow> None
           | Some True \<Rightarrow> Some True
           | Some False \<Rightarrow> match_inputs f is))"

definition IsRelevantAndUpdate ::
    "(byte list \<Rightarrow> uint256) \<Rightarrow> CBloomFilter \<Rightarrow> CTransaction \<Rightarrow> (bool \<times> CBloomFilter) option" where
  "IsRelevantAndUpdate Hash f tx =
     (if isFull f then Some (True, f)
      else if isEmpty f then Some (False, f)
      else case bloom_contains f (GetHash Hash tx) of
             None \<Rightarrow> None
           | Some fFound \<Rightarrow>
               (case match_outputs (GetHash Hash tx) (vout tx) 0 fFound f of
                  None \<Rightarrow> None
                | Some (True, f) \<Rightarrow> Some (True, f)
                | Some (False, f) \<Rightarrow> map_option (\<lambda>b. (b, f)) (match_inputs f (vin tx))))"

section \<open>The rolling filter\<close>

record CRollingBloomFilter =
  nBloomSize :: u32
  nInsertions :: u32
  b1 :: CBloomFilter
  b2 :: CBloomFilter

definition rolling_reset :: "u32 \<Rightarrow> CRollingBloomFilter \<Rightarrow> CRollingBloomFilter" where
  "rolling_reset nNewTweak r = r\<lparr>b1 := bloom_reset nNewTweak (b1 r), b2 := bloom_reset nNewTweak (b2 r), nInsertions := 0\<rparr>"

text \<open>The random tweak is an argument.\<close>

definition CRollingBloomFilter_new :: "u32 \<Rightarrow> nat \<Rightarrow> u32 \<Rightarrow> u32 \<Rightarrow> CRollingBloomFilter" where
  "CRollingBloomFilter_new nElements nBytes nFuncs nNewTweak =
     rolling_reset nNewTweak
       \<lparr>nBloomSize = nElements * 2, nInsertions = 0,
        b1 = CBloomFilter_rolling nBytes nFuncs 0, b2 = CBloomFilter_rolling nBytes nFuncs 0\<rparr>"

definition rolling_insert :: "valtype \<Rightarrow> CRollingBloomFilter \<Rightarrow> CRollingBloomFilter option" where
  "rolling_insert vKey r =
     (let r = (if nInsertions r = 0 then r\<lparr>b1 := bloom_clear (b1 r)\<rparr>
               else if nInsertions r = nBloomSize r div 2 then r\<lparr>b2 := bloom_clear (b2 r)\<rparr> else r)
      in case (bloom_insert (b1 r) vKey, bloom_insert (b2 r) vKey) of
           (Some f1, Some f2) \<Rightarrow>
             (let n = nInsertions r + 1
              in Some (r\<lparr>b1 := f1, b2 := f2, nInsertions := (if n = nBloomSize r then 0 else n)\<rparr>))
         | _ \<Rightarrow> None)"

definition rolling_contains :: "valtype \<Rightarrow> CRollingBloomFilter \<Rightarrow> bool option" where
  "rolling_contains vKey r = (if nInsertions r < nBloomSize r div 2 then bloom_contains (b2 r) vKey else bloom_contains (b1 r) vKey)"

primrec rolling_inserts :: "valtype list \<Rightarrow> CRollingBloomFilter \<Rightarrow> CRollingBloomFilter option" where
  "rolling_inserts [] r = Some r"
| "rolling_inserts (k # ks) r = (case rolling_insert k r of None \<Rightarrow> None | Some r \<Rightarrow> rolling_inserts ks r)"

section \<open>Bits\<close>

lemma bit_at_set_bit_at:
  assumes "i < 8 * length v"
  shows "bit_at j (set_bit_at i v) \<longleftrightarrow> j = i \<or> bit_at j v"
proof (cases "j div 8 = i div 8")
  case True
  have l: "i div 8 < length v" using assms by (simp add: div_less_iff_less_mult mult.commute)
  have "bit (push_bit (i mod 8) 1 :: byte) (j mod 8) \<longleftrightarrow> i mod 8 = j mod 8"
    by (auto simp: bit_exp_iff)
  moreover have "i mod 8 = j mod 8 \<longleftrightarrow> j = i" using True by (metis mult_div_mod_eq)
  ultimately show ?thesis using True l
    by (simp add: bit_at_def set_bit_at_def and_exp_eq_0_iff_not_bit bit_or_iff disj_commute)
next
  case False
  then have "j \<noteq> i" by blast
  then show ?thesis using False by (simp add: bit_at_def set_bit_at_def)
qed

lemma length_set_bit_at [simp]: "length (set_bit_at i v) = length v"
  by (simp add: set_bit_at_def)

lemma bloom_Hash_less: "bloom_Hash f i k = Some n \<Longrightarrow> n < 8 * length (vData f)"
  by (auto simp: bloom_Hash_def mult.commute split: if_split_asm)

lemma bloom_Hash_data: "length v = length (vData f) \<Longrightarrow> bloom_Hash (f\<lparr>vData := v\<rparr>) i k = bloom_Hash f i k"
  by (auto simp: bloom_Hash_def)

text \<open>Nothing is lost from one filter to the other.\<close>

definition grows :: "CBloomFilter \<Rightarrow> CBloomFilter \<Rightarrow> bool" where
  "grows f g \<longleftrightarrow> isFull g = isFull f \<and> nHashFuncs g = nHashFuncs f \<and> nTweak g = nTweak f \<and> nFlags g = nFlags f \<and>
     length (vData g) = length (vData f) \<and> (isEmpty g \<longrightarrow> isEmpty f) \<and> (\<forall>j. bit_at j (vData f) \<longrightarrow> bit_at j (vData g))"

lemma grows_refl [simp]: "grows f f"
  by (simp add: grows_def)

lemma grows_trans: "grows f g \<Longrightarrow> grows g h \<Longrightarrow> grows f h"
  by (auto simp: grows_def)

lemma grows_Hash: "grows f g \<Longrightarrow> bloom_Hash g i k = bloom_Hash f i k"
  by (auto simp: grows_def bloom_Hash_def)

lemma insert_bits_grows:
  "insert_bits f k is = Some g \<Longrightarrow>
   grows f g \<and> isEmpty g = isEmpty f \<and> (\<forall>i\<in>set is. \<exists>n. bloom_Hash g i k = Some n \<and> bit_at n (vData g))"
proof (induction "is" arbitrary: f)
  case (Cons i "is")
  then obtain n where n: "bloom_Hash f i k = Some n" "insert_bits (f\<lparr>vData := set_bit_at n (vData f)\<rparr>) k is = Some g"
    by (auto split: option.splits)
  let ?f = "f\<lparr>vData := set_bit_at n (vData f)\<rparr>"
  note bits = bit_at_set_bit_at[OF bloom_Hash_less[OF n(1)]]
  have f: "grows f ?f" "bit_at n (vData ?f)" using bits by (auto simp: grows_def)
  note IH = Cons.IH[OF n(2)]
  have "bit_at n (vData g)" using IH f(2) by (auto simp: grows_def)
  moreover have "bloom_Hash g i k = Some n" using IH f(1) n(1) grows_Hash by metis
  ultimately show ?case using IH f(1) grows_trans by auto
qed simp

lemma insert_bits_total: "vData f \<noteq> [] \<Longrightarrow> \<exists>g. insert_bits f k is = Some g"
proof (induction "is" arbitrary: f)
  case (Cons i "is")
  then obtain n where "bloom_Hash f i k = Some n" by (simp add: bloom_Hash_def)
  moreover have "vData (f\<lparr>vData := set_bit_at n (vData f)\<rparr>) \<noteq> []" using Cons.prems by (simp add: set_bit_at_def)
  ultimately show ?case using Cons.IH by auto
qed simp

lemma contains_bits_iff:
  "contains_bits f k is = Some True \<longleftrightarrow> (\<forall>i\<in>set is. \<exists>n. bloom_Hash f i k = Some n \<and> bit_at n (vData f))"
  by (induction "is") (auto split: option.splits)

lemma contains_bits_total: "vData f \<noteq> [] \<Longrightarrow> \<exists>b. contains_bits f k is = Some b"
  by (induction "is") (auto simp: bloom_Hash_def)

section \<open>No false negatives\<close>

lemma bloom_contains_total: "vData f \<noteq> [] \<Longrightarrow> \<exists>b. bloom_contains f k = Some b"
  using contains_bits_total[of f k] by (auto simp: bloom_contains_def)

lemma bloom_insert_total: "vData f \<noteq> [] \<Longrightarrow> \<exists>g. bloom_insert f k = Some g"
  using insert_bits_total[of f k] by (auto simp: bloom_insert_def)

lemma bloom_insert_contains:
  assumes "bloom_insert f k = Some g"
  shows "grows f g \<and> bloom_contains g k = Some True"
proof (cases "isFull f")
  case True
  then show ?thesis using assms by (simp add: bloom_insert_def bloom_contains_def)
next
  case False
  then obtain h where h: "insert_bits f k [0..<unat (nHashFuncs f)] = Some h" "g = h\<lparr>isEmpty := False\<rparr>"
    using assms by (auto simp: bloom_insert_def)
  note I = insert_bits_grows[OF h(1)]
  have hash: "bloom_Hash g i x = bloom_Hash h i x" for i x by (simp add: h(2) bloom_Hash_def)
  have "grows f g" using I by (auto simp: grows_def h(2))
  moreover have "contains_bits g k [0..<unat (nHashFuncs g)] = Some True"
    unfolding contains_bits_iff hash using I by (auto simp: h(2) grows_def)
  then have "bloom_contains g k = Some True" by (simp add: bloom_contains_def h(2))
  ultimately show ?thesis by blast
qed

lemma bloom_contains_grows:
  assumes "grows f g" "bloom_contains f k = Some True"
  shows "bloom_contains g k = Some True"
proof (cases "isFull f")
  case True
  then show ?thesis using assms(1) by (simp add: bloom_contains_def grows_def)
next
  case False
  then have e: "\<not> isEmpty f" "contains_bits f k [0..<unat (nHashFuncs f)] = Some True"
    using assms(2) by (auto simp: bloom_contains_def split: if_split_asm)
  then have "contains_bits g k [0..<unat (nHashFuncs g)] = Some True"
    using assms(1) unfolding contains_bits_iff grows_Hash[OF assms(1)] by (fastforce simp: grows_def)
  then show ?thesis using e(1) assms(1) False by (auto simp: bloom_contains_def grows_def)
qed

text \<open>After \<^verbatim>\<open>UpdateEmptyFull\<close> no operation divides by zero, whatever filter was received.\<close>

lemma received_filter_total:
  "\<exists>b g. bloom_contains (UpdateEmptyFull f) k = Some b \<and> bloom_insert (UpdateEmptyFull f) k = Some g"
proof (cases "vData f = []")
  case True
  then show ?thesis by (auto simp: UpdateEmptyFull_def bloom_contains_def bloom_insert_def)
next
  case False
  then have "vData (UpdateEmptyFull f) \<noteq> []" by (simp add: UpdateEmptyFull_def)
  then show ?thesis using bloom_contains_total bloom_insert_total by blast
qed

interpretation bloom: strict_codec Serialize_CBloomFilter Unserialize_CBloomFilter
  "\<lambda>f. length (vData f) \<le> MAX_SIZE \<and> isFull f \<and> \<not> isEmpty f"
proof unfold_locales
  show "Unserialize_CBloomFilter (Serialize_CBloomFilter f @ r) = Inr (f, r)" if "length (vData f) \<le> MAX_SIZE \<and> isFull f \<and> \<not> isEmpty f" for f r
    using that
    by (simp add: Unserialize_CBloomFilter_def Serialize_CBloomFilter_def run_read vbytes.read_back u32.read_back
        ser_readdata_iff[THEN iffD2, OF refl] CBloomFilter_default_def)
qed (auto simp: Unserialize_CBloomFilter_def Serialize_CBloomFilter_def readThen_Inr_iff vbytes.unser_iff u32.unser_iff
        ser_readdata_iff CBloomFilter_default_def)

section \<open>Relevance\<close>

lemma any_contained_total: "vData f \<noteq> [] \<Longrightarrow> \<exists>b. any_contained f ds = Some b"
proof (induction ds)
  case (Cons d ds)
  then obtain b where "any_contained f ds = Some b" by blast
  moreover obtain c where "bloom_contains f d = Some c" using bloom_contains_total Cons.prems by blast
  ultimately show ?case by (cases c) auto
qed auto

lemma any_contained_True:
  "vData f \<noteq> [] \<Longrightarrow> d \<in> set ds \<Longrightarrow> d \<noteq> [] \<Longrightarrow> bloom_contains f d = Some True \<Longrightarrow> any_contained f ds = Some True"
proof (induction ds)
  case (Cons a ds)
  obtain b where "bloom_contains f a = Some b" using bloom_contains_total Cons.prems(1) by blast
  then show ?case using Cons by (cases b) auto
qed simp

definition has_data :: "CBloomFilter \<Rightarrow> CScript \<Rightarrow> bool" where
  "has_data f s \<longleftrightarrow> (\<exists>d\<in>set (script_data s). d \<noteq> [] \<and> bloom_contains f d = Some True)"

lemma has_data_grows: "grows f g \<Longrightarrow> has_data f s \<Longrightarrow> has_data g s"
  using bloom_contains_grows by (auto simp: has_data_def)

lemma grows_vData: "grows f g \<Longrightarrow> vData f \<noteq> [] \<Longrightarrow> vData g \<noteq> []"
  by (auto simp: grows_def)

lemma match_outputs_result:
  assumes "vData f \<noteq> []" "nFlags f AND BLOOM_UPDATE_MASK = BLOOM_UPDATE_ALL"
  shows "\<exists>b g. match_outputs h ts i fFound f = Some (b, g) \<and> grows f g \<and> (fFound \<longrightarrow> b) \<and>
    (\<forall>j<length ts. has_data f (scriptPubKey (ts ! j)) \<longrightarrow>
       b \<and> contains_outpoint g \<lparr>outhash = h, outn = word_of_nat (i + j)\<rparr> = Some True)"
  using assms
proof (induction ts arbitrary: i fFound f)
  case (Cons t ts)
  obtain c where c: "any_contained f (script_data (scriptPubKey t)) = Some c" using any_contained_total Cons.prems(1) by blast
  show ?case
  proof (cases c)
    case False
    then have "\<not> has_data f (scriptPubKey t)" using any_contained_True[OF Cons.prems(1)] c by (auto simp: has_data_def)
    moreover obtain b g where "match_outputs h ts (i + 1) fFound f = Some (b, g)" "grows f g" "fFound \<longrightarrow> b"
      "\<forall>j<length ts. has_data f (scriptPubKey (ts ! j)) \<longrightarrow>
         b \<and> contains_outpoint g \<lparr>outhash = h, outn = word_of_nat (i + 1 + j)\<rparr> = Some True"
      using Cons.IH[OF Cons.prems] by blast
    ultimately show ?thesis using c False by (auto simp: less_Suc_eq_0_disj add_ac)
  next
    case True
    let ?p = "\<lparr>outhash = h, outn = word_of_nat i\<rparr>"
    obtain f1 where f1: "insert_outpoint f ?p = Some f1"
      using bloom_insert_total Cons.prems(1) unfolding insert_outpoint_def by blast
    then have ins: "grows f f1" "contains_outpoint f1 ?p = Some True"
      using bloom_insert_contains unfolding insert_outpoint_def contains_outpoint_def by blast+
    have fl: "nFlags f1 AND BLOOM_UPDATE_MASK = BLOOM_UPDATE_ALL" using ins(1) Cons.prems(2) by (simp add: grows_def)
    obtain b g where g: "match_outputs h ts (i + 1) True f1 = Some (b, g)" "grows f1 g" "True \<longrightarrow> b"
      "\<forall>j<length ts. has_data f1 (scriptPubKey (ts ! j)) \<longrightarrow>
         b \<and> contains_outpoint g \<lparr>outhash = h, outn = word_of_nat (i + 1 + j)\<rparr> = Some True"
      using Cons.IH[OF grows_vData[OF ins(1) Cons.prems(1)] fl] by blast
    have at: "contains_outpoint g ?p = Some True" using bloom_contains_grows[OF g(2)] ins(2) by (simp add: contains_outpoint_def)
    have "match_outputs h (t # ts) i fFound f = Some (b, g)"
      using c True f1 g(1) Cons.prems(2) by (simp add: adds_outpoint_def)
    moreover have "b \<and> contains_outpoint g \<lparr>outhash = h, outn = word_of_nat (i + j)\<rparr> = Some True"
      if "j < length (t # ts)" "has_data f (scriptPubKey ((t # ts) ! j))" for j
    proof (cases j)
      case 0
      then show ?thesis using at g(3) by simp
    next
      case (Suc m)
      then have "m < length ts" "has_data f1 (scriptPubKey (ts ! m))" using that has_data_grows[OF ins(1)] by auto
      then have "contains_outpoint g \<lparr>outhash = h, outn = word_of_nat (i + 1 + m)\<rparr> = Some True" using g(4) by blast
      moreover have "i + 1 + m = i + j" using Suc by simp
      ultimately show ?thesis using g(3) by metis
    qed
    ultimately show ?thesis using g(3) grows_trans[OF ins(1) g(2)] by blast
  qed
qed simp

lemma match_inputs_result:
  assumes "vData f \<noteq> []"
  shows "\<exists>b. match_inputs f is = Some b \<and> (\<forall>i\<in>set is. contains_outpoint f (prevout i) = Some True \<longrightarrow> b)"
proof (induction "is")
  case (Cons i "is")
  obtain b where b: "contains_outpoint f (prevout i) = Some b"
    using bloom_contains_total[OF assms] unfolding contains_outpoint_def by blast
  obtain c where c: "any_contained f (script_data (scriptSig i)) = Some c" using any_contained_total[OF assms] by blast
  show ?case using Cons b c by (cases b; cases c) auto
qed auto

lemma relevant_result:
  assumes "vData f \<noteq> []" "nFlags f AND BLOOM_UPDATE_MASK = BLOOM_UPDATE_ALL" "bloom_contains f x = Some True"
  shows "\<exists>b g. IsRelevantAndUpdate Hash f tx = Some (b, g) \<and> grows f g \<and>
    (\<forall>j<length (vout tx). has_data f (scriptPubKey (vout tx ! j)) \<longrightarrow>
       b \<and> contains_outpoint g \<lparr>outhash = GetHash Hash tx, outn = word_of_nat j\<rparr> = Some True) \<and>
    (\<forall>i\<in>set (vin tx). contains_outpoint f (prevout i) = Some True \<longrightarrow> b)"
proof (cases "isFull f")
  case True
  then show ?thesis by (auto simp: IsRelevantAndUpdate_def contains_outpoint_def bloom_contains_def)
next
  case False
  then have ne: "\<not> isEmpty f" using assms(3) by (auto simp: bloom_contains_def)
  obtain c where c: "bloom_contains f (GetHash Hash tx) = Some c" using bloom_contains_total[OF assms(1)] by blast
  obtain b g where g: "match_outputs (GetHash Hash tx) (vout tx) 0 c f = Some (b, g)" "grows f g"
    "\<forall>j<length (vout tx). has_data f (scriptPubKey (vout tx ! j)) \<longrightarrow>
       b \<and> contains_outpoint g \<lparr>outhash = GetHash Hash tx, outn = word_of_nat (0 + j)\<rparr> = Some True"
    using match_outputs_result[OF assms(1,2)] by blast
  obtain d where d: "match_inputs g (vin tx) = Some d" "\<forall>i\<in>set (vin tx). contains_outpoint g (prevout i) = Some True \<longrightarrow> d"
    using match_inputs_result[OF grows_vData[OF g(2) assms(1)]] by blast
  have r: "IsRelevantAndUpdate Hash f tx = Some (b \<or> d, g)"
    using False ne c g(1) d(1) by (cases b) (simp_all add: IsRelevantAndUpdate_def)
  have "contains_outpoint f (prevout i) = Some True \<Longrightarrow> contains_outpoint g (prevout i) = Some True" for i
    using bloom_contains_grows[OF g(2)] by (simp add: contains_outpoint_def)
  then show ?thesis using r g(2,3) d(2) by auto
qed

section \<open>The rolling filter: lemmas\<close>

text \<open>The filter contains the last \<open>c\<close> keys.\<close>

definition covers :: "CBloomFilter \<Rightarrow> valtype list \<Rightarrow> nat \<Rightarrow> bool" where
  "covers f ks c \<longleftrightarrow> (\<forall>k\<in>set (drop (length ks - c) ks). bloom_contains f k = Some True)"

lemma covers_0 [simp]: "covers f ks 0"
  by (simp add: covers_def)

lemma covers_le: "covers f ks c \<Longrightarrow> d \<le> c \<Longrightarrow> covers f ks d"
  unfolding covers_def using set_drop_subset_set_drop[OF diff_le_mono2[of d c "length ks"], of ks] by blast

lemma covers_insert:
  assumes "covers f ks c" "bloom_insert f k = Some g"
  shows "covers g (ks @ [k]) (Suc c)"
  using assms bloom_insert_contains[OF assms(2)] bloom_contains_grows by (auto simp: covers_def)

definition rolling_ok :: "nat \<Rightarrow> valtype list \<Rightarrow> CRollingBloomFilter \<Rightarrow> bool" where
  "rolling_ok N ks r \<longleftrightarrow> 0 < N \<and> unat (nBloomSize r) = 2 * N \<and> unat (nInsertions r) < 2 * N \<and>
     vData (b1 r) \<noteq> [] \<and> vData (b2 r) \<noteq> [] \<and>
     (let n = unat (nInsertions r) in
        covers (b1 r) ks (if n = 0 then 2 * N else n) \<and> covers (b2 r) ks (if n \<le> N then n + N else n - N))"

lemma rolling_insert_ok:
  assumes "rolling_ok N ks r"
  shows "\<exists>r'. rolling_insert k r = Some r' \<and> rolling_ok N (ks @ [k]) r'"
proof -
  let ?n = "unat (nInsertions r)"
  let ?f1 = "if ?n = 0 then bloom_clear (b1 r) else b1 r" and ?f2 = "if ?n = N then bloom_clear (b2 r) else b2 r"
  have N: "0 < N" "unat (nBloomSize r) = 2 * N" "?n < 2 * N" and ne: "vData (b1 r) \<noteq> []" "vData (b2 r) \<noteq> []"
    using assms by (auto simp: rolling_ok_def)
  have half: "nInsertions r = nBloomSize r div 2 \<longleftrightarrow> ?n = N" using N(2) by (simp add: word_unat_eq_iff unat_div)
  have zero: "nInsertions r = 0 \<longleftrightarrow> ?n = 0" by (simp add: unat_eq_zero)
  have ne1: "vData ?f1 \<noteq> []" and ne2: "vData ?f2 \<noteq> []" using ne by (simp_all add: bloom_clear_def)
  obtain g1 g2 where g: "bloom_insert ?f1 k = Some g1" "bloom_insert ?f2 k = Some g2"
    using bloom_insert_total[OF ne1] bloom_insert_total[OF ne2] by blast
  have big: "2 * N < 2 ^ 32" using unat_lt_pow[of "nBloomSize r"] N(2) by simp
  then have n1: "unat (nInsertions r + 1) = ?n + 1" using N(3) unat_add_lem[of "nInsertions r" 1] by simp
  have wrap: "nInsertions r + 1 = nBloomSize r \<longleftrightarrow> ?n + 1 = 2 * N" using n1 N(2) by (simp add: word_unat_eq_iff)
  let ?r = "r\<lparr>b1 := g1, b2 := g2, nInsertions := if nInsertions r + 1 = nBloomSize r then 0 else nInsertions r + 1\<rparr>"
  have r: "rolling_insert k r = Some ?r"
    using g N(1) by (auto simp: rolling_insert_def Let_def half zero)
  have cov: "covers ?f1 ks (if ?n = 0 then 0 else ?n)" "covers ?f2 ks (if ?n = N then 0 else if ?n < N then ?n + N else ?n - N)"
    using assms by (auto simp: rolling_ok_def Let_def split: if_split_asm)
  have c: "covers g1 (ks @ [k]) (Suc ?n)" using covers_insert[OF cov(1) g(1)] by simp
  note c = c covers_insert[OF cov(2) g(2)]
  have n': "unat (nInsertions ?r) = (if ?n + 1 = 2 * N then 0 else ?n + 1)" using wrap n1 by simp
  have "covers g1 (ks @ [k]) (if unat (nInsertions ?r) = 0 then 2 * N else unat (nInsertions ?r))"
    unfolding n' using c(1) by (auto intro: covers_le)
  moreover have "covers g2 (ks @ [k])
      (if unat (nInsertions ?r) \<le> N then unat (nInsertions ?r) + N else unat (nInsertions ?r) - N)"
    unfolding n' using N(1,3) by (intro covers_le[OF c(2)]) auto
  moreover have "vData g1 \<noteq> []" "vData g2 \<noteq> []"
    using bloom_insert_contains[OF g(1)] bloom_insert_contains[OF g(2)] grows_vData ne1 ne2 by blast+
  ultimately have "rolling_ok N (ks @ [k]) ?r"
    unfolding rolling_ok_def Let_def using N n' by simp
  then show ?thesis using r by blast
qed

lemma rolling_inserts_ok:
  "rolling_ok N ks r \<Longrightarrow> \<exists>r'. rolling_inserts ks' r = Some r' \<and> rolling_ok N (ks @ ks') r'"
proof (induction ks' arbitrary: ks r)
  case (Cons k ks')
  obtain r1 where "rolling_insert k r = Some r1" "rolling_ok N (ks @ [k]) r1" using rolling_insert_ok[OF Cons.prems] by blast
  then show ?case using Cons.IH[of "ks @ [k]" r1] by simp
qed simp

lemma rolling_ok_contains:
  assumes "rolling_ok N ks r" "k \<in> set (drop (length ks - N) ks)"
  shows "rolling_contains k r = Some True"
proof -
  have half: "nInsertions r < nBloomSize r div 2 \<longleftrightarrow> unat (nInsertions r) < N"
    using assms(1) by (simp add: rolling_ok_def word_less_nat_alt unat_div)
  have "covers (if unat (nInsertions r) < N then b2 r else b1 r) ks N"
    using assms(1) by (auto simp: rolling_ok_def Let_def intro: covers_le split: if_split_asm)
  then show ?thesis using assms(2) half by (auto simp: covers_def rolling_contains_def split: if_split_asm)
qed

lemma rolling_new_ok:
  assumes "0 < nElements" "unat nElements < 2 ^ 31" "0 < nBytes"
  shows "rolling_ok (unat nElements) [] (CRollingBloomFilter_new nElements nBytes nFuncs nNewTweak)"
proof -
  have "unat (nElements * 2) = unat nElements * 2" using assms(2) unat_mult_lem[of nElements 2] by simp
  then show ?thesis
    using assms(1,3) by (simp add: rolling_ok_def CRollingBloomFilter_new_def rolling_reset_def bloom_reset_def bloom_clear_def
        CBloomFilter_rolling_def covers_def word_less_nat_alt)
qed

section \<open>Properties\<close>

text \<open>C7: a light client sees the payments to it and their spending. When a filter with the flag to update contains some data that an output of a
  transaction pushes, the transaction is relevant, and the updated filter also makes every transaction relevant
  that spends that output.\<close>

theorem payment_and_spend_relevant:
  assumes "vData f \<noteq> []" "nFlags f AND BLOOM_UPDATE_MASK = BLOOM_UPDATE_ALL"
    and "j < length (vout tx)" "d \<in> set (script_data (scriptPubKey (vout tx ! j)))" "d \<noteq> []" "bloom_contains f d = Some True"
    and "i \<in> set (vin tx')" "prevout i = \<lparr>outhash = GetHash Hash tx, outn = word_of_nat j\<rparr>"
  shows "\<exists>g h. IsRelevantAndUpdate Hash f tx = Some (True, g) \<and> IsRelevantAndUpdate Hash g tx' = Some (True, h)"
proof -
  have "has_data f (scriptPubKey (vout tx ! j))" using assms(4-6) by (auto simp: has_data_def)
  then obtain g where g: "IsRelevantAndUpdate Hash f tx = Some (True, g)" "grows f g" "contains_outpoint g (prevout i) = Some True"
    using relevant_result[OF assms(1,2,6), of Hash tx] assms(3,8) by auto
  have "nFlags g AND BLOOM_UPDATE_MASK = BLOOM_UPDATE_ALL" using g(2) assms(2) by (simp add: grows_def)
  then obtain h where "IsRelevantAndUpdate Hash g tx' = Some (True, h)"
    using relevant_result[OF grows_vData[OF g(2) assms(1)] _ bloom_contains_grows[OF g(2) assms(6)], of Hash tx'] g(3) assms(7) by auto
  then show ?thesis using g(1) by blast
qed

definition demo_payment :: CTransaction where
  "demo_payment = \<lparr>nVersion = 1, vin = [], vout = [\<lparr>nValue = 5, scriptPubKey = script_for_key (replicate 20 1)\<rparr>], nLockTime = 0\<rparr>"

definition demo_spend :: "(byte list \<Rightarrow> uint256) \<Rightarrow> CTransaction" where
  "demo_spend Hash = \<lparr>nVersion = 1, vin = [\<lparr>prevout = \<lparr>outhash = GetHash Hash demo_payment, outn = 0\<rparr>, scriptSig = [], nSequence = 0\<rparr>],
     vout = [], nLockTime = 0\<rparr>"

theorem payment_and_spend_relevant_witness:
  "\<exists>f g h. bloom_insert (CBloomFilter_new 8 3 7 BLOOM_UPDATE_ALL) (replicate 20 1) = Some f \<and>
     IsRelevantAndUpdate id f demo_payment = Some (True, g) \<and> IsRelevantAndUpdate id g (demo_spend id) = Some (True, h)"
proof -
  let ?f0 = "CBloomFilter_new 8 3 7 BLOOM_UPDATE_ALL" and ?d = "replicate 20 1 :: byte list"
  have ne: "vData ?f0 \<noteq> []" "nFlags ?f0 AND BLOOM_UPDATE_MASK = BLOOM_UPDATE_ALL"
    by (simp_all add: CBloomFilter_new_def BLOOM_UPDATE_MASK_def BLOOM_UPDATE_ALL_def)
  obtain f where f: "bloom_insert ?f0 ?d = Some f" using bloom_insert_total[OF ne(1)] by blast
  then have g: "grows ?f0 f" "bloom_contains f ?d = Some True" using bloom_insert_contains by blast+
  have "?d \<in> set (script_data (script_for_key ?d))"
    using script_ops_for_key[of ?d] by (auto simp: script_data_def)
  then have "\<exists>g h. IsRelevantAndUpdate id f demo_payment = Some (True, g) \<and> IsRelevantAndUpdate id g (demo_spend id) = Some (True, h)"
    using payment_and_spend_relevant[of f 0 demo_payment ?d "vin (demo_spend id) ! 0" "demo_spend id" id] grows_vData[OF g(1) ne(1)] g ne(2)
    by (simp add: demo_payment_def demo_spend_def grows_def)
  then show ?thesis using f by blast
qed

text \<open>C8: the rolling filter remembers, as its comment promises: after any sequence of insertions into a filter for \<open>n\<close> elements, each of the last \<open>n\<close>
  of them is contained.\<close>

theorem rolling_keeps_last:
  assumes "0 < nElements" "unat nElements < 2 ^ 31" "0 < nBytes"
  shows "\<exists>r. rolling_inserts ks (CRollingBloomFilter_new nElements nBytes nFuncs nNewTweak) = Some r \<and>
    (\<forall>k\<in>set (drop (length ks - unat nElements) ks). rolling_contains k r = Some True)"
proof -
  obtain r where "rolling_inserts ks (CRollingBloomFilter_new nElements nBytes nFuncs nNewTweak) = Some r"
    "rolling_ok (unat nElements) ks r"
    using rolling_inserts_ok[OF rolling_new_ok[OF assms], of ks nFuncs nNewTweak] by auto
  then show ?thesis using rolling_ok_contains by blast
qed

theorem rolling_keeps_last_witness:
  "\<exists>r. rolling_inserts [[1], [2], [3]] (CRollingBloomFilter_new 2 8 3 7) = Some r \<and>
     rolling_contains [2] r = Some True \<and> rolling_contains [3] r = Some True"
  using rolling_keeps_last[of 2 8 "[[1], [2], [3]]" 3 7] by auto

end
