(* ===== verification/PartialMerkle.thy ===== *)
theory PartialMerkle
  imports Block Bloom
begin

text \<open>
  Proofs that transactions are in a block, \<^verbatim>\<open>merkleblock.h\<close> and \<^verbatim>\<open>merkleblock.cpp\<close>: the partial merkle tree, which holds a bit for every node visited and the
  hashes of those below which nothing matches, its encoding, and the block header with such a tree that light clients get.

  The number of transactions is a 32-bit word and so is the width of a level; heights and positions are natural numbers. \<open>None\<close> is a shift by
  32 or more, which would need more than \<open>2 ^ 31\<close> transactions, or a mask shorter than the list of transactions.
\<close>

section \<open>Headers\<close>

definition Unserialize_CBlockHeader :: "CBlockHeader reader" where
  "Unserialize_CBlockHeader =
     readThen unser_int32 (\<lambda>v. readThen (read_bytes 32) (\<lambda>p. readThen (read_bytes 32) (\<lambda>m.
     readThen ser_readdata32 (\<lambda>t. readThen ser_readdata32 (\<lambda>b. readThen ser_readdata32 (\<lambda>n.
     readReturn \<lparr>CBlockHeader.nVersion = v, hashPrevBlock = p, hashMerkleRoot = m, nTime = t, nBits = b, nNonce = n\<rparr>))))))"

definition header_ok :: "CBlockHeader \<Rightarrow> bool" where
  "header_ok h \<longleftrightarrow> int32_ok (CBlockHeader.nVersion h) \<and> length (hashPrevBlock h) = 32 \<and> length (hashMerkleRoot h) = 32"

section \<open>The partial tree\<close>

record CPartialMerkleTree =
  nTransactions :: u32
  vBits :: "bool list"
  vHash :: "uint256 list"
  fBad :: bool

definition CPartialMerkleTree_default :: CPartialMerkleTree where
  "CPartialMerkleTree_default = \<lparr>nTransactions = 0, vBits = [], vHash = [], fBad = True\<rparr>"

definition CalcTreeWidth :: "u32 \<Rightarrow> nat \<Rightarrow> u32" where
  "CalcTreeWidth n height = drop_bit height (n + push_bit height 1 - 1)"

text \<open>The loop that finds the height of the tree.\<close>

function calc_height :: "u32 \<Rightarrow> nat \<Rightarrow> nat option" where
  "calc_height n height =
     (if height \<ge> 32 then None else if CalcTreeWidth n height > 1 then calc_height n (Suc height) else Some height)"
  by pat_completeness auto
termination
  by (relation "measure (\<lambda>(n, h). 32 - h)") auto

declare calc_height.simps [simp del]

fun CalcHash :: "(byte list \<Rightarrow> uint256) \<Rightarrow> u32 \<Rightarrow> nat \<Rightarrow> nat \<Rightarrow> uint256 list \<Rightarrow> uint256" where
  "CalcHash Hash n 0 pos vTxid = vTxid ! pos"
| "CalcHash Hash n (Suc height) pos vTxid =
     (let left = CalcHash Hash n height (pos * 2) vTxid;
          right = (if pos * 2 + 1 < unat (CalcTreeWidth n height) then CalcHash Hash n height (pos * 2 + 1) vTxid else left)
      in Hash (left @ right))"

definition parent_of_match :: "u32 \<Rightarrow> nat \<Rightarrow> nat \<Rightarrow> bool list \<Rightarrow> bool" where
  "parent_of_match n height pos vMatch \<longleftrightarrow>
     list_ex (\<lambda>p. vMatch ! p) [pos * 2 ^ height..<min ((pos + 1) * 2 ^ height) (unat n)]"

text \<open>The bits and hashes written so far are threaded through.\<close>

fun TraverseAndBuild ::
    "(byte list \<Rightarrow> uint256) \<Rightarrow> u32 \<Rightarrow> uint256 list \<Rightarrow> bool list \<Rightarrow> nat \<Rightarrow> nat \<Rightarrow> bool list \<times> uint256 list \<Rightarrow> bool list \<times> uint256 list" where
  "TraverseAndBuild Hash n vTxid vMatch 0 pos (vb, vh) =
     (vb @ [parent_of_match n 0 pos vMatch], vh @ [CalcHash Hash n 0 pos vTxid])"
| "TraverseAndBuild Hash n vTxid vMatch (Suc height) pos (vb, vh) =
     (let fParentOfMatch = parent_of_match n (Suc height) pos vMatch; vb = vb @ [fParentOfMatch] in
      if \<not> fParentOfMatch then (vb, vh @ [CalcHash Hash n (Suc height) pos vTxid])
      else let s = TraverseAndBuild Hash n vTxid vMatch height (pos * 2) (vb, vh) in
           if pos * 2 + 1 < unat (CalcTreeWidth n height)
           then TraverseAndBuild Hash n vTxid vMatch height (pos * 2 + 1) s else s)"

definition CPartialMerkleTree_of :: "(byte list \<Rightarrow> uint256) \<Rightarrow> uint256 list \<Rightarrow> bool list \<Rightarrow> CPartialMerkleTree option" where
  "CPartialMerkleTree_of Hash vTxid vMatch =
     (let n = word_of_nat (length vTxid) in
      if length vMatch < unat n then None
      else map_option (\<lambda>height. case TraverseAndBuild Hash n vTxid vMatch height 0 ([], []) of
             (vb, vh) \<Rightarrow> \<lparr>nTransactions = n, vBits = vb, vHash = vh, fBad = False\<rparr>) (calc_height n 0))"

text \<open>What the extraction changes: the bits and hashes used, the matches, and the flag.\<close>

record extraction =
  nBitsUsed :: nat
  nHashUsed :: nat
  xMatch :: "uint256 list"
  xBad :: bool

function TraverseAndExtract ::
    "(byte list \<Rightarrow> uint256) \<Rightarrow> CPartialMerkleTree \<Rightarrow> nat \<Rightarrow> nat \<Rightarrow> extraction \<Rightarrow> uint256 \<times> extraction" where
  "TraverseAndExtract Hash t height pos e =
     (if nBitsUsed e \<ge> length (vBits t) then (blob_null 32, e\<lparr>xBad := True\<rparr>)
      else
        let fParentOfMatch = vBits t ! nBitsUsed e; e = e\<lparr>nBitsUsed := nBitsUsed e + 1\<rparr> in
        if height = 0 \<or> \<not> fParentOfMatch then
          (if nHashUsed e \<ge> length (vHash t) then (blob_null 32, e\<lparr>xBad := True\<rparr>)
           else
             let hash = vHash t ! nHashUsed e; e = e\<lparr>nHashUsed := nHashUsed e + 1\<rparr> in
             (hash, if height = 0 \<and> fParentOfMatch then e\<lparr>xMatch := xMatch e @ [hash]\<rparr> else e))
        else
          (case TraverseAndExtract Hash t (height - 1) (pos * 2) e of
             (left, e) \<Rightarrow>
               if pos * 2 + 1 < unat (CalcTreeWidth (nTransactions t) (height - 1))
               then (case TraverseAndExtract Hash t (height - 1) (pos * 2 + 1) e of
                       (right, e) \<Rightarrow> (Hash (left @ right), if right = left then e\<lparr>xBad := True\<rparr> else e))
               else (Hash (left @ left), e)))"
  by pat_completeness auto
termination
  by (relation "measure (\<lambda>(Hash, t, height, pos, e). height)") auto

declare TraverseAndExtract.simps [simp del]

text \<open>The root, the matches, and the tree with its flag.\<close>

definition ExtractMatches ::
    "(byte list \<Rightarrow> uint256) \<Rightarrow> CPartialMerkleTree \<Rightarrow> (uint256 \<times> uint256 list \<times> CPartialMerkleTree) option" where
  "ExtractMatches Hash t =
     (if nTransactions t = 0 then Some (blob_null 32, [], t)
      else if unat (nTransactions t) > MAX_BLOCK_SIZE div 60 then Some (blob_null 32, [], t)
      else if length (vHash t) > unat (nTransactions t) then Some (blob_null 32, [], t)
      else if length (vBits t) < length (vHash t) then Some (blob_null 32, [], t)
      else map_option (\<lambda>height.
        case TraverseAndExtract Hash t height 0 \<lparr>nBitsUsed = 0, nHashUsed = 0, xMatch = [], xBad = fBad t\<rparr> of
          (root, e) \<Rightarrow>
            (if xBad e then blob_null 32
             else if (nBitsUsed e + 7) div 8 \<noteq> (length (vBits t) + 7) div 8 then blob_null 32
             else if nHashUsed e \<noteq> length (vHash t) then blob_null 32
             else root, xMatch e, t\<lparr>fBad := xBad e\<rparr>)) (calc_height (nTransactions t) 0))"

section \<open>The encoding\<close>

definition pack_bits :: "bool list \<Rightarrow> byte list" where
  "pack_bits bits =
     fold (\<lambda>p v. v[p div 8 := v ! (p div 8) OR push_bit (p mod 8) (if bits ! p then 1 else 0)])
       [0..<length bits] (replicate ((length bits + 7) div 8) 0)"

definition unpack_bits :: "byte list \<Rightarrow> bool list" where
  "unpack_bits v = map (\<lambda>p. v ! (p div 8) AND push_bit (p mod 8) 1 \<noteq> 0) [0..<length v * 8]"

definition Serialize_CPartialMerkleTree :: "CPartialMerkleTree \<Rightarrow> byte list" where
  "Serialize_CPartialMerkleTree t =
     ser_writedata32 (nTransactions t) @ Serialize_vector (\<lambda>h. h) (vHash t) @ Serialize_bytes (pack_bits (vBits t))"

definition Unserialize_CPartialMerkleTree :: "CPartialMerkleTree reader" where
  "Unserialize_CPartialMerkleTree =
     readThen ser_readdata32 (\<lambda>n. readThen (Unserialize_vector (read_bytes 32)) (\<lambda>h. readThen Unserialize_bytes (\<lambda>v.
       readReturn \<lparr>nTransactions = n, vBits = unpack_bits v, vHash = h, fBad = False\<rparr>)))"

section \<open>Merkle blocks\<close>

record CMerkleBlock =
  mb_header :: CBlockHeader
  mb_txn :: CPartialMerkleTree
  vMatchedTxn :: "(nat \<times> uint256) list"

text \<open>The loop over the transactions with a filter, which each of them may change: the mask, the matches and the filter.\<close>

fun filter_loop ::
    "(byte list \<Rightarrow> uint256) \<Rightarrow> CTransaction list \<Rightarrow> nat \<Rightarrow> CBloomFilter \<Rightarrow> (bool list \<times> (nat \<times> uint256) list \<times> CBloomFilter) option" where
  "filter_loop Hash [] i f = Some ([], [], f)"
| "filter_loop Hash (tx # txs) i f =
     (case IsRelevantAndUpdate Hash f tx of
        None \<Rightarrow> None
      | Some (b, f) \<Rightarrow>
          map_option (\<lambda>(ms, mt, f). (b # ms, if b then (i, GetHash Hash tx) # mt else mt, f)) (filter_loop Hash txs (i + 1) f))"

definition CMerkleBlock_filter ::
    "(byte list \<Rightarrow> uint256) \<Rightarrow> CBlock \<Rightarrow> CBloomFilter \<Rightarrow> (CMerkleBlock \<times> CBloomFilter) option" where
  "CMerkleBlock_filter Hash block f =
     (case filter_loop Hash (vtx block) 0 f of
        None \<Rightarrow> None
      | Some (vMatch, matched, f) \<Rightarrow>
          map_option (\<lambda>t. (\<lparr>mb_header = block_GetBlockHeader block, mb_txn = t, vMatchedTxn = matched\<rparr>, f))
            (CPartialMerkleTree_of Hash (map (GetHash Hash) (vtx block)) vMatch))"

definition CMerkleBlock_txids :: "(byte list \<Rightarrow> uint256) \<Rightarrow> CBlock \<Rightarrow> uint256 set \<Rightarrow> CMerkleBlock option" where
  "CMerkleBlock_txids Hash block txids =
     map_option (\<lambda>t. \<lparr>mb_header = block_GetBlockHeader block, mb_txn = t, vMatchedTxn = []\<rparr>)
       (CPartialMerkleTree_of Hash (map (GetHash Hash) (vtx block)) (map (\<lambda>tx. GetHash Hash tx \<in> txids) (vtx block)))"

definition Serialize_CMerkleBlock :: "CMerkleBlock \<Rightarrow> byte list" where
  "Serialize_CMerkleBlock b = Serialize_CBlockHeader (mb_header b) @ Serialize_CPartialMerkleTree (mb_txn b)"

definition Unserialize_CMerkleBlock :: "CMerkleBlock reader" where
  "Unserialize_CMerkleBlock =
     readThen Unserialize_CBlockHeader (\<lambda>h. readThen Unserialize_CPartialMerkleTree (\<lambda>t.
       readReturn \<lparr>mb_header = h, mb_txn = t, vMatchedTxn = []\<rparr>))"

section \<open>Codecs\<close>

interpretation hash32: strict_codec "\<lambda>h. h" "read_bytes 32" "\<lambda>h. length h = 32"
  by (rule strict_codecI) (auto simp: read_bytes_Inr_iff)

interpretation header: strict_codec Serialize_CBlockHeader Unserialize_CBlockHeader header_ok
proof unfold_locales
  show "Unserialize_CBlockHeader (Serialize_CBlockHeader x @ r) = Inr (x, r)" if "header_ok x" for x r
    using that by (simp add: Unserialize_CBlockHeader_def Serialize_CBlockHeader_def header_ok_def run_read int32.read_back u32.read_back)
qed (auto simp: Unserialize_CBlockHeader_def Serialize_CBlockHeader_def header_ok_def readThen_Inr_iff int32.unser_iff
        read_bytes_Inr_iff u32.unser_iff)

interpretation vhashes: strict_codec "Serialize_vector (\<lambda>h. h)" "Unserialize_vector (read_bytes 32)"
  "\<lambda>v. length v \<le> MAX_SIZE \<and> list_all (\<lambda>h. length h = 32) v"
  by (rule strict_codec_vector) (rule hash32.strict_codec_axioms)

section \<open>Packed bits\<close>

lemma pack_step: "v[p div 8 := v ! (p div 8) OR push_bit (p mod 8) (if b then 1 else 0)] = (if b then set_bit_at p v else v)"
  by (simp add: set_bit_at_def)

lemma length_pack_bits: "length (pack_bits bits) = (length bits + 7) div 8"
proof -
  have "length (fold (\<lambda>p v. if bits ! p then set_bit_at p v else v) ps v) = length v" for ps v
    by (induction ps arbitrary: v) auto
  then show ?thesis by (simp add: pack_bits_def pack_step)
qed

lemma bit_at_pack_bits:
  assumes "p < 8 * ((length bits + 7) div 8)"
  shows "bit_at p (pack_bits bits) \<longleftrightarrow> p < length bits \<and> bits ! p"
proof -
  let ?v0 = "replicate ((length bits + 7) div 8) (0 :: byte)"
  have len: "length bits \<le> 8 * ((length bits + 7) div 8)" by simp
  have "length (fold (\<lambda>p v. if bits ! p then set_bit_at p v else v) ps v) = length v" for ps v
    by (induction ps arbitrary: v) auto
  then have "bit_at p (fold (\<lambda>p v. if bits ! p then set_bit_at p v else v) ps v) \<longleftrightarrow> bit_at p v \<or> p \<in> set ps \<and> bits ! p"
    if "\<forall>q\<in>set ps. q < 8 * length v" for ps v
    using that
  proof (induction ps arbitrary: v)
    case (Cons q ps)
    then show ?case using bit_at_set_bit_at[of q v p] by (auto split: if_split_asm)
  qed simp
  from this[of "[0..<length bits]" ?v0] len have "bit_at p (pack_bits bits) \<longleftrightarrow> bit_at p ?v0 \<or> p < length bits \<and> bits ! p"
    by (auto simp: pack_bits_def pack_step)
  moreover have "p div 8 < (length bits + 7) div 8" using assms by (simp add: less_mult_imp_div_less mult.commute)
  then have "\<not> bit_at p ?v0" by (simp add: bit_at_def)
  ultimately show ?thesis by blast
qed

lemma unpack_pack_bits:
  "unpack_bits (pack_bits bits) = bits @ replicate (8 * ((length bits + 7) div 8) - length bits) False"
proof (rule nth_equalityI)
  show "length (unpack_bits (pack_bits bits)) = length (bits @ replicate (8 * ((length bits + 7) div 8) - length bits) False)"
    by (simp add: unpack_bits_def length_pack_bits)
  fix p assume "p < length (unpack_bits (pack_bits bits))"
  then have p: "p < 8 * ((length bits + 7) div 8)" by (simp add: unpack_bits_def length_pack_bits)
  then have "unpack_bits (pack_bits bits) ! p = bit_at p (pack_bits bits)"
    by (simp add: unpack_bits_def length_pack_bits bit_at_def)
  then show "unpack_bits (pack_bits bits) ! p = (bits @ replicate (8 * ((length bits + 7) div 8) - length bits) False) ! p"
    using bit_at_pack_bits[OF p] p by (auto simp: nth_append)
qed

section \<open>Widths and heights\<close>

lemma CalcTreeWidth_value:
  assumes "unat n + 2 ^ h \<le> 2 ^ 32"
  shows "unat (CalcTreeWidth n h) = (unat n + 2 ^ h - 1) div 2 ^ h"
proof -
  have h: "h < 32 \<or> n = 0 \<and> h = 32"
  proof (cases "h < 32")
    case False
    then have "(2::nat) ^ 32 \<le> 2 ^ h" by (intro power_increasing) auto
    then have "unat n = 0" "(2::nat) ^ h \<le> 2 ^ 32" using assms by linarith+
    then show ?thesis using False power_increasing_iff[of "2::nat" h 32] by (simp add: unat_eq_zero)
  qed simp
  show ?thesis
  proof (cases "h < 32")
    case True
    then have p: "unat (push_bit h 1 :: u32) = 2 ^ h"
      using unat_shiftl[of h "1 :: u32"] power_strict_increasing[of h 32 "2::nat"] by simp
    have one: "(1::nat) \<le> 2 ^ h" by simp
    then have "unat (push_bit h 1 - 1 :: u32) = 2 ^ h - 1" using p by (subst unat_sub) (simp_all add: word_le_nat_alt)
    then have "unat (n + (push_bit h 1 - 1)) = unat n + (2 ^ h - 1)"
      using assms one by (subst unat_add_lem[THEN iffD1]) auto
    then show ?thesis using one by (simp add: CalcTreeWidth_def unat_shiftr add_diff_eq[symmetric] del: push_bit_of_1)
  next
    case False
    then have "n = 0" "h = 32" using h by auto
    then show ?thesis by (simp add: CalcTreeWidth_def)
  qed
qed

lemma ceil_div_less: "j < (n + p - 1) div p \<longleftrightarrow> j * p < (n::nat)" if "0 < p"
proof -
  have "j < (n + p - 1) div p \<longleftrightarrow> Suc j * p \<le> n + p - 1"
    using that by (simp add: less_eq_div_iff_mult_less_eq Suc_le_eq[symmetric])
  also have "\<dots> \<longleftrightarrow> j * p < n" using that by auto
  finally show ?thesis .
qed

lemma less_CalcTreeWidth:
  assumes "unat n \<le> 2 ^ 31" "h \<le> 31"
  shows "j < unat (CalcTreeWidth n h) \<longleftrightarrow> j * 2 ^ h < unat n"
proof -
  have "(2::nat) ^ h \<le> 2 ^ 31" using assms(2) by (intro power_increasing) auto
  then have "unat n + 2 ^ h \<le> 2 ^ 32" using assms(1) by simp
  then show ?thesis using ceil_div_less[of "2 ^ h" j "unat n"] by (simp add: CalcTreeWidth_value)
qed

lemma calc_height_value:
  assumes "0 < unat n" "unat n \<le> 2 ^ 31"
  shows "calc_height n 0 = Some (merkle_height (unat n))" "merkle_height (unat n) \<le> 31"
proof -
  define L where "L = (LEAST l. unat n \<le> 2 ^ l)"
  have L: "unat n \<le> 2 ^ L" "L \<le> 31" "l < L \<Longrightarrow> 2 ^ l < unat n" for l
    unfolding L_def using assms(2) by (rule LeastI) (use assms(2) in \<open>auto intro: Least_le dest: not_less_Least simp: not_le\<close>)
  have "calc_height n h = Some L" if "h \<le> L" for h
    using that
  proof (induction "L - h" arbitrary: h)
    case 0
    then have h: "h = L" by simp
    have "\<not> 1 < unat (CalcTreeWidth n L)" using less_CalcTreeWidth[OF assms(2) L(2), of 1] L(1) by simp
    then show ?case using L(2) h by (subst calc_height.simps) (simp add: word_less_nat_alt)
  next
    case (Suc d)
    then have h: "h < L" "h \<le> 31" using L(2) by auto
    then have "1 < unat (CalcTreeWidth n h)" using less_CalcTreeWidth[OF assms(2) h(2), of 1] L(3) by simp
    then have "calc_height n h = calc_height n (Suc h)" using h by (subst calc_height.simps) (simp add: word_less_nat_alt)
    then show ?case using Suc by simp
  qed
  moreover have "merkle_height (unat n) = L"
    using merkle_height_eq[OF assms(1) L(1)] L(3)[of "L - 1"] by (cases L) auto
  ultimately show "calc_height n 0 = Some (merkle_height (unat n))" "merkle_height (unat n) \<le> 31" using L(2) by simp_all
qed

section \<open>Reading back what was built\<close>

text \<open>What the constructor works on: the transaction ids of a block that is not too large.\<close>

definition small_tree :: "u32 \<Rightarrow> uint256 list \<Rightarrow> bool" where
  "small_tree n xs \<longleftrightarrow> unat n = length xs \<and> 0 < length xs \<and> length xs \<le> 2 ^ 31"

lemma CalcHash_node:
  assumes "small_tree n xs"
  shows "h \<le> 31 \<Longrightarrow> j * 2 ^ h < length xs \<Longrightarrow> CalcHash Hash n h j xs = node Hash xs h j"
proof (induction h arbitrary: j)
  case 0
  then show ?case by (simp add: node_leaf)
next
  case (Suc h)
  have w: "2 * j + 1 < unat (CalcTreeWidth n h) \<longleftrightarrow> (2 * j + 1) * 2 ^ h < length xs"
    using less_CalcTreeWidth[of n h "2 * j + 1"] assms Suc.prems(1) by (simp add: small_tree_def)
  have left: "CalcHash Hash n h (2 * j) xs = node Hash xs h (2 * j)" using Suc.IH[of "2 * j"] Suc.prems by (simp add: mult.assoc mult.left_commute)
  show ?case
  proof (cases "(2 * j + 1) * 2 ^ h < length xs")
    case True
    then have "CalcHash Hash n h (2 * j + 1) xs = node Hash xs h (2 * j + 1)" using Suc.IH[of "2 * j + 1"] Suc.prems(1) by simp
    then show ?thesis using left w True node_step[OF True, of Hash] by (simp add: mult.commute)
  next
    case False
    then show ?thesis using left w node_dup[of xs j h Hash] by (simp add: mult.commute Let_def)
  qed
qed

text \<open>The leaves below a node.\<close>

definition below :: "'a list \<Rightarrow> nat \<Rightarrow> nat \<Rightarrow> 'a list" where
  "below xs h j = take (2 ^ h) (drop (j * 2 ^ h) xs)"

lemma below_0: "j < length xs \<Longrightarrow> below xs 0 j = [xs ! j]"
  by (simp add: below_def take_Suc hd_drop_conv_nth)

lemma below_Suc: "below xs (Suc h) j = below xs h (2 * j) @ below xs h (2 * j + 1)"
proof -
  have "take (2 * 2 ^ h) ys = take (2 ^ h) ys @ take (2 ^ h) (drop (2 ^ h) ys)" for ys :: "'a list"
    using take_add[of "2 ^ h" "2 ^ h" ys] by (simp add: mult_2)
  then show ?thesis by (simp add: below_def mult.assoc mult.left_commute add.commute[of "2 ^ h"])
qed

lemma below_empty: "length xs \<le> j * 2 ^ h \<Longrightarrow> below xs h j = []"
  by (simp add: below_def)

lemma below_map: "below (map f xs) h j = map f (below xs h j)"
  by (simp add: below_def take_map drop_map)

lemma node_below: "node Hash xs h j = tree_hash Hash h (below xs h j)"
  by (simp add: node_def below_def)

lemma parent_of_match_below:
  assumes "unat n = length ms"
  shows "parent_of_match n h j ms \<longleftrightarrow> list_ex (\<lambda>b. b) (below ms h j)"
proof -
  have "below ms h j = map (\<lambda>p. ms ! p) [j * 2 ^ h..<min ((j + 1) * 2 ^ h) (length ms)]"
  proof (rule nth_equalityI)
    show "length (below ms h j) = length (map (\<lambda>p. ms ! p) [j * 2 ^ h..<min ((j + 1) * 2 ^ h) (length ms)])"
      by (auto simp: below_def min_def)
    show "below ms h j ! i = map (\<lambda>p. ms ! p) [j * 2 ^ h..<min ((j + 1) * 2 ^ h) (length ms)] ! i" if "i < length (below ms h j)" for i
    proof -
      have "i < min ((j + 1) * 2 ^ h) (length ms) - j * 2 ^ h" using that by (auto simp: below_def min_def split: if_split_asm)
      then show ?thesis using that nth_map_upt[of i "min ((j + 1) * 2 ^ h) (length ms)" "j * 2 ^ h" "\<lambda>p. ms ! p"] by (simp add: below_def)
    qed
  qed
  then show ?thesis using assms by (auto simp: parent_of_match_def list_ex_iff)
qed

definition matched :: "uint256 list \<Rightarrow> bool list \<Rightarrow> nat \<Rightarrow> nat \<Rightarrow> uint256 list" where
  "matched xs ms h j = map fst (filter snd (below (zip xs ms) h j))"

lemma matched_Suc: "matched xs ms (Suc h) j = matched xs ms h (2 * j) @ matched xs ms h (2 * j + 1)"
  by (simp add: matched_def below_Suc)

lemma matched_none:
  assumes "length ms = length xs" "\<not> list_ex (\<lambda>b. b) (below ms h j)"
  shows "matched xs ms h j = []"
proof -
  have "below ms h j = map snd (below (zip xs ms) h j)" using assms(1) below_map[of snd "zip xs ms" h j] by simp
  then show ?thesis using assms(2) by (auto simp: matched_def list_ex_iff filter_empty_conv)
qed

text \<open>The bits and hashes of the tree below a node, without what came before.\<close>

abbreviation built :: "(byte list \<Rightarrow> uint256) \<Rightarrow> u32 \<Rightarrow> uint256 list \<Rightarrow> bool list \<Rightarrow> nat \<Rightarrow> nat \<Rightarrow> bool list \<times> uint256 list" where
  "built Hash n xs ms h j \<equiv> TraverseAndBuild Hash n xs ms h j ([], [])"

lemma TraverseAndBuild_append:
  "TraverseAndBuild Hash n xs ms h j (vb, vh) = (vb @ fst (built Hash n xs ms h j), vh @ snd (built Hash n xs ms h j))"
proof (induction h arbitrary: j vb vh)
  case (Suc h)
  let ?T = "TraverseAndBuild Hash n xs ms h"
  obtain a b where A: "?T (j * 2) ([], []) = (a, b)" by (cases "?T (j * 2) ([], [])")
  obtain c d where B: "?T (j * 2 + 1) ([], []) = (c, d)" by (cases "?T (j * 2 + 1) ([], [])")
  have 1: "?T (j * 2) (vb, vh) = (vb @ a, vh @ b)" for vb vh using Suc.IH[of "j * 2"] unfolding A by simp
  have 2: "?T (j * 2 + 1) (vb, vh) = (vb @ c, vh @ d)" for vb vh using Suc.IH[of "j * 2 + 1"] unfolding B by simp
  show ?case by (simp add: Let_def 1 2[simplified])
qed simp

lemma built_Suc:
  "built Hash n xs ms (Suc h) j =
     (if \<not> parent_of_match n (Suc h) j ms then ([False], [CalcHash Hash n (Suc h) j xs])
      else if j * 2 + 1 < unat (CalcTreeWidth n h)
      then (True # fst (built Hash n xs ms h (j * 2)) @ fst (built Hash n xs ms h (j * 2 + 1)),
            snd (built Hash n xs ms h (j * 2)) @ snd (built Hash n xs ms h (j * 2 + 1)))
      else (True # fst (built Hash n xs ms h (j * 2)), snd (built Hash n xs ms h (j * 2))))"
proof -
  note left = TraverseAndBuild_append[of Hash n xs ms h "j * 2" "[True]" "[]"]
  note right = TraverseAndBuild_append[of Hash n xs ms h "j * 2 + 1" "True # fst (built Hash n xs ms h (j * 2))"
      "snd (built Hash n xs ms h (j * 2))"]
  show ?thesis using left right by (simp add: Let_def)
qed

declare TraverseAndBuild.simps(2) [simp del]

definition no_equal_siblings :: "(byte list \<Rightarrow> uint256) \<Rightarrow> uint256 list \<Rightarrow> bool" where
  "no_equal_siblings Hash xs \<longleftrightarrow>
     (\<forall>l j. (2 * j + 1) * 2 ^ l < length xs \<longrightarrow> node Hash xs l (2 * j) \<noteq> node Hash xs l (2 * j + 1))"

lemma TraverseAndExtract_built:
  assumes small: "small_tree n xs" and t: "nTransactions t = n" and ms: "length ms = length xs" and sib: "no_equal_siblings Hash xs"
  shows "h \<le> 31 \<Longrightarrow> j * 2 ^ h < length xs \<Longrightarrow>
    vBits t = v0 @ fst (built Hash n xs ms h j) @ v1 \<Longrightarrow> vHash t = h0 @ snd (built Hash n xs ms h j) @ h1 \<Longrightarrow>
    nBitsUsed e = length v0 \<Longrightarrow> nHashUsed e = length h0 \<Longrightarrow>
    TraverseAndExtract Hash t h j e =
      (node Hash xs h j, e\<lparr>nBitsUsed := length v0 + length (fst (built Hash n xs ms h j)),
         nHashUsed := length h0 + length (snd (built Hash n xs ms h j)), xMatch := xMatch e @ matched xs ms h j\<rparr>)"
proof (induction h arbitrary: j e v0 v1 h0 h1)
  case 0
  have "ms ! j \<longleftrightarrow> parent_of_match n 0 j ms"
    using small ms "0.prems"(2) by (simp add: parent_of_match_below small_tree_def below_0)
  moreover have "matched xs ms 0 j = (if ms ! j then [xs ! j] else [])"
    using ms "0.prems"(2) by (simp add: matched_def below_0)
  ultimately show ?case using 0 by (subst TraverseAndExtract.simps) (simp add: nth_append node_leaf Let_def)
next
  case (Suc h)
  let ?b = "built Hash n xs ms h"
  have h: "h \<le> 31" and left: "j * 2 * 2 ^ h < length xs" using Suc.prems(1,2) by (simp_all add: mult.assoc)
  have w: "j * 2 + 1 < unat (CalcTreeWidth n h) \<longleftrightarrow> (j * 2 + 1) * 2 ^ h < length xs"
    using less_CalcTreeWidth[of n h "j * 2 + 1"] small h by (simp add: small_tree_def)
  show ?case
  proof (cases "parent_of_match n (Suc h) j ms")
    case False
    then have "matched xs ms (Suc h) j = []"
      using matched_none[OF ms] small ms by (simp add: parent_of_match_below small_tree_def)
    then show ?thesis using False Suc.prems CalcHash_node[OF small Suc.prems(1,2), of Hash]
      by (subst TraverseAndExtract.simps) (simp add: nth_append Let_def built_Suc)
  next
    case pm: True
    let ?e = "e\<lparr>nBitsUsed := Suc (length v0)\<rparr>"
    let ?e1 = "e\<lparr>nBitsUsed := Suc (length v0) + length (fst (?b (j * 2))), nHashUsed := length h0 + length (snd (?b (j * 2))),
                 xMatch := xMatch e @ matched xs ms h (j * 2)\<rparr>"
    show ?thesis
    proof (cases "(j * 2 + 1) * 2 ^ h < length xs")
      case right: True
      have 1: "TraverseAndExtract Hash t h (j * 2) ?e = (node Hash xs h (j * 2), ?e1)"
        using Suc.IH[OF h left, of "v0 @ [True]" "fst (?b (j * 2 + 1)) @ v1" h0 "snd (?b (j * 2 + 1)) @ h1" ?e] Suc.prems pm w right
        by (simp add: built_Suc)
      have 2: "TraverseAndExtract Hash t h (j * 2 + 1) ?e1 =
        (node Hash xs h (j * 2 + 1), e\<lparr>nBitsUsed := Suc (length v0) + length (fst (?b (j * 2))) + length (fst (?b (j * 2 + 1))),
           nHashUsed := length h0 + length (snd (?b (j * 2))) + length (snd (?b (j * 2 + 1))),
           xMatch := xMatch e @ matched xs ms (Suc h) j\<rparr>)"
        using Suc.IH[OF h right, of "v0 @ True # fst (?b (j * 2))" v1 "h0 @ snd (?b (j * 2))" h1 ?e1] Suc.prems pm w right
        by (simp add: built_Suc matched_Suc mult.commute)
      have "node Hash xs h (j * 2) \<noteq> node Hash xs h (j * 2 + 1)"
        using sib right by (simp add: no_equal_siblings_def mult.commute)
      moreover have "node Hash xs (Suc h) j = Hash (node Hash xs h (j * 2) @ node Hash xs h (j * 2 + 1))"
        using node_step[of j h xs Hash] right by (simp add: mult.commute)
      ultimately show ?thesis using 1 2 Suc.prems pm w right t
        by (subst TraverseAndExtract.simps) (simp add: nth_append Let_def built_Suc)
    next
      case right: False
      have 1: "TraverseAndExtract Hash t h (j * 2) ?e = (node Hash xs h (j * 2), ?e1)"
        using Suc.IH[OF h left, of "v0 @ [True]" v1 h0 h1 ?e] Suc.prems pm w right by (simp add: built_Suc)
      have "matched xs ms (Suc h) j = matched xs ms h (j * 2)"
        using right ms below_empty[of "zip xs ms" "j * 2 + 1" h] by (simp only: matched_Suc) (simp add: matched_def mult.commute)
      moreover have "node Hash xs (Suc h) j = Hash (node Hash xs h (j * 2) @ node Hash xs h (j * 2))"
        using node_dup[of xs j h Hash] right by (simp add: mult.commute)
      ultimately show ?thesis using 1 Suc.prems pm w right t
        by (subst TraverseAndExtract.simps) (simp add: nth_append Let_def built_Suc)
    qed
  qed
qed

text \<open>The part of a tree below a node.\<close>

lemma below_half:
  "below xs l j = (if even j then take (2 ^ l) (below xs (Suc l) (j div 2)) else drop (2 ^ l) (below xs (Suc l) (j div 2)))"
proof -
  define i where "i = j div 2"
  have len: "length (below xs l (2 * i)) \<le> 2 ^ l" by (simp add: below_def)
  have rest: "below xs l (2 * i + 1) = []" if "\<not> 2 ^ l \<le> length (below xs l (2 * i))"
    using that by (auto simp: below_def)
  have "take (2 ^ l) (below xs (Suc l) i) = below xs l (2 * i)" "drop (2 ^ l) (below xs (Suc l) i) = below xs l (2 * i + 1)"
    using len rest by (cases "2 ^ l \<le> length (below xs l (2 * i))"; simp add: below_Suc)+
  moreover have "even j \<Longrightarrow> j = 2 * i" "odd j \<Longrightarrow> j = 2 * i + 1" by (auto simp: i_def)
  ultimately show ?thesis unfolding i_def[symmetric] by (cases "even j") metis+
qed

lemma below_part:
  assumes "length xs \<le> 2 ^ k" "\<not> has_twins Hash xs (length xs)"
  shows "l + d = k \<Longrightarrow> j * 2 ^ l < length xs \<Longrightarrow>
    hashed Hash l (below xs l j) \<subseteq> hashed Hash k xs \<and> \<not> has_twins Hash (below xs l j) (length (below xs l j))"
proof (induction d arbitrary: l j)
  case 0
  then have k: "l = k" by simp
  have "j * 2 ^ l < 1 * 2 ^ l" using 0(2) assms(1) unfolding k by linarith
  then have "j = 0" unfolding mult_less_cancel2 by simp
  then show ?case using 0 assms by (simp add: below_def)
next
  case (Suc d)
  let ?B = "below xs (Suc l) (j div 2)"
  have "j div 2 * 2 ^ Suc l \<le> j * 2 ^ l" using mult_le_mono1[of "j div 2 * 2" j "2 ^ l"] by (simp add: mult.assoc)
  then have "j div 2 * 2 ^ Suc l < length xs" "Suc l + d = k" using Suc.prems by linarith+
  then have IH: "hashed Hash (Suc l) ?B \<subseteq> hashed Hash k xs" "\<not> has_twins Hash ?B (length ?B)"
    using Suc.IH by blast+
  have ne: "below xs l j \<noteq> []" using Suc.prems(2) by (simp add: below_def)
  have "length ?B \<le> 2 ^ Suc l" by (simp add: below_def)
  then have "\<not> has_twins Hash (below xs l j) (length (below xs l j))"
    using IH(2) has_twins_take[of Hash "2 ^ l" ?B] has_twins_drop[of Hash l ?B] below_half[of xs l j] by metis
  moreover have "hashed Hash l (below xs l j) \<subseteq> hashed Hash (Suc l) ?B"
  proof (cases "length ?B \<le> 2 ^ l")
    case True
    then have "below xs l j = ?B" using ne below_half[of xs l j] by (auto split: if_split_asm)
    then show ?thesis using hashed_parts(1)[OF True] by metis
  next
    case False
    then show ?thesis using hashed_parts(2,3)[OF False, of Hash] below_half[of xs l j] by metis
  qed
  ultimately show ?case using IH(1) by blast
qed

text \<open>A tree whose root is not flagged has no equal siblings at all: one of two is full, and a root says how many leaves there are.\<close>

lemma unflagged_no_equal_siblings:
  assumes len: "\<And>b. length (Hash b) = 32" and xs: "xs \<noteq> []" "\<forall>x\<in>set xs. length x = 32"
    and inj: "inj_on Hash (merkle_inputs Hash xs)" and twins: "\<not> has_twins Hash xs (length xs)"
  shows "no_equal_siblings Hash xs"
  unfolding no_equal_siblings_def
proof (intro allI impI notI)
  fix l j assume lt: "(2 * j + 1) * 2 ^ l < length xs" and eq: "node Hash xs l (2 * j) = node Hash xs l (2 * j + 1)"
  let ?k = "merkle_height (length xs)" and ?u = "below xs l (2 * j)" and ?v = "below xs l (2 * j + 1)"
  have k: "length xs \<le> 2 ^ ?k" using merkle_height_bound[of "length xs"] xs(1) by simp
  have "(2::nat) ^ l \<le> (2 * j + 1) * 2 ^ l" by simp
  then have "(2::nat) ^ l < 2 ^ ?k" using lt k by linarith
  then have "l < ?k" by simp
  then have lk: "l + (?k - l) = ?k" by simp
  have lt0: "2 * j * 2 ^ l < length xs" using lt by simp
  have "comparable Hash l ?u ?v"
    using below_part[OF k twins lk lt0] below_part[OF k twins lk lt] inj_on_subset[OF inj] lt lt0 xs(2)
    unfolding comparable_def merkle_inputs_def
    by (auto simp: below_def dest!: in_set_takeD in_set_dropD)
  then have "?u = ?v" using tree_hash_binding[OF len] eq by (simp add: node_below)
  moreover have "length ?u = 2 ^ l" using lt by (simp add: below_def)
  ultimately have "length ?v = 2 ^ l" by simp
  then have "(2 * j + 2) * 2 ^ l \<le> length xs" using lt by (simp add: below_def)
  then show False using twins eq unfolding has_twins_def by blast
qed

section \<open>Sizes\<close>

lemma merkle_height_le:
  assumes "0 < m" "m \<le> 2 ^ k"
  shows "merkle_height m \<le> k"
proof -
  define L where "L = (LEAST l. m \<le> 2 ^ l)"
  have "m \<le> 2 ^ L" "L \<le> k" "l < L \<Longrightarrow> 2 ^ l < m" for l
    unfolding L_def using assms(2) by (rule LeastI) (use assms(2) in \<open>auto intro: Least_le dest: not_less_Least simp: not_le\<close>)
  moreover from this have "merkle_height m = L" using merkle_height_eq[OF assms(1), of L] by (cases L) auto
  ultimately show ?thesis by simp
qed

lemma built_sizes:
  assumes small: "small_tree n xs" and ms: "length ms = length xs" and len: "\<And>b. length (Hash b) = 32" "\<forall>x\<in>set xs. length x = 32"
  shows "h \<le> 31 \<Longrightarrow> j * 2 ^ h < length xs \<Longrightarrow> built Hash n xs ms h j = (vb, vh) \<Longrightarrow>
    length vh \<le> length vb \<and> length vb < 2 ^ Suc h \<and> length vh \<le> length (below xs h j) \<and> list_all (\<lambda>x. length x = 32) vh"
proof (induction h arbitrary: j vb vh)
  case 0
  then show ?case using len(2) by (auto simp: below_0)
next
  case (Suc h)
  have leaf: "length (CalcHash Hash n (Suc h) j xs) = 32"
    by (simp add: Let_def len(1))
  have ne: "1 \<le> length (below xs (Suc h) j)" using Suc.prems(2) by (simp add: below_def Suc_le_eq del: power_Suc)
  have h: "h \<le> 31" and l: "j * 2 * 2 ^ h < length xs" using Suc.prems(1,2) by (simp_all add: mult.assoc)
  obtain vb0 vh0 where left: "built Hash n xs ms h (j * 2) = (vb0, vh0)" by fastforce
  note IH0 = Suc.IH[OF h l left]
  show ?case
  proof (cases "parent_of_match n (Suc h) j ms")
    case False
    then have "vb = [False]" "vh = [CalcHash Hash n (Suc h) j xs]" using Suc.prems(3) by (simp_all add: built_Suc)
    moreover have "Suc 0 < 4 * 2 ^ h" using one_le_power[of "2::nat" h] by linarith
    ultimately show ?thesis using leaf ne by simp
  next
    case pm: True
    show ?thesis
    proof (cases "j * 2 + 1 < unat (CalcTreeWidth n h)")
      case True
      then have r: "(j * 2 + 1) * 2 ^ h < length xs" using less_CalcTreeWidth[of n h "j * 2 + 1"] small h by (simp add: small_tree_def)
      obtain vb1 vh1 where right: "built Hash n xs ms h (j * 2 + 1) = (vb1, vh1)" by fastforce
      note IH1 = Suc.IH[OF h r right]
      have "vb = True # vb0 @ vb1" "vh = vh0 @ vh1" using Suc.prems(3) pm True left right by (simp_all add: built_Suc)
      then show ?thesis using IH0 IH1 by (simp add: below_Suc mult.commute)
    next
      case False
      then have "vb = True # vb0" "vh = vh0" using Suc.prems(3) pm left by (simp_all add: built_Suc)
      then show ?thesis using IH0 by (simp add: below_Suc mult.commute)
    qed
  qed
qed

section \<open>From a block to the matches\<close>

lemma below_top: "length xs \<le> 2 ^ k \<Longrightarrow> below xs k 0 = xs"
  by (simp add: below_def)

text \<open>What is read back is the tree with bits appended up to a full byte.\<close>

definition padded :: "CPartialMerkleTree \<Rightarrow> CPartialMerkleTree" where
  "padded t = t\<lparr>vBits := unpack_bits (pack_bits (vBits t))\<rparr>"

lemma partial_tree_of:
  assumes len: "\<And>b. length (Hash b) = 32" "\<forall>x\<in>set xs. length x = 32"
    and xs: "xs \<noteq> []" "length xs \<le> MAX_BLOCK_SIZE div 60" "length ms = length xs"
    and inj: "inj_on Hash (merkle_inputs Hash xs)" and twins: "\<not> has_twins Hash xs (length xs)"
  shows "\<exists>t. CPartialMerkleTree_of Hash xs ms = Some t \<and> \<not> fBad t \<and> length (vHash t) \<le> MAX_SIZE \<and> length (vBits t) \<le> MAX_SIZE \<and>
    list_all (\<lambda>x. length x = 32) (vHash t) \<and>
    ExtractMatches Hash (padded t) = Some (merkle_root Hash xs, map fst (filter snd (zip xs ms)), padded t)"
proof -
  define n :: u32 where "n = word_of_nat (length xs)"
  have n: "unat n = length xs" using xs(2) by (simp add: n_def unat_of_nat MAX_BLOCK_SIZE_def)
  have small: "small_tree n xs" using n xs by (simp add: small_tree_def MAX_BLOCK_SIZE_def)
  let ?k = "merkle_height (length xs)"
  have k: "calc_height n 0 = Some ?k" "?k \<le> 31" using calc_height_value[of n] small n by (simp_all add: small_tree_def)
  have bound: "length xs \<le> 2 ^ ?k" using merkle_height_bound[of "length xs"] xs(1) by simp
  obtain vb vh where b: "built Hash n xs ms ?k 0 = (vb, vh)" by fastforce
  have sizes: "length vh \<le> length vb" "length vb < 2 ^ Suc ?k" "length vh \<le> length xs" "list_all (\<lambda>x. length x = 32) vh"
    using built_sizes[OF small xs(3) len k(2) _ b] xs(1) by (simp_all add: below_top[OF bound])
  have "?k \<le> 20" using merkle_height_le[of "length xs" 20] xs(1,2) by (simp add: MAX_BLOCK_SIZE_def)
  then have "(2::nat) ^ Suc ?k \<le> 2 ^ 21" by (intro power_increasing) auto
  then have max: "length vb \<le> MAX_SIZE" "length vh \<le> MAX_SIZE" using sizes(1,2) by (simp_all add: MAX_SIZE_def)
  define t where "t = \<lparr>nTransactions = n, vBits = vb, vHash = vh, fBad = False\<rparr>"
  have t: "CPartialMerkleTree_of Hash xs ms = Some t"
    using k(1) b n xs(3) by (simp add: CPartialMerkleTree_of_def t_def n_def[symmetric])
  let ?e0 = "\<lparr>nBitsUsed = 0, nHashUsed = 0, xMatch = [], xBad = False\<rparr>"
  have pad: "vBits (padded t) = vb @ replicate (8 * ((length vb + 7) div 8) - length vb) False"
    by (simp add: padded_def t_def unpack_pack_bits)
  have "TraverseAndExtract Hash (padded t) ?k 0 ?e0 =
      (node Hash xs ?k 0, ?e0\<lparr>nBitsUsed := length vb, nHashUsed := length vh, xMatch := matched xs ms ?k 0\<rparr>)"
    using TraverseAndExtract_built[OF small _ xs(3) unflagged_no_equal_siblings[OF len(1) xs(1) len(2) inj twins], of "padded t" ?k 0 "[]" _ "[]" "[]" ?e0]
      k(2) xs(1) b pad by (simp add: padded_def t_def)
  moreover have "matched xs ms ?k 0 = map fst (filter snd (zip xs ms))"
    using bound xs(3) by (simp add: matched_def below_top)
  moreover have "node Hash xs ?k 0 = merkle_root Hash xs" using bound xs(1) by (simp add: node_below below_top merkle_root_def)
  moreover have "padded t\<lparr>fBad := False\<rparr> = padded t" by (simp add: padded_def t_def)
  moreover have "length (vBits (padded t)) = 8 * ((length vb + 7) div 8)" "length vh \<le> 8 * ((length vb + 7) div 8)"
    using sizes(1) by (simp_all add: pad)
  moreover have "nTransactions (padded t) = n" "vHash (padded t) = vh" "fBad (padded t) = False" by (simp_all add: padded_def t_def)
  moreover have "n \<noteq> 0" using n xs(1) by auto
  ultimately have "ExtractMatches Hash (padded t) = Some (merkle_root Hash xs, map fst (filter snd (zip xs ms)), padded t)"
    unfolding ExtractMatches_def using n xs(2) sizes(1,3) k(1) by simp
  then show ?thesis using t sizes(4) max by (auto simp: t_def)
qed

lemma read_back_partial_tree:
  assumes "length (vHash t) \<le> MAX_SIZE" "length (vBits t) \<le> MAX_SIZE" "list_all (\<lambda>x. length x = 32) (vHash t)" "\<not> fBad t"
  shows "Unserialize_CPartialMerkleTree (Serialize_CPartialMerkleTree t @ r) = Inr (padded t, r)"
proof -
  have "length (pack_bits (vBits t)) \<le> MAX_SIZE" using assms(2) by (simp add: length_pack_bits MAX_SIZE_def)
  then show ?thesis
    using assms by (simp add: Unserialize_CPartialMerkleTree_def Serialize_CPartialMerkleTree_def run_read u32.read_back vhashes.read_back
        vbytes.read_back padded_def)
qed

lemma filter_zip_map: "map fst (filter snd (zip xs (map P xs))) = filter P xs"
  by (induction xs) auto

section \<open>What matches say of a block\<close>

text \<open>What is hashed while a tree is extracted.\<close>

fun extract_inputs :: "(byte list \<Rightarrow> uint256) \<Rightarrow> CPartialMerkleTree \<Rightarrow> nat \<Rightarrow> nat \<Rightarrow> extraction \<Rightarrow> byte list set" where
  "extract_inputs Hash t 0 pos e = {}"
| "extract_inputs Hash t (Suc height) pos e =
     (if nBitsUsed e \<ge> length (vBits t) \<or> \<not> vBits t ! nBitsUsed e then {}
      else let e1 = e\<lparr>nBitsUsed := nBitsUsed e + 1\<rparr> in
           (case TraverseAndExtract Hash t height (pos * 2) e1 of
              (left, e2) \<Rightarrow> extract_inputs Hash t height (pos * 2) e1 \<union>
                (if pos * 2 + 1 < unat (CalcTreeWidth (nTransactions t) height)
                 then (case TraverseAndExtract Hash t height (pos * 2 + 1) e2 of
                         (right, e3) \<Rightarrow> insert (left @ right) (extract_inputs Hash t height (pos * 2 + 1) e2))
                 else {left @ left})))"

definition tree_inputs :: "(byte list \<Rightarrow> uint256) \<Rightarrow> CPartialMerkleTree \<Rightarrow> byte list set" where
  "tree_inputs Hash t =
     (case calc_height (nTransactions t) 0 of
        None \<Rightarrow> {}
      | Some height \<Rightarrow> extract_inputs Hash t height 0 \<lparr>nBitsUsed = 0, nHashUsed = 0, xMatch = [], xBad = fBad t\<rparr>)"

lemma length_extracted:
  assumes "\<And>b. length (Hash b) = 32" "list_all (\<lambda>x. length x = 32) (vHash t)"
  shows "length (fst (TraverseAndExtract Hash t h pos e)) = 32"
  using assms
  by (subst TraverseAndExtract.simps) (auto simp: Let_def blob_null_def list_all_length split: prod.splits)

text \<open>A set of hashes that contains, with a hash made during the extraction, both of its halves, contains the matches when it contains the root.\<close>

lemma matches_in_closed:
  assumes closed: "\<And>a b. length a = 32 \<Longrightarrow> length b = 32 \<Longrightarrow> a @ b \<in> I \<Longrightarrow> Hash (a @ b) \<in> N \<Longrightarrow> a \<in> N \<and> b \<in> N"
    and len: "\<And>b. length (Hash b) = 32" "list_all (\<lambda>x. length x = 32) (vHash t)"
  shows "TraverseAndExtract Hash t h pos e = (r, e') \<Longrightarrow> extract_inputs Hash t h pos e \<subseteq> I \<Longrightarrow> r \<in> N \<Longrightarrow> set (xMatch e) \<subseteq> N \<Longrightarrow>
    set (xMatch e') \<subseteq> N"
proof (induction h arbitrary: pos e r e')
  case 0
  then show ?case by (subst (asm) TraverseAndExtract.simps) (auto simp: Let_def split: if_split_asm)
next
  case (Suc h)
  let ?e1 = "e\<lparr>nBitsUsed := nBitsUsed e + 1\<rparr>"
  show ?case
  proof (cases "nBitsUsed e \<ge> length (vBits t) \<or> \<not> vBits t ! nBitsUsed e")
    case True
    then show ?thesis using Suc.prems by (subst (asm) TraverseAndExtract.simps) (auto simp: Let_def split: if_split_asm)
  next
    case False
    obtain left e2 where l: "TraverseAndExtract Hash t h (pos * 2) ?e1 = (left, e2)" by fastforce
    obtain right e3 where rt: "TraverseAndExtract Hash t h (pos * 2 + 1) e2 = (right, e3)" by fastforce
    have l32: "length left = 32" "length right = 32"
      using length_extracted[of Hash t h "pos * 2" ?e1, OF len] length_extracted[of Hash t h "pos * 2 + 1" e2, OF len] l rt by simp_all
    show ?thesis
    proof (cases "pos * 2 + 1 < unat (CalcTreeWidth (nTransactions t) h)")
      case w: True
      have r: "r = Hash (left @ right)" "xMatch e' = xMatch e3"
        using Suc.prems(1) False l rt w by (auto simp: TraverseAndExtract.simps[of _ _ "Suc h"] Let_def split: if_split_asm)
      have inputs: "left @ right \<in> I" "extract_inputs Hash t h (pos * 2) ?e1 \<subseteq> I" "extract_inputs Hash t h (pos * 2 + 1) e2 \<subseteq> I"
        using Suc.prems(2) False l rt w by (auto simp: Let_def)
      have "left \<in> N" "right \<in> N" using closed[OF l32 inputs(1)] Suc.prems(3) r(1) by blast+
      then show ?thesis using Suc.IH[OF l inputs(2)] Suc.IH[OF rt inputs(3)] Suc.prems(4) r(2) by simp
    next
      case w: False
      have r: "r = Hash (left @ left)" "xMatch e' = xMatch e2"
        using Suc.prems(1) False l w by (auto simp: TraverseAndExtract.simps[of _ _ "Suc h"] Let_def split: if_split_asm)
      have inputs: "left @ left \<in> I" "extract_inputs Hash t h (pos * 2) ?e1 \<subseteq> I"
        using Suc.prems(2) False l w by (auto simp: Let_def)
      have "left \<in> N" using closed[OF l32(1) l32(1) inputs(1)] Suc.prems(3) r(1) by blast
      then show ?thesis using Suc.IH[OF l inputs(2)] Suc.prems(4) r(2) by simp
    qed
  qed
qed

lemma ExtractMatches_Some:
  assumes "ExtractMatches Hash t = Some (root, ms, t')" "root \<noteq> blob_null 32"
  shows "\<exists>h e. calc_height (nTransactions t) 0 = Some h \<and>
    TraverseAndExtract Hash t h 0 \<lparr>nBitsUsed = 0, nHashUsed = 0, xMatch = [], xBad = fBad t\<rparr> = (root, e) \<and> ms = xMatch e"
proof (cases "calc_height (nTransactions t) 0")
  case (Some h)
  obtain r e where "TraverseAndExtract Hash t h 0 \<lparr>nBitsUsed = 0, nHashUsed = 0, xMatch = [], xBad = fBad t\<rparr> = (r, e)" by fastforce
  then show ?thesis using assms Some by (simp add: ExtractMatches_def split: if_split_asm)
qed (use assms in \<open>simp add: ExtractMatches_def split: if_split_asm\<close>)

text \<open>The hashes in the tree of a block.\<close>

definition tree_hashes :: "(byte list \<Rightarrow> uint256) \<Rightarrow> uint256 list \<Rightarrow> uint256 set" where
  "tree_hashes Hash xs = set xs \<union> Hash ` merkle_inputs Hash xs"

lemma tree_hash_in:
  "xs \<noteq> [] \<Longrightarrow> length xs \<le> 2 ^ k \<Longrightarrow> tree_hash Hash k xs \<in> set xs \<union> Hash ` hashed Hash k xs"
proof (cases k)
  case (Suc l)
  then show ?thesis using top_input_hash[of Hash l xs] by (metis UnI2 image_eqI)
qed auto

lemma hashed_halves:
  assumes "\<And>b. length (Hash b) = 32"
  shows "xs \<noteq> [] \<Longrightarrow> length xs \<le> 2 ^ k \<Longrightarrow> \<forall>x\<in>set xs. length x = 32 \<Longrightarrow> a @ b \<in> hashed Hash k xs \<Longrightarrow> length a = 32 \<Longrightarrow>
    a \<in> set xs \<union> Hash ` hashed Hash k xs \<and> b \<in> set xs \<union> Hash ` hashed Hash k xs"
proof (induction k arbitrary: xs)
  case (Suc k)
  have split: "a = u \<and> b = v" if "a @ b = u @ v" "length u = 32" for u v using that Suc.prems(5) by simp
  show ?case
  proof (cases "length xs \<le> 2 ^ k")
    case True
    have "length (tree_hash Hash k xs) = 32" using tree_hash_length[of Hash xs k] assms Suc.prems(1,3) by blast
    moreover have "a @ b = tree_hash Hash k xs @ tree_hash Hash k xs \<or> a @ b \<in> hashed Hash k xs" using Suc.prems(4) True by simp
    ultimately have "a = tree_hash Hash k xs \<and> b = tree_hash Hash k xs \<or> a @ b \<in> hashed Hash k xs" using split by blast
    then have "a \<in> set xs \<union> Hash ` hashed Hash k xs \<and> b \<in> set xs \<union> Hash ` hashed Hash k xs"
      using tree_hash_in[OF Suc.prems(1) True, of Hash] Suc.IH[OF Suc.prems(1) True Suc.prems(3) _ Suc.prems(5)] by blast
    then show ?thesis using hashed_parts(1)[OF True, of Hash] by blast
  next
    case False
    let ?l = "take (2 ^ k) xs" and ?r = "drop (2 ^ k) xs"
    have ne: "?l \<noteq> []" "?r \<noteq> []" and le: "length ?l \<le> 2 ^ k" "length ?r \<le> 2 ^ k" using False Suc.prems(1,2) by auto
    have sub: "set ?l \<subseteq> set xs" "set ?r \<subseteq> set xs" by (auto dest: in_set_takeD in_set_dropD)
    then have l32: "\<forall>x\<in>set ?l. length x = 32" "\<forall>x\<in>set ?r. length x = 32" using Suc.prems(3) by blast+
    have up: "set ?l \<union> Hash ` hashed Hash k ?l \<subseteq> set xs \<union> Hash ` hashed Hash (Suc k) xs"
      "set ?r \<union> Hash ` hashed Hash k ?r \<subseteq> set xs \<union> Hash ` hashed Hash (Suc k) xs"
      using sub hashed_parts(2,3)[OF False, of Hash] by blast+
    have "length (tree_hash Hash k ?l) = 32" using tree_hash_length[of Hash ?l k] assms ne(1) l32(1) by blast
    moreover have "a @ b = tree_hash Hash k ?l @ tree_hash Hash k ?r \<or> a @ b \<in> hashed Hash k ?l \<or> a @ b \<in> hashed Hash k ?r"
      using Suc.prems(4) False by simp
    ultimately consider "a = tree_hash Hash k ?l" "b = tree_hash Hash k ?r" | "a @ b \<in> hashed Hash k ?l" | "a @ b \<in> hashed Hash k ?r"
      using split by blast
    then show ?thesis
    proof cases
      case 1
      then show ?thesis using tree_hash_in[OF ne(1) le(1), of Hash] tree_hash_in[OF ne(2) le(2), of Hash] up by blast
    next
      case 2
      then show ?thesis using Suc.IH[OF ne(1) le(1) l32(1) _ Suc.prems(5)] up(1) by blast
    next
      case 3
      then show ?thesis using Suc.IH[OF ne(2) le(2) l32(2) _ Suc.prems(5)] up(2) by blast
    qed
  qed
qed simp

section \<open>Properties\<close>

text \<open>C6: a proof of transactions works. For a block with the root in its header, not flagged, the block of proofs for a set of
  transaction ids can be made, written and read back, and its tree then gives the root in the header and the ids of the set that are in the block,
  in their order and no others.\<close>

theorem proof_roundtrip:
  assumes "\<And>b. length (Hash b) = 32" "vtx block \<noteq> []" "length (vtx block) \<le> MAX_BLOCK_SIZE div 60"
    and "BlockMerkleRoot Hash (vtx block) = Some (hashMerkleRoot block, False)" "header_ok (block_GetBlockHeader block)"
    and "inj_on Hash (merkle_inputs Hash (map (GetHash Hash) (vtx block)))"
  shows "\<exists>mb mb' t. CMerkleBlock_txids Hash block txids = Some mb \<and>
    Unserialize_CMerkleBlock (Serialize_CMerkleBlock mb) = Inr (mb', []) \<and> mb_header mb' = block_GetBlockHeader block \<and>
    ExtractMatches Hash (mb_txn mb') = Some (hashMerkleRoot block, filter (\<lambda>h. h \<in> txids) (map (GetHash Hash) (vtx block)), t)"
proof -
  let ?xs = "map (GetHash Hash) (vtx block)" and ?ms = "map (\<lambda>tx. GetHash Hash tx \<in> txids) (vtx block)"
  have root: "merkle_root Hash ?xs = hashMerkleRoot block" "\<not> has_twins Hash ?xs (length ?xs)"
    using merkle_root_result[of ?xs Hash] assms(3,4) unfolding BlockMerkleRoot_def MAX_BLOCK_SIZE_def by auto
  have l32: "\<forall>x\<in>set ?xs. length x = 32" by (simp add: GetHash_def assms(1))
  obtain t where t: "CPartialMerkleTree_of Hash ?xs ?ms = Some t" "\<not> fBad t" "length (vHash t) \<le> MAX_SIZE" "length (vBits t) \<le> MAX_SIZE"
    "list_all (\<lambda>x. length x = 32) (vHash t)"
    "ExtractMatches Hash (padded t) = Some (merkle_root Hash ?xs, map fst (filter snd (zip ?xs ?ms)), padded t)"
    using partial_tree_of[OF assms(1) l32 _ _ _ assms(6) root(2), of ?ms] assms(2,3) by auto
  let ?mb = "\<lparr>mb_header = block_GetBlockHeader block, mb_txn = t, vMatchedTxn = []\<rparr>"
  have "Unserialize_CMerkleBlock (Serialize_CMerkleBlock ?mb) = Inr (?mb\<lparr>mb_txn := padded t\<rparr>, [])"
    using assms(5) header.read_back[of "block_GetBlockHeader block"] read_back_partial_tree[OF t(3-5,2), of "[]"]
    by (simp add: Unserialize_CMerkleBlock_def Serialize_CMerkleBlock_def run_read)
  moreover have "CMerkleBlock_txids Hash block txids = Some ?mb" by (simp add: CMerkleBlock_txids_def t(1))
  moreover have "map fst (filter snd (zip ?xs ?ms)) = filter (\<lambda>h. h \<in> txids) ?xs"
    using filter_zip_map[of ?xs "\<lambda>h. h \<in> txids"] by (simp add: comp_def)
  ultimately show ?thesis using t(6) root(1) by auto
qed

text \<open>A block of two transactions, with a hash that starts with the length of what is hashed.\<close>

definition demo_tree_hash :: "byte list \<Rightarrow> uint256" where
  "demo_tree_hash b = take 32 (word_of_nat (length b) # b @ replicate 32 0)"

definition demo_version_tx :: "int \<Rightarrow> CTransaction" where
  "demo_version_tx v = \<lparr>CTransaction.nVersion = v, vin = [], vout = [], nLockTime = 0\<rparr>"

definition demo_tx_hash :: "byte \<Rightarrow> uint256" where
  "demo_tx_hash b = 10 # b # replicate 30 0"

lemma le_bytes_4:
  "le_bytes 4 k = [word_of_nat (k mod 256), word_of_nat (k div 256 mod 256), word_of_nat (k div 256 div 256 mod 256), word_of_nat (k div 256 div 256 div 256 mod 256)]"
proof -
  have "4 = Suc (Suc (Suc (Suc 0)))" by simp
  then show ?thesis by (simp only: le_bytes.simps)
qed

lemma demo_tx_serialized: "Serialize_CTransaction (demo_version_tx 1) = 1 # replicate 9 0" "Serialize_CTransaction (demo_version_tx 2) = 2 # replicate 9 0"
proof -
  have nine: "replicate 9 (0 :: byte) = [0, 0, 0, 0, 0, 0, 0, 0, 0]" by (simp add: numeral_eq_Suc)
  show "Serialize_CTransaction (demo_version_tx 1) = 1 # replicate 9 0" "Serialize_CTransaction (demo_version_tx 2) = 2 # replicate 9 0"
    unfolding nine
    by (simp_all add: Serialize_CTransaction_def demo_version_tx_def ser_int32_def Serialize_vector_def WriteCompactSize_def
      ser_writedata8_def ser_writedata32_def WriteLE32_def le_bytes_4)
qed

lemma demo_GetHash: "GetHash demo_tree_hash (demo_version_tx 1) = demo_tx_hash 1" "GetHash demo_tree_hash (demo_version_tx 2) = demo_tx_hash 2"
  by (simp_all add: GetHash_def demo_tx_serialized demo_tree_hash_def demo_tx_hash_def flip: replicate_add)

lemma two_leaves_no_twins: "x \<noteq> y \<Longrightarrow> \<not> has_twins Hash [x, y] (Suc (Suc 0))"
proof
  assume "x \<noteq> y" "has_twins Hash [x, y] (Suc (Suc 0))"
  then obtain l i where li: "(2 * i + 2) * 2 ^ l \<le> 2" "node Hash [x, y] l (2 * i) = node Hash [x, y] l (2 * i + 1)"
    unfolding has_twins_def numeral_2_eq_2[symmetric] by blast
  then have "2 ^ l \<le> (1::nat)" using mult_le_mono1[of 2 "2 * i + 2" "2 ^ l"] by simp
  then have "l = 0" using less_exp[of l] by linarith
  moreover from this have "i = 0" using li(1) by simp
  ultimately show False using li(2) \<open>x \<noteq> y\<close> by (simp add: node_leaf)
qed

definition demo_proof_block :: CBlock where
  "demo_proof_block = (demo_block [demo_version_tx 1, demo_version_tx 2])\<lparr>hashMerkleRoot := demo_tree_hash (demo_tx_hash 1 @ demo_tx_hash 2)\<rparr>"

lemma demo_merkle_height: "merkle_height (Suc (Suc 0)) = Suc 0"
  using merkle_height_eq[of 2 1] by (simp add: numeral_2_eq_2)

lemma demo_merkle_tree:
  "merkle_inputs Hash [x, y] = {x @ y}" "merkle_root Hash [x, y] = Hash (x @ y)"
  by (simp_all add: merkle_inputs_def merkle_root_def demo_merkle_height)

lemma demo_tx_hash_differ: "demo_tx_hash 1 \<noteq> demo_tx_hash 2"
  by (simp add: demo_tx_hash_def)

lemma demo_root_value: "demo_tree_hash (demo_tx_hash 1 @ demo_tx_hash 2) = 64 # take 31 (demo_tx_hash 1)"
  by (simp add: demo_tree_hash_def demo_tx_hash_def)

lemma demo_proof_root:
  "BlockMerkleRoot demo_tree_hash [demo_version_tx 1, demo_version_tx 2] = Some (demo_tree_hash (demo_tx_hash 1 @ demo_tx_hash 2), False)"
  using merkle_root_result[of "[demo_tx_hash 1, demo_tx_hash 2]" demo_tree_hash]
    two_leaves_no_twins[OF demo_tx_hash_differ, of demo_tree_hash]
  by (simp add: BlockMerkleRoot_def demo_GetHash demo_merkle_tree)

theorem proof_roundtrip_witness:
  "\<exists>mb mb' t. CMerkleBlock_txids demo_tree_hash demo_proof_block {demo_tx_hash 2, blob_null 32} = Some mb \<and>
    Unserialize_CMerkleBlock (Serialize_CMerkleBlock mb) = Inr (mb', []) \<and>
    ExtractMatches demo_tree_hash (mb_txn mb') = Some (demo_tree_hash (demo_tx_hash 1 @ demo_tx_hash 2), [demo_tx_hash 2], t)"
proof -
  let ?h = demo_tree_hash
  have 1: "length (?h b) = 32" for b by (simp add: demo_tree_hash_def)
  have 2: "vtx demo_proof_block = [demo_version_tx 1, demo_version_tx 2]" "hashMerkleRoot demo_proof_block = ?h (demo_tx_hash 1 @ demo_tx_hash 2)"
    by (simp_all add: demo_proof_block_def)
  have 3: "header_ok (block_GetBlockHeader demo_proof_block)"
    by (simp add: header_ok_def block_GetBlockHeader_def demo_proof_block_def CBlockHeader.defs demo_block_def int32_ok_def blob_null_def 1)
  have "filter (\<lambda>h. h \<in> {demo_tx_hash 2, blob_null 32}) [demo_tx_hash 1, demo_tx_hash 2] = [demo_tx_hash 2]"
    using demo_tx_hash_differ by (simp add: demo_tx_hash_def blob_null_def numeral_eq_Suc)
  then show ?thesis
    using proof_roundtrip[of ?h demo_proof_block "{demo_tx_hash 2, blob_null 32}"] 1 3 demo_proof_root
    unfolding 2 by (auto simp: demo_GetHash demo_merkle_tree MAX_BLOCK_SIZE_def)
qed

text \<open>C5: a proof shows nothing else. Whatever tree is received, when the root it gives is the root of some block, every transaction whose id is
  among the matches is in that block, provided that the hashes of what is hashed in the tree received, in the tree of the block and for the transactions do not collide and
  none of these transactions takes 64 bytes, as an inner node does.\<close>

theorem matched_transactions_in_block:
  assumes "\<And>b. length (Hash b) = 32" "BlockMerkleRoot Hash txs = Some (root, mutated)" "length txs \<le> 2 ^ 31"
    and "ExtractMatches Hash t = Some (root, matches, t')" "root \<noteq> blob_null 32" "list_all (\<lambda>h. length h = 32) (vHash t)"
    and "inj_on Hash (merkle_inputs Hash (map (GetHash Hash) txs) \<union> tree_inputs Hash t \<union> Serialize_CTransaction ` insert tx (set txs))"
    and "\<forall>tx\<in>insert tx (set txs). tx_ok tx \<and> length (Serialize_CTransaction tx) \<noteq> 64"
    and "GetHash Hash tx \<in> set matches"
  shows "tx \<in> set txs"
proof -
  let ?xs = "map (GetHash Hash) txs"
  let ?k = "merkle_height (length ?xs)"
  have root: "root = merkle_root Hash ?xs" using merkle_root_result[of ?xs Hash] assms(2,3) by (simp add: BlockMerkleRoot_def)
  then have ne: "?xs \<noteq> []" using assms(5) by (auto simp: merkle_root_def)
  have l32: "\<forall>x\<in>set ?xs. length x = 32" by (simp add: GetHash_def assms(1))
  have k: "length ?xs \<le> 2 ^ ?k" using merkle_height_bound[of "length ?xs"] ne by simp
  let ?N = "tree_hashes Hash ?xs" and ?I = "tree_inputs Hash t"
  have N: "?N = set ?xs \<union> Hash ` hashed Hash ?k ?xs" by (simp add: tree_hashes_def merkle_inputs_def)
  have root_in: "root \<in> ?N" using tree_hash_in[OF ne k, of Hash] ne root by (simp add: N merkle_root_def)
  have l64: "\<forall>b\<in>hashed Hash ?k ?xs. length b = 64" by (rule hashed_length[OF assms(1) ne l32])
  have same: "c = d" if "Hash c = Hash d" "c \<in> merkle_inputs Hash ?xs \<union> ?I \<union> Serialize_CTransaction ` insert tx (set txs)"
    "d \<in> merkle_inputs Hash ?xs \<union> ?I \<union> Serialize_CTransaction ` insert tx (set txs)" for c d
    using inj_onD[OF assms(7)] that by blast
  have closed: "a \<in> ?N \<and> b \<in> ?N" if ab: "length a = 32" "length b = 32" "a @ b \<in> ?I" "Hash (a @ b) \<in> ?N" for a b
  proof -
    have "Hash (a @ b) \<notin> set ?xs"
    proof
      assume "Hash (a @ b) \<in> set ?xs"
      then obtain y where y: "y \<in> set txs" "Hash (a @ b) = Hash (Serialize_CTransaction y)" by (auto simp: GetHash_def)
      then have "a @ b = Serialize_CTransaction y" using same[OF y(2)] ab(3) by blast
      then have "length (Serialize_CTransaction y) = 64" using ab(1,2) by (metis add.commute length_append numeral_Bit0)
      then show False using assms(8) y(1) by blast
    qed
    then obtain c where c: "c \<in> hashed Hash ?k ?xs" "Hash (a @ b) = Hash c" using ab(4) N by blast
    then have "a @ b \<in> hashed Hash ?k ?xs" using same[OF c(2)] ab(3) by (auto simp: merkle_inputs_def)
    then show ?thesis using hashed_halves[of Hash, OF assms(1) ne k l32 _ ab(1)] N by blast
  qed
  have "set matches \<subseteq> ?N"
  proof -
    let ?e = "\<lparr>nBitsUsed = 0, nHashUsed = 0, xMatch = [], xBad = fBad t\<rparr>"
    obtain h e where e: "calc_height (nTransactions t) 0 = Some h" "TraverseAndExtract Hash t h 0 ?e = (root, e)" "matches = xMatch e"
      using ExtractMatches_Some[OF assms(4,5)] by blast
    have "extract_inputs Hash t h 0 ?e \<subseteq> ?I" by (simp add: tree_inputs_def e(1))
    moreover have "set (xMatch ?e) \<subseteq> ?N" by simp
    ultimately show ?thesis unfolding e(3)
      using closed by (intro matches_in_closed[of ?I Hash ?N, OF _ assms(1,6) e(2) _ root_in]) blast+
  qed
  then have "GetHash Hash tx \<in> ?N" using assms(9) by blast
  then consider y where "y \<in> set txs" "GetHash Hash tx = GetHash Hash y" | c where "c \<in> hashed Hash ?k ?xs" "GetHash Hash tx = Hash c"
    unfolding N by auto
  then show ?thesis
  proof cases
    case 1
    then have "Serialize_CTransaction tx = Serialize_CTransaction y" using same[of "Serialize_CTransaction tx" "Serialize_CTransaction y"]
      by (simp add: GetHash_def)
    then have "tx = y" using assms(8) 1(1) tx.read_back[of tx "[]"] tx.read_back[of y "[]"] by auto
    then show ?thesis using 1(1) by simp
  next
    case 2
    then have "Serialize_CTransaction tx = c" using same[of "Serialize_CTransaction tx" c] by (simp add: GetHash_def merkle_inputs_def)
    then show ?thesis using l64 2(1) assms(8) by blast
  qed
qed

definition demo_partial_tree :: CPartialMerkleTree where
  "demo_partial_tree = \<lparr>nTransactions = 2, vBits = [True, False, True], vHash = [demo_tx_hash 1, demo_tx_hash 2], fBad = False\<rparr>"

lemma demo_height: "calc_height 2 0 = Some 1"
  using calc_height_value[of 2] demo_merkle_height[folded numeral_2_eq_2] by simp

lemma demo_traverse:
  "TraverseAndExtract demo_tree_hash demo_partial_tree 1 0 \<lparr>nBitsUsed = 0, nHashUsed = 0, xMatch = [], xBad = False\<rparr> =
     (demo_tree_hash (demo_tx_hash 1 @ demo_tx_hash 2), \<lparr>nBitsUsed = 3, nHashUsed = 2, xMatch = [demo_tx_hash 2], xBad = False\<rparr>)"
  using demo_tx_hash_differ
  by (simp add: TraverseAndExtract.simps demo_partial_tree_def Let_def CalcTreeWidth_def)

theorem matched_transactions_in_block_witness:
  "ExtractMatches demo_tree_hash demo_partial_tree =
     Some (demo_tree_hash (demo_tx_hash 1 @ demo_tx_hash 2), [demo_tx_hash 2], demo_partial_tree) \<and> demo_version_tx 2 \<in> set [demo_version_tx 1, demo_version_tx 2]"
proof -
  let ?h = demo_tree_hash
  have 1: "length (?h b) = 32" for b by (simp add: demo_tree_hash_def)
  have ex: "ExtractMatches ?h demo_partial_tree = Some (?h (demo_tx_hash 1 @ demo_tx_hash 2), [demo_tx_hash 2], demo_partial_tree)"
    using demo_traverse by (simp add: ExtractMatches_def demo_height demo_partial_tree_def MAX_BLOCK_SIZE_def)
  have inputs: "tree_inputs ?h demo_partial_tree = {demo_tx_hash 1 @ demo_tx_hash 2}"
    by (simp add: tree_inputs_def demo_partial_tree_def demo_height TraverseAndExtract.simps Let_def CalcTreeWidth_def)
  have differ: "?h (demo_tx_hash 1 @ demo_tx_hash 2) \<noteq> demo_tx_hash b" for b
    unfolding demo_root_value by (simp add: demo_tx_hash_def)
  have "demo_version_tx 2 \<in> set [demo_version_tx 1, demo_version_tx 2]"
  proof (rule matched_transactions_in_block[OF 1 demo_proof_root _ ex])
    show "inj_on ?h (merkle_inputs ?h (map (GetHash ?h) [demo_version_tx 1, demo_version_tx 2]) \<union> tree_inputs ?h demo_partial_tree \<union>
        Serialize_CTransaction ` insert (demo_version_tx 2) (set [demo_version_tx 1, demo_version_tx 2]))"
      using demo_GetHash demo_tx_hash_differ differ differ[symmetric] by (simp add: inputs demo_merkle_tree inj_on_def GetHash_def)
    show "\<forall>tx\<in>insert (demo_version_tx 2) (set [demo_version_tx 1, demo_version_tx 2]). tx_ok tx \<and> length (Serialize_CTransaction tx) \<noteq> 64"
      by (simp add: demo_tx_serialized) (simp add: tx_ok_def demo_version_tx_def int32_ok_def)
    show "demo_tree_hash (demo_tx_hash 1 @ demo_tx_hash 2) \<noteq> blob_null 32"
      by (simp add: demo_tree_hash_def demo_tx_hash_def blob_null_def numeral_eq_Suc)
    show "list_all (\<lambda>h. length h = 32) (vHash demo_partial_tree)"
      by (simp add: demo_partial_tree_def demo_tx_hash_def)
    show "GetHash ?h (demo_version_tx 2) \<in> set [demo_tx_hash 2]" by (simp add: demo_GetHash)
  qed simp
  then show ?thesis using ex by simp
qed

end
