(* ===== verification/BlockIndex.thy ===== *)
theory BlockIndex
  imports Connect
begin

text \<open>
  The global state of \<^verbatim>\<open>main.cpp\<close> that says which blocks are known and which of them may become the best chain: \<^verbatim>\<open>mapBlockIndex\<close>,
  \<^verbatim>\<open>setBlockIndexCandidates\<close>, \<^verbatim>\<open>mapBlocksUnlinked\<close> and their companions, with the operations on them. The set of candidates is the
  sequence of its elements in the order of its comparator, as \<^verbatim>\<open>std::set\<close> keeps them, and a multimap the sequence of its
  entries in the order in which they were inserted. \<open>None\<close> is an assertion that fails, or a null or
  dangling pointer that is followed. What is only shown to the user or to peers (warnings, messages about rejected blocks) is left out.
\<close>

section \<open>State\<close>

record index_state =
  tree :: block_store
  mapBlockIndex :: "(uint256 \<times> nat) list"
  chainActive :: CChain
  setBlockIndexCandidates :: "nat list"
  mapBlocksUnlinked :: "(nat option \<times> nat) list"
  pindexBestInvalid :: "nat option"
  pindexBestHeader :: "nat option"
  nBlockSequenceId :: u32
  setDirtyBlockIndex :: "nat list"

definition set_block :: "nat \<Rightarrow> CBlockIndex \<Rightarrow> 'a index_state_scheme \<Rightarrow> 'a index_state_scheme" where
  "set_block p b s = s\<lparr>tree := (tree s)(p \<mapsto> b)\<rparr>"

definition set_dirty :: "nat \<Rightarrow> 'a index_state_scheme \<Rightarrow> 'a index_state_scheme" where
  "set_dirty p s = s\<lparr>setDirtyBlockIndex := List.insert p (setDirtyBlockIndex s)\<rparr>"

text \<open>\<^verbatim>\<open>pindex->nStatus |= flag\<close>\<close>

definition add_status :: "nat \<Rightarrow> u32 \<Rightarrow> 'a index_state_scheme \<Rightarrow> 'a index_state_scheme option" where
  "add_status p flag s = do { b \<leftarrow> tree s p; Some (set_block p (b\<lparr>nStatus := nStatus b OR flag\<rparr>) s) }"

definition failed :: "CBlockIndex \<Rightarrow> bool" where
  "failed b \<longleftrightarrow> nStatus b AND BLOCK_FAILED_MASK \<noteq> 0"

definition has_data :: "CBlockIndex \<Rightarrow> bool" where
  "has_data b \<longleftrightarrow> nStatus b AND BLOCK_HAVE_DATA \<noteq> 0"

section \<open>The set of candidates\<close>

text \<open>Elements of the set are entries of the tree.\<close>

definition CBlockIndexWorkComparator :: "block_store \<Rightarrow> nat \<Rightarrow> nat \<Rightarrow> bool" where
  "CBlockIndexWorkComparator st pa pb =
     (case (st pa, st pb) of
        (Some a, Some b) \<Rightarrow>
          if CompareTo (nChainWork a) (nChainWork b) > 0 then False
          else if CompareTo (nChainWork a) (nChainWork b) < 0 then True
          else if nSequenceId a < nSequenceId b then False
          else if nSequenceId a > nSequenceId b then True
          else if pa < pb then False
          else if pa > pb then True
          else False
      | _ \<Rightarrow> False)"

fun ordered_insert :: "(nat \<Rightarrow> nat \<Rightarrow> bool) \<Rightarrow> nat \<Rightarrow> nat list \<Rightarrow> nat list" where
  "ordered_insert lt p [] = [p]"
| "ordered_insert lt p (x # xs) =
     (if lt p x then p # x # xs else if lt x p then x # ordered_insert lt p xs else x # xs)"

definition insert_candidate :: "nat \<Rightarrow> 'a index_state_scheme \<Rightarrow> 'a index_state_scheme" where
  "insert_candidate p s =
     s\<lparr>setBlockIndexCandidates := ordered_insert (CBlockIndexWorkComparator (tree s)) p (setBlockIndexCandidates s)\<rparr>"

definition erase_candidate :: "nat \<Rightarrow> 'a index_state_scheme \<Rightarrow> 'a index_state_scheme" where
  "erase_candidate p s = s\<lparr>setBlockIndexCandidates := filter (\<lambda>x. x \<noteq> p) (setBlockIndexCandidates s)\<rparr>"

section \<open>Invalid blocks\<close>

definition more_work :: "block_store \<Rightarrow> nat \<Rightarrow> nat option \<Rightarrow> bool option" where
  "more_work st p q =
     (case q of
        None \<Rightarrow> Some True
      | Some q \<Rightarrow> do { a \<leftarrow> st p; b \<leftarrow> st q; Some (CompareTo (nChainWork a) (nChainWork b) > 0) })"

definition InvalidChainFound :: "nat \<Rightarrow> 'a index_state_scheme \<Rightarrow> 'a index_state_scheme option" where
  "InvalidChainFound pindexNew s =
     do { worse \<leftarrow> more_work (tree s) pindexNew (pindexBestInvalid s);
          tip \<leftarrow> Tip (chainActive s);
          Some (if worse then s\<lparr>pindexBestInvalid := Some pindexNew\<rparr> else s) }"

definition InvalidBlockFound :: "nat \<Rightarrow> CValidationState \<Rightarrow> 'a index_state_scheme \<Rightarrow> 'a index_state_scheme option" where
  "InvalidBlockFound pindex state s =
     (if \<not> corruptionPossible state
      then do { s \<leftarrow> add_status pindex BLOCK_FAILED_VALID s; InvalidChainFound pindex (erase_candidate pindex (set_dirty pindex s)) }
      else Some s)"

section \<open>The candidate with the most work\<close>

text \<open>The walk from a candidate to the active chain: the first block on it that is failed or has no data, and which of the two.\<close>

partial_function (option) find_fault :: "block_store \<Rightarrow> CChain \<Rightarrow> nat option \<Rightarrow> (nat \<times> bool) option option" where
  "find_fault st chain pindexTest =
     (case pindexTest of
        None \<Rightarrow> Some None
      | Some p \<Rightarrow>
          do { c \<leftarrow> Contains st chain p;
               if c then Some None
               else do { b \<leftarrow> st p;
                         if nChainTx b = 0 \<and> nHeight b \<noteq> 0 then None
                         else if failed b \<or> \<not> has_data b then Some (Some (p, failed b))
                         else find_fault st chain (pprev b) } })"

text \<open>The loop that removes the chain above the fault.\<close>

partial_function (option) remove_chain :: "nat \<Rightarrow> bool \<Rightarrow> nat \<Rightarrow> index_state \<Rightarrow> index_state option" where
  "remove_chain pindexTest fFailedChain pindexFailed s =
     (if pindexTest = pindexFailed then Some s
      else do { b \<leftarrow> tree s pindexFailed;
                let s1 = (if fFailedChain then set_block pindexFailed (b\<lparr>nStatus := nStatus b OR BLOCK_FAILED_CHILD\<rparr>) s
                          else s\<lparr>mapBlocksUnlinked := mapBlocksUnlinked s @ [(pprev b, pindexFailed)]\<rparr>) in
                do { q \<leftarrow> pprev b; remove_chain pindexTest fFailedChain q (erase_candidate pindexFailed s1) } })"

partial_function (option) FindMostWorkChain :: "index_state \<Rightarrow> (nat option \<times> index_state) option" where
  "FindMostWorkChain s =
     (if setBlockIndexCandidates s = [] then Some (None, s)
      else let pindexNew = last (setBlockIndexCandidates s) in
           do { fault \<leftarrow> find_fault (tree s) (chainActive s) (Some pindexNew);
                case fault of
                  None \<Rightarrow> Some (Some pindexNew, s)
                | Some (pindexTest, fFailedChain) \<Rightarrow>
                    do { worse \<leftarrow> (if fFailedChain then more_work (tree s) pindexNew (pindexBestInvalid s) else Some False);
                         s \<leftarrow> remove_chain pindexTest fFailedChain pindexNew (if worse then s\<lparr>pindexBestInvalid := Some pindexNew\<rparr> else s);
                         FindMostWorkChain (erase_candidate pindexTest s) } })"

definition PruneBlockIndexCandidates :: "'a index_state_scheme \<Rightarrow> 'a index_state_scheme option" where
  "PruneBlockIndexCandidates s =
     (if setBlockIndexCandidates s = [] then None
      else do { tip \<leftarrow> Tip (chainActive s);
                let rest = dropWhile (\<lambda>p. CBlockIndexWorkComparator (tree s) p tip) (setBlockIndexCandidates s) in
                if rest = [] then None else Some (s\<lparr>setBlockIndexCandidates := rest\<rparr>) })"

section \<open>New headers and blocks\<close>

text \<open>\<open>addr\<close> is where \<^verbatim>\<open>new CBlockIndex\<close> puts the entry.\<close>

definition AddToBlockIndex :: "(byte list \<Rightarrow> uint256) \<Rightarrow> 'b CBlockHeader_scheme \<Rightarrow> nat \<Rightarrow> index_state \<Rightarrow> (nat \<times> index_state) option" where
  "AddToBlockIndex Hash block addr s =
     (let hash = header_GetHash Hash block in
      case map_of (mapBlockIndex s) hash of
        Some p \<Rightarrow> Some (p, s)
      | None \<Rightarrow>
          do { let b = (CBlockIndex_of (CBlockHeader.truncate block))\<lparr>nSequenceId := 0, phashBlock := Some hash\<rparr>;
               st \<leftarrow> (case map_of (mapBlockIndex s) (hashPrevBlock block) of
                        None \<Rightarrow> Some ((tree s)(addr \<mapsto> b))
                      | Some q \<Rightarrow> do { a \<leftarrow> tree s q; BuildSkip ((tree s)(addr \<mapsto> b\<lparr>pprev := Some q, nHeight := nHeight a + 1\<rparr>)) addr });
               b \<leftarrow> st addr;
               proof \<leftarrow> GetBlockProof b;
               prevWork \<leftarrow> (case pprev b of None \<Rightarrow> Some bu_zero | Some q \<Rightarrow> map_option nChainWork (st q));
               (b, _) \<leftarrow> RaiseValidity (b\<lparr>nChainWork := bu_add prevWork proof\<rparr>) BLOCK_VALID_TREE;
               let s = s\<lparr>tree := st(addr \<mapsto> b), mapBlockIndex := (hash, addr) # mapBlockIndex s\<rparr>;
               better \<leftarrow> (case pindexBestHeader s of
                            None \<Rightarrow> Some True
                          | Some h \<Rightarrow> do { a \<leftarrow> tree s h; Some (CompareTo (nChainWork a) (nChainWork b) < 0) });
               Some (addr, set_dirty addr (if better then s\<lparr>pindexBestHeader := Some addr\<rparr> else s)) })"

text \<open>The loop over the queue of \<^verbatim>\<open>ReceivedBlockTransactions\<close>.\<close>

definition link_block :: "nat \<Rightarrow> index_state \<Rightarrow> index_state option" where
  "link_block pindex s =
     do { b \<leftarrow> tree s pindex;
          prevTx \<leftarrow> (case pprev b of None \<Rightarrow> Some 0 | Some q \<Rightarrow> map_option nChainTx (tree s q));
          let s1 = (set_block pindex (b\<lparr>nChainTx := prevTx + nTx b, nSequenceId := nBlockSequenceId s\<rparr>) s)
                     \<lparr>nBlockSequenceId := nBlockSequenceId s + 1\<rparr>;
          Some (case Tip (chainActive s1) of
                  None \<Rightarrow> insert_candidate pindex s1
                | Some tip \<Rightarrow> if \<not> CBlockIndexWorkComparator (tree s1) pindex tip then insert_candidate pindex s1 else s1) }"

lemma link_block_unlinked: "link_block p s = Some s1 \<Longrightarrow> mapBlocksUnlinked s1 = mapBlocksUnlinked s"
  by (auto simp: link_block_def set_block_def insert_candidate_def Let_def split: Option.bind_splits option.splits if_splits)

function link_queue :: "nat list \<Rightarrow> index_state \<Rightarrow> index_state option" where
  "link_queue [] s = Some s"
| "link_queue (pindex # queue) s =
     (case link_block pindex s of
        None \<Rightarrow> None
      | Some s1 \<Rightarrow>
          link_queue (queue @ map snd (filter (\<lambda>e. fst e = Some pindex) (mapBlocksUnlinked s1)))
            (s1\<lparr>mapBlocksUnlinked := filter (\<lambda>e. fst e \<noteq> Some pindex) (mapBlocksUnlinked s1)\<rparr>))"
  by pat_completeness auto

termination
proof (relation "measure (\<lambda>(queue, s). length queue + length (mapBlocksUnlinked s))")
  fix p queue and s s1 :: index_state assume s1: "link_block p s = Some s1"
  have "length (filter (\<lambda>e. fst e = Some p) m) + length (filter (\<lambda>e. fst e \<noteq> Some p) m) = length m" for m :: "(nat option \<times> nat) list"
    by (rule sum_length_filter_compl)
  from this[of "mapBlocksUnlinked s1"] link_block_unlinked[OF s1]
  show "((queue @ map snd (filter (\<lambda>e. fst e = Some p) (mapBlocksUnlinked s1)),
          s1\<lparr>mapBlocksUnlinked := filter (\<lambda>e. fst e \<noteq> Some p) (mapBlocksUnlinked s1)\<rparr>), p # queue, s)
        \<in> measure (\<lambda>(queue, s). length queue + length (mapBlocksUnlinked s))"
    by simp
qed simp

definition ReceivedBlockTransactions :: "nat \<Rightarrow> nat \<Rightarrow> CDiskBlockPos \<Rightarrow> index_state \<Rightarrow> index_state option" where
  "ReceivedBlockTransactions vtx_size pindexNew pos s =
     do { b \<leftarrow> tree s pindexNew;
          (b, _) \<leftarrow> RaiseValidity (b\<lparr>nTx := word_of_nat vtx_size, nChainTx := 0, nFile := pos_nFile pos, nDataPos := pos_nPos pos,
                                 nUndoPos := 0, nStatus := nStatus b OR BLOCK_HAVE_DATA\<rparr>) BLOCK_VALID_TRANSACTIONS;
          let s = set_dirty pindexNew (set_block pindexNew b s);
          (case pprev b of
             None \<Rightarrow> link_queue [pindexNew] s
           | Some q \<Rightarrow>
               do { a \<leftarrow> tree s q;
                    if nChainTx a \<noteq> 0 then link_queue [pindexNew] s
                    else do { v \<leftarrow> IsValid a BLOCK_VALID_TREE;
                              Some (if v then s\<lparr>mapBlocksUnlinked := mapBlocksUnlinked s @ [(Some q, pindexNew)]\<rparr> else s) } }) }"

section \<open>Reconsidering a block\<close>

text \<open>\<^verbatim>\<open>it->second->IsValid()\<close> has the default argument \<^verbatim>\<open>BLOCK_VALID_TRANSACTIONS\<close>. The set is inserted into if the tip sorts before the block; a null
  tip is followed.\<close>

definition reconsider_entry :: "nat \<Rightarrow> int \<Rightarrow> nat \<Rightarrow> index_state \<Rightarrow> index_state option" where
  "reconsider_entry pindex nHeight0 p s =
     do { b \<leftarrow> tree s p;
          valid \<leftarrow> IsValid b BLOCK_VALID_TRANSACTIONS;
          a \<leftarrow> (if valid then Some None else GetAncestor (tree s) p nHeight0);
          if valid \<or> a \<noteq> Some pindex then Some s
          else do { let b = b\<lparr>nStatus := nStatus b AND NOT BLOCK_FAILED_MASK\<rparr>;
                    let s = set_dirty p (set_block p b s);
                    v \<leftarrow> IsValid b BLOCK_VALID_TRANSACTIONS;
                    s \<leftarrow> (if v \<and> nChainTx b \<noteq> 0
                         then do { tip \<leftarrow> Tip (chainActive s);
                                   Some (if CBlockIndexWorkComparator (tree s) tip p then insert_candidate p s else s) }
                         else Some s);
                    Some (if pindexBestInvalid s = Some p then s\<lparr>pindexBestInvalid := None\<rparr> else s) } }"

primrec reconsider_entries :: "nat \<Rightarrow> int \<Rightarrow> (uint256 \<times> nat) list \<Rightarrow> index_state \<Rightarrow> index_state option" where
  "reconsider_entries pindex nHeight0 [] s = Some s"
| "reconsider_entries pindex nHeight0 (it # its) s = do { s \<leftarrow> reconsider_entry pindex nHeight0 (snd it) s; reconsider_entries pindex nHeight0 its s }"

partial_function (option) reconsider_ancestors :: "nat option \<Rightarrow> index_state \<Rightarrow> index_state option" where
  "reconsider_ancestors pindex s =
     (case pindex of
        None \<Rightarrow> Some s
      | Some p \<Rightarrow>
          do { b \<leftarrow> tree s p;
               reconsider_ancestors (pprev b)
                 (if failed b then set_dirty p (set_block p (b\<lparr>nStatus := nStatus b AND NOT BLOCK_FAILED_MASK\<rparr>) s) else s) })"

definition ReconsiderBlock :: "nat \<Rightarrow> index_state \<Rightarrow> index_state option" where
  "ReconsiderBlock pindex s =
     do { b \<leftarrow> tree s pindex;
          s \<leftarrow> reconsider_entries pindex (nHeight b) (mapBlockIndex s) s;
          reconsider_ancestors (Some pindex) s }"

section \<open>Headers\<close>

definition CheckIndexAgainstCheckpoint :: "connect_env \<Rightarrow> index_state \<Rightarrow> nat \<Rightarrow> CValidationState \<Rightarrow> check_fail + unit" where
  "CheckIndexAgainstCheckpoint e s pindexPrev state =
     andThen (need (tree s pindexPrev)) (\<lambda>b. andThen (need (phashBlock b)) (\<lambda>h.
     if h = hashGenesisBlock (env_params e) then Inr ()
     else (case GetLastCheckpoint (mapCheckpoints e) (map_of (mapBlockIndex s)) of
             None \<Rightarrow> Inr ()
           | Some q \<Rightarrow> andThen (need (tree s q)) (\<lambda>c.
               if nHeight b + 1 < nHeight c then Inl (Rejected (state_DoS state 100 0 [] False)) else Inr ()))))"

definition AcceptBlockHeader ::
    "connect_env \<Rightarrow> 'b CBlockHeader_scheme \<Rightarrow> CValidationState \<Rightarrow> nat \<Rightarrow> index_state \<Rightarrow> check_fail + nat \<times> index_state" where
  "AcceptBlockHeader e block state addr s =
     (let hash = header_GetHash (env_Hash e) block in
      if hash \<noteq> hashGenesisBlock (env_params e) then
        (case map_of (mapBlockIndex s) hash of
           Some p \<Rightarrow> andThen (need (tree s p)) (\<lambda>b.
             if failed b then Inl (Rejected (state_Invalid state 0 ''duplicate'')) else Inr (p, s))
         | None \<Rightarrow>
             andThen (CheckBlockHeader (env_Hash e) (env_params e) (env_time e) block state True) (\<lambda>_.
             (case map_of (mapBlockIndex s) (hashPrevBlock block) of
                None \<Rightarrow> Inl (Rejected (state_DoS state 10 0 ''bad-prevblk'' False))
              | Some q \<Rightarrow> andThen (need (tree s q)) (\<lambda>a.
                  if failed a then reject_DoS state 100 ''bad-prevblk''
                  else andThen (if fCheckpointsEnabled e then CheckIndexAgainstCheckpoint e s q state else Inr ()) (\<lambda>_.
                       andThen (ContextualCheckBlockHeader (tree s) (env_params e) (CBlockHeader.truncate block) state q) (\<lambda>_.
                       need (AddToBlockIndex (env_Hash e) block addr s)))))))
      else need (AddToBlockIndex (env_Hash e) block addr s))"

end
