(* ===== verification/Compressor.thy ===== *)
theory Compressor
  imports Ledger
begin

text \<open>
  The compact encodings of the chain state: \<^verbatim>\<open>compressor.h\<close> and \<^verbatim>\<open>compressor.cpp\<close> for scripts and amounts, the coins of a
  transaction as the database holds them (\<^verbatim>\<open>coins.h\<close>), and undo data (\<^verbatim>\<open>undo.h\<close>). The properties say that everything is read back.

  The two operations on the elliptic curve that \<^verbatim>\<open>CPubKey\<close> calls are arguments: \<open>valid\<close> is \<^verbatim>\<open>IsFullyValid\<close>, and \<open>point\<close> is
  \<^verbatim>\<open>CPubKey::Decompress\<close>, which gives the uncompressed key if there is one.
\<close>

section \<open>Integers of other widths in the variable-length encoding\<close>

text \<open>An \<^verbatim>\<open>int\<close> that is negative fits in one byte for the writer, which keeps its lowest seven bits. Of a longer encoding than the type admits the
  reader keeps the lower bits.\<close>

definition WriteVarInt_u32 :: "u32 \<Rightarrow> byte list" where
  "WriteVarInt_u32 n = WriteVarInt (ucast n)"

definition ReadVarInt_u32 :: "u32 reader" where
  "ReadVarInt_u32 = readThen ReadVarInt (\<lambda>n. readReturn (ucast n))"

definition WriteVarInt_int :: "int \<Rightarrow> byte list" where
  "WriteVarInt_int n = (if n \<le> 0x7f then [word_of_int n AND 0x7f] else WriteVarInt (word_of_int n))"

definition GetSizeOfVarInt_int :: "int \<Rightarrow> nat" where
  "GetSizeOfVarInt_int n = (if n \<le> 0x7f then 1 else GetSizeOfVarInt (word_of_int n))"

definition ReadVarInt_int :: "int reader" where
  "ReadVarInt_int = readThen ReadVarInt (\<lambda>n. readReturn (sint (ucast n :: u32)))"

section \<open>Scripts\<close>

definition nSpecialScripts :: u32 where "nSpecialScripts = 6"

definition IsToKeyID :: "CScript \<Rightarrow> valtype option" where
  "IsToKeyID s =
     (if length s = 25 \<and> s ! 0 = OP_DUP \<and> s ! 1 = OP_HASH160 \<and> s ! 2 = 20 \<and> s ! 23 = OP_EQUALVERIFY \<and> s ! 24 = OP_CHECKSIG
      then Some (take 20 (drop 3 s)) else None)"

definition IsToScriptID :: "CScript \<Rightarrow> valtype option" where
  "IsToScriptID s =
     (if length s = 23 \<and> s ! 0 = OP_HASH160 \<and> s ! 1 = 20 \<and> s ! 22 = OP_EQUAL then Some (take 20 (drop 2 s)) else None)"

definition IsToPubKey :: "(valtype \<Rightarrow> bool) \<Rightarrow> CScript \<Rightarrow> valtype option" where
  "IsToPubKey valid s =
     (if length s = 35 \<and> s ! 0 = 33 \<and> s ! 34 = OP_CHECKSIG \<and> (s ! 1 = 0x02 \<or> s ! 1 = 0x03) then Some (take 33 (drop 1 s))
      else if length s = 67 \<and> s ! 0 = 65 \<and> s ! 66 = OP_CHECKSIG \<and> s ! 1 = 0x04
      then (let pubkey = take 65 (drop 1 s) in if valid pubkey then Some pubkey else None)
      else None)"

definition Compress :: "(valtype \<Rightarrow> bool) \<Rightarrow> CScript \<Rightarrow> byte list option" where
  "Compress valid s =
     (case IsToKeyID s of
        Some keyID \<Rightarrow> Some (0x00 # keyID)
      | None \<Rightarrow>
          (case IsToScriptID s of
             Some scriptID \<Rightarrow> Some (0x01 # scriptID)
           | None \<Rightarrow>
               (case IsToPubKey valid s of
                  Some pubkey \<Rightarrow>
                    if pubkey ! 0 = 0x02 \<or> pubkey ! 0 = 0x03 then Some (pubkey ! 0 # take 32 (drop 1 pubkey))
                    else if pubkey ! 0 = 0x04 then Some ((0x04 OR (pubkey ! 64 AND 0x01)) # take 32 (drop 1 pubkey))
                    else None
                | None \<Rightarrow> None)))"

definition GetSpecialSize :: "u32 \<Rightarrow> nat" where
  "GetSpecialSize nSize =
     (if nSize = 0 \<or> nSize = 1 then 20 else if nSize = 2 \<or> nSize = 3 \<or> nSize = 4 \<or> nSize = 5 then 32 else 0)"

text \<open>\<open>None\<close> is the answer \<^verbatim>\<open>false\<close>, with the script as it was.\<close>

definition Decompress :: "(valtype \<Rightarrow> valtype option) \<Rightarrow> u32 \<Rightarrow> byte list \<Rightarrow> CScript option" where
  "Decompress point nSize vch =
     (if nSize = 0x00 then Some ([OP_DUP, OP_HASH160, 20] @ take 20 vch @ [OP_EQUALVERIFY, OP_CHECKSIG])
      else if nSize = 0x01 then Some ([OP_HASH160, 20] @ take 20 vch @ [OP_EQUAL])
      else if nSize = 0x02 \<or> nSize = 0x03 then Some ([33, ucast nSize] @ take 32 vch @ [OP_CHECKSIG])
      else if nSize = 0x04 \<or> nSize = 0x05 then
        map_option (\<lambda>pubkey. [65] @ pubkey @ [OP_CHECKSIG]) (point (ucast (nSize - 2) # take 32 vch))
      else None)"

definition Serialize_CScriptCompressor :: "(valtype \<Rightarrow> bool) \<Rightarrow> CScript \<Rightarrow> byte list" where
  "Serialize_CScriptCompressor valid s =
     (case Compress valid s of
        Some compr \<Rightarrow> compr
      | None \<Rightarrow> WriteVarInt_u32 (word_of_nat (length s) + nSpecialScripts) @ s)"

text \<open>The script that is read into is empty.\<close>

definition Unserialize_CScriptCompressor :: "(valtype \<Rightarrow> valtype option) \<Rightarrow> CScript reader" where
  "Unserialize_CScriptCompressor point =
     readThen ReadVarInt_u32 (\<lambda>nSize.
       if nSize < nSpecialScripts
       then readThen (read_bytes (GetSpecialSize nSize)) (\<lambda>vch.
              readReturn (case Decompress point nSize vch of Some s \<Rightarrow> s | None \<Rightarrow> []))
       else read_bytes (unat (nSize - nSpecialScripts)))"

definition script_GetSerializeSize :: "(valtype \<Rightarrow> bool) \<Rightarrow> CScript \<Rightarrow> nat" where
  "script_GetSerializeSize valid s =
     (case Compress valid s of
        Some compr \<Rightarrow> length compr
      | None \<Rightarrow> length s + GetSizeOfVarInt (ucast (word_of_nat (length s) + nSpecialScripts)))"

section \<open>Amounts\<close>

text \<open>The loop that divides by ten; it stops at a last digit other than zero, as is asserted behind it, or after nine divisions.\<close>

function strip_zeros :: "u64 \<Rightarrow> nat \<Rightarrow> u64 \<times> nat" where
  "strip_zeros n e = (if n mod 10 = 0 \<and> e < 9 then strip_zeros (n div 10) (e + 1) else (n, e))"
  by pat_completeness auto
termination
  by (relation "measure (\<lambda>(n, e). 9 - e)") auto

declare strip_zeros.simps [simp del]

definition CompressAmount :: "u64 \<Rightarrow> u64" where
  "CompressAmount n =
     (if n = 0 then 0
      else case strip_zeros n 0 of
        (n, e) \<Rightarrow> if e < 9 then 1 + (n div 10 * 9 + n mod 10 - 1) * 10 + word_of_nat e
                   else 1 + (n - 1) * 10 + 9)"

definition DecompressAmount :: "u64 \<Rightarrow> u64" where
  "DecompressAmount x =
     (if x = 0 then 0
      else let x = x - 1; e = unat (x mod 10); x = x div 10;
               n = (if e < 9 then x div 9 * 10 + (x mod 9 + 1) else x + 1)
           in n * 10 ^ e)"

definition Serialize_CTxOutCompressor :: "(valtype \<Rightarrow> bool) \<Rightarrow> CTxOut \<Rightarrow> byte list" where
  "Serialize_CTxOutCompressor valid t =
     WriteVarInt (CompressAmount (word_of_int (nValue t))) @ Serialize_CScriptCompressor valid (scriptPubKey t)"

definition Unserialize_CTxOutCompressor :: "(valtype \<Rightarrow> valtype option) \<Rightarrow> CTxOut reader" where
  "Unserialize_CTxOutCompressor point =
     readThen ReadVarInt (\<lambda>nVal. readThen (Unserialize_CScriptCompressor point) (\<lambda>s.
       readReturn \<lparr>nValue = sint (DecompressAmount nVal), scriptPubKey = s\<rparr>))"

definition txout_GetSerializeSize :: "(valtype \<Rightarrow> bool) \<Rightarrow> CTxOut \<Rightarrow> nat" where
  "txout_GetSerializeSize valid t = GetSizeOfVarInt (CompressAmount (word_of_int (nValue t))) + script_GetSerializeSize valid (scriptPubKey t)"

section \<open>Undo data\<close>

definition Serialize_CTxInUndo :: "(valtype \<Rightarrow> bool) \<Rightarrow> CTxInUndo \<Rightarrow> byte list" where
  "Serialize_CTxInUndo valid u =
     WriteVarInt_u32 (word_of_int (u_nHeight u) * 2 + (if u_fCoinBase u then 1 else 0)) @
     (if u_nHeight u > 0 then WriteVarInt_int (u_nVersion u) else []) @
     Serialize_CTxOutCompressor valid (u_txout u)"

text \<open>The object that is read into was made by the default constructor.\<close>

definition Unserialize_CTxInUndo :: "(valtype \<Rightarrow> valtype option) \<Rightarrow> CTxInUndo reader" where
  "Unserialize_CTxInUndo point =
     readThen ReadVarInt_u32 (\<lambda>nCode.
     readThen (if nCode div 2 > 0 then ReadVarInt_int else readReturn 0) (\<lambda>v.
     readThen (Unserialize_CTxOutCompressor point) (\<lambda>t.
       readReturn \<lparr>u_txout = t, u_fCoinBase = (nCode AND 1 \<noteq> 0), u_nHeight = uint (nCode div 2), u_nVersion = v\<rparr>)))"

definition CTxInUndo_GetSerializeSize :: "(valtype \<Rightarrow> bool) \<Rightarrow> CTxInUndo \<Rightarrow> nat" where
  "CTxInUndo_GetSerializeSize valid u =
     GetSizeOfVarInt (ucast (word_of_int (u_nHeight u) * 2 + (if u_fCoinBase u then 1 else 0) :: u32)) +
     (if u_nHeight u > 0 then GetSizeOfVarInt_int (u_nVersion u) else 0) + txout_GetSerializeSize valid (u_txout u)"

definition Serialize_CTxUndo :: "(valtype \<Rightarrow> bool) \<Rightarrow> CTxUndo \<Rightarrow> byte list" where
  "Serialize_CTxUndo valid = Serialize_vector (Serialize_CTxInUndo valid)"

definition Unserialize_CTxUndo :: "(valtype \<Rightarrow> valtype option) \<Rightarrow> CTxUndo reader" where
  "Unserialize_CTxUndo point = Unserialize_vector (Unserialize_CTxInUndo point)"

definition Serialize_CBlockUndo :: "(valtype \<Rightarrow> bool) \<Rightarrow> CTxUndo list \<Rightarrow> byte list" where
  "Serialize_CBlockUndo valid = Serialize_vector (Serialize_CTxUndo valid)"

definition Unserialize_CBlockUndo :: "(valtype \<Rightarrow> valtype option) \<Rightarrow> CTxUndo list reader" where
  "Unserialize_CBlockUndo point = Unserialize_vector (Unserialize_CTxUndo point)"

section \<open>Coins\<close>

text \<open>Whether output \<open>i\<close> is there and not spent; a byte of the mask, and the loop of \<^verbatim>\<open>CalcMaskSize\<close> over the bytes.\<close>

definition mask_byte :: "CTxOut list \<Rightarrow> nat \<Rightarrow> byte" where
  "mask_byte v b =
     fold (\<lambda>i chAvail. if 2 + b * 8 + i < length v \<and> \<not> CTxOut_IsNull (v ! (2 + b * 8 + i)) then chAvail OR push_bit i 1 else chAvail)
       [0..<8] 0"

definition mask_zero :: "CTxOut list \<Rightarrow> nat \<Rightarrow> bool" where
  "mask_zero v b \<longleftrightarrow> list_all (\<lambda>i. 2 + b * 8 + i < length v \<longrightarrow> CTxOut_IsNull (v ! (2 + b * 8 + i))) [0..<8]"

definition CalcMaskSize :: "CTxOut list \<Rightarrow> nat \<times> nat" where
  "CalcMaskSize v =
     fold (\<lambda>b (nBytes, nNonzeroBytes). if \<not> mask_zero v b then (b + 1, nNonzeroBytes + 1) else (nBytes, nNonzeroBytes))
       [0..<(length v - 2 + 7) div 8] (0, 0)"

definition output_unspent :: "CTxOut list \<Rightarrow> nat \<Rightarrow> bool" where
  "output_unspent v i \<longleftrightarrow> i < length v \<and> \<not> CTxOut_IsNull (v ! i)"

definition coins_code :: "CCoins \<Rightarrow> nat \<Rightarrow> u32" where
  "coins_code c nMaskCode =
     (let fFirst = output_unspent (cvout c) 0; fSecond = output_unspent (cvout c) 1
      in 8 * (word_of_nat nMaskCode - (if fFirst \<or> fSecond then 0 else 1)) + (if fCoinBase c then 1 else 0) +
         (if fFirst then 2 else 0) + (if fSecond then 4 else 0))"

text \<open>\<open>None\<close>: the assertion that some output is unspent fails.\<close>

definition Serialize_CCoins :: "(valtype \<Rightarrow> bool) \<Rightarrow> CCoins \<Rightarrow> byte list option" where
  "Serialize_CCoins valid c =
     (case CalcMaskSize (cvout c) of
        (nMaskSize, nMaskCode) \<Rightarrow>
          if \<not> (output_unspent (cvout c) 0 \<or> output_unspent (cvout c) 1 \<or> nMaskCode \<noteq> 0) then None
          else Some (WriteVarInt_int (cVersion c) @ WriteVarInt_u32 (coins_code c nMaskCode) @
                 map (mask_byte (cvout c)) [0..<nMaskSize] @
                 concat (map (Serialize_CTxOutCompressor valid) (filter (\<lambda>t. \<not> CTxOut_IsNull t) (cvout c))) @
                 WriteVarInt_int (cHeight c)))"

text \<open>The sizes that the database and the files reserve.\<close>

definition CCoins_GetSerializeSize :: "(valtype \<Rightarrow> bool) \<Rightarrow> CCoins \<Rightarrow> nat option" where
  "CCoins_GetSerializeSize valid c =
     (case CalcMaskSize (cvout c) of
        (nMaskSize, nMaskCode) \<Rightarrow>
          if \<not> (output_unspent (cvout c) 0 \<or> output_unspent (cvout c) 1 \<or> nMaskCode \<noteq> 0) then None
          else Some (GetSizeOfVarInt_int (cVersion c) + GetSizeOfVarInt (ucast (coins_code c nMaskCode)) + nMaskSize +
                 sum_list (map (txout_GetSerializeSize valid) (filter (\<lambda>t. \<not> CTxOut_IsNull t) (cvout c))) +
                 GetSizeOfVarInt_int (cHeight c)))"

text \<open>The loop that reads the mask until it has seen the given number of bytes other than zero: it ends, because the bytes are used up.\<close>

fun read_mask :: "u32 \<Rightarrow> bool list \<Rightarrow> bool list reader" where
  "read_mask nMaskCode vAvail [] = (if nMaskCode > 0 then Inl End_of_data else Inr (vAvail, []))"
| "read_mask nMaskCode vAvail (chAvail # bs) =
     (if nMaskCode > 0
      then read_mask (if chAvail \<noteq> 0 then nMaskCode - 1 else nMaskCode)
             (vAvail @ map (\<lambda>p. chAvail AND push_bit p 1 \<noteq> 0) [0..<8]) bs
      else Inr (vAvail, chAvail # bs))"

fun read_outputs :: "(valtype \<Rightarrow> valtype option) \<Rightarrow> bool list \<Rightarrow> CTxOut list reader" where
  "read_outputs point [] = readReturn []"
| "read_outputs point (avail # vAvail) =
     readThen (if avail then Unserialize_CTxOutCompressor point else readReturn CTxOut_SetNull) (\<lambda>t.
     readThen (read_outputs point vAvail) (\<lambda>ts. readReturn (t # ts)))"

definition Unserialize_CCoins :: "(valtype \<Rightarrow> valtype option) \<Rightarrow> CCoins reader" where
  "Unserialize_CCoins point =
     readThen ReadVarInt_int (\<lambda>v. readThen ReadVarInt_u32 (\<lambda>nCode.
     readThen (read_mask (nCode div 8 + (if nCode AND 6 \<noteq> 0 then 0 else 1)) [nCode AND 2 \<noteq> 0, nCode AND 4 \<noteq> 0]) (\<lambda>vAvail.
     readThen (read_outputs point vAvail) (\<lambda>ts. readThen ReadVarInt_int (\<lambda>h.
       readReturn (Cleanup \<lparr>fCoinBase = (nCode AND 1 \<noteq> 0), cvout = ts, cHeight = h, cVersion = v\<rparr>))))))"

section \<open>Integers are read back\<close>

interpretation var_u32: codec WriteVarInt_u32 ReadVarInt_u32 "\<lambda>_. True"
proof unfold_locales
  fix n :: u32 and r
  have "ucast (ucast n :: u64) = n" by (rule bit_word_eqI) (auto simp: bit_simps)
  then show "ReadVarInt_u32 (WriteVarInt_u32 n @ r) = Inr (n, r)"
    by (simp add: WriteVarInt_u32_def ReadVarInt_u32_def readThen_def readReturn_def var_int.read_back)
qed

lemma WriteVarInt_int_nonneg:
  assumes "0 \<le> n"
  shows "WriteVarInt_int n = WriteVarInt (word_of_int n)"
proof (cases "n \<le> 0x7f")
  case True
  then have "uint (word_of_int n :: u64) = n" using assms by (simp add: uint_word_of_int)
  then have le: "(word_of_int n :: u64) \<le> 0x7f" using True by (simp add: word_le_def)
  have m: "(0x7f :: u64) = mask 7" "(0x7f :: byte) = mask 7" by (simp_all add: mask_eq_exp_minus_1)
  have "ucast ((word_of_int n :: u64) AND 0x7f) = (word_of_int n AND 0x7f :: byte)"
    unfolding m by (rule bit_word_eqI) (auto simp: bit_simps)
  then show ?thesis using True le by (simp add: WriteVarInt_int_def WriteVarInt_def var_int_digits.simps)
qed (simp add: WriteVarInt_int_def)

interpretation var_int32: codec WriteVarInt_int ReadVarInt_int "\<lambda>n. 0 \<le> n \<and> n < 2 ^ 31"
proof unfold_locales
  fix n :: int and r assume n: "0 \<le> n \<and> n < 2 ^ 31"
  have "ucast (word_of_int n :: u64) = (word_of_int n :: u32)" by (rule bit_word_eqI) (auto simp: bit_simps)
  then have "sint (ucast (word_of_int n :: u64) :: u32) = n" using n by (simp add: word_sint_iff)
  then show "ReadVarInt_int (WriteVarInt_int n @ r) = Inr (n, r)"
    using n by (simp add: WriteVarInt_int_nonneg ReadVarInt_int_def readThen_def readReturn_def var_int.read_back)
qed

text \<open>What is left of an \<^verbatim>\<open>int\<close> after it was written: of a negative one only the lowest seven bits.\<close>

definition stored_int :: "int \<Rightarrow> int" where
  "stored_int n = (if n < 0 then n mod 128 else n)"

lemma stored_int_range: "- (2 ^ 31) \<le> n \<Longrightarrow> n < 2 ^ 31 \<Longrightarrow> 0 \<le> stored_int n \<and> stored_int n < 2 ^ 31"
  using pos_mod_bound[of 128 n] by (auto simp: stored_int_def)

lemma stored_int_idem [simp]: "stored_int (stored_int n) = stored_int n"
  by (simp add: stored_int_def)

lemma WriteVarInt_int_stored [simp]: "WriteVarInt_int (stored_int n) = WriteVarInt_int n"
proof (cases "n < 0")
  case True
  have "(word_of_int (take_bit 7 n) AND mask 7 :: byte) = word_of_int n AND mask 7"
    by (rule bit_word_eqI) (auto simp: bit_simps)
  then have "(word_of_int (n mod 128) AND 0x7f :: byte) = word_of_int n AND 0x7f"
    by (simp add: take_bit_eq_mod mask_eq_exp_minus_1)
  moreover have "n mod 128 \<le> 127" using pos_mod_bound[of 128 n] by simp
  ultimately show ?thesis using True by (simp add: stored_int_def WriteVarInt_int_def)
qed (simp add: stored_int_def)

section \<open>Scripts are read back\<close>

text \<open>A valid uncompressed key is the one that has its parity and its first coordinate.\<close>

definition curve_ok :: "(valtype \<Rightarrow> bool) \<Rightarrow> (valtype \<Rightarrow> valtype option) \<Rightarrow> bool" where
  "curve_ok valid point \<longleftrightarrow>
     (\<forall>pk. length pk = 65 \<and> pk ! 0 = 0x04 \<and> valid pk \<longrightarrow> point ((2 + (pk ! 64 AND 1)) # take 32 (drop 1 pk)) = Some pk)"

lemma take_drop_parts: "k + m \<le> length s \<Longrightarrow> s = take k s @ take m (drop k s) @ drop (k + m) s"
  by (metis append_take_drop_id drop_drop add.commute)

lemma small_takes:
  "0 < length s \<Longrightarrow> take 1 s = [s ! 0]"
  "1 < length s \<Longrightarrow> take 2 s = [s ! 0, s ! 1]"
  "2 < length s \<Longrightarrow> take 3 s = [s ! 0, s ! 1, s ! 2]"
  by (cases s rule: list.exhaust; cases "tl s"; cases "tl (tl s)"; auto simp: numeral_eq_Suc)+

lemma small_drops:
  "length s = Suc k \<Longrightarrow> drop k s = [s ! k]"
  "length s = Suc (Suc k) \<Longrightarrow> drop k s = [s ! k, s ! Suc k]"
  by (simp_all add: Cons_nth_drop_Suc[symmetric])

lemma IsToKeyID_Some:
  assumes "IsToKeyID s = Some h"
  shows "length h = 20 \<and> s = [OP_DUP, OP_HASH160, 20] @ h @ [OP_EQUALVERIFY, OP_CHECKSIG]"
proof -
  have s: "length s = 25" "s ! 0 = OP_DUP" "s ! 1 = OP_HASH160" "s ! 2 = 20" "s ! 23 = OP_EQUALVERIFY" "s ! 24 = OP_CHECKSIG"
    "h = take 20 (drop 3 s)"
    using assms by (auto simp: IsToKeyID_def split: if_split_asm)
  have "s = take 3 s @ take 20 (drop 3 s) @ drop (3 + 20) s" by (rule take_drop_parts) (simp add: s(1))
  moreover have "drop 23 s = [s ! 23, s ! 24]" using small_drops(2)[of s 23] s(1) by simp
  ultimately show ?thesis using s small_takes(3)[of s] by simp
qed

lemma IsToScriptID_Some:
  assumes "IsToScriptID s = Some h"
  shows "length h = 20 \<and> s = [OP_HASH160, 20] @ h @ [OP_EQUAL]"
proof -
  have s: "length s = 23" "s ! 0 = OP_HASH160" "s ! 1 = 20" "s ! 22 = OP_EQUAL" "h = take 20 (drop 2 s)"
    using assms by (auto simp: IsToScriptID_def split: if_split_asm)
  have "s = take 2 s @ take 20 (drop 2 s) @ drop (2 + 20) s" by (rule take_drop_parts) (simp add: s(1))
  moreover have "drop 22 s = [s ! 22]" using small_drops(1)[of s 22] s(1) by simp
  ultimately show ?thesis using s small_takes(2)[of s] by simp
qed

lemma IsToPubKey_Some:
  assumes "IsToPubKey valid s = Some pk"
  shows "s = [word_of_nat (length pk)] @ pk @ [OP_CHECKSIG] \<and>
    (length pk = 33 \<and> (pk ! 0 = 2 \<or> pk ! 0 = 3) \<or> length pk = 65 \<and> pk ! 0 = 4 \<and> valid pk)"
proof -
  have parts: "s = [s ! 0] @ take m (drop 1 s) @ [s ! Suc m]" if "length s = Suc (Suc m)" for m
    using take_drop_parts[of 1 m s] small_takes(1)[of s] small_drops(1)[of s "Suc m"] that by simp
  have "(take m (drop 1 s)) ! 0 = s ! 1" if "0 < m" "length s = Suc (Suc m)" for m
    using that by simp
  then show ?thesis using assms parts[of 33] parts[of 65]
    by (auto simp: IsToPubKey_def Let_def nth_append split: if_split_asm)
qed

text \<open>What the special forms are restored to.\<close>

lemma Decompress_special:
  "length h = 20 \<Longrightarrow> Decompress point 0 h = Some ([OP_DUP, OP_HASH160, 20] @ h @ [OP_EQUALVERIFY, OP_CHECKSIG])"
  "length h = 20 \<Longrightarrow> Decompress point 1 h = Some ([OP_HASH160, 20] @ h @ [OP_EQUAL])"
  "length x = 32 \<Longrightarrow> Decompress point 2 x = Some ([33, 2] @ x @ [OP_CHECKSIG])"
  "length x = 32 \<Longrightarrow> Decompress point 3 x = Some ([33, 3] @ x @ [OP_CHECKSIG])"
  by (simp_all add: Decompress_def)

lemma small_var_int: "n \<le> 5 \<Longrightarrow> WriteVarInt_u32 n = [ucast n]"
proof -
  assume "n \<le> 5"
  then have "unat n \<le> 5" by (simp add: word_le_nat_alt)
  then have "unat n \<in> {0, 1, 2, 3, 4, 5}" by auto
  then have "n \<in> {0, 1, 2, 3, 4, 5}" by (auto simp: word_unat_eq_iff)
  then show ?thesis by (auto simp: WriteVarInt_u32_def WriteVarInt_def var_int_digits.simps)
qed

lemma read_special:
  assumes "n \<le> 5" "length h = GetSpecialSize n" "Decompress point n h = Some s"
  shows "Unserialize_CScriptCompressor point (ucast n # h @ r) = Inr (s, r)"
proof -
  have "n < nSpecialScripts" using assms(1) by (simp add: nSpecialScripts_def word_le_nat_alt word_less_nat_alt)
  moreover have "ReadVarInt_u32 (ucast n # h @ r) = Inr (n, h @ r)"
    using var_u32.read_back[of n "h @ r"] small_var_int[OF assms(1)] by simp
  ultimately show ?thesis using assms(2,3) by (simp add: Unserialize_CScriptCompressor_def readThen_def readReturn_def andThen_def)
qed

lemma parity_byte: "(0x04 OR (b AND 0x01) :: byte) = ucast (4 + (if odd b then 1 else 0) :: u32)"
  "((2 :: byte) + (b AND 1)) = ucast ((4 + (if odd b then 1 else 0) :: u32) - 2)"
proof -
  have "b AND 1 = (if odd b then 1 else 0)" by (simp add: and_one_eq odd_iff_mod_2_eq_one)
  then show "(0x04 OR (b AND 0x01) :: byte) = ucast (4 + (if odd b then 1 else 0) :: u32)"
    "((2 :: byte) + (b AND 1)) = ucast ((4 + (if odd b then 1 else 0) :: u32) - 2)" by simp_all
qed

lemma read_back_script:
  assumes curve: "curve_ok valid point" and len: "length s + 6 < 2 ^ 32"
  shows "Unserialize_CScriptCompressor point (Serialize_CScriptCompressor valid s @ r) = Inr (s, r)"
proof (cases "Compress valid s")
  case None
  have u: "unat (word_of_nat (length s) + nSpecialScripts) = length s + 6"
    using len unat_add_lem[of "word_of_nat (length s) :: u32" 6] by (simp add: nSpecialScripts_def unat_of_nat)
  then have "\<not> word_of_nat (length s) + nSpecialScripts < nSpecialScripts" by (simp add: word_less_nat_alt nSpecialScripts_def)
  moreover have "unat ((word_of_nat (length s) + nSpecialScripts) - nSpecialScripts) = length s" using len by (simp add: unat_of_nat)
  ultimately show ?thesis
    using None by (simp add: Serialize_CScriptCompressor_def Unserialize_CScriptCompressor_def readThen_def andThen_def var_u32.read_back)
next
  case (Some compr)
  then consider h where "IsToKeyID s = Some h" "compr = 0 # h" | h where "IsToScriptID s = Some h" "compr = 1 # h"
    | pk where "IsToPubKey valid s = Some pk" "pk ! 0 = 2 \<or> pk ! 0 = 3" "compr = pk ! 0 # take 32 (drop 1 pk)"
    | pk where "IsToPubKey valid s = Some pk" "pk ! 0 = 4" "compr = (0x04 OR (pk ! 64 AND 0x01)) # take 32 (drop 1 pk)"
    by (auto simp: Compress_def split: option.split_asm if_split_asm)
  then show ?thesis
  proof cases
    case (1 h)
    then show ?thesis using IsToKeyID_Some[OF 1(1)] Some read_special[of 0 h point s r] Decompress_special(1)[of h point]
      by (simp add: Serialize_CScriptCompressor_def GetSpecialSize_def)
  next
    case (2 h)
    then show ?thesis using IsToScriptID_Some[OF 2(1)] Some read_special[of 1 h point s r] Decompress_special(2)[of h point]
      by (simp add: Serialize_CScriptCompressor_def GetSpecialSize_def)
  next
    case (3 pk)
    then have pk: "length pk = 33" "s = [33] @ pk @ [OP_CHECKSIG]" using IsToPubKey_Some[OF 3(1)] by auto
    then have split: "pk = pk ! 0 # take 32 (drop 1 pk)" by (cases pk) auto
    have dec: "Decompress point n (take 32 (drop 1 pk)) = Some s" if "n = 2 \<or> n = 3" "ucast n = pk ! 0" for n
      using that pk split Decompress_special(3,4)[of "take 32 (drop 1 pk)" point] by auto
    then show ?thesis using 3(2) Some read_special[of 2 "take 32 (drop 1 pk)" point s r] read_special[of 3 "take 32 (drop 1 pk)" point s r] pk(1)
      by (auto simp: Serialize_CScriptCompressor_def GetSpecialSize_def 3(3))
  next
    case (4 pk)
    then have pk: "length pk = 65" "valid pk" "s = [65] @ pk @ [OP_CHECKSIG]" using IsToPubKey_Some[OF 4(1)] by auto
    let ?n = "4 + (if odd (pk ! 64) then 1 else 0) :: u32"
    have "point (ucast (?n - 2) # take 32 (drop 1 pk)) = Some pk"
      using curve pk(1,2) 4(2) parity_byte(2)[of "pk ! 64"] by (simp only: curve_ok_def) (metis parity_byte(2))
    then have "Decompress point ?n (take 32 (drop 1 pk)) = Some s"
      using pk by (auto simp: Decompress_def)
    moreover have "?n \<le> 5" "length (take 32 (drop 1 pk)) = GetSpecialSize ?n" using pk(1) by (auto simp: GetSpecialSize_def)
    ultimately show ?thesis using read_special[of ?n "take 32 (drop 1 pk)" point s r] Some parity_byte(1)[of "pk ! 64"]
      by (simp add: Serialize_CScriptCompressor_def 4(3))
  qed
qed

section \<open>Amounts are read back\<close>

lemma strip_zeros_spec:
  "strip_zeros n e = (m, e') \<Longrightarrow> e \<le> 9 \<Longrightarrow>
     e \<le> e' \<and> e' \<le> 9 \<and> unat n = unat m * 10 ^ (e' - e) \<and> (e' < 9 \<longrightarrow> unat m mod 10 \<noteq> 0)"
proof (induction n e rule: strip_zeros.induct)
  case (1 n e)
  show ?case
  proof (cases "n mod 10 = 0 \<and> e < 9")
    case True
    then have "strip_zeros (n div 10) (e + 1) = (m, e')" using "1.prems"(1) by (simp add: strip_zeros.simps[of n e])
    then have IH: "e + 1 \<le> e' \<and> e' \<le> 9 \<and> unat (n div 10) = unat m * 10 ^ (e' - (e + 1)) \<and> (e' < 9 \<longrightarrow> unat m mod 10 \<noteq> 0)"
      using "1.IH" True by simp
    have "unat n mod 10 = 0" using True by (simp add: word_unat_eq_iff unat_mod)
    then have "unat n = unat (n div 10) * 10" using mod_div_mult_eq[of "unat n" 10] by (simp add: unat_div)
    moreover have "e' - e = Suc (e' - (e + 1))" using IH by linarith
    ultimately show ?thesis using IH by simp
  next
    case False
    then have "m = n" "e' = e" using "1.prems"(1) by (auto simp: strip_zeros.simps[of n e] split: if_split_asm)
    then show ?thesis using False "1.prems"(2) by (auto simp: word_unat_eq_iff unat_mod)
  qed
qed

lemma unat_word_of_nat64: "k < 2 ^ 64 \<Longrightarrow> unat (word_of_nat k :: u64) = k"
  by (simp add: unat_of_nat)

lemma word_of_nat_div_mod64:
  assumes "k < 2 ^ 64" "0 < d" "d < 2 ^ 64"
  shows "(word_of_nat k :: u64) div word_of_nat d = word_of_nat (k div d)" "(word_of_nat k :: u64) mod word_of_nat d = word_of_nat (k mod d)"
proof -
  have "k div d < 2 ^ 64" "k mod d < 2 ^ 64" using assms by (auto intro: le_less_trans[OF div_le_dividend] less_trans[OF mod_less_divisor])
  then show "(word_of_nat k :: u64) div word_of_nat d = word_of_nat (k div d)" "(word_of_nat k :: u64) mod word_of_nat d = word_of_nat (k mod d)"
    using assms by (simp_all add: word_unat_eq_iff unat_div unat_mod unat_word_of_nat64)
qed

text \<open>The value of \<^verbatim>\<open>DecompressAmount\<close> on natural numbers.\<close>

lemma DecompressAmount_value:
  assumes "k < 2 ^ 64 - 1"
  shows "DecompressAmount (word_of_nat (k + 1)) =
    word_of_nat ((if k mod 10 < 9 then k div 10 div 9 * 10 + (k div 10 mod 9 + 1) else k div 10 + 1) * 10 ^ (k mod 10))"
proof -
  have x: "(word_of_nat (k + 1) :: u64) - 1 = word_of_nat k" by simp
  have nz: "(word_of_nat (k + 1) :: u64) \<noteq> 0"
    using assms unat_word_of_nat64[of "k + 1"] by (metis add_is_0 less_diff_conv unat_0 zero_neq_one)
  have k: "k < 2 ^ 64" "k div 10 < 2 ^ 64" using assms by auto
  have ten: "(word_of_nat k :: u64) mod 10 = word_of_nat (k mod 10)" "(word_of_nat k :: u64) div 10 = word_of_nat (k div 10)"
    using word_of_nat_div_mod64[OF k(1), of 10] by simp_all
  have nine: "(word_of_nat (k div 10) :: u64) mod 9 = word_of_nat (k div 10 mod 9)" "(word_of_nat (k div 10) :: u64) div 9 = word_of_nat (k div 10 div 9)"
    using word_of_nat_div_mod64[OF k(2), of 9] by simp_all
  have e: "unat (word_of_nat (k mod 10) :: u64) = k mod 10" by (intro unat_word_of_nat64) (rule less_trans[OF mod_less_divisor], simp_all)
  show ?thesis unfolding DecompressAmount_def Let_def x ten nine e using nz by (simp add: ac_simps)
qed

lemma read_back_amount:
  assumes "9 * unat n + 8 < 2 ^ 64"
  shows "DecompressAmount (CompressAmount n) = n"
proof (cases "n = 0")
  case True
  then show ?thesis by (simp add: CompressAmount_def DecompressAmount_def)
next
  case False
  obtain m e where s: "strip_zeros n 0 = (m, e)" by fastforce
  have e: "e \<le> 9" "unat n = unat m * 10 ^ e" "e < 9 \<longrightarrow> unat m mod 10 \<noteq> 0" using strip_zeros_spec[OF s] by auto
  have m: "0 < unat m" using False e(2) by (metis mult_zero_left neq0_conv unat_eq_zero)
  define M where "M = unat m"
  have M: "m = word_of_nat M" "M < 2 ^ 64" using unat_lt_pow[of m] by (simp_all add: M_def)
  have "word_of_nat (unat n) = n" by simp
  then have n: "n = word_of_nat (M * 10 ^ e)" unfolding e(2) M_def by simp
  have small: "M \<le> unat n" using e(2) by (simp add: M_def)
  show ?thesis
  proof (cases "e < 9")
    case True
    define X where "X = M div 10 * 9 + M mod 10 - 1"
    let ?k = "X * 10 + e"
    have d: "1 \<le> M mod 10" "M mod 10 \<le> 9" using e(3) True by (auto simp: M_def Suc_le_eq)
    have "?k \<le> 9 * M + 7" using True d div_mult_mod_eq[of M 10] unfolding X_def by linarith
    then have k: "?k < 2 ^ 64 - 1" using small assms by linarith
    have "m div 10 = word_of_nat (M div 10)" "m mod 10 = word_of_nat (M mod 10)"
      using word_of_nat_div_mod64[OF M(2), of 10] M(1) by simp_all
    moreover have "(word_of_nat X :: u64) = word_of_nat (M div 10) * 9 + word_of_nat (M mod 10) - 1"
      using d(1) by (simp add: X_def of_nat_diff)
    ultimately have "m div 10 * 9 + m mod 10 - 1 = word_of_nat X" by simp
    then have "CompressAmount n = 1 + word_of_nat X * 10 + word_of_nat e"
      using \<open>n \<noteq> 0\<close> s True by (simp add: CompressAmount_def)
    then have c: "CompressAmount n = word_of_nat (?k + 1)" by simp
    have k10: "?k mod 10 = e" "?k div 10 = X" using True by auto
    have k9: "X div 9 = M div 10" "X mod 9 = M mod 10 - 1" unfolding X_def
    proof -
      have "M div 10 * 9 + M mod 10 - 1 = (M mod 10 - 1) + M div 10 * 9" "M mod 10 - 1 < 9" using d by linarith+
      then show "(M div 10 * 9 + M mod 10 - 1) div 9 = M div 10" "(M div 10 * 9 + M mod 10 - 1) mod 9 = M mod 10 - 1"
        by (simp_all only: div_mult_self1 mod_mult_self1) auto
    qed
    have "DecompressAmount (CompressAmount n) = word_of_nat ((M div 10 * 10 + (M mod 10 - 1 + 1)) * 10 ^ e)"
      unfolding c DecompressAmount_value[OF k] k10 k9 if_P[OF True] ..
    also have "M div 10 * 10 + (M mod 10 - 1 + 1) = M" using d(1) by simp
    finally show ?thesis using n by (rule trans[OF _ sym])
  next
    case False
    then have e9: "e = 9" using e(1) by simp
    let ?k = "(M - 1) * 10 + 9"
    have "M * 1000000000 \<le> unat n" using e(2) e9 by (simp add: M_def)
    then have k: "?k < 2 ^ 64 - 1" using assms m by (simp add: M_def)
    have M1: "1 \<le> M" using m by (simp add: M_def)
    have "(word_of_nat (M - 1) :: u64) = m - 1" unfolding M(1) using M1 by (simp add: of_nat_diff)
    then have "CompressAmount n = 1 + word_of_nat (M - 1) * 10 + 9"
      using \<open>n \<noteq> 0\<close> s e9 by (simp add: CompressAmount_def)
    then have c: "CompressAmount n = word_of_nat (?k + 1)" by simp
    have k10: "?k mod 10 = 9" "?k div 10 = M - 1" by auto
    have "DecompressAmount (CompressAmount n) = word_of_nat ((M - 1 + 1) * 10 ^ 9)"
      unfolding c DecompressAmount_value[OF k] k10 by simp
    also have "M - 1 + 1 = M" using m by (simp add: M_def)
    finally show ?thesis using n unfolding e9 by (rule trans[OF _ sym])
  qed
qed

section \<open>Outputs and undo data are read back\<close>

definition txout_compressible :: "CTxOut \<Rightarrow> bool" where
  "txout_compressible t \<longleftrightarrow> 0 \<le> nValue t \<and> nValue t \<le> MAX_MONEY \<and> length (scriptPubKey t) \<le> MAX_SIZE"

lemma codec_txout:
  assumes "curve_ok valid point"
  shows "codec (Serialize_CTxOutCompressor valid) (Unserialize_CTxOutCompressor point) txout_compressible"
proof unfold_locales
  fix t r assume t: "txout_compressible t"
  let ?w = "word_of_int (nValue t) :: u64"
  have v: "0 \<le> nValue t" "nValue t \<le> 4200000000000" using t by (simp_all add: txout_compressible_def MAX_MONEY_def COIN_def)
  then have "uint ?w = nValue t" by (simp add: uint_word_of_int)
  then have "unat ?w = nat (nValue t)" by (simp add: unat_eq_nat_uint)
  then have "DecompressAmount (CompressAmount ?w) = ?w" using v by (intro read_back_amount) simp
  moreover have "sint ?w = nValue t" using v by (simp add: word_sint_iff)
  moreover have "length (scriptPubKey t) + 6 < 2 ^ 32" using t by (simp add: txout_compressible_def MAX_SIZE_def)
  ultimately show "Unserialize_CTxOutCompressor point (Serialize_CTxOutCompressor valid t @ r) = Inr (t, r)"
    using read_back_script[OF assms, of "scriptPubKey t" r]
    by (simp add: Unserialize_CTxOutCompressor_def Serialize_CTxOutCompressor_def readThen_def readReturn_def var_int.read_back)
qed

lemma codec_vector:
  assumes "codec ser unser ok"
  shows "codec (Serialize_vector ser) (Unserialize_vector unser) (\<lambda>v. length v \<le> MAX_SIZE \<and> list_all ok v)"
proof unfold_locales
  fix v r assume "length v \<le> MAX_SIZE \<and> list_all ok v"
  then show "Unserialize_vector unser (Serialize_vector ser v @ r) = Inr (v, r)"
    using codec.read_list_back[OF assms, of v r] size.read_back[of "length v"]
    by (simp add: Unserialize_vector_def Serialize_vector_def readThen_def)
qed

definition undo_compressible :: "CTxInUndo \<Rightarrow> bool" where
  "undo_compressible u \<longleftrightarrow> txout_compressible (u_txout u) \<and> 0 \<le> u_nHeight u \<and> u_nHeight u < 2 ^ 31 \<and>
     0 \<le> u_nVersion u \<and> u_nVersion u < 2 ^ 31 \<and> (u_nHeight u = 0 \<longrightarrow> u_nVersion u = 0)"

lemma unat_word_of_nat32: "k < 2 ^ 32 \<Longrightarrow> unat (word_of_nat k :: u32) = k"
  by (simp only: unat_of_nat) simp

lemma word_of_nat_div32:
  assumes "k < 2 ^ 32" "0 < d" "d < 2 ^ 32"
  shows "(word_of_nat k :: u32) div word_of_nat d = word_of_nat (k div d)"
proof -
  have "k div d < 2 ^ 32" using assms(1) by (rule le_less_trans[OF div_le_dividend])
  then show ?thesis using assms by (simp add: word_unat_eq_iff unat_div unat_word_of_nat32)
qed

lemma u32_bit: "i < 32 \<Longrightarrow> (word_of_nat k :: u32) AND push_bit i 1 \<noteq> 0 \<longleftrightarrow> bit k i"
  by (simp add: and_exp_eq_0_iff_not_bit push_bit_eq_mult bit_of_nat_iff)

lemma code_parts:
  fixes b0 b1 b2 :: bool
  assumes "8 * k + 7 < 2 ^ 32"
  defines "K \<equiv> 8 * k + (if b0 then 1 else 0) + (if b1 then 2 else 0) + (if b2 then 4 else 0)"
  shows "(word_of_nat K :: u32) div 8 = word_of_nat k" "(word_of_nat K :: u32) AND 1 \<noteq> 0 \<longleftrightarrow> b0"
    "(word_of_nat K :: u32) AND 2 \<noteq> 0 \<longleftrightarrow> b1" "(word_of_nat K :: u32) AND 4 \<noteq> 0 \<longleftrightarrow> b2"
    "(word_of_nat K :: u32) AND 6 \<noteq> 0 \<longleftrightarrow> b1 \<or> b2"
proof -
  let ?w = "word_of_nat K :: u32"
  have "K < 2 ^ 32" using assms(1) by (auto simp: K_def)
  moreover have "K div 8 = k" unfolding K_def by (cases b0; cases b1; cases b2; simp only: if_True if_False; presburger)
  ultimately show "?w div 8 = word_of_nat k" using word_of_nat_div32[of K 8] by simp
  have bits: "bit K 0 \<longleftrightarrow> b0" "bit K 1 \<longleftrightarrow> b1" "bit K 2 \<longleftrightarrow> b2"
    unfolding K_def by (cases b0; cases b1; cases b2; simp add: bit_iff_odd; presburger)+
  show "?w AND 1 \<noteq> 0 \<longleftrightarrow> b0" "?w AND 2 \<noteq> 0 \<longleftrightarrow> b1" "?w AND 4 \<noteq> 0 \<longleftrightarrow> b2"
    using u32_bit[of 0 K] u32_bit[of 1 K] u32_bit[of 2 K] bits by (simp_all add: push_bit_eq_mult)
  have "(6 :: u32) = 2 OR 4" by simp
  then have "?w AND 6 = (?w AND 2) OR (?w AND 4)" by (simp only: bit.conj_disj_distrib)
  moreover have "(x OR y :: u32) = 0 \<longleftrightarrow> x = 0 \<and> y = 0" for x y by (rule or_eq_0_iff)
  ultimately show "?w AND 6 \<noteq> 0 \<longleftrightarrow> b1 \<or> b2"
    using \<open>?w AND 2 \<noteq> 0 \<longleftrightarrow> b1\<close> \<open>?w AND 4 \<noteq> 0 \<longleftrightarrow> b2\<close> by metis
qed

lemma codec_undo:
  assumes "curve_ok valid point"
  shows "codec (Serialize_CTxInUndo valid) (Unserialize_CTxInUndo point) undo_compressible"
proof unfold_locales
  fix u r assume u: "undo_compressible u"
  define k where "k = nat (u_nHeight u)"
  have k: "u_nHeight u = int k" "k < 2 ^ 31" using u by (auto simp: k_def undo_compressible_def)
  let ?c = "word_of_int (u_nHeight u) * 2 + (if u_fCoinBase u then 1 else 0) :: u32"
  let ?K = "2 * k + (if u_fCoinBase u then 1 else 0)"
  have c: "?c = word_of_nat ?K" by (simp add: k(1))
  have "?K < 2 ^ 32" using k(2) by auto
  then have "?c div 2 = word_of_nat k" unfolding c using word_of_nat_div32[of ?K 2] by auto
  then have h: "uint (?c div 2) = u_nHeight u" "?c div 2 > 0 \<longleftrightarrow> u_nHeight u > 0"
    using k unat_word_of_nat32[of k] by (simp_all add: uint_nat word_less_nat_alt)
  have "bit ?K 0 \<longleftrightarrow> u_fCoinBase u" by (simp add: bit_0)
  then have cb: "?c AND 1 \<noteq> 0 \<longleftrightarrow> u_fCoinBase u" unfolding c using u32_bit[of 0 ?K] by simp
  have "u = \<lparr>u_txout = u_txout u, u_fCoinBase = u_fCoinBase u, u_nHeight = u_nHeight u, u_nVersion = u_nVersion u\<rparr>" by simp
  then show "Unserialize_CTxInUndo point (Serialize_CTxInUndo valid u @ r) = Inr (u, r)"
    using u h cb codec.read_back[OF codec_txout[OF assms], of "u_txout u" r]
    by (auto simp: Unserialize_CTxInUndo_def Serialize_CTxInUndo_def readThen_def readReturn_def var_u32.read_back var_int32.read_back undo_compressible_def)
qed

text \<open>Any undo data that can be in memory, and what is read back of it.\<close>

definition undo_in_range :: "CTxInUndo \<Rightarrow> bool" where
  "undo_in_range u \<longleftrightarrow> txout_compressible (u_txout u) \<and> 0 \<le> u_nHeight u \<and> u_nHeight u < 2 ^ 31 \<and> - (2 ^ 31) \<le> u_nVersion u \<and> u_nVersion u < 2 ^ 31"

definition stored_undo :: "CTxInUndo \<Rightarrow> CTxInUndo" where
  "stored_undo u = u\<lparr>u_nVersion := if u_nHeight u = 0 then 0 else stored_int (u_nVersion u)\<rparr>"

lemma stored_undo_compressible: "undo_in_range u \<Longrightarrow> undo_compressible (stored_undo u)"
  using stored_int_range[of "u_nVersion u"] by (simp add: undo_in_range_def undo_compressible_def stored_undo_def)

lemma Serialize_stored_undo: "undo_in_range u \<Longrightarrow> Serialize_CTxInUndo valid (stored_undo u) = Serialize_CTxInUndo valid u"
  by (simp add: Serialize_CTxInUndo_def stored_undo_def)

definition block_undo_in_range :: "CTxUndo list \<Rightarrow> bool" where
  "block_undo_in_range us \<longleftrightarrow> length us \<le> MAX_SIZE \<and> list_all (\<lambda>u. length u \<le> MAX_SIZE \<and> list_all undo_in_range u) us"

definition block_undo_compressible :: "CTxUndo list \<Rightarrow> bool" where
  "block_undo_compressible us \<longleftrightarrow> length us \<le> MAX_SIZE \<and> list_all (\<lambda>u. length u \<le> MAX_SIZE \<and> list_all undo_compressible u) us"

lemma codec_block_undo:
  "curve_ok valid point \<Longrightarrow> codec (Serialize_CBlockUndo valid) (Unserialize_CBlockUndo point) block_undo_compressible"
  unfolding Serialize_CBlockUndo_def Unserialize_CBlockUndo_def Serialize_CTxUndo_def Unserialize_CTxUndo_def block_undo_compressible_def
  by (intro codec_vector codec_undo)

lemma stored_block_undo:
  assumes "block_undo_in_range us"
  shows "block_undo_compressible (map (map stored_undo) us)" "Serialize_CBlockUndo valid (map (map stored_undo) us) = Serialize_CBlockUndo valid us"
proof -
  show "block_undo_compressible (map (map stored_undo) us)"
    using assms stored_undo_compressible by (auto simp: block_undo_in_range_def block_undo_compressible_def list_all_iff)
  have "map (Serialize_CTxInUndo valid \<circ> stored_undo) u = map (Serialize_CTxInUndo valid) u" if "u \<in> set us" for u
    using assms that Serialize_stored_undo by (auto simp: block_undo_in_range_def list_all_iff)
  then have "Serialize_CTxUndo valid (map stored_undo u) = Serialize_CTxUndo valid u" if "u \<in> set us" for u
    unfolding Serialize_CTxUndo_def Serialize_vector_def length_map map_map using that by metis
  then have "map (Serialize_CTxUndo valid \<circ> map stored_undo) us = map (Serialize_CTxUndo valid) us" by simp
  then show "Serialize_CBlockUndo valid (map (map stored_undo) us) = Serialize_CBlockUndo valid us"
    by (simp only: Serialize_CBlockUndo_def Serialize_vector_def length_map map_map)
qed

section \<open>Coins are read back\<close>

lemma bit_fold_mask:
  "n \<le> 8 \<Longrightarrow> bit (fold (\<lambda>i c. if P i then c OR push_bit i 1 else c) [0..<n] (0 :: byte)) p \<longleftrightarrow> p < n \<and> P p"
proof (induction n)
  case (Suc n)
  have "bit (push_bit n (1 :: byte)) p \<longleftrightarrow> p = n" using Suc.prems by (auto simp: bit_simps bit_1_iff)
  then show ?case using Suc by (auto simp: bit_or_iff less_Suc_eq)
qed simp

lemma mask_byte_bit: "p < 8 \<Longrightarrow> mask_byte v b AND push_bit p 1 \<noteq> 0 \<longleftrightarrow> output_unspent v (2 + b * 8 + p)"
  unfolding byte_and_exp mask_byte_def by (simp add: bit_fold_mask output_unspent_def)

lemma mask_byte_zero: "mask_byte v b = 0 \<longleftrightarrow> mask_zero v b"
proof
  assume z: "mask_byte v b = 0"
  have "\<not> output_unspent v (2 + b * 8 + p)" if "p < 8" for p using mask_byte_bit[OF that, of v b] unfolding z by simp
  then show "mask_zero v b" by (auto simp: mask_zero_def list_all_iff output_unspent_def)
next
  assume z: "mask_zero v b"
  have "\<not> bit (mask_byte v b) p" for p
    using z by (auto simp: mask_byte_def bit_fold_mask mask_zero_def list_all_iff)
  then show "mask_byte v b = 0" by (intro bit_word_eqI) simp
qed

text \<open>The number of bytes, and the number of those that are not zero.\<close>

lemma CalcMaskSize_spec:
  assumes "CalcMaskSize v = (B, N)"
  shows "\<forall>b\<ge>B. mask_zero v b" "B = 0 \<or> \<not> mask_zero v (B - 1)" "N = length (filter (\<lambda>b. b \<noteq> 0) (map (mask_byte v) [0..<B]))" "B \<le> length v"
proof -
  let ?f = "\<lambda>b (nBytes, nNonzeroBytes). if \<not> mask_zero v b then (b + 1, nNonzeroBytes + 1) else (nBytes, nNonzeroBytes)"
  have loop: "fold ?f [0..<K] (0, 0) = (B, N) \<Longrightarrow> B \<le> K \<and> (\<forall>b<K. B \<le> b \<longrightarrow> mask_zero v b) \<and> (B = 0 \<or> \<not> mask_zero v (B - 1)) \<and>
      N = length (filter (\<lambda>b. \<not> mask_zero v b) [0..<B])" for K B N
  proof (induction K arbitrary: B N)
    case (Suc K)
    obtain B' N' :: nat where s: "fold ?f [0..<K] (0, 0) = (B', N')" by fastforce
    note IH = Suc.IH[OF s]
    show ?case
    proof (cases "mask_zero v K")
      case True
      then have "B = B'" "N = N'" using Suc.prems s by simp_all
      then show ?thesis using IH True by (auto simp: less_Suc_eq)
    next
      case False
      then have B: "B = Suc K" "N = Suc N'" using Suc.prems s by simp_all
      have "filter (\<lambda>b. \<not> mask_zero v b) [B'..<K] = []" using IH by (simp add: filter_empty_conv)
      moreover have "[0..<K] = [0..<B'] @ [B'..<K]" using upt_add_eq_append[of 0 B' "K - B'"] IH by simp
      ultimately show ?thesis using IH False B by simp
    qed
  qed simp
  let ?K = "(length v - 2 + 7) div 8"
  have l: "B \<le> ?K" "\<forall>b<?K. B \<le> b \<longrightarrow> mask_zero v b" "B = 0 \<or> \<not> mask_zero v (B - 1)" "N = length (filter (\<lambda>b. \<not> mask_zero v b) [0..<B])"
    using loop[of ?K B N] assms by (simp_all add: CalcMaskSize_def)
  have "mask_zero v b" if "?K \<le> b" for b
  proof -
    have "length v \<le> 2 + b * 8" using that by linarith
    then show ?thesis by (simp add: mask_zero_def list_all_iff)
  qed
  then show "\<forall>b\<ge>B. mask_zero v b" using l(2) by (meson not_le)
  show "B = 0 \<or> \<not> mask_zero v (B - 1)" by (rule l(3))
  show "N = length (filter (\<lambda>b. b \<noteq> 0) (map (mask_byte v) [0..<B]))" by (simp add: l(4) filter_map comp_def mask_byte_zero)
  show "B \<le> length v" using l(1) by linarith
qed

abbreviation byte_flags :: "byte \<Rightarrow> bool list" where
  "byte_flags c \<equiv> map (\<lambda>p. c AND push_bit p 1 \<noteq> 0) [0..<8]"

lemma read_mask_back:
  "n = word_of_nat (length (filter (\<lambda>b. b \<noteq> 0) bs)) \<Longrightarrow> length bs < 2 ^ 32 \<Longrightarrow> bs = [] \<or> last bs \<noteq> 0 \<Longrightarrow>
     read_mask n acc (bs @ r) = Inr (acc @ concat (map byte_flags bs), r)"
proof (induction bs arbitrary: n acc)
  case Nil
  then show ?case by (cases r) simp_all
next
  case (Cons c bs)
  let ?N = "length (filter (\<lambda>b. b \<noteq> 0) (c # bs))"
  have "?N \<le> length (c # bs)" by (rule length_filter_le)
  then have small: "?N < 2 ^ 32" using Cons.prems(2) by (rule le_less_trans)
  have "\<exists>b\<in>set (c # bs). b \<noteq> 0" using Cons.prems(3) last_in_set[of "c # bs"] by blast
  then have "0 < ?N" by (auto simp: filter_empty_conv)
  then have pos: "n > 0" using Cons.prems(1) unat_word_of_nat32[OF small] by (simp add: word_less_nat_alt)
  have "(if c \<noteq> 0 then n - 1 else n) = word_of_nat (length (filter (\<lambda>b. b \<noteq> 0) bs))" using Cons.prems(1) by simp
  moreover have "bs = [] \<or> last bs \<noteq> 0" using Cons.prems(3) by (auto split: if_split_asm)
  ultimately show ?case using Cons.IH[of "if c \<noteq> 0 then n - 1 else n" "acc @ byte_flags c"] Cons.prems(2) pos by simp
qed

lemma concat_flags:
  "concat (map (\<lambda>b. byte_flags (mask_byte v b)) [0..<B]) = map (\<lambda>i. output_unspent v (2 + i)) [0..<8 * B]"
proof (induction B)
  case (Suc B)
  have "byte_flags (mask_byte v B) = map (\<lambda>i. output_unspent v (2 + i)) [8 * B..<8 * B + 8]"
    by (intro nth_equalityI) (simp_all add: mask_byte_bit mult.commute[of 8] add.assoc del: push_bit_of_1)
  moreover have "[0..<8 * Suc B] = [0..<8 * B] @ [8 * B..<8 * B + 8]" using upt_add_eq_append[of 0 "8 * B" 8] by (simp add: add.commute)
  ultimately show ?case using Suc by simp
qed simp

lemma read_outputs_back:
  assumes "codec (Serialize_CTxOutCompressor valid) (Unserialize_CTxOutCompressor point) txout_compressible"
  shows "list_all (\<lambda>t. if CTxOut_IsNull t then t = CTxOut_SetNull else txout_compressible t) ts \<Longrightarrow>
    read_outputs point (map (\<lambda>t. \<not> CTxOut_IsNull t) ts)
      (concat (map (Serialize_CTxOutCompressor valid) (filter (\<lambda>t. \<not> CTxOut_IsNull t) ts)) @ r) = Inr (ts, r)"
proof (induction ts)
  case (Cons t ts)
  then show ?case using codec.read_back[OF assms, of t]
    by (cases "CTxOut_IsNull t") (simp_all add: readThen_def readReturn_def)
qed (simp add: readReturn_def)

definition coins_compressible :: "CCoins \<Rightarrow> bool" where
  "coins_compressible c \<longleftrightarrow> \<not> IsPruned c \<and> Cleanup_vout (cvout c) = cvout c \<and> list_all (\<lambda>t. CTxOut_IsNull t \<longrightarrow> t = CTxOut_SetNull) (cvout c) \<and> length (cvout c) \<le> MAX_SIZE \<and>
     list_all (\<lambda>t. CTxOut_IsNull t \<or> txout_compressible t) (cvout c) \<and>
     0 \<le> cHeight c \<and> cHeight c < 2 ^ 31 \<and> 0 \<le> cVersion c \<and> cVersion c < 2 ^ 31"

text \<open>Coins as the code keeps them, with any version, and what is read back of them.\<close>

definition coins_in_range :: "CCoins \<Rightarrow> bool" where
  "coins_in_range c \<longleftrightarrow> \<not> IsPruned c \<and> Cleanup_vout (cvout c) = cvout c \<and> list_all (\<lambda>t. CTxOut_IsNull t \<longrightarrow> t = CTxOut_SetNull) (cvout c) \<and>
     length (cvout c) \<le> MAX_SIZE \<and> list_all (\<lambda>t. CTxOut_IsNull t \<or> txout_compressible t) (cvout c) \<and>
     0 \<le> cHeight c \<and> cHeight c < 2 ^ 31 \<and> - (2 ^ 31) \<le> cVersion c \<and> cVersion c < 2 ^ 31"

definition stored_coins :: "CCoins \<Rightarrow> CCoins" where
  "stored_coins c = c\<lparr>cVersion := stored_int (cVersion c)\<rparr>"

lemma stored_coins_compressible: "coins_in_range c \<Longrightarrow> coins_compressible (stored_coins c)"
  using stored_int_range[of "cVersion c"] by (simp add: coins_in_range_def coins_compressible_def stored_coins_def IsPruned_def)

lemma stored_coins_simps [simp]: "stored_coins (stored_coins c) = stored_coins c" "IsPruned (stored_coins c) = IsPruned c"
  by (simp_all add: stored_coins_def IsPruned_def)

lemma Serialize_stored_coins [simp]: "Serialize_CCoins valid (stored_coins c) = Serialize_CCoins valid c"
  by (simp add: Serialize_CCoins_def stored_coins_def coins_code_def split: prod.split)

lemma Cleanup_vout_pad: "Cleanup_vout (v @ replicate n CTxOut_SetNull) = Cleanup_vout v"
proof -
  have "\<forall>t \<in> set (replicate n CTxOut_SetNull). CTxOut_IsNull t" by (simp add: CTxOut_IsNull_def CTxOut_SetNull_def)
  then have "dropWhile CTxOut_IsNull (replicate n CTxOut_SetNull @ rev v) = dropWhile CTxOut_IsNull (rev v)"
    by (intro dropWhile_append2) blast
  then show ?thesis by (simp only: Cleanup_vout_def rev_append rev_replicate)
qed

lemma map_eq_upt: "length w = k \<Longrightarrow> (\<And>i. i < k \<Longrightarrow> u i \<longleftrightarrow> P (w ! i)) \<Longrightarrow> map P w = map u [0..<k]"
  by (rule nth_equalityI) (simp_all only: length_map length_upt nth_map nth_upt diff_zero add_0)

lemma map_upt_two: "map u [0..<2 + k] = [u 0, u 1] @ map (\<lambda>i. u (2 + i)) [0..<k]"
  by (induction k) (simp_all add: numeral_2_eq_2)

lemma read_back_coins:
  assumes curve: "curve_ok valid point" and c: "coins_compressible c"
  shows "\<exists>bs. Serialize_CCoins valid c = Some bs \<and> Unserialize_CCoins point (bs @ r) = Inr (c, r)"
proof -
  let ?v = "cvout c" and ?u = "output_unspent (cvout c)"
  obtain B N where m: "CalcMaskSize ?v = (B, N)" by fastforce
  note spec = CalcMaskSize_spec[OF m]
  have len: "length ?v \<le> MAX_SIZE" and wf: "Cleanup_vout ?v = ?v" using c by (simp_all add: coins_compressible_def)
  have BN: "N \<le> B" "B < 2 ^ 26" using spec(3,4) len length_filter_le[of "\<lambda>b. b \<noteq> 0" "map (mask_byte ?v) [0..<B]"]
    by (simp_all add: MAX_SIZE_def)
  have beyond: "\<not> ?u i" if "2 + 8 * B \<le> i" for i
  proof -
    define b p where "b = (i - 2) div 8" and "p = (i - 2) mod 8"
    have "i = 2 + b * 8 + p" "p < 8" using that by (simp_all add: b_def p_def)
    moreover have "mask_zero ?v b" using that spec(1) by (simp add: b_def less_eq_div_iff_mult_less_eq)
    ultimately show ?thesis by (auto simp: mask_zero_def list_all_iff output_unspent_def)
  qed
  have vlen: "length ?v \<le> 2 + 8 * B"
  proof (rule ccontr)
    assume l: "\<not> length ?v \<le> 2 + 8 * B"
    then have ne: "?v \<noteq> []" by auto
    have "\<not> CTxOut_IsNull (last ?v)"
    proof
      assume n: "CTxOut_IsNull (last ?v)"
      have r: "rev ?v = last ?v # rev (butlast ?v)" using ne by (metis append_butlast_last_id rev_eq_Cons_iff rev_rev_ident)
      have "Cleanup_vout ?v = rev (dropWhile CTxOut_IsNull (rev (butlast ?v)))" unfolding Cleanup_vout_def r using n by simp
      then have "length (Cleanup_vout ?v) \<le> length (butlast ?v)" using length_dropWhile_le[of CTxOut_IsNull "rev (butlast ?v)"] by simp
      moreover have "length (butlast ?v) < length ?v" using ne by simp
      moreover have "length (Cleanup_vout ?v) = length ?v" using wf by simp
      ultimately show False by linarith
    qed
    then have u: "?u (length ?v - 1)" using ne by (simp add: output_unspent_def last_conv_nth)
    have "2 + 8 * B \<le> length ?v - 1" using l by linarith
    then show False using beyond u by blast
  qed
  have some: "?u 0 \<or> ?u 1 \<or> N \<noteq> 0"
  proof (rule ccontr)
    assume n: "\<not> ?thesis"
    then have "B = 0" using spec(2,3) by (cases B) (auto simp: filter_empty_conv mask_byte_zero)
    then have "length ?v \<le> 2" "\<not> ?u 0" "\<not> ?u 1" using vlen n by auto
    moreover have "i = 0 \<or> i = 1 \<or> 2 \<le> i" for i :: nat by linarith
    ultimately have "\<not> ?u i" for i using beyond[of i] \<open>B = 0\<close> by (metis add_0_right mult_0_right)
    then show False using c by (auto simp: coins_compressible_def IsPruned_def list_all_length output_unspent_def)
  qed
  define n where "n = 2 + 8 * B - length ?v"
  let ?w = "?v @ replicate n CTxOut_SetNull"
  have lw: "length ?w = 2 + 8 * B" using vlen by (simp add: n_def)
  have null: "CTxOut_IsNull CTxOut_SetNull" by (simp add: CTxOut_IsNull_def CTxOut_SetNull_def)
  have uw: "?u i \<longleftrightarrow> \<not> CTxOut_IsNull (?w ! i)" if "i < 2 + 8 * B" for i
    using that lw null by (auto simp: output_unspent_def nth_append)
  have "map (\<lambda>t. \<not> CTxOut_IsNull t) ?w = map ?u [0..<2 + 8 * B]"
    using lw uw by (intro map_eq_upt) blast+
  also have "\<dots> = [?u 0, ?u 1] @ map (\<lambda>i. ?u (2 + i)) [0..<8 * B]"
    by (rule map_upt_two)
  finally have flags: "[?u 0, ?u 1] @ concat (map byte_flags (map (mask_byte ?v) [0..<B])) = map (\<lambda>t. \<not> CTxOut_IsNull t) ?w"
    using concat_flags[of ?v B] by (simp add: comp_def)
  define M where "M = N - (if ?u 0 \<or> ?u 1 then 0 else 1)"
  have NM: "N = M + (if ?u 0 \<or> ?u 1 then 0 else 1)" using some by (auto simp: M_def)
  let ?K = "8 * M + (if fCoinBase c then 1 else 0) + (if ?u 0 then 2 else 0) + (if ?u 1 then 4 else 0)"
  have code: "coins_code c N = word_of_nat ?K" by (simp add: coins_code_def NM Let_def)
  have "8 * M + 7 < 2 ^ 32" using BN NM by auto
  note parts = code_parts[OF this, of "fCoinBase c" "?u 0" "?u 1", folded code]
  have count: "(word_of_nat M :: u32) + (if ?u 0 \<or> ?u 1 then 0 else 1) = word_of_nat N" by (simp add: NM)
  have "map (mask_byte ?v) [0..<B] = [] \<or> last (map (mask_byte ?v) [0..<B]) \<noteq> 0"
    using spec(2) mask_byte_zero[of ?v "B - 1"] by (cases B) (auto simp: last_map)
  then have mask: "read_mask (word_of_nat N) [?u 0, ?u 1] (map (mask_byte ?v) [0..<B] @ x) = Inr (map (\<lambda>t. \<not> CTxOut_IsNull t) ?w, x)" for x
    unfolding flags[symmetric] using BN spec(3) by (intro read_mask_back) simp_all
  have "list_all (\<lambda>t. if CTxOut_IsNull t then t = CTxOut_SetNull else txout_compressible t) ?w"
    using c by (auto simp: coins_compressible_def list_all_iff)
  moreover have "filter (\<lambda>t. \<not> CTxOut_IsNull t) ?w = filter (\<lambda>t. \<not> CTxOut_IsNull t) ?v" using null by simp
  ultimately have outs: "read_outputs point (map (\<lambda>t. \<not> CTxOut_IsNull t) ?w)
      (concat (map (Serialize_CTxOutCompressor valid) (filter (\<lambda>t. \<not> CTxOut_IsNull t) ?v)) @ x) = Inr (?w, x)" for x
    using read_outputs_back[OF codec_txout[OF curve], of ?w x] by simp
  have clean: "Cleanup \<lparr>fCoinBase = fCoinBase c, cvout = ?w, cHeight = cHeight c, cVersion = cVersion c\<rparr> = c"
    using wf Cleanup_vout_pad[of ?v n] by (simp add: Cleanup_def)
  have ser: "Serialize_CCoins valid c = Some (WriteVarInt_int (cVersion c) @ WriteVarInt_u32 (coins_code c N) @ map (mask_byte ?v) [0..<B] @
      concat (map (Serialize_CTxOutCompressor valid) (filter (\<lambda>t. \<not> CTxOut_IsNull t) ?v)) @ WriteVarInt_int (cHeight c))"
    using some m by (auto simp: Serialize_CCoins_def)
  have ok: "0 \<le> cHeight c \<and> cHeight c < 2 ^ 31" "0 \<le> cVersion c \<and> cVersion c < 2 ^ 31" using c by (simp_all add: coins_compressible_def)
  show ?thesis unfolding ser Unserialize_CCoins_def
    by (simp only: option.inject ex_simps simp_thms append_assoc readThen_def readReturn_def andThen_simps prod.case
        var_int32.read_back[OF ok(1)] var_int32.read_back[OF ok(2)] var_u32.read_back count parts mask outs clean)
qed

section \<open>The sizes are the lengths written\<close>

lemma length_var_ints:
  "length (WriteVarInt n) = GetSizeOfVarInt n" "length (WriteVarInt_u32 k) = GetSizeOfVarInt (ucast k)"
  "length (WriteVarInt_int i) = GetSizeOfVarInt_int i"
  by (simp_all add: WriteVarInt_def WriteVarInt_u32_def WriteVarInt_int_def GetSizeOfVarInt_def GetSizeOfVarInt_int_def)

lemma length_txout: "length (Serialize_CTxOutCompressor valid t) = txout_GetSerializeSize valid t"
  by (simp add: Serialize_CTxOutCompressor_def Serialize_CScriptCompressor_def txout_GetSerializeSize_def script_GetSerializeSize_def
      length_var_ints split: option.split)

lemma length_undo: "length (Serialize_CTxInUndo valid u) = CTxInUndo_GetSerializeSize valid u"
  by (simp add: Serialize_CTxInUndo_def CTxInUndo_GetSerializeSize_def length_var_ints length_txout)

lemma length_coins: "map_option length (Serialize_CCoins valid c) = CCoins_GetSerializeSize valid c"
  by (simp add: Serialize_CCoins_def CCoins_GetSerializeSize_def length_var_ints length_concat length_txout comp_def split: prod.split)

section \<open>Properties\<close>

text \<open>C10: The encoding of coins in the database, for every version of the transaction, negative ones included. The coins must not be pruned, must have no spent
  output at their end and null outputs in the place of spent ones, with unspent amounts between 0 and \<^verbatim>\<open>MAX_MONEY\<close>, scripts and the list of outputs of at
  most \<^verbatim>\<open>MAX_SIZE\<close>, and a height that is not negative; and decompressing a key must invert dropping its second coordinate. Then they can be written (the
  assertion that some output is unspent holds), the size computed beforehand is the length written, and reading leaves whatever follows and gives the
  coins, with their version as it was if it is not negative. Of a negative version only the lowest seven bits come back, a value from 0 to 127.\<close>

theorem coins_roundtrip:
  assumes "curve_ok valid point" "coins_in_range c"
  shows "\<exists>bs. Serialize_CCoins valid c = Some bs \<and> CCoins_GetSerializeSize valid c = Some (length bs) \<and>
    Unserialize_CCoins point (bs @ r) = Inr (c\<lparr>cVersion := if cVersion c < 0 then cVersion c mod 128 else cVersion c\<rparr>, r)"
proof -
  obtain bs where bs: "Serialize_CCoins valid c = Some bs" "Unserialize_CCoins point (bs @ r) = Inr (stored_coins c, r)"
    using read_back_coins[OF assms(1) stored_coins_compressible[OF assms(2)], of r] by auto
  moreover have "CCoins_GetSerializeSize valid c = Some (length bs)" using length_coins[of valid c] bs(1) by simp
  ultimately show ?thesis unfolding stored_coins_def stored_int_def by blast
qed

text \<open>C11: The undo data of a block (\<^verbatim>\<open>CBlockUndo\<close>) is read back, whatever follows it: of each input of each of its transactions the output it spent,
  whether that was of a coinbase, and the height. The version is not written at height 0 (for all but the last output of a transaction) and is
  then read as 0; otherwise it is read as it was if it is not negative, and of a negative one only the lowest seven bits come back. Amounts must be between 0 and
  \<^verbatim>\<open>MAX_MONEY\<close>, scripts and lists no longer than \<^verbatim>\<open>MAX_SIZE\<close>, heights not negative and versions of 32 bits, and decompressing a key
  must invert dropping its second coordinate.\<close>

theorem block_undo_roundtrip:
  assumes "curve_ok valid point" "block_undo_in_range us"
  shows "Unserialize_CBlockUndo point (Serialize_CBlockUndo valid us @ r) =
    Inr (map (map (\<lambda>u. u\<lparr>u_nVersion := if u_nHeight u = 0 then 0 else if u_nVersion u < 0 then u_nVersion u mod 128 else u_nVersion u\<rparr>)) us, r)"
  using codec.read_back[OF codec_block_undo[OF assms(1)] stored_block_undo(1)[OF assms(2)], of r]
  unfolding stored_block_undo(2)[OF assms(2)] stored_undo_def stored_int_def .

text \<open>For the witnesses: a curve with a single valid key.\<close>

definition example_valid :: "valtype \<Rightarrow> bool" where
  "example_valid pk \<longleftrightarrow> pk = 4 # replicate 64 7"

definition example_point :: "valtype \<Rightarrow> valtype option" where
  "example_point c = (if c = 3 # replicate 32 7 then Some (4 # replicate 64 7) else None)"

lemma example_curve: "curve_ok example_valid example_point"
  by (auto simp: curve_ok_def example_valid_def example_point_def)

definition example_coins :: CCoins where
  "example_coins = \<lparr>fCoinBase = True,
     cvout = CTxOut_SetNull # \<lparr>nValue = 5000, scriptPubKey = [65] @ (4 # replicate 64 7) @ [OP_CHECKSIG]\<rparr> # replicate 7 CTxOut_SetNull @
       [\<lparr>nValue = 1, scriptPubKey = [OP_TRUE]\<rparr>], cHeight = 7, cVersion = -1\<rparr>"

lemma example_in_range: "coins_in_range example_coins"
  by (simp add: coins_in_range_def example_coins_def IsPruned_def Cleanup_vout_def CTxOut_SetNull_def CTxOut_IsNull_def
      txout_compressible_def MAX_MONEY_def COIN_def MAX_SIZE_def list_all_iff)

theorem coins_roundtrip_witness:
  "\<exists>bs. Serialize_CCoins example_valid example_coins = Some bs \<and> CCoins_GetSerializeSize example_valid example_coins = Some (length bs) \<and>
     Unserialize_CCoins example_point (bs @ [0]) = Inr (example_coins\<lparr>cVersion := 127\<rparr>, [0])"
proof -
  have "cVersion example_coins = -1" by (simp add: example_coins_def)
  then show ?thesis using coins_roundtrip[OF example_curve example_in_range, of "[0]"] by simp
qed

definition example_undo :: "CTxUndo list" where
  "example_undo = [[\<lparr>u_txout = \<lparr>nValue = 5000, scriptPubKey = [65] @ (4 # replicate 64 7) @ [OP_CHECKSIG]\<rparr>, u_fCoinBase = True, u_nHeight = 7, u_nVersion = -1\<rparr>,
     \<lparr>u_txout = \<lparr>nValue = 1, scriptPubKey = [OP_TRUE]\<rparr>, u_fCoinBase = False, u_nHeight = 3, u_nVersion = 2\<rparr>]]"

theorem block_undo_roundtrip_witness:
  "Unserialize_CBlockUndo example_point (Serialize_CBlockUndo example_valid example_undo @ [0]) =
     Inr ([[\<lparr>u_txout = \<lparr>nValue = 5000, scriptPubKey = [65] @ (4 # replicate 64 7) @ [OP_CHECKSIG]\<rparr>, u_fCoinBase = True, u_nHeight = 7, u_nVersion = 127\<rparr>,
       \<lparr>u_txout = \<lparr>nValue = 1, scriptPubKey = [OP_TRUE]\<rparr>, u_fCoinBase = False, u_nHeight = 3, u_nVersion = 2\<rparr>]], [0])"
proof -
  have "block_undo_in_range example_undo"
    by (simp add: block_undo_in_range_def undo_in_range_def example_undo_def txout_compressible_def MAX_MONEY_def COIN_def MAX_SIZE_def)
  from block_undo_roundtrip[OF example_curve this, of "[0]"] show ?thesis unfolding example_undo_def by simp
qed

end
