(* ===== verification/CoinsDB.thy ===== *)
theory CoinsDB
  imports Compressor
begin

text \<open>
  The database of unspent outputs, \<^verbatim>\<open>CCoinsViewDB\<close> of \<^verbatim>\<open>txdb.cpp\<close>: records under the ids of transactions, written by \<^verbatim>\<open>CCoins::Serialize\<close> and read by
  \<^verbatim>\<open>CCoins::Unserialize\<close>. It provides the interface \<open>coins_view\<close> for coins in the range of the encoding, in the form that comes back from it. The
  mask that \<^verbatim>\<open>CDBWrapper\<close> puts over every record is the same when it is written and read, and is left out.
\<close>

record CCoinsViewDB =
  db_coins :: "uint256 \<rightharpoonup> byte list"
  db_best :: "uint256 option"

text \<open>\<^verbatim>\<open>CDBWrapper::Read\<close> answers \<^verbatim>\<open>false\<close> if there is no record, and if it cannot be deserialized.\<close>

definition db_GetCoins :: "(valtype \<Rightarrow> valtype option) \<Rightarrow> CCoinsViewDB \<Rightarrow> GetCoins_fun" where
  "db_GetCoins point d txid =
     (case db_coins d txid of
        None \<Rightarrow> None
      | Some bs \<Rightarrow> (case Unserialize_CCoins point bs of Inl _ \<Rightarrow> None | Inr (c, _) \<Rightarrow> Some c))"

definition db_HaveCoins :: "CCoinsViewDB \<Rightarrow> uint256 \<Rightarrow> bool" where
  "db_HaveCoins d txid \<longleftrightarrow> db_coins d txid \<noteq> None"

definition db_GetBestBlock :: "CCoinsViewDB \<Rightarrow> uint256" where
  "db_GetBestBlock d = (case db_best d of None \<Rightarrow> blob_null 32 | Some h \<Rightarrow> h)"

definition db_BatchWrite :: "(valtype \<Rightarrow> bool) \<Rightarrow> CCoinsViewDB \<Rightarrow> CCoinsMap \<Rightarrow> uint256 \<Rightarrow> CCoinsViewDB" where
  "db_BatchWrite valid d mapCoins hashBlockIn =
     \<lparr>db_coins = (\<lambda>x. case mapCoins x of
            Some e \<Rightarrow> if DIRTY e then (if IsPruned (coins e) then None else Serialize_CCoins valid (coins e)) else db_coins d x
          | None \<Rightarrow> db_coins d x),
      db_best = (if \<not> blob_IsNull hashBlockIn then Some hashBlockIn else db_best d)\<rparr>"

section \<open>What is read from the database\<close>

text \<open>A record is written for coins that are not pruned, and for them the assertion of \<^verbatim>\<open>CCoins::Serialize\<close> holds: only \<^verbatim>\<open>Erase\<close> removes records.\<close>

lemma Serialize_CCoins_asserts:
  assumes "\<not> IsPruned c"
  shows "Serialize_CCoins valid c \<noteq> None"
proof -
  let ?v = "cvout c"
  obtain B N where m: "CalcMaskSize ?v = (B, N)" by fastforce
  note spec = CalcMaskSize_spec[OF m]
  obtain i where i: "output_unspent ?v i"
    using assms by (auto simp: IsPruned_def list_all_iff output_unspent_def in_set_conv_nth)
  have "N \<noteq> 0" if "2 \<le> i"
  proof -
    define b where "b = (i - 2) div 8"
    have r: "i = 2 + b * 8 + (i - 2) mod 8" "(i - 2) mod 8 < 8" using that by (simp_all add: b_def)
    then have "output_unspent ?v (2 + b * 8 + (i - 2) mod 8)" using i by metis
    then have "mask_byte ?v b \<noteq> 0" using mask_byte_bit[OF r(2), of ?v b] by auto
    then have nz: "\<not> mask_zero ?v b" by (simp add: mask_byte_zero)
    then have "b < B" using spec(1) by (meson not_le)
    then have "mask_byte ?v b \<in> set (filter (\<lambda>b. b \<noteq> 0) (map (mask_byte ?v) [0..<B]))" using nz by (simp add: mask_byte_zero)
    then show ?thesis using spec(3) by (metis length_0_conv empty_iff list.set(1))
  qed
  moreover have "i = 0 \<or> i = 1 \<or> 2 \<le> i" by linarith
  ultimately have "output_unspent ?v 0 \<or> output_unspent ?v 1 \<or> N \<noteq> 0" using i by metis
  then show ?thesis by (auto simp: Serialize_CCoins_def m)
qed

text \<open>Every record was written for some coins.\<close>

definition db_ok :: "(valtype \<Rightarrow> bool) \<Rightarrow> CCoinsViewDB \<Rightarrow> bool" where
  "db_ok valid d \<longleftrightarrow> (\<forall>x bs. db_coins d x = Some bs \<longrightarrow> (\<exists>c. coins_in_range c \<and> Serialize_CCoins valid c = Some bs))"

lemma read_record:
  assumes "curve_ok valid point" "coins_in_range c"
  shows "\<exists>bs. Serialize_CCoins valid c = Some bs \<and> Unserialize_CCoins point bs = Inr (stored_coins c, [])"
  using read_back_coins[OF assms(1) stored_coins_compressible[OF assms(2)], of "[]"] by simp

interpretation db: coins_view "db_GetCoins point" "db_BatchWrite valid" "\<lambda>d. curve_ok valid point \<and> db_ok valid d" coins_in_range stored_coins
  for valid point
proof (unfold_locales, goal_cases)
  case (1 d m h x)
  show ?case
  proof (cases "m x")
    case None
    then show ?thesis by (simp add: db_GetCoins_def db_BatchWrite_def)
  next
    case (Some e)
    show ?thesis
    proof (cases "DIRTY e \<and> \<not> IsPruned (coins e)")
      case True
      then have "coins_in_range (coins e)" using batch_fitsD[OF 1(3) Some] by blast
      then show ?thesis using read_record[of valid point "coins e"] 1(1) Some True by (auto simp: db_GetCoins_def db_BatchWrite_def)
    next
      case False
      then show ?thesis using Some by (auto simp: db_GetCoins_def db_BatchWrite_def)
    qed
  qed
next
  case (2 d m h)
  have "\<exists>c. coins_in_range c \<and> Serialize_CCoins valid c = Some bs" if bs: "db_coins (db_BatchWrite valid d m h) x = Some bs" for x bs
  proof (cases "m x")
    case None
    then show ?thesis using bs 2(1) by (auto simp: db_BatchWrite_def db_ok_def)
  next
    case (Some e)
    then show ?thesis using bs 2(1) batch_fitsD[OF 2(3) Some] by (auto simp: db_BatchWrite_def db_ok_def split: if_split_asm)
  qed
  then show ?case using 2(1) by (simp add: db_ok_def)
next
  case (3 d x)
  show ?case
  proof (cases "db_coins d x")
    case None
    then show ?thesis by (simp add: db_GetCoins_def)
  next
    case (Some bs)
    then obtain c where c: "coins_in_range c" "Serialize_CCoins valid c = Some bs" using 3 by (auto simp: db_ok_def)
    then have "db_GetCoins point d x = Some (stored_coins c)" using read_record[of valid point c] 3 Some by (auto simp: db_GetCoins_def)
    then show ?thesis by simp
  qed
qed

text \<open>\<^verbatim>\<open>pcoinsTip\<close> over the database is the parent of the view of a block.\<close>

interpretation tip: coins_view "\<lambda>(c, d). cache_get (db_GetCoins point d) c" "\<lambda>(c, d) m h. (BatchWrite c m h, d)"
  "\<lambda>(c, d). cache_ok (db_GetCoins point d) c \<and> curve_ok valid point \<and> db_ok valid d" "\<lambda>_. True" "\<lambda>c. c"
  for valid point
  using db.cache_is_view .

section \<open>Properties\<close>

text \<open>C16: writing back loses nothing but part of a negative version. Take the database, the tip cache over it and the view of a block over the tip, each
  with flags that are right about its parent, where every record of the database was written for some coins and the coins that are to be written are in the
  range of the encoding (\<open>coins_in_range\<close>: with any version), and decompressing a key inverts dropping its second coordinate (\<open>curve_ok\<close>). Flush the block's view into the tip and then the tip into the database. The first step does
  not touch the database, and the tip then shows every transaction with exactly the coins that the block's view showed. After the second step they are read in
  the database, and through the emptied tip cache, as \<^verbatim>\<open>CCoins::Unserialize\<close> gives them back: the same coins, but of a negative version only the
  lowest seven bits (\<open>stored_coins\<close>). The second step records the best block of the block's view, and the flags of the tip and the records are
  right again.\<close>

theorem flush_reaches_database:
  assumes "curve_ok valid point" "db_ok valid d"
    and "cache_ok (db_GetCoins point d) tip" "cache_ok (cache_get (db_GetCoins point d) tip) blk"
    and "batch_fits coins_in_range (cacheCoins tip)" "batch_fits coins_in_range (cacheCoins blk)"
    and "Flush (\<lambda>(c, d) m h. (BatchWrite c m h, d)) (tip, d) blk = ((tip1, d1), blk1)"
    and "Flush (db_BatchWrite valid) d1 tip1 = (d2, tip2)"
  shows "d1 = d \<and> cache_ok (db_GetCoins point d1) tip1 \<and> cache_ok (db_GetCoins point d2) tip2 \<and> db_ok valid d2 \<and>
    (\<not> blob_IsNull (hashBlock blk) \<longrightarrow> db_GetBestBlock d2 = hashBlock blk) \<and>
    (\<forall>x. live (cache_get (db_GetCoins point d) tip1 x) = live (cache_get (cache_get (db_GetCoins point d) tip) blk x) \<and>
         live (db_GetCoins point d2 x) = map_option stored_coins (live (cache_get (cache_get (db_GetCoins point d) tip) blk x)) \<and>
         live (cache_get (db_GetCoins point d2) tip2 x) = map_option stored_coins (live (cache_get (cache_get (db_GetCoins point d) tip) blk x)))"
proof -
  have s1: "d1 = d" "tip1 = BatchWrite tip (cacheCoins blk) (hashBlock blk)" using assms(7) by (auto simp: Flush_def)
  have s2: "d2 = fst (Flush (db_BatchWrite valid) d1 tip1)" "tip2 = tip1\<lparr>cacheCoins := Map.empty\<rparr>"
    using assms(8) by (auto simp: Flush_def)
  have all: "batch_fits (\<lambda>_. True) m" for m by (simp add: batch_fits_def)
  have "batch_ok (cache_get (db_GetCoins point d) tip) (cacheCoins blk)" using assms(4) by (auto simp: batch_ok_def cache_ok_def)
  then have ok1: "cache_ok (db_GetCoins point d1) tip1"
    using tip.invar_write[of point valid "(tip, d)" "cacheCoins blk" "hashBlock blk"] assms(1-3) s1 all by simp
  have v1: "live (cache_get (db_GetCoins point d) tip1 x) = live (cache_get (cache_get (db_GetCoins point d) tip) blk x)" for x
    using tip.flush_keeps_view[of point valid "(tip, d)" blk x] assms(1-4) s1 all by (simp add: Flush_def option.map_ident)
  have fits: "batch_fits coins_in_range (cacheCoins tip1)" unfolding s1(2) by (rule BatchWrite_fits[OF assms(5,6)])
  have v2: "live (db_GetCoins point d2 x) = map_option stored_coins (live (cache_get (db_GetCoins point d) tip1 x))" for x
    using db.flush_keeps_view[of valid point d1 tip1 x] assms(1,2) ok1 fits s1(1) s2(1) by simp
  have "batch_ok (db_GetCoins point d1) (cacheCoins tip1)" using ok1 by (auto simp: batch_ok_def cache_ok_def)
  then have "db_ok valid d2" using db.invar_write[of valid point d1 "cacheCoins tip1" "hashBlock tip1"] assms(1,2) fits s1(1) s2(1) by (simp add: Flush_def)
  moreover have "cache_ok (db_GetCoins point d2) tip2" "cache_get (db_GetCoins point d2) tip2 x = db_GetCoins point d2 x" for x
    by (simp_all add: s2(2) cache_ok_def cache_get_def)
  moreover have "db_GetBestBlock d2 = hashBlock blk" if "\<not> blob_IsNull (hashBlock blk)"
    using that by (simp add: s2(1) s1(2) Flush_def db_BatchWrite_def BatchWrite_def db_GetBestBlock_def)
  ultimately show ?thesis using s1(1) ok1 v1 v2 by simp
qed

text \<open>A database with coins of version 1, a tip that spends them, and a view that adds coins of version -1.\<close>

definition demo_db :: CCoinsViewDB where
  "demo_db = \<lparr>db_coins = [[1] \<mapsto> the (Serialize_CCoins example_valid demo_coin)], db_best = None\<rparr>"

definition demo_spent :: CCoinsViewCache where
  "demo_spent = \<lparr>cacheCoins = [[1] \<mapsto> \<lparr>coins = CCoins_Clear, DIRTY = True, FRESH = False\<rparr>], hashBlock = [2]\<rparr>"

definition demo_added :: CCoinsViewCache where
  "demo_added = \<lparr>cacheCoins = [[7] \<mapsto> \<lparr>coins = example_coins, DIRTY = True, FRESH = True\<rparr>], hashBlock = [3]\<rparr>"

lemma demo_record: "coins_in_range demo_coin" "db_ok example_valid demo_db" "db_GetCoins example_point demo_db [1] = Some demo_coin"
proof -
  show r: "coins_in_range demo_coin"
    by (simp add: coins_in_range_def demo_coin_def IsPruned_def Cleanup_vout_def CTxOut_IsNull_def txout_compressible_def MAX_MONEY_def COIN_def MAX_SIZE_def)
  obtain bs where bs: "Serialize_CCoins example_valid demo_coin = Some bs" "Unserialize_CCoins example_point bs = Inr (stored_coins demo_coin, [])"
    using read_record[OF example_curve r] by blast
  then show "db_ok example_valid demo_db" using r by (auto simp: db_ok_def demo_db_def split: if_split_asm)
  have "stored_coins demo_coin = demo_coin" by (simp add: stored_coins_def stored_int_def demo_coin_def)
  then show "db_GetCoins example_point demo_db [1] = Some demo_coin" using bs by (simp add: db_GetCoins_def demo_db_def)
qed

theorem flush_reaches_database_witness:
  "\<exists>d2. fst (Flush (db_BatchWrite example_valid) demo_db (BatchWrite demo_spent (cacheCoins demo_added) (hashBlock demo_added))) = d2 \<and>
     live (db_GetCoins example_point d2 [1]) = None \<and> live (db_GetCoins example_point d2 [7]) = Some (example_coins\<lparr>cVersion := 127\<rparr>) \<and>
     db_GetBestBlock d2 = [3]"
proof -
  let ?g = "db_GetCoins example_point demo_db" and ?t = "BatchWrite demo_spent (cacheCoins demo_added) (hashBlock demo_added)"
  have n7: "db_coins demo_db [7] = None" by (simp add: demo_db_def)
  have p: "IsPruned CCoins_Clear" "\<not> IsPruned example_coins" "\<not> IsPruned demo_coin"
    using example_in_range demo_record(1) by (simp_all add: coins_in_range_def CCoins_Clear_def IsPruned_def)
  have ok: "cache_ok ?g demo_spent" "cache_ok (cache_get ?g demo_spent) demo_added"
    using n7 by (simp_all add: cache_ok_def demo_spent_def demo_added_def cache_get_def db_GetCoins_def)
  have fits: "batch_fits coins_in_range (cacheCoins demo_spent)" "batch_fits coins_in_range (cacheCoins demo_added)"
    using p example_in_range by (simp_all add: batch_fits_def demo_spent_def demo_added_def)
  have f: "Flush (\<lambda>(c, d) m h. (BatchWrite c m h, d)) (demo_spent, demo_db) demo_added = ((?t, demo_db), demo_added\<lparr>cacheCoins := Map.empty\<rparr>)"
    by (simp add: Flush_def)
  have v: "live (cache_get (cache_get ?g demo_spent) demo_added [1]) = None" "live (cache_get (cache_get ?g demo_spent) demo_added [7]) = Some example_coins"
    using p by (simp_all add: cache_get_def demo_spent_def demo_added_def)
  have "stored_coins example_coins = example_coins\<lparr>cVersion := 127\<rparr>" by (simp add: stored_coins_def stored_int_def example_coins_def)
  moreover have "hashBlock demo_added = [3]" "\<not> blob_IsNull [3]" by (simp_all add: demo_added_def blob_IsNull_def)
  ultimately show ?thesis
    using flush_reaches_database[OF example_curve demo_record(2) ok fits f surjective_pairing] v by simp
qed

end
