(* ===== verification/BestChain.thy ===== *)
theory BestChain
  imports BlockIndex CoinsDB
begin

text \<open>
  How \<^verbatim>\<open>main.cpp\<close> makes the best chain active: \<^verbatim>\<open>ActivateBestChain\<close> with the connecting and disconnecting of tips, the files of blocks
  and undo data, \<^verbatim>\<open>FlushStateToDisk\<close>, and the entry points that call them. What the machine answers (free space, the clock, whether a file can be
  opened or a batch is written) is given by a \<open>world\<close>, a function of the number of questions so far. The memory pool, wallets, the interface and
  peers are left out, as are pruning (\<^verbatim>\<open>fPruneMode\<close> is false) and the optional indexes.

  A result \<open>None\<close> is an assertion that fails, a null pointer that is followed, or a loop that does not end.
\<close>

section \<open>State\<close>

record CBlockFileInfo =
  fi_nBlocks :: u32
  fi_nSize :: u32
  fi_nUndoSize :: u32
  fi_nHeightFirst :: u32
  fi_nHeightLast :: u32
  fi_nTimeFirst :: u64
  fi_nTimeLast :: u64

definition CBlockFileInfo_SetNull :: CBlockFileInfo where
  "CBlockFileInfo_SetNull = \<lparr>fi_nBlocks = 0, fi_nSize = 0, fi_nUndoSize = 0, fi_nHeightFirst = 0, fi_nHeightLast = 0, fi_nTimeFirst = 0, fi_nTimeLast = 0\<rparr>"

definition AddBlock :: "u32 \<Rightarrow> u64 \<Rightarrow> CBlockFileInfo \<Rightarrow> CBlockFileInfo" where
  "AddBlock nHeightIn nTimeIn i =
     \<lparr>fi_nBlocks = fi_nBlocks i + 1, fi_nSize = fi_nSize i, fi_nUndoSize = fi_nUndoSize i,
      fi_nHeightFirst = (if fi_nBlocks i = 0 \<or> fi_nHeightFirst i > nHeightIn then nHeightIn else fi_nHeightFirst i),
      fi_nHeightLast = (if nHeightIn > fi_nHeightLast i then nHeightIn else fi_nHeightLast i),
      fi_nTimeFirst = (if fi_nBlocks i = 0 \<or> fi_nTimeFirst i > nTimeIn then nTimeIn else fi_nTimeFirst i),
      fi_nTimeLast = (if nTimeIn > fi_nTimeLast i then nTimeIn else fi_nTimeLast i)\<rparr>"

text \<open>The files hold what is read at a position: a block, or the bytes of undo data with their checksum. The databases are the unspent outputs and the block tree.\<close>

record chain_state =
  ix :: index_state
  pcoinsTip :: CCoinsViewCache
  pcoinsdbview :: CCoinsViewDB
  versionbitscache :: VersionBitsCache
  vinfoBlockFile :: "CBlockFileInfo list"
  nLastBlockFile :: nat
  setDirtyFileInfo :: "nat list"
  blk_files :: "CDiskBlockPos \<rightharpoonup> CBlock"
  rev_files :: "CDiskBlockPos \<rightharpoonup> byte list \<times> uint256"
  db_block_files :: "nat \<rightharpoonup> CBlockFileInfo"
  db_last_block :: "nat option"
  db_block_index :: "uint256 \<rightharpoonup> CBlockIndex \<times> uint256"
  nLastWrite :: int
  nLastFlush :: int
  nLastSetChain :: int
  fRequestShutdown :: bool
  ticks :: nat

text \<open>\<open>w_large\<close> and \<open>w_critical\<close> are the comparisons of the memory that the cache uses with the limit, the first with a factor 10/9. \<open>w_valid\<close>
  and \<open>w_point\<close> are what the library of the curve says of public keys, which the encoding of scripts asks.\<close>

record world =
  w_free :: "nat \<Rightarrow> nat"
  w_now :: "nat \<Rightarrow> int"
  w_file :: "nat \<Rightarrow> bool"
  w_batch :: "nat \<Rightarrow> bool"
  w_large :: "nat \<Rightarrow> bool"
  w_critical :: "nat \<Rightarrow> bool"
  w_entries :: "nat \<Rightarrow> nat"
  w_error :: "nat \<Rightarrow> string"
  w_shutdown :: "nat \<Rightarrow> bool"
  w_valid :: "valtype \<Rightarrow> bool"
  w_point :: "valtype \<Rightarrow> valtype option"

type_synonym 'a outcome = "('a \<times> CValidationState \<times> chain_state) option"

definition tick :: "chain_state \<Rightarrow> chain_state" where
  "tick s = s\<lparr>ticks := ticks s + 1\<rparr>"

definition with_ix :: "(index_state \<Rightarrow> index_state option) \<Rightarrow> chain_state \<Rightarrow> chain_state option" where
  "with_ix f s = do { i \<leftarrow> f (ix s); Some (s\<lparr>ix := i\<rparr>) }"

text \<open>\<^verbatim>\<open>AbortNode\<close>\<close>

definition AbortNode :: "CValidationState \<Rightarrow> string \<Rightarrow> chain_state \<Rightarrow> bool outcome" where
  "AbortNode state msg s = Some (False, state_Error state msg, s\<lparr>fRequestShutdown := True\<rparr>)"

definition ShutdownRequested :: "world \<Rightarrow> chain_state \<Rightarrow> bool" where
  "ShutdownRequested w s \<longleftrightarrow> fRequestShutdown s \<or> w_shutdown w (ticks s)"

definition nMinDiskSpace :: nat where "nMinDiskSpace = 52428800"

definition CheckDiskSpace :: "world \<Rightarrow> nat \<Rightarrow> chain_state \<Rightarrow> bool \<times> chain_state" where
  "CheckDiskSpace w nAdditionalBytes s =
     (if w_free w (ticks s) < nMinDiskSpace + nAdditionalBytes then (False, tick (s\<lparr>fRequestShutdown := True\<rparr>)) else (True, tick s))"

section \<open>Files\<close>

definition MAX_BLOCKFILE_SIZE :: u32 where "MAX_BLOCKFILE_SIZE = 0x8000000"
definition BLOCKFILE_CHUNK_SIZE :: u32 where "BLOCKFILE_CHUNK_SIZE = 0x1000000"
definition UNDOFILE_CHUNK_SIZE :: u32 where "UNDOFILE_CHUNK_SIZE = 0x100000"

text \<open>A chunk of the file is reserved if the position has passed the end of the last one.\<close>

definition reserve :: "world \<Rightarrow> u32 \<Rightarrow> u32 \<Rightarrow> u32 \<Rightarrow> CValidationState \<Rightarrow> chain_state \<Rightarrow> bool \<times> CValidationState \<times> chain_state" where
  "reserve w chunk pos new_size state s =
     (let nOldChunks = (pos + chunk - 1) div chunk; nNewChunks = (new_size + chunk - 1) div chunk in
      if nNewChunks > nOldChunks
      then (case CheckDiskSpace w (unat (nNewChunks * chunk - pos)) s of
              (ok, s) \<Rightarrow> if ok then (True, state, s) else (False, state_Error state ''out of disk space'', s))
      else (True, state, s))"

definition FindUndoPos :: "world \<Rightarrow> int \<Rightarrow> u32 \<Rightarrow> CValidationState \<Rightarrow> chain_state \<Rightarrow> (bool \<times> CDiskBlockPos) outcome" where
  "FindUndoPos w file nAddSize state s =
     (if file < 0 \<or> int (length (vinfoBlockFile s)) \<le> file then None
      else let n = nat file; i = vinfoBlockFile s ! n; size = fi_nUndoSize i + nAddSize;
               s = s\<lparr>vinfoBlockFile := (vinfoBlockFile s)[n := i\<lparr>fi_nUndoSize := size\<rparr>],
                     setDirtyFileInfo := List.insert n (setDirtyFileInfo s)\<rparr>
           in case reserve w UNDOFILE_CHUNK_SIZE (fi_nUndoSize i) size state s of
                (ok, state, s) \<Rightarrow> Some ((ok, \<lparr>pos_nFile = file, pos_nPos = fi_nUndoSize i\<rparr>), state, s))"

text \<open>The loop that looks for a file with enough room; a file that does not exist yet has size zero. An item that is too big for an empty
  file makes the search endless.\<close>

fun find_file :: "u32 \<Rightarrow> CBlockFileInfo list \<Rightarrow> nat \<Rightarrow> nat option" where
  "find_file nAddSize [] n = (if nAddSize \<ge> MAX_BLOCKFILE_SIZE then None else Some n)"
| "find_file nAddSize (i # infos) n = (if fi_nSize i + nAddSize \<ge> MAX_BLOCKFILE_SIZE then find_file nAddSize infos (n + 1) else Some n)"

definition grow :: "nat \<Rightarrow> CBlockFileInfo list \<Rightarrow> CBlockFileInfo list" where
  "grow n infos = infos @ replicate (n + 1 - length infos) CBlockFileInfo_SetNull"

text \<open>\<open>known\<close> is the position of a block that is in its file already.\<close>

definition FindBlockPos ::
    "world \<Rightarrow> CDiskBlockPos option \<Rightarrow> u32 \<Rightarrow> u32 \<Rightarrow> u64 \<Rightarrow> CValidationState \<Rightarrow> chain_state \<Rightarrow> (bool \<times> CDiskBlockPos) outcome" where
  "FindBlockPos w known nAddSize nHeight0 nTime0 state s =
     (case known of
        None \<Rightarrow>
          do { let infos = grow (nLastBlockFile s) (vinfoBlockFile s);
               n \<leftarrow> find_file nAddSize (drop (nLastBlockFile s) infos) (nLastBlockFile s);
               let infos = grow n infos; i = infos ! n; size = fi_nSize i + nAddSize;
                   s = s\<lparr>vinfoBlockFile := infos[n := (AddBlock nHeight0 nTime0 i)\<lparr>fi_nSize := size\<rparr>], nLastBlockFile := n\<rparr>
               in (case reserve w BLOCKFILE_CHUNK_SIZE (fi_nSize i) size state s of
                     (ok, state, s) \<Rightarrow>
                       Some ((ok, \<lparr>pos_nFile = int n, pos_nPos = fi_nSize i\<rparr>), state,
                             if ok then s\<lparr>setDirtyFileInfo := List.insert n (setDirtyFileInfo s)\<rparr> else s)) }
      | Some pos \<Rightarrow>
          if pos_nFile pos < 0 then None
          else let n = nat (pos_nFile pos); infos = grow n (vinfoBlockFile s); i = infos ! n in
               Some ((True, pos), state,
                 s\<lparr>vinfoBlockFile := infos[n := (AddBlock nHeight0 nTime0 i)\<lparr>fi_nSize := max (pos_nPos pos + nAddSize) (fi_nSize i)\<rparr>],
                   nLastBlockFile := n, setDirtyFileInfo := List.insert n (setDirtyFileInfo s)\<rparr>))"

text \<open>Eight bytes of a file are the magic number and the size.\<close>

definition WriteBlockToDisk :: "world \<Rightarrow> CBlock \<Rightarrow> CDiskBlockPos \<Rightarrow> chain_state \<Rightarrow> (bool \<times> CDiskBlockPos) \<times> chain_state" where
  "WriteBlockToDisk w block pos s =
     (if \<not> w_file w (ticks s) then ((False, pos), tick s)
      else let pos = pos\<lparr>pos_nPos := pos_nPos pos + 8\<rparr>
           in ((True, pos), tick (s\<lparr>blk_files := (blk_files s)(pos \<mapsto> block\<lparr>fChecked := False\<rparr>)\<rparr>)))"

definition ReadBlockFromDisk :: "world \<Rightarrow> connect_env \<Rightarrow> nat \<Rightarrow> chain_state \<Rightarrow> (CBlock option \<times> chain_state) option" where
  "ReadBlockFromDisk w e pindex s =
     do { b \<leftarrow> tree (ix s) pindex;
          let pos = GetBlockPos b;
          case (if CDiskBlockPos_IsNull pos \<or> \<not> w_file w (ticks s) then None else blk_files s pos) of
            None \<Rightarrow> Some (None, tick s)
          | Some block \<Rightarrow>
              let hash = header_GetHash (env_Hash e) block in
              if \<not> CheckProofOfWork hash (nBits block) (env_params e) then Some (None, tick s)
              else do { h \<leftarrow> phashBlock b; Some (if hash \<noteq> h then None else Some (block\<lparr>fChecked := False\<rparr>), tick s) } }"

definition undo_checksum :: "world \<Rightarrow> connect_env \<Rightarrow> uint256 \<Rightarrow> CTxUndo list \<Rightarrow> uint256" where
  "undo_checksum w e hash undo = env_Hash e (hash @ Serialize_CBlockUndo (w_valid w) undo)"

definition UndoWriteToDisk :: "world \<Rightarrow> connect_env \<Rightarrow> CTxUndo list \<Rightarrow> CDiskBlockPos \<Rightarrow> uint256 \<Rightarrow> chain_state \<Rightarrow> (bool \<times> CDiskBlockPos) \<times> chain_state" where
  "UndoWriteToDisk w e undo pos hash s =
     (if \<not> w_file w (ticks s) then ((False, pos), tick s)
      else let pos = pos\<lparr>pos_nPos := pos_nPos pos + 8\<rparr>
           in ((True, pos), tick (s\<lparr>rev_files := (rev_files s)(pos \<mapsto> (Serialize_CBlockUndo (w_valid w) undo, undo_checksum w e hash undo))\<rparr>)))"

definition UndoReadFromDisk :: "world \<Rightarrow> connect_env \<Rightarrow> CDiskBlockPos \<Rightarrow> uint256 \<Rightarrow> chain_state \<Rightarrow> CTxUndo list option \<times> chain_state" where
  "UndoReadFromDisk w e pos hash s =
     (case (if w_file w (ticks s) then rev_files s pos else None) of
        None \<Rightarrow> (None, tick s)
      | Some (bs, checksum) \<Rightarrow>
          (case Unserialize_CBlockUndo (w_point w) bs of
             Inl _ \<Rightarrow> (None, tick s)
           | Inr (undo, _) \<Rightarrow> (if checksum \<noteq> undo_checksum w e hash undo then None else Some undo, tick s)))"

section \<open>Writing the state to disk\<close>

datatype FlushStateMode = FLUSH_STATE_NONE | FLUSH_STATE_IF_NEEDED | FLUSH_STATE_PERIODIC | FLUSH_STATE_ALWAYS

definition DATABASE_WRITE_INTERVAL :: int where "DATABASE_WRITE_INTERVAL = 60 * 60"
definition DATABASE_FLUSH_INTERVAL :: int where "DATABASE_FLUSH_INTERVAL = 24 * 60 * 60"

text \<open>\<^verbatim>\<open>CDiskBlockIndex\<close>: an entry with the hash of its predecessor instead of the pointer.\<close>

definition CDiskBlockIndex_of :: "block_store \<Rightarrow> CBlockIndex \<Rightarrow> (CBlockIndex \<times> uint256) option" where
  "CDiskBlockIndex_of st b =
     do { prev \<leftarrow> (case pprev b of None \<Rightarrow> Some (blob_null 32) | Some q \<Rightarrow> GetBlockHash st q); Some (b, prev) }"

primrec write_index_entries :: "block_store \<Rightarrow> nat list \<Rightarrow> (uint256 \<rightharpoonup> CBlockIndex \<times> uint256) \<Rightarrow> (uint256 \<rightharpoonup> CBlockIndex \<times> uint256) option" where
  "write_index_entries st [] db = Some db"
| "write_index_entries st (p # ps) db =
     do { b \<leftarrow> st p; h \<leftarrow> phashBlock b; d \<leftarrow> CDiskBlockIndex_of st b; write_index_entries st ps (db(h \<mapsto> d)) }"

text \<open>The batch of \<^verbatim>\<open>WriteBatchSync\<close>: all of it is written, or nothing and \<^verbatim>\<open>CDBWrapper::WriteBatch\<close> throws an error, whose text is
  \<open>w_error\<close>. The sets of dirty entries are empty afterwards either way, and so is the cache of the unspent outputs.\<close>

definition write_block_index :: "world \<Rightarrow> chain_state \<Rightarrow> (bool \<times> chain_state) option" where
  "write_block_index w s =
     do { db \<leftarrow> write_index_entries (tree (ix s)) (setDirtyBlockIndex (ix s)) (db_block_index s);
          let clean = tick (s\<lparr>ix := (ix s)\<lparr>setDirtyBlockIndex := []\<rparr>, setDirtyFileInfo := []\<rparr>) in
          if list_ex (\<lambda>n. length (vinfoBlockFile s) \<le> n) (setDirtyFileInfo s) then None
          else if w_batch w (ticks s)
          then Some (True, clean\<lparr>db_block_files := (\<lambda>n. if n \<in> set (setDirtyFileInfo s) then Some (vinfoBlockFile s ! n) else db_block_files s n),
                                 db_last_block := Some (nLastBlockFile s), db_block_index := db\<rparr>)
          else Some (False, clean) }"

definition flush_coins :: "world \<Rightarrow> chain_state \<Rightarrow> bool \<times> chain_state" where
  "flush_coins w s =
     (if w_batch w (ticks s)
      then (case Flush (db_BatchWrite (w_valid w)) (pcoinsdbview s) (pcoinsTip s) of (db, c) \<Rightarrow> (True, tick (s\<lparr>pcoinsdbview := db, pcoinsTip := c\<rparr>)))
      else (False, tick (s\<lparr>pcoinsTip := (pcoinsTip s)\<lparr>cacheCoins := Map.empty\<rparr>\<rparr>)))"

text \<open>The last part tells the wallet the position of the chain, which needs the hashes of its blocks.\<close>

definition flush_locator :: "FlushStateMode \<Rightarrow> bool \<Rightarrow> int \<Rightarrow> CValidationState \<Rightarrow> chain_state \<Rightarrow> bool outcome" where
  "flush_locator fmode fDoFullFlush nNow state s =
     (if fDoFullFlush \<or> (fmode = FLUSH_STATE_ALWAYS \<or> fmode = FLUSH_STATE_PERIODIC) \<and> nNow > nLastSetChain s + DATABASE_WRITE_INTERVAL * 1000000
      then do { l \<leftarrow> GetLocator (tree (ix s)) (chainActive (ix s)) None; Some (True, state, s\<lparr>nLastSetChain := nNow\<rparr>) }
      else Some (True, state, s))"

text \<open>First the files and the block index are written, then the unspent outputs, which refer to them.\<close>

definition flush_chainstate :: "world \<Rightarrow> FlushStateMode \<Rightarrow> int \<Rightarrow> CValidationState \<Rightarrow> chain_state \<Rightarrow> bool outcome" where
  "flush_chainstate w fmode nNow state s =
     (case CheckDiskSpace w (128 * 2 * 2 * w_entries w (ticks s)) s of
        (ok, s) \<Rightarrow>
          if \<not> ok then Some (False, state_Error state ''out of disk space'', s)
          else (case flush_coins w s of
                  (ok, s) \<Rightarrow> if \<not> ok then AbortNode state (''System error while flushing: '' @ w_error w (ticks s)) s
                            else flush_locator fmode True nNow state (s\<lparr>nLastFlush := nNow\<rparr>)))"

definition flush_write :: "world \<Rightarrow> FlushStateMode \<Rightarrow> bool \<Rightarrow> int \<Rightarrow> CValidationState \<Rightarrow> chain_state \<Rightarrow> bool outcome" where
  "flush_write w fmode fDoFullFlush nNow state s =
     (case CheckDiskSpace w 0 s of
        (ok, s) \<Rightarrow>
          if \<not> ok then Some (False, state_Error state ''out of disk space'', s)
          else do { (ok, s) \<leftarrow> write_block_index w s;
                    if \<not> ok then AbortNode state (''System error while flushing: '' @ w_error w (ticks s)) s
                    else if fDoFullFlush then flush_chainstate w fmode nNow state (s\<lparr>nLastWrite := nNow\<rparr>)
                    else flush_locator fmode False nNow state (s\<lparr>nLastWrite := nNow\<rparr>) })"

definition FlushStateToDisk :: "world \<Rightarrow> FlushStateMode \<Rightarrow> CValidationState \<Rightarrow> chain_state \<Rightarrow> bool outcome" where
  "FlushStateToDisk w fmode state s =
     (let nNow = w_now w (ticks s);
          s = s\<lparr>nLastWrite := (if nLastWrite s = 0 then nNow else nLastWrite s), nLastFlush := (if nLastFlush s = 0 then nNow else nLastFlush s),
                nLastSetChain := (if nLastSetChain s = 0 then nNow else nLastSetChain s)\<rparr>;
          fCacheLarge = (fmode = FLUSH_STATE_PERIODIC \<and> w_large w (ticks s));
          fCacheCritical = (fmode = FLUSH_STATE_IF_NEEDED \<and> w_critical w (ticks s));
          fPeriodicWrite = (fmode = FLUSH_STATE_PERIODIC \<and> nNow > nLastWrite s + DATABASE_WRITE_INTERVAL * 1000000);
          fPeriodicFlush = (fmode = FLUSH_STATE_PERIODIC \<and> nNow > nLastFlush s + DATABASE_FLUSH_INTERVAL * 1000000);
          fDoFullFlush = (fmode = FLUSH_STATE_ALWAYS \<or> fCacheLarge \<or> fCacheCritical \<or> fPeriodicFlush)
      in if fDoFullFlush \<or> fPeriodicWrite then flush_write w fmode fDoFullFlush nNow state (tick s)
         else flush_locator fmode False nNow state (tick s))"

section \<open>Connecting and disconnecting the tip\<close>

text \<open>The view of the tip: what it holds, and its best block.\<close>

definition tip_view :: "world \<Rightarrow> chain_state \<Rightarrow> GetCoins_fun" where
  "tip_view w s = cache_get (db_GetCoins (w_point w) (pcoinsdbview s)) (pcoinsTip s)"

definition tip_best :: "chain_state \<Rightarrow> uint256" where
  "tip_best s = snd (cache_GetBestBlock (db_GetBestBlock (pcoinsdbview s)) (pcoinsTip s))"

definition flush_view :: "CCoinsViewCache \<Rightarrow> chain_state \<Rightarrow> chain_state" where
  "flush_view view s = s\<lparr>pcoinsTip := fst (Flush BatchWrite (pcoinsTip s) view)\<rparr>"

definition UpdateTip :: "nat option \<Rightarrow> chain_state \<Rightarrow> chain_state option" where
  "UpdateTip pindexNew s = with_ix (\<lambda>i. do { v \<leftarrow> SetTip (tree i) pindexNew (chainActive i); Some (i\<lparr>chainActive := v\<rparr>) }) s"

text \<open>\<^verbatim>\<open>DisconnectBlock\<close> with the reading of the undo data; the answer is the new view, if it is clean.\<close>

definition DisconnectBlock_disk :: "world \<Rightarrow> connect_env \<Rightarrow> CBlock \<Rightarrow> nat \<Rightarrow> chain_state \<Rightarrow> (CCoinsViewCache option \<times> chain_state) option" where
  "DisconnectBlock_disk w e block pindex s =
     do { b \<leftarrow> tree (ix s) pindex;
          h \<leftarrow> phashBlock b;
          if h \<noteq> tip_best s then None
          else let pos = GetUndoPos b in
               if CDiskBlockPos_IsNull pos then Some (None, s)
               else do { q \<leftarrow> pprev b;
                         prevHash \<leftarrow> GetBlockHash (tree (ix s)) q;
                         case UndoReadFromDisk w e pos prevHash s of
                           (None, s) \<Rightarrow> Some (None, s)
                         | (Some undo, s) \<Rightarrow>
                             (case DisconnectBlock (env_Hash e) (tip_view w s) (tip_best s) (vtx block) undo (nHeight b) h prevHash CCoinsViewCache_new of
                                Inl Best_block_differs \<Rightarrow> None
                              | Inl _ \<Rightarrow> Some (None, s)
                              | Inr (view, fClean) \<Rightarrow> Some (if fClean then Some view else None, s)) } }"

definition DisconnectTip :: "world \<Rightarrow> connect_env \<Rightarrow> CValidationState \<Rightarrow> chain_state \<Rightarrow> bool outcome" where
  "DisconnectTip w e state s =
     do { pindexDelete \<leftarrow> Tip (chainActive (ix s));
          (r, s) \<leftarrow> ReadBlockFromDisk w e pindexDelete s;
          case r of
            None \<Rightarrow> AbortNode state ''Failed to read block'' s
          | Some block \<Rightarrow>
              do { (v, s) \<leftarrow> DisconnectBlock_disk w e block pindexDelete s;
                   case v of
                     None \<Rightarrow> Some (False, state, s)
                   | Some view \<Rightarrow>
                       do { (ok, state, s) \<leftarrow> FlushStateToDisk w FLUSH_STATE_IF_NEEDED state (flush_view view s);
                            if \<not> ok then Some (False, state, s)
                            else do { b \<leftarrow> tree (ix s) pindexDelete; s \<leftarrow> UpdateTip (pprev b) s; Some (True, state, s) } } } }"

text \<open>The end of \<^verbatim>\<open>ConnectBlock\<close>: the undo data is written, and the entry is marked.\<close>

definition write_undo_data :: "world \<Rightarrow> connect_env \<Rightarrow> nat \<Rightarrow> CBlockIndex \<Rightarrow> CTxUndo list \<Rightarrow> CValidationState \<Rightarrow> chain_state \<Rightarrow> bool outcome" where
  "write_undo_data w e pindex b undo state s =
     do { ((ok, pos), state, s) \<leftarrow> FindUndoPos w (nFile b) (word_of_nat (length (Serialize_CBlockUndo (w_valid w) undo)) + 40) state s;
          if \<not> ok then Some (False, state, s)
          else do { q \<leftarrow> pprev b;
                    prevHash \<leftarrow> GetBlockHash (tree (ix s)) q;
                    case UndoWriteToDisk w e undo pos prevHash s of
                      ((ok, pos), s) \<Rightarrow>
                        if \<not> ok then AbortNode state ''Failed to write undo data'' s
                        else Some (True, state, s\<lparr>ix := set_block pindex (b\<lparr>nUndoPos := pos_nPos pos, nStatus := nStatus b OR BLOCK_HAVE_UNDO\<rparr>) (ix s)\<rparr>) } }"

definition write_undo :: "world \<Rightarrow> connect_env \<Rightarrow> nat \<Rightarrow> CTxUndo list \<Rightarrow> CValidationState \<Rightarrow> chain_state \<Rightarrow> bool outcome" where
  "write_undo w e pindex undo state s =
     do { b \<leftarrow> tree (ix s) pindex;
          valid \<leftarrow> IsValid b BLOCK_VALID_SCRIPTS;
          if \<not> (CDiskBlockPos_IsNull (GetUndoPos b) \<or> \<not> valid) then Some (True, state, s)
          else do { (ok, state, s) \<leftarrow>
                      (if CDiskBlockPos_IsNull (GetUndoPos b) then write_undo_data w e pindex b undo state s else Some (True, state, s));
                    if \<not> ok then Some (False, state, s)
                    else do { b \<leftarrow> tree (ix s) pindex;
                              (b, _) \<leftarrow> RaiseValidity b BLOCK_VALID_SCRIPTS;
                              Some (True, state, s\<lparr>ix := set_dirty pindex (set_block pindex b (ix s))\<rparr>) } } }"

text \<open>\<^verbatim>\<open>ConnectBlock\<close> on a view of the tip; the answer is the new view.\<close>

definition ConnectBlock_disk :: "world \<Rightarrow> connect_env \<Rightarrow> CBlock \<Rightarrow> CValidationState \<Rightarrow> nat \<Rightarrow> chain_state \<Rightarrow> CCoinsViewCache option outcome" where
  "ConnectBlock_disk w e block state pindex s =
     (let e = e\<lparr>env_tree := tree (ix s), env_index := map_of (mapBlockIndex (ix s))\<rparr> in
      case ConnectBlock e (tip_view w s) (tip_best s) block state pindex (versionbitscache s) CCoinsViewCache_new False of
        Inl Aborted \<Rightarrow> None
      | Inl (Rejected state) \<Rightarrow> Some (None, state, s)
      | Inr (view, undo, caches) \<Rightarrow>
          if header_GetHash (env_Hash e) block = hashGenesisBlock (env_params e) then Some (Some view, state, s)
          else do { (ok, state, s) \<leftarrow> write_undo w e pindex undo state (s\<lparr>versionbitscache := caches\<rparr>);
                    Some (if ok then Some view else None, state, s) })"

definition ConnectTip :: "world \<Rightarrow> connect_env \<Rightarrow> CValidationState \<Rightarrow> nat \<Rightarrow> CBlock option \<Rightarrow> chain_state \<Rightarrow> bool outcome" where
  "ConnectTip w e state pindexNew pblock s =
     do { b \<leftarrow> tree (ix s) pindexNew;
          if pprev b \<noteq> Tip (chainActive (ix s)) then None
          else do { (r, s) \<leftarrow> (case pblock of Some block \<Rightarrow> Some (Some block, s) | None \<Rightarrow> ReadBlockFromDisk w e pindexNew s);
                    case r of
                      None \<Rightarrow> AbortNode state ''Failed to read block'' s
                    | Some block \<Rightarrow>
                        do { (v, state, s) \<leftarrow> ConnectBlock_disk w e block state pindexNew s;
                             case v of
                               None \<Rightarrow>
                                 (if state_IsInvalid state
                                  then do { s \<leftarrow> with_ix (InvalidBlockFound pindexNew state) s; Some (False, state, s) }
                                  else Some (False, state, s))
                             | Some view \<Rightarrow>
                                 do { (ok, state, s) \<leftarrow> FlushStateToDisk w FLUSH_STATE_IF_NEEDED state (flush_view view s);
                                      if \<not> ok then Some (False, state, s)
                                      else do { s \<leftarrow> UpdateTip (Some pindexNew) s; Some (True, state, s) } } } } }"

section \<open>One step towards the best chain\<close>

text \<open>The loop that disconnects down to the fork.\<close>

partial_function (option) disconnect_to :: "world \<Rightarrow> connect_env \<Rightarrow> nat option \<Rightarrow> CValidationState \<Rightarrow> chain_state \<Rightarrow> bool outcome" where
  "disconnect_to w e pindexFork state s =
     (if Tip (chainActive (ix s)) \<noteq> None \<and> Tip (chainActive (ix s)) \<noteq> pindexFork
      then do { (ok, state, s) \<leftarrow> DisconnectTip w e state s;
                if ok then disconnect_to w e pindexFork state s else Some (False, state, s) }
      else Some (True, state, s))"

text \<open>The blocks above height \<open>nHeight0\<close>, from the top.\<close>

partial_function (option) blocks_above :: "block_store \<Rightarrow> int \<Rightarrow> nat option \<Rightarrow> nat list option" where
  "blocks_above st nHeight0 pindexIter =
     (case pindexIter of
        None \<Rightarrow> Some []
      | Some p \<Rightarrow>
          do { b \<leftarrow> st p;
               if nHeight b = nHeight0 then Some [] else do { ps \<leftarrow> blocks_above st nHeight0 (pprev b); Some (p # ps) } })"

text \<open>How the loop over the blocks to connect ends: all are connected; the chain has more work than before; a block is invalid; a system error.\<close>

datatype connect_result = All_connected | Better_tip | Invalid_found | System_error

primrec connect_list ::
    "world \<Rightarrow> connect_env \<Rightarrow> nat option \<Rightarrow> nat \<Rightarrow> CBlock option \<Rightarrow> nat \<Rightarrow> nat list \<Rightarrow> CValidationState \<Rightarrow> chain_state \<Rightarrow> connect_result outcome" where
  "connect_list w e pindexOldTip pindexMostWork pblock lowest [] state s = Some (All_connected, state, s)"
| "connect_list w e pindexOldTip pindexMostWork pblock lowest (p # ps) state s =
     do { (ok, state, s) \<leftarrow> ConnectTip w e state p (if p = pindexMostWork then pblock else None) s;
          if \<not> ok then
            (if state_IsInvalid state
             then do { s \<leftarrow> (if \<not> corruptionPossible state then with_ix (InvalidChainFound lowest) s else Some s);
                       Some (Invalid_found, CValidationState_new, s) }
             else Some (System_error, state, s))
          else do { s \<leftarrow> with_ix PruneBlockIndexCandidates s;
                    tip \<leftarrow> Tip (chainActive (ix s));
                    better \<leftarrow> more_work (tree (ix s)) tip pindexOldTip;
                    if better then Some (Better_tip, state, s)
                    else connect_list w e pindexOldTip pindexMostWork pblock lowest ps state s } }"

text \<open>The loop over runs of at most 32 blocks. The lowest block of a run is \<^verbatim>\<open>vpindexToConnect.back()\<close>.\<close>

partial_function (option) connect_runs ::
    "world \<Rightarrow> connect_env \<Rightarrow> nat option \<Rightarrow> nat \<Rightarrow> CBlock option \<Rightarrow> int \<Rightarrow> CValidationState \<Rightarrow> chain_state \<Rightarrow> bool outcome" where
  "connect_runs w e pindexOldTip pindexMostWork pblock nHeight0 state s =
     do { m \<leftarrow> tree (ix s) pindexMostWork;
          if nHeight0 = nHeight m then Some (True, state, s)
          else let nTargetHeight = min (nHeight0 + 32) (nHeight m) in
               do { a \<leftarrow> GetAncestor (tree (ix s)) pindexMostWork nTargetHeight;
                    ps \<leftarrow> blocks_above (tree (ix s)) nHeight0 a;
                    (r, state, s) \<leftarrow> connect_list w e pindexOldTip pindexMostWork pblock (last ps) (rev ps) state s;
                    case r of
                      All_connected \<Rightarrow> connect_runs w e pindexOldTip pindexMostWork pblock nTargetHeight state s
                    | System_error \<Rightarrow> Some (False, state, s)
                    | _ \<Rightarrow> Some (True, state, s) } }"

definition ActivateBestChainStep :: "world \<Rightarrow> connect_env \<Rightarrow> nat \<Rightarrow> CBlock option \<Rightarrow> CValidationState \<Rightarrow> chain_state \<Rightarrow> bool outcome" where
  "ActivateBestChainStep w e pindexMostWork pblock state s =
     do { let pindexOldTip = Tip (chainActive (ix s));
          pindexFork \<leftarrow> FindFork (tree (ix s)) (chainActive (ix s)) (Some pindexMostWork);
          (ok, state, s) \<leftarrow> disconnect_to w e pindexFork state s;
          if \<not> ok then Some (False, state, s)
          else do { nHeight0 \<leftarrow> (case pindexFork of None \<Rightarrow> Some (-1) | Some f \<Rightarrow> map_option nHeight (tree (ix s) f));
                    connect_runs w e pindexOldTip pindexMostWork pblock nHeight0 state s } }"

section \<open>The best chain\<close>

text \<open>The block that was just received is not read again.\<close>

definition pblock_for :: "connect_env \<Rightarrow> CBlock option \<Rightarrow> uint256 \<Rightarrow> CBlock option" where
  "pblock_for e pblock h = (case pblock of Some block \<Rightarrow> if header_GetHash (env_Hash e) block = h then Some block else None | None \<Rightarrow> None)"

text \<open>One pass of the loop: it ends with a result (\<open>Inl\<close>), or goes on with another pass (\<open>Inr\<close>). \<open>None\<close> is here an assertion that fails, a null
  pointer, or a loop inside the pass that does not end.\<close>

definition activate_pass ::
    "world \<Rightarrow> connect_env \<Rightarrow> CBlock option \<Rightarrow> CValidationState \<Rightarrow> chain_state \<Rightarrow>
       ((bool \<times> CValidationState \<times> chain_state) + (CValidationState \<times> chain_state)) option" where
  "activate_pass w e pblock state s =
     (if ShutdownRequested w s then map_option Inl (FlushStateToDisk w FLUSH_STATE_PERIODIC state (tick s))
      else do { (pindexMostWork, i) \<leftarrow> FindMostWorkChain (ix s);
                let s = tick (s\<lparr>ix := i\<rparr>) in
                case pindexMostWork of
                  None \<Rightarrow> Some (Inl (True, state, s))
                | Some p \<Rightarrow>
                    if Tip (chainActive (ix s)) = Some p then Some (Inl (True, state, s))
                    else do { h \<leftarrow> GetBlockHash (tree (ix s)) p;
                              (ok, state, s) \<leftarrow> ActivateBestChainStep w e p (pblock_for e pblock h) state s;
                              if \<not> ok then Some (Inl (False, state, s))
                              else if Tip (chainActive (ix s)) = Some p then map_option Inl (FlushStateToDisk w FLUSH_STATE_PERIODIC state s)
                              else Some (Inr (state, s)) } })"

partial_function (option) ActivateBestChain :: "world \<Rightarrow> connect_env \<Rightarrow> CBlock option \<Rightarrow> CValidationState \<Rightarrow> chain_state \<Rightarrow> bool outcome" where
  "ActivateBestChain w e pblock state s =
     do { r \<leftarrow> activate_pass w e pblock state s;
          case r of Inl x \<Rightarrow> Some x | Inr (state, s) \<Rightarrow> ActivateBestChain w e pblock state s }"

text \<open>The first passes of the loop, as many as are asked for unless it ends before.\<close>

primrec activate_passes ::
    "nat \<Rightarrow> world \<Rightarrow> connect_env \<Rightarrow> CBlock option \<Rightarrow> CValidationState \<Rightarrow> chain_state \<Rightarrow>
       ((bool \<times> CValidationState \<times> chain_state) + (CValidationState \<times> chain_state)) option" where
  "activate_passes 0 w e pblock state s = Some (Inr (state, s))"
| "activate_passes (Suc n) w e pblock state s =
     do { r \<leftarrow> activate_pass w e pblock state s;
          case r of Inl x \<Rightarrow> Some (Inl x) | Inr (state, s) \<Rightarrow> activate_passes n w e pblock state s }"

text \<open>The loop returns exactly if some number of passes ends it.\<close>

lemma ActivateBestChain_passes:
  "ActivateBestChain w e pblock state s = Some r \<longleftrightarrow> (\<exists>n. activate_passes n w e pblock state s = Some (Inl r))"
proof
  show "\<exists>n. activate_passes n w e pblock state s = Some (Inl r)" if "ActivateBestChain w e pblock state s = Some r"
    using that
  proof (induction w e pblock state s r rule: ActivateBestChain.raw_induct[rotated, consumes 1, case_names 1])
    case (1 rec w e pblock state s r)
    then obtain x where x: "activate_pass w e pblock state s = Some x"
      "(case x of Inl y \<Rightarrow> Some y | Inr (state, s) \<Rightarrow> rec w e pblock state s) = Some r" by (auto split: Option.bind_splits)
    show ?case
    proof (cases x)
      case (Inl y)
      then show ?thesis using x by (intro exI[of _ 1]) simp
    next
      case (Inr q)
      obtain state1 s1 where q: "q = (state1, s1)" by (cases q)
      have "rec w e pblock state1 s1 = Some r" using x(2) Inr q by simp
      from "1.IH"[OF this] obtain n where "activate_passes n w e pblock state1 s1 = Some (Inl r)" by blast
      then show ?thesis using x(1) Inr q by (intro exI[of _ "Suc n"]) simp
    qed
  qed
  show "ActivateBestChain w e pblock state s = Some r" if ex: "\<exists>n. activate_passes n w e pblock state s = Some (Inl r)"
  proof -
    obtain n where "activate_passes n w e pblock state s = Some (Inl r)" using ex by blast
    then show ?thesis
    proof (induction n arbitrary: state s)
      case (Suc n)
      then show ?case by (subst ActivateBestChain.simps) (auto split: Option.bind_splits sum.splits)
    qed simp
  qed
qed

section \<open>Invalidating a block\<close>

partial_function (option) invalidate_loop :: "world \<Rightarrow> connect_env \<Rightarrow> nat \<Rightarrow> CValidationState \<Rightarrow> chain_state \<Rightarrow> bool outcome" where
  "invalidate_loop w e pindex state s =
     do { c \<leftarrow> Contains (tree (ix s)) (chainActive (ix s)) pindex;
          if \<not> c then Some (True, state, s)
          else do { pindexWalk \<leftarrow> Tip (chainActive (ix s));
                    i \<leftarrow> add_status pindexWalk BLOCK_FAILED_CHILD (ix s);
                    (ok, state, s) \<leftarrow> DisconnectTip w e state (s\<lparr>ix := erase_candidate pindexWalk (set_dirty pindexWalk i)\<rparr>);
                    if ok then invalidate_loop w e pindex state s else Some (False, state, s) } }"

text \<open>The entries that are at least as good as the tip become candidates again.\<close>

primrec readd_candidates :: "(uint256 \<times> nat) list \<Rightarrow> index_state \<Rightarrow> index_state option" where
  "readd_candidates [] s = Some s"
| "readd_candidates (it # its) s =
     do { b \<leftarrow> tree s (snd it);
          v \<leftarrow> IsValid b BLOCK_VALID_TRANSACTIONS;
          s \<leftarrow> (if v \<and> nChainTx b \<noteq> 0
               then do { tip \<leftarrow> Tip (chainActive s);
                         Some (if \<not> CBlockIndexWorkComparator (tree s) (snd it) tip then insert_candidate (snd it) s else s) }
               else Some s);
          readd_candidates its s }"

definition InvalidateBlock :: "world \<Rightarrow> connect_env \<Rightarrow> nat \<Rightarrow> CValidationState \<Rightarrow> chain_state \<Rightarrow> bool outcome" where
  "InvalidateBlock w e pindex state s =
     do { i \<leftarrow> add_status pindex BLOCK_FAILED_VALID (ix s);
          (ok, state, s) \<leftarrow> invalidate_loop w e pindex state (s\<lparr>ix := erase_candidate pindex (set_dirty pindex i)\<rparr>);
          if \<not> ok then Some (False, state, s)
          else do { s \<leftarrow> with_ix (\<lambda>i. readd_candidates (mapBlockIndex i) i) s;
                    s \<leftarrow> with_ix (InvalidChainFound pindex) s;
                    Some (True, state, s) } }"

section \<open>Receiving a block\<close>

definition MIN_BLOCKS_TO_KEEP :: int where "MIN_BLOCKS_TO_KEEP = 288"

text \<open>Whether a block is stored that is not there yet.\<close>

definition block_wanted :: "bool \<Rightarrow> CBlockIndex \<Rightarrow> chain_state \<Rightarrow> bool option" where
  "block_wanted fRequested b s =
     do { fHasMoreWork \<leftarrow> (case Tip (chainActive (ix s)) of
                             None \<Rightarrow> Some True
                           | Some t \<Rightarrow> do { c \<leftarrow> tree (ix s) t; Some (CompareTo (nChainWork b) (nChainWork c) > 0) });
          let fTooFarAhead = nHeight b > Height (chainActive (ix s)) + MIN_BLOCKS_TO_KEEP in
          Some (\<not> has_data b \<and> (fRequested \<or> nTx b = 0 \<and> fHasMoreWork \<and> \<not> fTooFarAhead)) }"

text \<open>The answer is whether it is accepted, and the entry if the header is. \<open>known\<close> is the position of a block that is in its file.\<close>

definition store_block ::
    "world \<Rightarrow> CBlock \<Rightarrow> CDiskBlockPos option \<Rightarrow> nat \<Rightarrow> CValidationState \<Rightarrow> chain_state \<Rightarrow> bool outcome" where
  "store_block w block known pindex state s =
     do { b \<leftarrow> tree (ix s) pindex;
          ((ok, pos), state, s) \<leftarrow> FindBlockPos w known (word_of_nat (length (Serialize_CBlock block)) + 8) (word_of_int (nHeight b))
                                    (word_of_int (header_GetBlockTime (CBlockHeader.truncate block))) state s;
          if \<not> ok then Some (False, state, s)
          else let (pos, state, s) = (if known = None
                                      then (case WriteBlockToDisk w block pos s of
                                              ((ok, pos), s) \<Rightarrow> if ok then (pos, state, s)
                                                               else (pos, state_Error state ''Failed to write block'', s\<lparr>fRequestShutdown := True\<rparr>))
                                      else (pos, state, s))
               in do { s \<leftarrow> with_ix (ReceivedBlockTransactions (length (vtx block)) pindex pos) s; Some (True, state, s) } }"

definition AcceptBlock ::
    "world \<Rightarrow> connect_env \<Rightarrow> CBlock \<Rightarrow> CDiskBlockPos option \<Rightarrow> bool \<Rightarrow> nat \<Rightarrow> CValidationState \<Rightarrow> chain_state \<Rightarrow> (bool \<times> nat option) outcome" where
  "AcceptBlock w e block known fRequested addr state s =
     (case AcceptBlockHeader (e\<lparr>env_tree := tree (ix s), env_index := map_of (mapBlockIndex (ix s))\<rparr>) block state addr (ix s) of
        Inl Aborted \<Rightarrow> None
      | Inl (Rejected state) \<Rightarrow> Some ((False, map_of (mapBlockIndex (ix s)) (header_GetHash (env_Hash e) block)), state, s)
      | Inr (pindex, i) \<Rightarrow>
          do { let s = s\<lparr>ix := i\<rparr>;
               b \<leftarrow> tree i pindex;
               wanted \<leftarrow> block_wanted fRequested b s;
               if \<not> wanted then Some ((True, Some pindex), state, s)
               else (case AcceptBlock_checks (env_Hash e) (env_params e) (env_time e) (tree i) (versionbitscache s) block state (pprev b) of
                       (Inl Aborted, _) \<Rightarrow> None
                     | (Inl (Rejected state), mark) \<Rightarrow>
                         do { i \<leftarrow> (if mark then map_option (set_dirty pindex) (add_status pindex BLOCK_FAILED_VALID i) else Some i);
                              Some ((False, Some pindex), state, s\<lparr>ix := i\<rparr>) }
                     | (Inr (block, caches), _) \<Rightarrow>
                         do { (ok, state, s) \<leftarrow> store_block w block known pindex state (s\<lparr>versionbitscache := caches\<rparr>);
                              Some ((ok, Some pindex), state, s) }) })"

text \<open>\<open>fRequested\<close> is the answer of \<^verbatim>\<open>MarkBlockAsReceived\<close>, or that processing is forced.\<close>

definition ProcessNewBlock ::
    "world \<Rightarrow> connect_env \<Rightarrow> CBlock \<Rightarrow> CDiskBlockPos option \<Rightarrow> bool \<Rightarrow> nat \<Rightarrow> CValidationState \<Rightarrow> chain_state \<Rightarrow> bool outcome" where
  "ProcessNewBlock w e block known fRequested addr state s =
     (case CheckBlock (env_Hash e) (env_params e) (env_time e) block state True True of
        Inl Aborted \<Rightarrow> None
      | Inl (Rejected state) \<Rightarrow> Some (False, state, s)
      | Inr block \<Rightarrow>
          do { ((ok, _), state, s) \<leftarrow> AcceptBlock w e block known fRequested addr state s;
               if \<not> ok then Some (False, state, s) else ActivateBestChain w e (Some block) state s })"

text \<open>A block that is proposed on top of the tip; \<open>addr\<close> is where \<^verbatim>\<open>indexDummy\<close> is. The state of the chain does not change.\<close>

definition TestBlockValidity ::
    "world \<Rightarrow> connect_env \<Rightarrow> CBlock \<Rightarrow> nat \<Rightarrow> nat \<Rightarrow> bool \<Rightarrow> bool \<Rightarrow> CValidationState \<Rightarrow> chain_state \<Rightarrow> check_fail + unit" where
  "TestBlockValidity w e block pindexPrev addr fCheckPOW fCheckMerkleRoot state s =
     (if Tip (chainActive (ix s)) \<noteq> Some pindexPrev then Inl Aborted
      else andThen (if fCheckpointsEnabled e then CheckIndexAgainstCheckpoint e (ix s) pindexPrev state else Inr ()) (\<lambda>_.
           andThen (need (tree (ix s) pindexPrev)) (\<lambda>p.
           let dummy = (CBlockIndex_of (CBlockHeader.truncate block))\<lparr>pprev := Some pindexPrev, nHeight := nHeight p + 1\<rparr>;
               e = e\<lparr>env_tree := (tree (ix s))(addr \<mapsto> dummy), env_index := map_of (mapBlockIndex (ix s))\<rparr>
           in andThen (ContextualCheckBlockHeader (tree (ix s)) (env_params e) (CBlockHeader.truncate block) state pindexPrev) (\<lambda>_.
              andThen (CheckBlock (env_Hash e) (env_params e) (env_time e) block state fCheckPOW fCheckMerkleRoot) (\<lambda>block.
              andThen (ContextualCheckBlock (tree (ix s)) (env_params e) (versionbitscache s) block state (Some pindexPrev)) (\<lambda>caches.
              andThen (ConnectBlock e (tip_view w s) (tip_best s) block state addr caches CCoinsViewCache_new True) (\<lambda>_.
              if mode state = MODE_VALID then Inr () else Inl Aborted)))))))"

end
