(* ===== verification/Candidates.thy ===== *)
theory Candidates
  imports BlockIndex
begin

text \<open>
  Why the choice of the best chain is right. A block is \<open>usable\<close> if it and all blocks below it have their data and are not marked as failed.
  The invariant of the candidates says that some usable candidate is at least as good as the tip and that every usable block at least as good as
  that one is a candidate; it survives disconnected tips and blocks that turn out to be invalid half-way through a reorganisation, which is when
  the assertions of \<^verbatim>\<open>CheckBlockIndex\<close> do not hold. \<open>FindMostWorkChain\<close> keeps it and gives the best usable block.
\<close>

section \<open>Ordered sequences\<close>

text \<open>What \<^verbatim>\<open>std::set\<close> needs of its comparator on the elements that are put into it.\<close>

locale ordered_set =
  fixes lt :: "nat \<Rightarrow> nat \<Rightarrow> bool" and carrier :: "nat set"
  assumes irrefl: "\<not> lt x x"
    and trans: "x \<in> carrier \<Longrightarrow> y \<in> carrier \<Longrightarrow> z \<in> carrier \<Longrightarrow> lt x y \<Longrightarrow> lt y z \<Longrightarrow> lt x z"
    and total: "x \<in> carrier \<Longrightarrow> y \<in> carrier \<Longrightarrow> x \<noteq> y \<Longrightarrow> lt x y \<or> lt y x"
begin

lemma asym: "x \<in> carrier \<Longrightarrow> y \<in> carrier \<Longrightarrow> lt x y \<Longrightarrow> \<not> lt y x"
  using trans[of x y x] irrefl by blast

lemma not_less_trans: "x \<in> carrier \<Longrightarrow> y \<in> carrier \<Longrightarrow> z \<in> carrier \<Longrightarrow> \<not> lt x y \<Longrightarrow> \<not> lt y z \<Longrightarrow> \<not> lt x z"
  using trans total by metis

lemma insert_ordered:
  "sorted_wrt lt xs \<Longrightarrow> set xs \<subseteq> carrier \<Longrightarrow> p \<in> carrier \<Longrightarrow>
     sorted_wrt lt (ordered_insert lt p xs) \<and> set (ordered_insert lt p xs) = insert p (set xs)"
proof (induction xs)
  case (Cons x xs)
  then have x: "x \<in> carrier" "set xs \<subseteq> carrier" "sorted_wrt lt xs" "\<forall>y\<in>set xs. lt x y" by auto
  consider "lt p x" | "lt x p" "\<not> lt p x" | "p = x" using total[OF Cons.prems(3) x(1)] by blast
  then show ?case
  proof cases
    case 1
    then have "\<forall>y\<in>set xs. lt p y" using trans[OF Cons.prems(3) x(1)] x(2,4) by blast
    then show ?thesis using 1 Cons.prems by auto
  next
    case 2
    then show ?thesis using Cons.IH[OF x(3,2) Cons.prems(3)] x by auto
  next
    case 3
    then show ?thesis using irrefl Cons.prems by auto
  qed
qed simp

lemma last_greatest: "sorted_wrt lt xs \<Longrightarrow> x \<in> set xs \<Longrightarrow> x = last xs \<or> lt x (last xs)"
  by (induction xs) (auto simp: last_in_set)

lemma drop_below:
  "sorted_wrt lt xs \<Longrightarrow> set xs \<subseteq> carrier \<Longrightarrow> t \<in> carrier \<Longrightarrow>
     sorted_wrt lt (dropWhile (\<lambda>p. lt p t) xs) \<and> set (dropWhile (\<lambda>p. lt p t) xs) = {p \<in> set xs. \<not> lt p t}"
proof (induction xs)
  case (Cons x xs)
  show ?case
  proof (cases "lt x t")
    case True
    then show ?thesis using Cons by auto
  next
    case False
    have "\<not> lt y t" if "y \<in> set xs" for y
      using that False Cons.prems trans[of x y t] by auto
    then show ?thesis using False Cons.prems by auto
  qed
qed simp

end

text \<open>The comparator of the candidates.\<close>

definition entries :: "block_store \<Rightarrow> nat set" where
  "entries st = {p. \<exists>b. st p = Some b \<and> length (nChainWork b) = 8}"

abbreviation worse :: "block_store \<Rightarrow> nat \<Rightarrow> nat \<Rightarrow> bool" where
  "worse \<equiv> CBlockIndexWorkComparator"

definition work :: "block_store \<Rightarrow> nat \<Rightarrow> nat" where
  "work st p = (case st p of Some b \<Rightarrow> pn_val (nChainWork b) | None \<Rightarrow> 0)"

lemma worse_iff:
  assumes "p \<in> entries st" "q \<in> entries st"
  shows "worse st p q \<longleftrightarrow> work st p < work st q \<or> work st p = work st q \<and>
    (nSequenceId (the (st p)) > nSequenceId (the (st q)) \<or> nSequenceId (the (st p)) = nSequenceId (the (st q)) \<and> q < p)"
proof -
  obtain a b where "st p = Some a" "st q = Some b" "length (nChainWork a) = length (nChainWork b)"
    using assms by (auto simp: entries_def)
  then show ?thesis by (auto simp: CBlockIndexWorkComparator_def work_def CompareTo_val)
qed

interpretation candidates: ordered_set "CBlockIndexWorkComparator st" "entries st" for st
proof unfold_locales
  have "bu_cmp_from xs xs = 0" for xs by (induction xs) auto
  then show "\<not> worse st x x" for x
    by (auto simp: CBlockIndexWorkComparator_def CompareTo_def split: option.split)
  fix x y assume xy: "x \<in> entries st" "y \<in> entries st"
  show "worse st x z" if "z \<in> entries st" "worse st x y" "worse st y z" for z
    using that xy by (auto simp: worse_iff)
  show "worse st x y \<or> worse st y x" if "x \<noteq> y"
    using that xy by (auto simp: worse_iff)
qed

text \<open>A block that is not worse has at least as much work.\<close>

lemma not_worse_work: "p \<in> entries st \<Longrightarrow> q \<in> entries st \<Longrightarrow> \<not> worse st p q \<Longrightarrow> work st q \<le> work st p"
  by (auto simp: worse_iff)

section \<open>Usable blocks\<close>

definition usable :: "block_store \<Rightarrow> nat \<Rightarrow> bool" where
  "usable st p \<longleftrightarrow> (\<forall>n q. anc st p n = Some q \<longrightarrow> (\<exists>b. st q = Some b \<and> has_data b \<and> \<not> failed b))"

text \<open>The transactions of the block and of all blocks below it have been counted.\<close>

definition linked :: "block_store \<Rightarrow> nat \<Rightarrow> bool" where
  "linked st p \<longleftrightarrow> (\<forall>n q. anc st p n = Some q \<longrightarrow> (\<exists>b. st q = Some b \<and> (nChainTx b \<noteq> 0 \<or> nHeight b = 0)))"

lemma anc_shift: "anc st p n = Some q \<Longrightarrow> anc st q m = anc st p (n + m)"
  by (simp add: anc_add)

lemma usable_anc: "usable st p \<Longrightarrow> anc st p n = Some q \<Longrightarrow> usable st q"
  unfolding usable_def using anc_shift by metis

lemma linked_anc: "linked st p \<Longrightarrow> anc st p n = Some q \<Longrightarrow> linked st q"
  unfolding linked_def using anc_shift by metis

lemma usable_entry: "usable st p \<Longrightarrow> \<exists>b. st p = Some b \<and> has_data b \<and> \<not> failed b"
  unfolding usable_def by (metis anc.simps(1))

lemma linked_entry: "linked st p \<Longrightarrow> \<exists>b. st p = Some b \<and> (nChainTx b \<noteq> 0 \<or> nHeight b = 0)"
  unfolding linked_def by (metis anc.simps(1))

lemma usable_step:
  assumes "st p = Some b" "has_data b" "\<not> failed b" "\<And>q. pprev b = Some q \<Longrightarrow> usable st q"
  shows "usable st p"
  unfolding usable_def
proof (intro allI impI)
  fix n q assume a: "anc st p n = Some q"
  show "\<exists>b. st q = Some b \<and> has_data b \<and> \<not> failed b"
  proof (cases n)
    case 0
    then show ?thesis using a assms(1-3) by simp
  next
    case (Suc m)
    then show ?thesis
    proof (cases "pprev b")
      case None
      then show ?thesis using a anc_add[of st p 1 m] assms(1) Suc by simp
    next
      case (Some r)
      then show ?thesis using a assms(4)[OF Some] anc_Suc_front[of st p b r m] assms(1) Suc unfolding usable_def by simp
    qed
  qed
qed

section \<open>Changes that leave the shape of the tree\<close>

text \<open>Only the status and the position of the undo data may differ.\<close>

definition same_shape :: "block_store \<Rightarrow> block_store \<Rightarrow> bool" where
  "same_shape st st' \<longleftrightarrow> (\<forall>p. map_option (\<lambda>b. b\<lparr>nStatus := 0, nUndoPos := 0\<rparr>) (st' p) = map_option (\<lambda>b. b\<lparr>nStatus := 0, nUndoPos := 0\<rparr>) (st p))"

lemma same_shape_refl [simp]: "same_shape st st"
  by (simp add: same_shape_def)

lemma same_shape_trans: "same_shape st st' \<Longrightarrow> same_shape st' st'' \<Longrightarrow> same_shape st st''"
  by (simp add: same_shape_def)

lemma same_shape_sym: "same_shape st st' \<Longrightarrow> same_shape st' st"
  by (simp add: same_shape_def)

lemma same_shape_entry:
  assumes "same_shape st st'" "st p = Some b"
  shows "\<exists>b'. st' p = Some b' \<and> b' = b\<lparr>nStatus := nStatus b', nUndoPos := nUndoPos b'\<rparr>"
proof -
  have "map_option (\<lambda>b. b\<lparr>nStatus := 0, nUndoPos := 0\<rparr>) (st' p) = Some (b\<lparr>nStatus := 0, nUndoPos := 0\<rparr>)"
    using assms by (simp add: same_shape_def)
  then obtain b' where b': "st' p = Some b'" "b'\<lparr>nStatus := 0, nUndoPos := 0\<rparr> = b\<lparr>nStatus := 0, nUndoPos := 0\<rparr>" by auto
  then have "b' = b\<lparr>nStatus := nStatus b', nUndoPos := nUndoPos b'\<rparr>" by (cases b; cases b') simp
  then show ?thesis using b'(1) by blast
qed

lemma same_shape_update:
  "st p = Some b \<Longrightarrow> b'\<lparr>nStatus := 0, nUndoPos := 0\<rparr> = b\<lparr>nStatus := 0, nUndoPos := 0\<rparr> \<Longrightarrow> same_shape st (st(p \<mapsto> b'))"
  by (simp add: same_shape_def)

lemma same_shape_field:
  assumes "same_shape st st'" "\<And>b x y. f (b\<lparr>nStatus := x, nUndoPos := y\<rparr>) = f b"
  shows "map_option f (st' p) = map_option f (st p)"
proof (cases "st p")
  case None
  then show ?thesis using assms(1) unfolding same_shape_def by (metis map_option_is_None)
next
  case (Some b)
  then obtain b' where b': "st' p = Some b'" "b' = b\<lparr>nStatus := nStatus b', nUndoPos := nUndoPos b'\<rparr>"
    using same_shape_entry[OF assms(1)] by blast
  have "f b' = f b" by (subst b'(2)) (rule assms(2))
  then show ?thesis using b'(1) Some by simp
qed

lemma same_shape_anc: "same_shape st st' \<Longrightarrow> anc st' p n = anc st p n"
  by (rule anc_cong_prev) (rule same_shape_field, simp_all)

lemma same_shape_height: "same_shape st st' \<Longrightarrow> map_option nHeight (st' p) = map_option nHeight (st p)"
  by (rule same_shape_field) simp_all

lemma same_shape_Contains: "same_shape st st' \<Longrightarrow> Contains st' v p = Contains st v p"
  using same_shape_height[of st st' p] by (cases "st p"; cases "st' p") (auto simp: Contains_def)

lemma same_shape_linked: "same_shape st st' \<Longrightarrow> linked st' p = linked st p"
proof -
  assume s: "same_shape st st'"
  let ?P = "\<lambda>b. nChainTx b \<noteq> 0 \<or> nHeight b = 0"
  have alt: "linked st p \<longleftrightarrow> (\<forall>n q. anc st p n = Some q \<longrightarrow> map_option ?P (st q) = Some True)" for st :: block_store
    by (auto simp: linked_def)
  have "map_option ?P (st' q) = map_option ?P (st q)" for q by (rule same_shape_field[OF s]) simp
  then show ?thesis by (simp only: alt same_shape_anc[OF s])
qed

lemma same_shape_work: "same_shape st st' \<Longrightarrow> map_option nChainWork (st' p) = map_option nChainWork (st p)"
  by (rule same_shape_field) simp_all

lemma same_shape_entries: "same_shape st st' \<Longrightarrow> entries st' = entries st"
proof -
  assume s: "same_shape st st'"
  have "p \<in> entries st' \<longleftrightarrow> p \<in> entries st" for p
    using same_shape_work[OF s, of p] by (cases "st p"; cases "st' p") (auto simp: entries_def)
  then show ?thesis by blast
qed

lemma same_shape_worse: "same_shape st st' \<Longrightarrow> worse st' = worse st"
proof (intro ext)
  fix p q assume s: "same_shape st st'"
  let ?f = "\<lambda>b. (nChainWork b, nSequenceId b)"
  have alt: "worse st p q \<longleftrightarrow> (case (map_option ?f (st p), map_option ?f (st q)) of
      (Some (v, i), Some (w, j)) \<Rightarrow>
        if CompareTo v w > 0 then False else if CompareTo v w < 0 then True else if i < j then False else if i > j then True
        else if p < q then False else if p > q then True else False
    | _ \<Rightarrow> False)" for st
    by (simp add: CBlockIndexWorkComparator_def split: option.split)
  have "map_option ?f (st' r) = map_option ?f (st r)" for r by (rule same_shape_field[OF s]) simp
  then show "worse st' p q = worse st p q" by (simp only: alt)
qed

lemma same_shape_tree_ok: "same_shape st st' \<Longrightarrow> tree_ok st \<Longrightarrow> tree_ok st'"
proof -
  assume s: "same_shape st st'" and ok: "tree_ok st"
  show ?thesis unfolding tree_ok_def
  proof (intro allI impI)
    fix i b' assume b': "st' i = Some b'"
    obtain b where b: "st i = Some b" "b = b'\<lparr>nStatus := nStatus b, nUndoPos := nUndoPos b\<rparr>"
      using same_shape_entry[OF same_shape_sym[OF s] b'] by blast
    have f: "nHeight b = nHeight b'" "pprev b = pprev b'" "pskip b = pskip b'" by (subst b(2), simp)+
    have "\<exists>c. st' j = Some c \<and> nHeight c = nHeight b - 1" if "pprev b = Some j" for j
      using tree_okD(3)[OF ok b(1) that] same_shape_height[OF s, of j] by auto
    then show "0 \<le> nHeight b' \<and> (case pprev b' of None \<Rightarrow> nHeight b' = 0 | Some j \<Rightarrow> \<exists>c. st' j = Some c \<and> nHeight c = nHeight b' - 1) \<and>
        (pskip b' \<noteq> None \<longrightarrow> pskip b' = anc st' i (nat (nHeight b' - GetSkipHeight (nHeight b'))))"
      using tree_okD(1,2,4)[OF ok b(1)] f by (auto simp: same_shape_anc[OF s] split: option.split)
  qed
qed

lemma same_shape_chain_wf: "same_shape st st' \<Longrightarrow> chain_wf st v \<Longrightarrow> chain_wf st' v"
proof -
  assume s: "same_shape st st'" and v: "chain_wf st v"
  let ?f = "\<lambda>b. (nHeight b, pprev b)"
  have alt: "(\<exists>b. x = Some b \<and> nHeight b = h \<and> pprev b = q) \<longleftrightarrow> map_option ?f x = Some (h, q)" for x h q by auto
  have "map_option ?f (st' i) = map_option ?f (st i)" for i by (rule same_shape_field[OF s]) simp
  then show ?thesis using v unfolding chain_wf_def slots_ok_def alt by simp
qed

section \<open>The status of an entry\<close>

lemma status_or:
  "has_data (b\<lparr>nStatus := nStatus b OR BLOCK_FAILED_CHILD\<rparr>) = has_data b" "failed (b\<lparr>nStatus := nStatus b OR BLOCK_FAILED_CHILD\<rparr>)"
  "has_data (b\<lparr>nStatus := nStatus b OR BLOCK_FAILED_VALID\<rparr>) = has_data b" "failed (b\<lparr>nStatus := nStatus b OR BLOCK_FAILED_VALID\<rparr>)"
  "(x OR BLOCK_FAILED_CHILD) AND BLOCK_FAILED_VALID = x AND BLOCK_FAILED_VALID" "(x OR BLOCK_FAILED_CHILD) AND BLOCK_VALID_MASK = x AND BLOCK_VALID_MASK"
  "(x OR BLOCK_FAILED_VALID) AND BLOCK_FAILED_VALID \<noteq> 0" "(x OR BLOCK_FAILED_VALID) AND BLOCK_VALID_MASK = x AND BLOCK_VALID_MASK"
  by (simp_all add: has_data_def failed_def block_status bit.conj_disj_distrib2 or_eq_0_iff)

text \<open>Entries are marked as failed only if they are of no use anyway.\<close>

definition marked :: "block_store \<Rightarrow> block_store \<Rightarrow> bool" where
  "marked st st' \<longleftrightarrow> same_shape st st' \<and>
     (\<forall>p b b'. st p = Some b \<longrightarrow> st' p = Some b' \<longrightarrow>
        has_data b' = has_data b \<and> (failed b \<longrightarrow> failed b') \<and> (failed b' \<longrightarrow> failed b \<or> \<not> usable st p) \<and>
        nStatus b' AND BLOCK_FAILED_VALID = nStatus b AND BLOCK_FAILED_VALID \<and> nStatus b AND BLOCK_VALID_MASK \<le> nStatus b' AND BLOCK_VALID_MASK)"

lemma marked_refl [simp]: "marked st st"
  by (simp add: marked_def)

lemma marked_shape: "marked st st' \<Longrightarrow> same_shape st st'"
  by (simp add: marked_def)

lemma markedD:
  "marked st st' \<Longrightarrow> st p = Some b \<Longrightarrow> st' p = Some b' \<Longrightarrow>
     has_data b' = has_data b \<and> (failed b \<longrightarrow> failed b') \<and> (failed b' \<longrightarrow> failed b \<or> \<not> usable st p) \<and>
        nStatus b' AND BLOCK_FAILED_VALID = nStatus b AND BLOCK_FAILED_VALID \<and> nStatus b AND BLOCK_VALID_MASK \<le> nStatus b' AND BLOCK_VALID_MASK"
  unfolding marked_def by blast

lemma marked_usable:
  assumes "marked st st'"
  shows "usable st' p = usable st p"
proof
  note s = marked_shape[OF assms]
  assume u: "usable st' p"
  show "usable st p" unfolding usable_def
  proof (intro allI impI)
    fix n q assume "anc st p n = Some q"
    then obtain b' where b': "st' q = Some b'" "has_data b'" "\<not> failed b'"
      using u by (auto simp: usable_def same_shape_anc[OF s])
    then obtain b where "st q = Some b" using same_shape_entry[OF same_shape_sym[OF s]] by blast
    then show "\<exists>b. st q = Some b \<and> has_data b \<and> \<not> failed b" using assms b' by (auto simp: marked_def)
  qed
next
  note s = marked_shape[OF assms]
  assume u: "usable st p"
  show "usable st' p" unfolding usable_def
  proof (intro allI impI)
    fix n q assume "anc st' p n = Some q"
    then have a: "anc st p n = Some q" by (simp add: same_shape_anc[OF s])
    then obtain b where b: "st q = Some b" "has_data b" "\<not> failed b" using u by (auto simp: usable_def)
    then obtain b' where "st' q = Some b'" using same_shape_entry[OF s] by blast
    then show "\<exists>b. st' q = Some b \<and> has_data b \<and> \<not> failed b"
      using assms b usable_anc[OF u a] by (auto simp: marked_def)
  qed
qed

lemma marked_trans:
  assumes "marked st st'" "marked st' st''"
  shows "marked st st''"
  unfolding marked_def
proof (intro conjI allI impI)
  show "same_shape st st''" using assms by (blast intro: same_shape_trans marked_shape)
  fix p b b'' assume b: "st p = Some b" "st'' p = Some b''"
  then obtain b' where b': "st' p = Some b'" using same_shape_entry[OF marked_shape[OF assms(1)]] by blast
  show "has_data b'' = has_data b" "failed b \<Longrightarrow> failed b''" "failed b'' \<Longrightarrow> failed b \<or> \<not> usable st p"
    using markedD[OF assms(1) b(1) b'] markedD[OF assms(2) b' b(2)] marked_usable[OF assms(1), of p] by blast+
  show "nStatus b'' AND BLOCK_FAILED_VALID = nStatus b AND BLOCK_FAILED_VALID"
    using markedD[OF assms(1) b(1) b'] markedD[OF assms(2) b' b(2)] by metis
  show "nStatus b AND BLOCK_VALID_MASK \<le> nStatus b'' AND BLOCK_VALID_MASK"
    using markedD[OF assms(1) b(1) b'] markedD[OF assms(2) b' b(2)] order_trans by blast
qed

lemma marked_child:
  assumes "st p = Some b" "\<not> usable st p"
  shows "marked st (st(p \<mapsto> b\<lparr>nStatus := nStatus b OR BLOCK_FAILED_CHILD\<rparr>))"
  using assms same_shape_update[of st p b "b\<lparr>nStatus := nStatus b OR BLOCK_FAILED_CHILD\<rparr>"]
  by (auto simp: marked_def status_or)

section \<open>The invariant\<close>

text \<open>A tree in which work grows from a block to the next.\<close>

definition tree_wf :: "block_store \<Rightarrow> bool" where
  "tree_wf st \<longleftrightarrow> tree_ok st \<and>
     (\<forall>p b. st p = Some b \<longrightarrow> length (nChainWork b) = 8 \<and> (\<forall>q. pprev b = Some q \<longrightarrow> work st q < work st p))"

lemma tree_wf_entries: "tree_wf st \<Longrightarrow> st p = Some b \<Longrightarrow> p \<in> entries st"
  by (auto simp: tree_wf_def entries_def)

lemma same_shape_tree_wf:
  assumes s: "same_shape st st'" and wf: "tree_wf st"
  shows "tree_wf st'"
  unfolding tree_wf_def
proof (intro conjI allI impI)
  show "tree_ok st'" using same_shape_tree_ok[OF s] wf by (simp add: tree_wf_def)
  have w: "work st' p = work st p" for p
    using same_shape_work[OF s, of p] by (cases "st p"; cases "st' p") (auto simp: work_def)
  fix p b' assume "st' p = Some b'"
  then obtain b where b: "st p = Some b" "b = b'\<lparr>nStatus := nStatus b, nUndoPos := nUndoPos b\<rparr>"
    using same_shape_entry[OF same_shape_sym[OF s]] by blast
  have f: "nChainWork b = nChainWork b'" "pprev b = pprev b'" by (subst b(2), simp)+
  show "length (nChainWork b') = 8" using wf b(1) unfolding tree_wf_def f(1)[symmetric] by blast
  show "work st' q < work st' p" if "pprev b' = Some q" for q using wf b(1) that unfolding tree_wf_def w f(2)[symmetric] by blast
qed

lemma anc_work:
  assumes "tree_wf st" "anc st p n = Some q" "0 < n"
  shows "work st q < work st p"
  using assms(2,3)
proof (induction n arbitrary: q)
  case (Suc n)
  then obtain r b where r: "anc st p n = Some r" "st r = Some b" "pprev b = Some q" by (auto split: Option.bind_splits)
  then have "work st q < work st r" using assms(1) by (auto simp: tree_wf_def)
  then show ?case using Suc.IH[OF r(1)] r(1) by (cases n) auto
qed simp

text \<open>\<open>X\<close> is a usable candidate, at least as good as the tip, such that all usable blocks at least as good are candidates.\<close>

definition threshold :: "index_state \<Rightarrow> nat \<Rightarrow> bool" where
  "threshold s X \<longleftrightarrow> X \<in> set (setBlockIndexCandidates s) \<and> usable (tree s) X \<and> (\<forall>t. Tip (chainActive s) = Some t \<longrightarrow> \<not> worse (tree s) X t) \<and>
     (\<forall>p. usable (tree s) p \<longrightarrow> \<not> worse (tree s) p X \<longrightarrow> p \<in> set (setBlockIndexCandidates s))"

definition index_wf :: "index_state \<Rightarrow> bool" where
  "index_wf s \<longleftrightarrow> tree_wf (tree s) \<and> chain_wf (tree s) (chainActive s) \<and> (\<forall>t. Tip (chainActive s) = Some t \<longrightarrow> usable (tree s) t) \<and>
     sorted_wrt (worse (tree s)) (setBlockIndexCandidates s) \<and> (\<forall>c\<in>set (setBlockIndexCandidates s). linked (tree s) c)"

definition candidates_ok :: "index_state \<Rightarrow> bool" where
  "candidates_ok s \<longleftrightarrow> index_wf s \<and> (\<exists>X. threshold s X)"

lemma index_wf_carrier: "index_wf s \<Longrightarrow> set (setBlockIndexCandidates s) \<subseteq> entries (tree s)"
  using linked_entry tree_wf_entries by (fastforce simp: index_wf_def)

lemma usable_carrier: "index_wf s \<Longrightarrow> usable (tree s) p \<Longrightarrow> p \<in> entries (tree s)"
  using usable_entry tree_wf_entries by (fastforce simp: index_wf_def)

text \<open>All blocks of the active chain are usable.\<close>

lemma chain_usable:
  assumes "tree_ok st" "chain_wf st v" "\<forall>t. Tip v = Some t \<longrightarrow> usable st t" "Contains st v p = Some True"
  shows "usable st p"
proof -
  obtain b k where b: "st p = Some b" "nHeight b = int k" "k < length v" "v ! k = Some p"
    using assms(4) by (auto simp: Contains_def chain_at_def split: Option.bind_splits if_splits) (metis nat_0_le nat_less_iff not_less)
  obtain t where t: "v ! (length v - 1) = Some t" "Tip v = Some t"
  proof -
    have "length v - 1 < length v" using b(3) by simp
    then have "v ! (length v - 1) \<noteq> None" using assms(2) nth_mem[of "length v - 1" v] by (metis chain_wf_def)
    moreover have "Tip v = v ! (length v - 1)" using b(3) by (cases v) (simp_all add: Tip_def)
    ultimately show ?thesis using that by auto
  qed
  have "slots_ok st v (Suc (length v - 1))" using assms(2) b(3) by (cases v) (simp_all add: chain_wf_def)
  from slots_anc[OF assms(1) this t(1), of k] have "anc st t (length v - 1 - k) = Some p" using b(3,4) by simp
  then show ?thesis using usable_anc assms(3) t(2) by blast
qed

section \<open>The walk to the active chain\<close>

lemma find_fault_result:
  assumes ok: "tree_ok st" "chain_wf st v" "\<forall>t. Tip v = Some t \<longrightarrow> usable st t"
  shows "linked st p \<Longrightarrow> (find_fault st v (Some p) = Some None \<and> usable st p) \<or>
    (\<exists>t n b. find_fault st v (Some p) = Some (Some (t, failed b)) \<and> anc st p n = Some t \<and> st t = Some b \<and> (failed b \<or> \<not> has_data b))"
proof (induction "nat (nHeight (the (st p)))" arbitrary: p rule: less_induct)
  case less
  obtain b where b: "st p = Some b" "nChainTx b \<noteq> 0 \<or> nHeight b = 0" using linked_entry[OF less.prems] by blast
  obtain c where c: "Contains st v p = Some c" using b(1) by (simp add: Contains_def)
  show ?case
  proof (cases c)
    case True
    then show ?thesis using chain_usable[OF ok] c by (simp add: find_fault.simps)
  next
    case F: False
    show ?thesis
    proof (cases "failed b \<or> \<not> has_data b")
      case True
      then have "find_fault st v (Some p) = Some (Some (p, failed b))" using b c F by (subst find_fault.simps) auto
      then show ?thesis using True b(1) by (intro disjI2 exI[of _ p] exI[of _ 0] exI[of _ b]) simp
    next
      case good: False
      then have step: "find_fault st v (Some p) = find_fault st v (pprev b)" using b c F by (subst find_fault.simps) auto
      show ?thesis
      proof (cases "pprev b")
        case None
        then show ?thesis using step usable_step[of st p b] b(1) good by (simp add: find_fault.simps)
      next
        case (Some q)
        obtain b' where b': "st q = Some b'" "nHeight b' = nHeight b - 1" using tree_okD(3)[OF ok(1) b(1) Some] by blast
        have "0 \<le> nHeight b'" using tree_okD(1)[OF ok(1) b'(1)] .
        then have lt: "nat (nHeight (the (st q))) < nat (nHeight (the (st p)))" using b b' by simp
        have lq: "linked st q" using linked_anc[OF less.prems, of 1 q] b(1) Some by simp
        from less.hyps[OF lt lq] show ?thesis
        proof
          assume "find_fault st v (Some q) = Some None \<and> usable st q"
          then show ?thesis using step Some usable_step[of st p b] b(1) good by simp
        next
          assume "\<exists>t n b. find_fault st v (Some q) = Some (Some (t, failed b)) \<and> anc st q n = Some t \<and> st t = Some b \<and> (failed b \<or> \<not> has_data b)"
          then obtain t n b'' where "find_fault st v (Some q) = Some (Some (t, failed b''))" "anc st q n = Some t" "st t = Some b''" "failed b'' \<or> \<not> has_data b''"
            by blast
          then show ?thesis using step Some anc_Suc_front[of st p b q n] b(1) by (intro disjI2 exI[of _ t] exI[of _ "Suc n"] exI[of _ b'']) simp
        qed
      qed
    qed
  qed
qed

section \<open>The chain above a fault is removed\<close>

lemma remove_chain_result:
  assumes "tree_wf (tree s)" "anc (tree s) p n = Some t" "\<not> usable (tree s) t" "f \<longrightarrow> (\<exists>b. tree s t = Some b \<and> failed b)"
  shows "\<exists>s'. remove_chain t f p s = Some s' \<and> marked (tree s) (tree s') \<and>
    s' = s\<lparr>tree := tree s', setBlockIndexCandidates := setBlockIndexCandidates s', mapBlocksUnlinked := mapBlocksUnlinked s'\<rparr> \<and>
    (\<exists>bad. setBlockIndexCandidates s' = filter (\<lambda>x. x \<notin> bad) (setBlockIndexCandidates s) \<and> (\<forall>x\<in>bad. \<not> usable (tree s) x) \<and> (0 < n \<longrightarrow> p \<in> bad))"
  using assms
proof (induction n arbitrary: p s)
  case 0
  then have "remove_chain t f p s = Some s" by (subst remove_chain.simps) simp
  then show ?case by (intro exI[of _ s] conjI exI[of _ "{}"]) simp_all
next
  case (Suc n)
  have up: "\<not> usable (tree s) p" using usable_anc[of "tree s" p "Suc n" t] Suc.prems(2,3) by blast
  obtain b q where b: "tree s p = Some b" "pprev b = Some q" "anc (tree s) q n = Some t"
    using Suc.prems(2) anc_add[of "tree s" p 1 n] by (auto split: Option.bind_splits)
  have ne: "t \<noteq> p" using anc_work[OF Suc.prems(1,2)] by auto
  define s1 where "s1 = erase_candidate p (if f then set_block p (b\<lparr>nStatus := nStatus b OR BLOCK_FAILED_CHILD\<rparr>) s
                          else s\<lparr>mapBlocksUnlinked := mapBlocksUnlinked s @ [(pprev b, p)]\<rparr>)"
  have step: "remove_chain t f p s = remove_chain t f q s1"
    using ne b by (subst remove_chain.simps) (simp add: s1_def Let_def)
  have m: "marked (tree s) (tree s1)" using marked_child[OF b(1) up] by (simp add: s1_def erase_candidate_def set_block_def)
  have f1: "s1\<lparr>tree := x, setBlockIndexCandidates := y, mapBlocksUnlinked := z\<rparr> = s\<lparr>tree := x, setBlockIndexCandidates := y, mapBlocksUnlinked := z\<rparr>"
    "setBlockIndexCandidates s1 = filter (\<lambda>x. x \<noteq> p) (setBlockIndexCandidates s)" for x y z
    by (simp_all add: s1_def erase_candidate_def set_block_def)
  note shape = marked_shape[OF m]
  have t1: "f \<longrightarrow> (\<exists>b. tree s1 t = Some b \<and> failed b)"
  proof
    assume f
    then obtain b0 where b0: "tree s t = Some b0" "failed b0" using Suc.prems(4) by blast
    then obtain b1 where b1: "tree s1 t = Some b1" using same_shape_entry[OF shape] by blast
    then show "\<exists>b. tree s1 t = Some b \<and> failed b" using markedD[OF m b0(1) b1] b0(2) by blast
  qed
  have "tree_wf (tree s1)" by (rule same_shape_tree_wf[OF shape Suc.prems(1)])
  moreover have "anc (tree s1) q n = Some t" using b(3) by (simp add: same_shape_anc[OF shape])
  moreover have "\<not> usable (tree s1) t" using Suc.prems(3) by (simp add: marked_usable[OF m])
  ultimately obtain s' bad where s': "remove_chain t f q s1 = Some s'" "marked (tree s1) (tree s')"
    "s' = s1\<lparr>tree := tree s', setBlockIndexCandidates := setBlockIndexCandidates s', mapBlocksUnlinked := mapBlocksUnlinked s'\<rparr>"
    "setBlockIndexCandidates s' = filter (\<lambda>x. x \<notin> bad) (setBlockIndexCandidates s1)" "\<forall>x\<in>bad. \<not> usable (tree s1) x"
    using Suc.IH[of s1 q] t1 by blast
  show ?case
  proof (intro exI[of _ s'] conjI exI[of _ "insert p bad"])
    show "remove_chain t f p s = Some s'" using step s'(1) by simp
    show "marked (tree s) (tree s')" by (rule marked_trans[OF m s'(2)])
    show "s' = s\<lparr>tree := tree s', setBlockIndexCandidates := setBlockIndexCandidates s', mapBlocksUnlinked := mapBlocksUnlinked s'\<rparr>"
      using s'(3) unfolding f1(1) .
    show "setBlockIndexCandidates s' = filter (\<lambda>x. x \<notin> insert p bad) (setBlockIndexCandidates s)"
      unfolding s'(4) f1(2) filter_filter by (rule filter_cong) auto
    show "\<forall>x\<in>insert p bad. \<not> usable (tree s) x" using s'(5) up by (simp add: marked_usable[OF m])
  qed simp
qed

text \<open>Removing what is of no use keeps the invariant.\<close>

lemma threshold_removed:
  assumes "threshold s X" "marked (tree s) (tree s')" "chainActive s' = chainActive s"
    "setBlockIndexCandidates s' = filter (\<lambda>x. x \<notin> bad) (setBlockIndexCandidates s)" "\<forall>x\<in>bad. \<not> usable (tree s) x"
  shows "threshold s' X"
  using assms same_shape_worse[OF marked_shape[OF assms(2)]]
  by (auto simp: threshold_def marked_usable[OF assms(2)])

lemma index_wf_removed:
  assumes wf: "index_wf s" and m: "marked (tree s) (tree s')" and s': "chainActive s' = chainActive s"
    "setBlockIndexCandidates s' = filter P (setBlockIndexCandidates s)"
  shows "index_wf s'"
proof -
  note shape = marked_shape[OF m]
  show ?thesis unfolding index_wf_def
  proof (intro conjI)
    show "tree_wf (tree s')" using wf same_shape_tree_wf[OF shape] by (simp add: index_wf_def)
    show "chain_wf (tree s') (chainActive s')" using wf same_shape_chain_wf[OF shape] s'(1) by (simp add: index_wf_def)
    show "\<forall>t. Tip (chainActive s') = Some t \<longrightarrow> usable (tree s') t" using wf s'(1) by (simp add: index_wf_def marked_usable[OF m])
    show "sorted_wrt (worse (tree s')) (setBlockIndexCandidates s')"
      using wf s'(2) by (simp add: index_wf_def same_shape_worse[OF shape] sorted_wrt_filter)
    show "\<forall>c\<in>set (setBlockIndexCandidates s'). linked (tree s') c" using wf s'(2) by (simp add: index_wf_def same_shape_linked[OF shape])
  qed
qed

section \<open>The best usable block\<close>

definition best_usable :: "block_store \<Rightarrow> nat \<Rightarrow> bool" where
  "best_usable st p \<longleftrightarrow> usable st p \<and> (\<forall>q. usable st q \<longrightarrow> \<not> worse st p q)"

lemma last_candidate_best:
  assumes wf: "index_wf s" and X: "threshold s X" and u: "usable (tree s) (last (setBlockIndexCandidates s))"
  shows "best_usable (tree s) (last (setBlockIndexCandidates s))"
  unfolding best_usable_def
proof (intro conjI allI impI u)
  let ?l = "last (setBlockIndexCandidates s)"
  fix q assume q: "usable (tree s) q"
  have Xc: "X \<in> set (setBlockIndexCandidates s)" "X \<in> entries (tree s)" "q \<in> entries (tree s)" "?l \<in> entries (tree s)"
    using X usable_carrier[OF wf] q u by (auto simp: threshold_def)
  have sorted: "sorted_wrt (worse (tree s)) (setBlockIndexCandidates s)" using wf by (simp add: index_wf_def)
  have top: "\<not> worse (tree s) ?l c" if "c \<in> set (setBlockIndexCandidates s)" for c
    using candidates.last_greatest[OF sorted that] candidates.asym[of c "tree s" ?l] candidates.irrefl index_wf_carrier[OF wf] that Xc(4) by blast
  show "\<not> worse (tree s) ?l q"
  proof (cases "worse (tree s) q X")
    case True
    then show ?thesis using candidates.trans[OF Xc(4,3,2)] top[OF Xc(1)] by blast
  next
    case False
    then have "q \<in> set (setBlockIndexCandidates s)" using X q by (simp add: threshold_def)
    then show ?thesis by (rule top)
  qed
qed

lemma more_work_total: "tree_wf st \<Longrightarrow> st p \<noteq> None \<Longrightarrow> (\<forall>q. r = Some q \<longrightarrow> st q \<noteq> None) \<Longrightarrow> \<exists>b. more_work st p r = Some b"
  by (auto simp: more_work_def split: option.split)

text \<open>The marker of the best invalid block points into the tree.\<close>

definition best_invalid_ok :: "index_state \<Rightarrow> bool" where
  "best_invalid_ok s \<longleftrightarrow> (\<forall>q. pindexBestInvalid s = Some q \<longrightarrow> tree s q \<noteq> None)"

lemma FindMostWorkChain_result:
  "index_wf s \<Longrightarrow> threshold s X \<Longrightarrow> best_invalid_ok s \<Longrightarrow>
     \<exists>p s' bad. FindMostWorkChain s = Some (Some p, s') \<and> marked (tree s) (tree s') \<and> index_wf s' \<and> threshold s' X \<and> best_invalid_ok s' \<and>
       s' = s\<lparr>tree := tree s', setBlockIndexCandidates := filter (\<lambda>x. x \<notin> bad) (setBlockIndexCandidates s), mapBlocksUnlinked := mapBlocksUnlinked s',
              pindexBestInvalid := pindexBestInvalid s'\<rparr> \<and>
       (\<forall>x\<in>bad. \<not> usable (tree s) x) \<and> p = last (setBlockIndexCandidates s') \<and> p \<in> set (setBlockIndexCandidates s') \<and> usable (tree s') p"
proof (induction "length (setBlockIndexCandidates s)" arbitrary: s rule: less_induct)
  case less
  note wf = less.prems(1) and X = less.prems(2) and bi = less.prems(3)
  let ?p = "last (setBlockIndexCandidates s)"
  have ne: "setBlockIndexCandidates s \<noteq> []" using X by (auto simp: threshold_def)
  then have p: "?p \<in> set (setBlockIndexCandidates s)" by simp
  have tr: "tree_wf (tree s)" "tree_ok (tree s)" "chain_wf (tree s) (chainActive s)" "\<forall>t. Tip (chainActive s) = Some t \<longrightarrow> usable (tree s) t" "linked (tree s) ?p"
    using wf p by (auto simp: index_wf_def tree_wf_def)
  from find_fault_result[OF tr(2-5)] show ?case
  proof (rule disjE)
    assume "find_fault (tree s) (chainActive s) (Some ?p) = Some None \<and> usable (tree s) ?p"
    then have r: "find_fault (tree s) (chainActive s) (Some ?p) = Some None" and u: "usable (tree s) ?p" by blast+
    have "FindMostWorkChain s = Some (Some ?p, s)" using ne r by (subst FindMostWorkChain.simps) simp
    then show ?thesis using less.prems p u by (intro exI[of _ ?p] exI[of _ s] exI[of _ "{}"]) simp
  next
    assume "\<exists>t n b. find_fault (tree s) (chainActive s) (Some ?p) = Some (Some (t, failed b)) \<and> anc (tree s) ?p n = Some t \<and>
      tree s t = Some b \<and> (failed b \<or> \<not> has_data b)"
    then obtain t n b where r: "find_fault (tree s) (chainActive s) (Some ?p) = Some (Some (t, failed b))"
      and a: "anc (tree s) ?p n = Some t" and b: "tree s t = Some b" "failed b \<or> \<not> has_data b" by blast
    have ut: "\<not> usable (tree s) t" using b usable_entry[of "tree s" t] by auto
    obtain bp where bp: "tree s ?p = Some bp" using linked_entry[OF tr(5)] by blast
    obtain w0 where w0: "more_work (tree s) ?p (pindexBestInvalid s) = Some w0"
      using more_work_total[OF tr(1), of ?p "pindexBestInvalid s"] bp bi by (auto simp: best_invalid_ok_def)
    define w where "w = (failed b \<and> w0)"
    have w: "(if failed b then more_work (tree s) ?p (pindexBestInvalid s) else Some False) = Some w" by (simp add: w_def w0)
    define s0 where "s0 = (if w then s\<lparr>pindexBestInvalid := Some ?p\<rparr> else s)"
    have s0: "tree s0 = tree s" "chainActive s0 = chainActive s" "setBlockIndexCandidates s0 = setBlockIndexCandidates s" by (simp_all add: s0_def)
    have fb: "failed b \<longrightarrow> (\<exists>b'. tree s t = Some b' \<and> failed b')" using b(1) by blast
    obtain s1 bad where s1: "remove_chain t (failed b) ?p s0 = Some s1" "marked (tree s) (tree s1)"
      "s1 = s0\<lparr>tree := tree s1, setBlockIndexCandidates := setBlockIndexCandidates s1, mapBlocksUnlinked := mapBlocksUnlinked s1\<rparr>"
      "setBlockIndexCandidates s1 = filter (\<lambda>x. x \<notin> bad) (setBlockIndexCandidates s)" "\<forall>x\<in>bad. \<not> usable (tree s) x" "0 < n \<longrightarrow> ?p \<in> bad"
      using remove_chain_result[of s0 ?p n t "failed b"] tr(1) a ut fb unfolding s0 by blast
    define s2 where "s2 = erase_candidate t s1"
    have step: "FindMostWorkChain s = FindMostWorkChain s2"
      using ne r w s1(1) by (subst FindMostWorkChain.simps) (simp add: s2_def s0_def Let_def split del: if_split)
    have c2: "setBlockIndexCandidates s2 = filter (\<lambda>x. x \<notin> insert t bad) (setBlockIndexCandidates s)"
      unfolding s2_def erase_candidate_def by (simp add: s1(4) filter_filter) (rule filter_cong, auto)
    have f2: "tree s2 = tree s1" "chainActive s2 = chainActive s" "pindexBestInvalid s2 = pindexBestInvalid s0"
      using arg_cong[OF s1(3), of chainActive] arg_cong[OF s1(3), of pindexBestInvalid] by (simp_all add: s2_def erase_candidate_def s0(2))
    have m2: "marked (tree s) (tree s2)" using s1(2) f2(1) by simp
    have bad2: "\<forall>x\<in>insert t bad. \<not> usable (tree s) x" using s1(5) ut by blast
    have pb: "?p \<in> insert t bad" using a s1(6) by (cases n) auto
    have wf2: "index_wf s2" by (rule index_wf_removed[OF wf m2 f2(2) c2])
    have X2: "threshold s2 X" by (rule threshold_removed[OF X m2 f2(2) c2 bad2])
    have bi2: "best_invalid_ok s2"
      unfolding best_invalid_ok_def f2(3)
    proof (intro allI impI)
      fix q assume "pindexBestInvalid s0 = Some q"
      then have "tree s q \<noteq> None" using bi bp by (auto simp: s0_def best_invalid_ok_def split: if_splits)
      then show "tree s2 q \<noteq> None" using same_shape_entry[OF marked_shape[OF m2]] by fastforce
    qed
    have "length (setBlockIndexCandidates s2) < length (setBlockIndexCandidates s)"
      unfolding c2 using pb p by (intro length_filter_less[of ?p]) auto
    from less.hyps[OF this wf2 X2 bi2] obtain p s' bad' where s': "FindMostWorkChain s2 = Some (Some p, s')" "marked (tree s2) (tree s')" "index_wf s'"
      "threshold s' X" "best_invalid_ok s'"
      "s' = s2\<lparr>tree := tree s', setBlockIndexCandidates := filter (\<lambda>x. x \<notin> bad') (setBlockIndexCandidates s2), mapBlocksUnlinked := mapBlocksUnlinked s',
              pindexBestInvalid := pindexBestInvalid s'\<rparr>"
      "\<forall>x\<in>bad'. \<not> usable (tree s2) x" "p = last (setBlockIndexCandidates s')" "p \<in> set (setBlockIndexCandidates s')" "usable (tree s') p"
      by blast
    have fr: "s2\<lparr>tree := x, setBlockIndexCandidates := y, mapBlocksUnlinked := z, pindexBestInvalid := v\<rparr> =
        s\<lparr>tree := x, setBlockIndexCandidates := y, mapBlocksUnlinked := z, pindexBestInvalid := v\<rparr>" for x y z v
      unfolding s2_def erase_candidate_def by (subst s1(3)) (simp add: s0_def)
    have flt: "filter (\<lambda>x. x \<notin> bad') (setBlockIndexCandidates s2) = filter (\<lambda>x. x \<notin> insert t bad \<union> bad') (setBlockIndexCandidates s)"
      unfolding c2 filter_filter by (rule filter_cong) auto
    have "FindMostWorkChain s = Some (Some p, s')" using step s'(1) by simp
    moreover have "marked (tree s) (tree s')" by (rule marked_trans[OF m2 s'(2)])
    moreover have "s' = s\<lparr>tree := tree s', setBlockIndexCandidates := filter (\<lambda>x. x \<notin> insert t bad \<union> bad') (setBlockIndexCandidates s),
        mapBlocksUnlinked := mapBlocksUnlinked s', pindexBestInvalid := pindexBestInvalid s'\<rparr>"
      using s'(6) unfolding flt fr .
    moreover have "\<forall>x\<in>insert t bad \<union> bad'. \<not> usable (tree s) x" using bad2 s'(7) by (auto simp: marked_usable[OF m2])
    ultimately show ?thesis using s'(3-5,8-10)
      by (intro exI[of _ p] exI[of _ s'] exI[of _ "insert t bad \<union> bad'"] conjI)
  qed
qed

lemma linked_step:
  assumes "st p = Some b" "nChainTx b \<noteq> 0 \<or> nHeight b = 0" "\<And>q. pprev b = Some q \<Longrightarrow> linked st q"
  shows "linked st p"
  unfolding linked_def
proof (intro allI impI)
  fix n q assume a: "anc st p n = Some q"
  show "\<exists>b. st q = Some b \<and> (nChainTx b \<noteq> 0 \<or> nHeight b = 0)"
  proof (cases n)
    case 0
    then show ?thesis using a assms(1,2) by simp
  next
    case (Suc m)
    then show ?thesis
    proof (cases "pprev b")
      case None
      then show ?thesis using a anc_add[of st p 1 m] assms(1) Suc by simp
    next
      case (Some r)
      then show ?thesis using a assms(3)[OF Some] anc_Suc_front[of st p b r m] assms(1) Suc unfolding linked_def by simp
    qed
  qed
qed

section \<open>The search for the best chain\<close>

text \<open>C2: whatever the candidates are, as long as one of them is usable, not worse than the tip, and all better usable blocks are candidates too,
  \<^verbatim>\<open>FindMostWorkChain\<close> ends without a failing assertion. The block it returns is usable (no block below it is invalid or without data) and no
  usable block of the whole tree is better in the order of \<^verbatim>\<open>CBlockIndexWorkComparator\<close>. The active chain and the usability of every block stay as they are,
  and so does the invariant of the candidates.\<close>

theorem FindMostWorkChain_correct:
  assumes "index_wf s" "threshold s X" "best_invalid_ok s"
  shows "\<exists>p s'. FindMostWorkChain s = Some (Some p, s') \<and> usable (tree s) p \<and> (\<forall>q. usable (tree s) q \<longrightarrow> \<not> worse (tree s) p q) \<and>
    chainActive s' = chainActive s \<and> (\<forall>q. usable (tree s') q = usable (tree s) q) \<and> index_wf s' \<and> threshold s' X"
proof -
  obtain p s' bad where F: "FindMostWorkChain s = Some (Some p, s')" and m: "marked (tree s) (tree s')" and wf: "index_wf s'" and X: "threshold s' X"
    and fr: "s' = s\<lparr>tree := tree s', setBlockIndexCandidates := filter (\<lambda>x. x \<notin> bad) (setBlockIndexCandidates s),
        mapBlocksUnlinked := mapBlocksUnlinked s', pindexBestInvalid := pindexBestInvalid s'\<rparr>"
    and p: "p = last (setBlockIndexCandidates s')" "usable (tree s') p"
    using FindMostWorkChain_result[OF assms] by blast
  have "best_usable (tree s') p" using last_candidate_best[OF wf X] p by simp
  then have "usable (tree s) p \<and> (\<forall>q. usable (tree s) q \<longrightarrow> \<not> worse (tree s) p q)"
    by (simp add: best_usable_def marked_usable[OF m] same_shape_worse[OF marked_shape[OF m]])
  moreover have "chainActive s' = chainActive s" by (subst fr) simp
  ultimately show ?thesis using F wf X marked_usable[OF m] by blast
qed

text \<open>A chain of one block with two branches: one with more work that starts with an invalid block, and one good block.\<close>

definition fork_entry :: "nat option \<Rightarrow> int \<Rightarrow> u32 \<Rightarrow> u32 \<Rightarrow> CBlockIndex" where
  "fork_entry q h wk status =
     CBlockIndex_SetNull\<lparr>pprev := q, nHeight := h, nChainWork := [wk, 0, 0, 0, 0, 0, 0, 0], nTx := 1, nChainTx := 1, nStatus := status\<rparr>"

definition fork_tree :: block_store where
  "fork_tree = [0 \<mapsto> fork_entry None 0 1 BLOCK_HAVE_DATA, 1 \<mapsto> fork_entry (Some 0) 1 5 (BLOCK_HAVE_DATA OR BLOCK_FAILED_VALID),
     2 \<mapsto> fork_entry (Some 1) 2 9 BLOCK_HAVE_DATA, 3 \<mapsto> fork_entry (Some 0) 1 2 BLOCK_HAVE_DATA]"

definition fork_index :: index_state where
  "fork_index = \<lparr>tree = fork_tree, mapBlockIndex = [], chainActive = [Some 0], setBlockIndexCandidates = [3, 2], mapBlocksUnlinked = [],
     pindexBestInvalid = None, pindexBestHeader = None, nBlockSequenceId = 1, setDirtyBlockIndex = []\<rparr>"

lemma fork_entry_sel [simp]:
  "pprev (fork_entry q h wk s) = q" "nHeight (fork_entry q h wk s) = h" "nChainWork (fork_entry q h wk s) = [wk, 0, 0, 0, 0, 0, 0, 0]"
  "nStatus (fork_entry q h wk s) = s" "nChainTx (fork_entry q h wk s) = 1" "pskip (fork_entry q h wk s) = None" "nSequenceId (fork_entry q h wk s) = 0"
  by (simp_all add: fork_entry_def CBlockIndex_SetNull_def)

lemma fork_tree_entries [simp]:
  "fork_tree 0 = Some (fork_entry None 0 1 BLOCK_HAVE_DATA)" "fork_tree (Suc 0) = Some (fork_entry (Some 0) 1 5 (BLOCK_HAVE_DATA OR BLOCK_FAILED_VALID))"
  "fork_tree 2 = Some (fork_entry (Some 1) 2 9 BLOCK_HAVE_DATA)" "fork_tree 3 = Some (fork_entry (Some 0) 1 2 BLOCK_HAVE_DATA)"
  by (simp_all add: fork_tree_def)

lemma fork_tree_cases:
  "fork_tree p = Some b \<longleftrightarrow> p = 0 \<and> b = fork_entry None 0 1 BLOCK_HAVE_DATA \<or> p = Suc 0 \<and> b = fork_entry (Some 0) 1 5 (BLOCK_HAVE_DATA OR BLOCK_FAILED_VALID)
     \<or> p = 2 \<and> b = fork_entry (Some 1) 2 9 BLOCK_HAVE_DATA \<or> p = 3 \<and> b = fork_entry (Some 0) 1 2 BLOCK_HAVE_DATA"
  by (auto simp: fork_tree_def)

lemma fork_work [simp]: "work fork_tree 0 = 1" "work fork_tree (Suc 0) = 5" "work fork_tree 2 = 9" "work fork_tree 3 = 2"
  by (simp_all add: work_def)

lemma fork_members [simp]: "0 \<in> entries fork_tree" "Suc 0 \<in> entries fork_tree" "2 \<in> entries fork_tree" "3 \<in> entries fork_tree"
  by (simp_all add: entries_def)

lemma fork_flags: "has_data (fork_entry q h wk BLOCK_HAVE_DATA)" "\<not> failed (fork_entry q h wk BLOCK_HAVE_DATA)"
  "failed (fork_entry q h wk (BLOCK_HAVE_DATA OR BLOCK_FAILED_VALID))"
  by (simp_all add: has_data_def failed_def block_status)

lemma fork_wf: "index_wf fork_index" "threshold fork_index 3" "best_invalid_ok fork_index"
proof -
  have ok: "tree_wf fork_tree"
    unfolding tree_wf_def tree_ok_def by (auto simp: fork_tree_cases)
  have u0: "usable fork_tree 0" by (rule usable_step[of _ _ "fork_entry None 0 1 BLOCK_HAVE_DATA"]) (simp_all add: fork_flags)
  have u3: "usable fork_tree 3" by (rule usable_step[of _ _ "fork_entry (Some 0) 1 2 BLOCK_HAVE_DATA"]) (simp_all add: fork_flags u0)
  have l0: "linked fork_tree 0" by (rule linked_step[of _ _ "fork_entry None 0 1 BLOCK_HAVE_DATA"]) simp_all
  have l1: "linked fork_tree 1" by (rule linked_step[of _ _ "fork_entry (Some 0) 1 5 (BLOCK_HAVE_DATA OR BLOCK_FAILED_VALID)"]) (simp_all add: l0)
  have l2: "linked fork_tree 2" by (rule linked_step[of _ _ "fork_entry (Some 1) 2 9 BLOCK_HAVE_DATA"]) (use l1 in simp_all)
  have l3: "linked fork_tree 3" by (rule linked_step[of _ _ "fork_entry (Some 0) 1 2 BLOCK_HAVE_DATA"]) (simp_all add: l0)
  show "index_wf fork_index"
    using ok u0 l2 l3 by (simp add: index_wf_def fork_index_def chain_wf_def slots_ok_def Tip_def worse_iff)
  have "\<not> usable fork_tree 1" using usable_entry[of fork_tree 1] fork_flags by auto
  then have "p \<in> {3, 2}" if "usable fork_tree p" "\<not> worse fork_tree p 3" for p
    using that usable_entry[of fork_tree p] by (auto simp: fork_tree_cases worse_iff)
  then show "threshold fork_index 3"
    using u3 by (auto simp: threshold_def fork_index_def Tip_def worse_iff)
  show "best_invalid_ok fork_index" by (simp add: best_invalid_ok_def fork_index_def)
qed

theorem FindMostWorkChain_correct_witness:
  "\<exists>p s'. FindMostWorkChain fork_index = Some (Some p, s') \<and> usable (tree fork_index) p \<and>
     (\<forall>q. usable (tree fork_index) q \<longrightarrow> \<not> worse (tree fork_index) p q) \<and>
     chainActive s' = chainActive fork_index \<and> (\<forall>q. usable (tree s') q = usable (tree fork_index) q) \<and> index_wf s' \<and> threshold s' 3"
  by (rule FindMostWorkChain_correct[OF fork_wf])

end
