(* ===== verification/Activate.thy ===== *)
theory Activate
  imports BestChain Candidates
begin

text \<open>
  What \<^verbatim>\<open>ActivateBestChain\<close> and \<^verbatim>\<open>InvalidateBlock\<close> achieve: the invariant of the candidates survives every step, and when the loop ends
  the tip is the best usable block. A block that is found corrupted on disk makes the loop endless.
\<close>

section \<open>What the operations on disk leave alone\<close>

text \<open>Entries keep their shape, their data and their failures; the sets of candidates and the chain stay.\<close>

definition kept :: "block_store \<Rightarrow> block_store \<Rightarrow> bool" where
  "kept st st' \<longleftrightarrow> same_shape st st' \<and>
     (\<forall>p b b'. st p = Some b \<longrightarrow> st' p = Some b' \<longrightarrow>
        has_data b' = has_data b \<and> failed b' = failed b \<and> nStatus b' AND BLOCK_FAILED_VALID = nStatus b AND BLOCK_FAILED_VALID \<and>
        nStatus b AND BLOCK_VALID_MASK \<le> nStatus b' AND BLOCK_VALID_MASK)"

lemma kept_refl [simp]: "kept st st"
  by (simp add: kept_def)

lemma keptD:
  "kept st st' \<Longrightarrow> st p = Some b \<Longrightarrow> st' p = Some b' \<Longrightarrow>
     has_data b' = has_data b \<and> failed b' = failed b \<and> nStatus b' AND BLOCK_FAILED_VALID = nStatus b AND BLOCK_FAILED_VALID \<and>
     nStatus b AND BLOCK_VALID_MASK \<le> nStatus b' AND BLOCK_VALID_MASK"
  unfolding kept_def by blast

lemma kept_trans:
  assumes "kept st st'" "kept st' st''"
  shows "kept st st''"
  unfolding kept_def
proof (intro conjI allI impI)
  show "same_shape st st''" using assms by (auto simp: kept_def intro: same_shape_trans)
  fix p b b'' assume b: "st p = Some b" "st'' p = Some b''"
  have "same_shape st st'" using assms(1) by (simp add: kept_def)
  from same_shape_entry[OF this b(1)] obtain b' where b': "st' p = Some b'" by blast
  note k = keptD[OF assms(1) b(1) b'] keptD[OF assms(2) b' b(2)]
  show "has_data b'' = has_data b" using k by blast
  show "failed b'' = failed b" using k by blast
  show "nStatus b'' AND BLOCK_FAILED_VALID = nStatus b AND BLOCK_FAILED_VALID" by (rule trans[OF k(2)[THEN conjunct2, THEN conjunct2, THEN conjunct1] k(1)[THEN conjunct2, THEN conjunct2, THEN conjunct1]])
  show "nStatus b AND BLOCK_VALID_MASK \<le> nStatus b'' AND BLOCK_VALID_MASK"
    by (rule order_trans[OF k(1)[THEN conjunct2, THEN conjunct2, THEN conjunct2] k(2)[THEN conjunct2, THEN conjunct2, THEN conjunct2]])
qed

lemma kept_marked: "kept st st' \<Longrightarrow> marked st st'"
  unfolding kept_def marked_def by blast

definition touched :: "index_state \<Rightarrow> index_state \<Rightarrow> bool" where
  "touched i i' \<longleftrightarrow> (\<exists>st d. kept (tree i) st \<and> i' = i\<lparr>tree := st, setDirtyBlockIndex := d\<rparr>)"

lemma touched_dirty [simp]: "touched i (i\<lparr>setDirtyBlockIndex := d\<rparr>)"
  unfolding touched_def by (intro exI[of _ "tree i"] exI[of _ d]) simp

lemma touched_refl [simp]: "touched i i"
  using touched_dirty[of i "setDirtyBlockIndex i"] by simp

lemma touched_trans:
  assumes "touched i i'" "touched i' i''"
  shows "touched i i''"
proof -
  obtain st d st' d' where "kept (tree i) st" "i' = i\<lparr>tree := st, setDirtyBlockIndex := d\<rparr>" "kept st st'" "i'' = i'\<lparr>tree := st', setDirtyBlockIndex := d'\<rparr>"
    using assms by (auto simp: touched_def)
  then show ?thesis unfolding touched_def by (intro exI[of _ st'] exI[of _ d']) (simp add: kept_trans)
qed

lemma touched_same:
  assumes "touched i i'"
  shows "chainActive i' = chainActive i" "setBlockIndexCandidates i' = setBlockIndexCandidates i"
    "pindexBestInvalid i' = pindexBestInvalid i" "mapBlockIndex i' = mapBlockIndex i" "kept (tree i) (tree i')"
  using assms by (auto simp: touched_def)

lemma flush_locator_ix: "flush_locator m f n st s = Some (ok, st', s') \<Longrightarrow> ix s' = ix s \<and> fRequestShutdown s' = fRequestShutdown s"
  by (auto simp: flush_locator_def split: if_split_asm Option.bind_splits)

lemma write_block_index_ix:
  "write_block_index w s = Some (ok, s') \<Longrightarrow> touched (ix s) (ix s') \<and> fRequestShutdown s' = fRequestShutdown s"
  by (auto simp: write_block_index_def tick_def Let_def split: if_split_asm Option.bind_splits)

lemma CheckDiskSpace_ix: "CheckDiskSpace w n s = (ok, s') \<Longrightarrow> ix s' = ix s \<and> (fRequestShutdown s \<longrightarrow> fRequestShutdown s')"
  by (auto simp: CheckDiskSpace_def tick_def split: if_split_asm)

lemma flush_coins_ix: "flush_coins w s = (ok, s') \<Longrightarrow> ix s' = ix s \<and> fRequestShutdown s' = fRequestShutdown s"
  by (auto simp: flush_coins_def tick_def split: if_split_asm prod.splits)

lemma flush_chainstate_ix:
  "flush_chainstate w m n st s = Some (ok, st', s') \<Longrightarrow> touched (ix s) (ix s') \<and> (fRequestShutdown s \<longrightarrow> fRequestShutdown s')"
  by (auto simp: flush_chainstate_def AbortNode_def split: prod.splits if_split_asm
      dest!: CheckDiskSpace_ix flush_coins_ix flush_locator_ix)

lemma flush_write_ix:
  "flush_write w m f n st s = Some (ok, st', s') \<Longrightarrow> touched (ix s) (ix s') \<and> (fRequestShutdown s \<longrightarrow> fRequestShutdown s')"
  by (auto simp: flush_write_def AbortNode_def split: prod.splits if_split_asm Option.bind_splits
      dest!: CheckDiskSpace_ix write_block_index_ix flush_chainstate_ix flush_locator_ix intro: touched_trans)

lemma FlushStateToDisk_ix:
  "FlushStateToDisk w m st s = Some (ok, st', s') \<Longrightarrow> touched (ix s) (ix s') \<and> (fRequestShutdown s \<longrightarrow> fRequestShutdown s')"
  by (auto simp: FlushStateToDisk_def Let_def tick_def split: if_split_asm dest!: flush_write_ix flush_locator_ix)

text \<open>A failure is a system error.\<close>

lemma flush_locator_ok: "flush_locator m f n st s = Some (ok, st', s') \<Longrightarrow> ok"
  by (auto simp: flush_locator_def split: if_split_asm Option.bind_splits)

lemma flush_chainstate_error: "flush_chainstate w m n st s = Some (False, st', s') \<Longrightarrow> mode st' = MODE_ERROR"
  by (auto simp: flush_chainstate_def AbortNode_def state_Error_def split: prod.splits if_split_asm dest: flush_locator_ok)

lemma flush_write_error: "flush_write w m f n st s = Some (False, st', s') \<Longrightarrow> mode st' = MODE_ERROR"
  by (auto simp: flush_write_def AbortNode_def state_Error_def split: prod.splits if_split_asm Option.bind_splits
      dest: flush_locator_ok flush_chainstate_error)

lemma FlushStateToDisk_error: "FlushStateToDisk w m st s = Some (False, st', s') \<Longrightarrow> mode st' = MODE_ERROR"
  by (auto simp: FlushStateToDisk_def Let_def split: if_split_asm dest: flush_write_error flush_locator_ok)

section \<open>Connecting and disconnecting\<close>

definition scripts_valid :: "CBlockIndex \<Rightarrow> bool" where
  "scripts_valid b \<longleftrightarrow> BLOCK_VALID_SCRIPTS \<le> nStatus b AND BLOCK_VALID_MASK"

lemma status_undo:
  "(x OR BLOCK_HAVE_UNDO) AND BLOCK_HAVE_DATA = x AND BLOCK_HAVE_DATA" "(x OR BLOCK_HAVE_UNDO) AND BLOCK_FAILED_MASK = x AND BLOCK_FAILED_MASK"
  "(x OR BLOCK_HAVE_UNDO) AND BLOCK_FAILED_VALID = x AND BLOCK_FAILED_VALID" "(x OR BLOCK_HAVE_UNDO) AND BLOCK_VALID_MASK = x AND BLOCK_VALID_MASK"
  by (simp_all add: block_status bit.conj_disj_distrib2)

lemma status_raise:
  "((x AND NOT BLOCK_VALID_MASK) OR BLOCK_VALID_SCRIPTS) AND BLOCK_HAVE_DATA = x AND BLOCK_HAVE_DATA"
  "((x AND NOT BLOCK_VALID_MASK) OR BLOCK_VALID_SCRIPTS) AND BLOCK_FAILED_MASK = x AND BLOCK_FAILED_MASK"
  "((x AND NOT BLOCK_VALID_MASK) OR BLOCK_VALID_SCRIPTS) AND BLOCK_FAILED_VALID = x AND BLOCK_FAILED_VALID"
  "((x AND NOT BLOCK_VALID_MASK) OR BLOCK_VALID_SCRIPTS) AND BLOCK_VALID_MASK = BLOCK_VALID_SCRIPTS"
  by (simp_all add: block_status bit.conj_disj_distrib2 and.assoc)

lemma kept_undo: "st p = Some b \<Longrightarrow> kept st (st(p \<mapsto> b\<lparr>nUndoPos := y, nStatus := nStatus b OR BLOCK_HAVE_UNDO\<rparr>))"
  by (simp add: kept_def same_shape_update has_data_def failed_def status_undo)

lemma RaiseValidity_scripts:
  assumes "RaiseValidity b BLOCK_VALID_SCRIPTS = Some (b', r)" "st p = Some b"
  shows "kept st (st(p \<mapsto> b'))" "failed b' \<or> scripts_valid b'"
  using assms by (auto simp: RaiseValidity_def kept_def same_shape_update has_data_def failed_def scripts_valid_def status_raise fun_upd_idem split: if_split_asm)

lemma IsValid_scripts: "IsValid b BLOCK_VALID_SCRIPTS = Some True \<Longrightarrow> scripts_valid b"
  by (auto simp: IsValid_def scripts_valid_def split: if_split_asm)

lemma reserve_ix: "reserve w c p n st s = (ok, st', s') \<Longrightarrow> ix s' = ix s \<and> (fRequestShutdown s \<longrightarrow> fRequestShutdown s') \<and> (\<not> ok \<longrightarrow> mode st' = MODE_ERROR)"
  by (auto simp: reserve_def Let_def state_Error_def split: if_split_asm prod.splits dest!: CheckDiskSpace_ix)

lemma FindUndoPos_ix:
  "FindUndoPos w f n st s = Some ((ok, pos), st', s') \<Longrightarrow> ix s' = ix s \<and> (fRequestShutdown s \<longrightarrow> fRequestShutdown s') \<and> (\<not> ok \<longrightarrow> mode st' = MODE_ERROR)"
  by (auto simp: FindUndoPos_def Let_def split: if_split_asm prod.splits dest!: reserve_ix)

lemma UndoWriteToDisk_ix: "UndoWriteToDisk w e u pos h s = (r, s') \<Longrightarrow> ix s' = ix s \<and> fRequestShutdown s' = fRequestShutdown s"
  by (auto simp: UndoWriteToDisk_def tick_def Let_def split: if_split_asm)

lemma ReadBlockFromDisk_ix: "ReadBlockFromDisk w e p s = Some (r, s') \<Longrightarrow> ix s' = ix s \<and> fRequestShutdown s' = fRequestShutdown s"
  by (auto simp: ReadBlockFromDisk_def tick_def Let_def split: if_split_asm option.splits Option.bind_splits)

lemma ReadBlockFromDisk_hash:
  "ReadBlockFromDisk w e p s = Some (Some block, s') \<Longrightarrow> GetBlockHash (tree (ix s)) p = Some (header_GetHash (env_Hash e) block)"
  by (auto simp: ReadBlockFromDisk_def GetBlockHash_def Let_def header_GetHash_def Serialize_CBlockHeader_def split: if_split_asm option.splits Option.bind_splits)

lemma touched_block: "kept (tree i) ((tree i)(p \<mapsto> b)) \<Longrightarrow> touched i (set_block p b i)"
  unfolding touched_def set_block_def by (intro exI[of _ "(tree i)(p \<mapsto> b)"] exI[of _ "setDirtyBlockIndex i"]) simp

lemma touched_set_dirty: "touched i i' \<Longrightarrow> touched i (set_dirty p i')"
  unfolding set_dirty_def by (rule touched_trans[OF _ touched_dirty])

lemma write_undo_data_ix:
  assumes "write_undo_data w e p b u st s = Some (ok, st', s')" "tree (ix s) p = Some b"
  shows "touched (ix s) (ix s') \<and> (fRequestShutdown s \<longrightarrow> fRequestShutdown s') \<and> (\<not> ok \<longrightarrow> mode st' = MODE_ERROR)"
proof -
  obtain okf pos st2 s2 where f: "FindUndoPos w (nFile b) (word_of_nat (length (Serialize_CBlockUndo (w_valid w) u)) + 40) st s = Some ((okf, pos), st2, s2)"
    using assms(1) by (auto simp: write_undo_data_def split: Option.bind_splits)
  note fi = FindUndoPos_ix[OF f]
  show ?thesis
  proof (cases okf)
    case False
    then show ?thesis using assms(1) f fi by (auto simp: write_undo_data_def)
  next
    case True
    then obtain h okw pos' s3 where w: "UndoWriteToDisk w e u pos h s2 = ((okw, pos'), s3)"
      and r: "(if \<not> okw then AbortNode st2 ''Failed to write undo data'' s3
               else Some (True, st2, s3\<lparr>ix := set_block p (b\<lparr>nUndoPos := pos_nPos pos', nStatus := nStatus b OR BLOCK_HAVE_UNDO\<rparr>) (ix s3)\<rparr>)) = Some (ok, st', s')"
      using assms(1) f by (auto simp: write_undo_data_def split: Option.bind_splits prod.splits)
    note wi = UndoWriteToDisk_ix[OF w]
    have "touched (ix s) (set_block p (b\<lparr>nUndoPos := y, nStatus := nStatus b OR BLOCK_HAVE_UNDO\<rparr>) (ix s))" for y
      by (rule touched_block) (rule kept_undo, rule assms(2))
    then show ?thesis using r fi wi by (auto simp: AbortNode_def state_Error_def split: if_split_asm)
  qed
qed

lemma write_undo_ix:
  assumes "write_undo w e p u st s = Some (ok, st', s')"
  shows "touched (ix s) (ix s') \<and> (fRequestShutdown s \<longrightarrow> fRequestShutdown s') \<and>
    (ok \<longrightarrow> (\<exists>b. tree (ix s') p = Some b \<and> (failed b \<or> scripts_valid b))) \<and> (\<not> ok \<longrightarrow> mode st' = MODE_ERROR)"
proof -
  obtain b valid where b: "tree (ix s) p = Some b" "IsValid b BLOCK_VALID_SCRIPTS = Some valid"
    using assms by (auto simp: write_undo_def split: Option.bind_splits)
  show ?thesis
  proof (cases "CDiskBlockPos_IsNull (GetUndoPos b) \<or> \<not> valid")
    case False
    then show ?thesis using assms b IsValid_scripts by (auto simp: write_undo_def)
  next
    case True
    then obtain ok1 st1 s1 where s1: "(if CDiskBlockPos_IsNull (GetUndoPos b) then write_undo_data w e p b u st s else Some (True, st, s)) = Some (ok1, st1, s1)"
      and rest: "(if \<not> ok1 then Some (False, st1, s1)
         else do { b \<leftarrow> tree (ix s1) p; (b, _) \<leftarrow> RaiseValidity b BLOCK_VALID_SCRIPTS;
                   Some (True, st1, s1\<lparr>ix := set_dirty p (set_block p b (ix s1))\<rparr>) }) = Some (ok, st', s')"
      using assms b by (auto simp: write_undo_def split: Option.bind_splits)
    have t1: "touched (ix s) (ix s1) \<and> (fRequestShutdown s \<longrightarrow> fRequestShutdown s1) \<and> (\<not> ok1 \<longrightarrow> mode st1 = MODE_ERROR)"
      using s1 write_undo_data_ix[OF _ b(1)] by (auto split: if_split_asm)
    show ?thesis
    proof (cases ok1)
      case False
      then show ?thesis using rest t1 by auto
    next
      case True
      then obtain b1 b2 r where b1: "tree (ix s1) p = Some b1" "RaiseValidity b1 BLOCK_VALID_SCRIPTS = Some (b2, r)"
        "ok" "st' = st1" "s' = s1\<lparr>ix := set_dirty p (set_block p b2 (ix s1))\<rparr>"
        using rest by (auto split: Option.bind_splits)
      note rv = RaiseValidity_scripts[of b1 b2 r "tree (ix s1)" p, OF b1(2,1)]
      have "touched (ix s1) (ix s')" using touched_set_dirty[OF touched_block[OF rv(1)]] by (simp add: b1(5))
      then show ?thesis using t1 b1 rv(2) by (auto simp: set_block_def set_dirty_def intro: touched_trans)
    qed
  qed
qed

lemma DisconnectBlock_disk_ix:
  "DisconnectBlock_disk w e block p s = Some (v, s') \<Longrightarrow> ix s' = ix s \<and> fRequestShutdown s' = fRequestShutdown s"
  by (auto simp: DisconnectBlock_disk_def UndoReadFromDisk_def tick_def Let_def
      split: if_split_asm Option.bind_splits prod.splits option.splits sum.splits disconnect_error.splits)

lemma UpdateTip_ix:
  "UpdateTip p s = Some s' \<Longrightarrow> \<exists>v. SetTip (tree (ix s)) p (chainActive (ix s)) = Some v \<and> s' = s\<lparr>ix := (ix s)\<lparr>chainActive := v\<rparr>\<rparr>"
  by (auto simp: UpdateTip_def with_ix_def split: Option.bind_splits)

text \<open>The chain after a tip was connected or disconnected.\<close>

definition moved :: "nat option \<Rightarrow> index_state \<Rightarrow> index_state \<Rightarrow> bool" where
  "moved p i i' \<longleftrightarrow> (\<exists>j v. touched i j \<and> SetTip (tree j) p (chainActive j) = Some v \<and> i' = j\<lparr>chainActive := v\<rparr>)"

lemma DisconnectTip_result:
  assumes "DisconnectTip w e st s = Some (ok, st', s')"
  shows "(fRequestShutdown s \<longrightarrow> fRequestShutdown s') \<and>
    (if ok then \<exists>t b. Tip (chainActive (ix s)) = Some t \<and> tree (ix s) t = Some b \<and> moved (pprev b) (ix s) (ix s') else touched (ix s) (ix s'))"
proof -
  obtain t r s1 where t: "Tip (chainActive (ix s)) = Some t" and r: "ReadBlockFromDisk w e t s = Some (r, s1)"
    using assms by (auto simp: DisconnectTip_def split: Option.bind_splits)
  note i1 = ReadBlockFromDisk_ix[OF r]
  show ?thesis
  proof (cases r)
    case None
    then show ?thesis using assms t r i1 by (auto simp: DisconnectTip_def AbortNode_def)
  next
    case (Some block)
    then obtain v s2 where d: "DisconnectBlock_disk w e block t s1 = Some (v, s2)"
      using assms t r by (auto simp: DisconnectTip_def split: Option.bind_splits)
    note i2 = DisconnectBlock_disk_ix[OF d]
    show ?thesis
    proof (cases v)
      case None
      then show ?thesis using assms t r Some d i1 i2 by (auto simp: DisconnectTip_def)
    next
      case (Some view)
      then obtain ok1 st1 s3 where f: "FlushStateToDisk w FLUSH_STATE_IF_NEEDED st (flush_view view s2) = Some (ok1, st1, s3)"
        and rest: "(if \<not> ok1 then Some (False, st1, s3)
           else do { b \<leftarrow> tree (ix s3) t; s \<leftarrow> UpdateTip (pprev b) s3; Some (True, st1, s) }) = Some (ok, st', s')"
        using assms t r \<open>r = Some block\<close> d by (auto simp: DisconnectTip_def split: Option.bind_splits)
      have i3: "touched (ix s) (ix s3)" "fRequestShutdown s \<longrightarrow> fRequestShutdown s3"
        using FlushStateToDisk_ix[OF f] i1 i2 by (auto simp: flush_view_def)
      show ?thesis
      proof (cases ok1)
        case False
        then show ?thesis using rest i3 by auto
      next
        case True
        then obtain b3 where b3: "tree (ix s3) t = Some b3" "UpdateTip (pprev b3) s3 = Some s'" "ok"
          using rest by (auto split: Option.bind_splits)
        obtain v where v: "SetTip (tree (ix s3)) (pprev b3) (chainActive (ix s3)) = Some v" "s' = s3\<lparr>ix := (ix s3)\<lparr>chainActive := v\<rparr>\<rparr>"
          using UpdateTip_ix[OF b3(2)] by blast
        have shape: "same_shape (tree (ix s)) (tree (ix s3))" using touched_same(5)[OF i3(1)] by (simp add: kept_def)
        obtain b where b: "tree (ix s) t = Some b" using same_shape_entry[OF same_shape_sym[OF shape] b3(1)] by blast
        have "map_option pprev (tree (ix s3) t) = map_option pprev (tree (ix s) t)" by (rule same_shape_field[OF shape]) simp
        then have "pprev b3 = pprev b" using b b3(1) by simp
        then have "moved (pprev b) (ix s) (ix s')" unfolding moved_def using i3(1) v by (intro exI[of _ "ix s3"] exI[of _ v]) simp
        then show ?thesis using t b b3(3) v(2) i3(2) by auto
      qed
    qed
  qed
qed

text \<open>A block counts as checked if its scripts were verified or it is the genesis block.\<close>

definition checked :: "connect_env \<Rightarrow> CBlockIndex \<Rightarrow> bool" where
  "checked e b \<longleftrightarrow> scripts_valid b \<or> phashBlock b = Some (hashGenesisBlock (env_params e))"

lemma ConnectBlock_disk_ix:
  assumes "ConnectBlock_disk w e block st p s = Some (v, st', s')" "GetBlockHash (tree (ix s)) p = Some (header_GetHash (env_Hash e) block)"
  shows "touched (ix s) (ix s') \<and> (fRequestShutdown s \<longrightarrow> fRequestShutdown s') \<and>
    (v \<noteq> None \<longrightarrow> (\<exists>b. tree (ix s') p = Some b \<and> (failed b \<or> checked e b))) \<and> (v = None \<longrightarrow> state_IsInvalid st' \<longrightarrow> ix s' = ix s)"
proof -
  let ?e = "e\<lparr>env_tree := tree (ix s), env_index := map_of (mapBlockIndex (ix s))\<rparr>"
  show ?thesis
  proof (cases "ConnectBlock ?e (tip_view w s) (tip_best s) block st p (versionbitscache s) CCoinsViewCache_new False")
    case (Inl f)
    then show ?thesis using assms(1) by (cases f) (auto simp: ConnectBlock_disk_def Let_def)
  next
    case (Inr r)
    then obtain view undo caches where r: "r = (view, undo, caches)" by (cases r) auto
    show ?thesis
    proof (cases "header_GetHash (env_Hash e) block = hashGenesisBlock (env_params e)")
      case True
      then have "v = Some view" "s' = s" using assms(1) Inr r by (auto simp: ConnectBlock_disk_def Let_def)
      then show ?thesis using assms(2) True by (auto simp: checked_def GetBlockHash_def split: Option.bind_splits)
    next
      case False
      then obtain ok where u: "write_undo w ?e p undo st (s\<lparr>versionbitscache := caches\<rparr>) = Some (ok, st', s')" "v = (if ok then Some view else None)"
        using assms(1) Inr r by (auto simp: ConnectBlock_disk_def Let_def split: Option.bind_splits)
      from write_undo_ix[OF u(1)] u(2) show ?thesis by (auto simp: checked_def state_IsInvalid_def)
    qed
  qed
qed

lemma ConnectTip_result:
  assumes "ConnectTip w e st p pblock s = Some (ok, st', s')"
    "\<And>block. pblock = Some block \<Longrightarrow> GetBlockHash (tree (ix s)) p = Some (header_GetHash (env_Hash e) block)"
  shows "(\<exists>b. tree (ix s) p = Some b \<and> pprev b = Tip (chainActive (ix s))) \<and> (fRequestShutdown s \<longrightarrow> fRequestShutdown s') \<and>
    (if ok then moved (Some p) (ix s) (ix s') \<and> (\<exists>b. tree (ix s') p = Some b \<and> (failed b \<or> checked e b))
     else if state_IsInvalid st' then InvalidBlockFound p st' (ix s) = Some (ix s') else touched (ix s) (ix s'))"
proof -
  obtain b where b: "tree (ix s) p = Some b" "pprev b = Tip (chainActive (ix s))"
    using assms(1) by (auto simp: ConnectTip_def split: Option.bind_splits if_split_asm)
  obtain r s1 where r: "(case pblock of Some block \<Rightarrow> Some (Some block, s) | None \<Rightarrow> ReadBlockFromDisk w e p s) = Some (r, s1)"
    using assms(1) b by (auto simp: ConnectTip_def split: Option.bind_splits)
  have i1: "ix s1 = ix s" "fRequestShutdown s1 = fRequestShutdown s" "\<And>block. r = Some block \<Longrightarrow> GetBlockHash (tree (ix s1)) p = Some (header_GetHash (env_Hash e) block)"
    using r assms(2) ReadBlockFromDisk_ix[of w e p s r s1] ReadBlockFromDisk_hash[of w e p s _ s1] by (auto split: option.split_asm)
  show ?thesis
  proof (cases r)
    case None
    then show ?thesis using assms(1) b r i1 by (auto simp: ConnectTip_def AbortNode_def state_Error_def state_IsInvalid_def)
  next
    case (Some block)
    then obtain v st1 s2 where c: "ConnectBlock_disk w e block st p s1 = Some (v, st1, s2)"
      using assms(1) b r by (auto simp: ConnectTip_def split: Option.bind_splits)
    note i2 = ConnectBlock_disk_ix[OF c i1(3)[OF Some]]
    show ?thesis
    proof (cases v)
      case None
      then show ?thesis using assms(1) b r Some c i1 i2
        by (auto simp: ConnectTip_def with_ix_def split: Option.bind_splits if_split_asm)
    next
      case (Some view)
      then obtain ok1 st2 s3 where f: "FlushStateToDisk w FLUSH_STATE_IF_NEEDED st1 (flush_view view s2) = Some (ok1, st2, s3)"
        and rest: "(if \<not> ok1 then Some (False, st2, s3) else do { s \<leftarrow> UpdateTip (Some p) s3; Some (True, st2, s) }) = Some (ok, st', s')"
        using assms(1) b r \<open>r = Some block\<close> c by (auto simp: ConnectTip_def split: Option.bind_splits)
      have i3: "touched (ix s) (ix s3)" "fRequestShutdown s \<longrightarrow> fRequestShutdown s3" "touched (ix s2) (ix s3)"
        using FlushStateToDisk_ix[OF f] i1 i2 by (auto simp: flush_view_def intro: touched_trans)
      show ?thesis
      proof (cases ok1)
        case False
        then have "mode st2 = MODE_ERROR" using f FlushStateToDisk_error[of w FLUSH_STATE_IF_NEEDED st1 "flush_view view s2" st2 s3] by simp
        then show ?thesis using rest b i3 False by (auto simp: state_IsInvalid_def)
      next
        case True
        then have u: "UpdateTip (Some p) s3 = Some s'" "ok" using rest by (auto split: Option.bind_splits)
        obtain v' where v': "SetTip (tree (ix s3)) (Some p) (chainActive (ix s3)) = Some v'" "s' = s3\<lparr>ix := (ix s3)\<lparr>chainActive := v'\<rparr>\<rparr>"
          using UpdateTip_ix[OF u(1)] by blast
        have m: "moved (Some p) (ix s) (ix s')" unfolding moved_def using i3(1) v' by (intro exI[of _ "ix s3"] exI[of _ v']) simp
        obtain b2 where b2: "tree (ix s2) p = Some b2" "failed b2 \<or> checked e b2" using i2 Some by auto
        note k = touched_same(5)[OF i3(3)]
        obtain b3 where b3: "tree (ix s3) p = Some b3" "b3 = b2\<lparr>nStatus := nStatus b3, nUndoPos := nUndoPos b3\<rparr>"
          using same_shape_entry[of "tree (ix s2)" "tree (ix s3)" p b2] k b2(1) by (auto simp: kept_def)
        have "phashBlock b3 = phashBlock b2" by (subst b3(2)) simp
        then have "failed b3 \<or> checked e b3" using keptD[OF k b2(1) b3(1)] b2(2) by (auto simp: checked_def scripts_valid_def intro: order_trans)
        then show ?thesis using b m b3(1) v'(2) u(2) i3(2) by auto
      qed
    qed
  qed
qed

section \<open>The invariant between the steps\<close>

definition checked_path :: "connect_env \<Rightarrow> block_store \<Rightarrow> nat \<Rightarrow> bool" where
  "checked_path e st p \<longleftrightarrow> (\<forall>n q. anc st p n = Some q \<longrightarrow> (\<exists>b. st q = Some b \<and> checked e b))"

text \<open>The candidates are right, and the active chain and the threshold consist of blocks that were checked.\<close>

definition chain_inv :: "connect_env \<Rightarrow> index_state \<Rightarrow> bool" where
  "chain_inv e i \<longleftrightarrow> index_wf i \<and> best_invalid_ok i \<and> (\<forall>t. Tip (chainActive i) = Some t \<longrightarrow> checked_path e (tree i) t) \<and>
     (\<exists>X. threshold i X \<and> checked_path e (tree i) X)"

text \<open>No block that was checked has been found invalid later.\<close>

definition consistent :: "connect_env \<Rightarrow> block_store \<Rightarrow> bool" where
  "consistent e st \<longleftrightarrow> (\<forall>p b. st p = Some b \<longrightarrow> checked e b \<longrightarrow> nStatus b AND BLOCK_FAILED_VALID = 0)"

text \<open>What was found out about a block is not forgotten.\<close>

definition grown :: "block_store \<Rightarrow> block_store \<Rightarrow> bool" where
  "grown st st' \<longleftrightarrow> same_shape st st' \<and>
     (\<forall>p b b'. st p = Some b \<longrightarrow> st' p = Some b' \<longrightarrow>
        nStatus b AND BLOCK_VALID_MASK \<le> nStatus b' AND BLOCK_VALID_MASK \<and> (failed b \<longrightarrow> failed b') \<and> has_data b' = has_data b \<and>
        (nStatus b AND BLOCK_FAILED_VALID \<noteq> 0 \<longrightarrow> nStatus b' AND BLOCK_FAILED_VALID \<noteq> 0))"

lemma grownD:
  "grown st st' \<Longrightarrow> st p = Some b \<Longrightarrow> st' p = Some b' \<Longrightarrow>
     nStatus b AND BLOCK_VALID_MASK \<le> nStatus b' AND BLOCK_VALID_MASK \<and> (failed b \<longrightarrow> failed b') \<and> has_data b' = has_data b \<and>
     (nStatus b AND BLOCK_FAILED_VALID \<noteq> 0 \<longrightarrow> nStatus b' AND BLOCK_FAILED_VALID \<noteq> 0)"
  unfolding grown_def by blast

lemma grown_refl [simp]: "grown st st"
  by (simp add: grown_def)

lemma grown_shape: "grown st st' \<Longrightarrow> same_shape st st'"
  by (simp add: grown_def)

lemma grown_trans:
  assumes "grown st st'" "grown st' st''"
  shows "grown st st''"
  unfolding grown_def
proof (intro conjI allI impI)
  show "same_shape st st''" using assms by (auto simp: grown_def intro: same_shape_trans)
  fix p b b'' assume b: "st p = Some b" "st'' p = Some b''"
  from same_shape_entry[OF grown_shape[OF assms(1)] b(1)] obtain b' where b': "st' p = Some b'" by blast
  note k = grownD[OF assms(1) b(1) b'] grownD[OF assms(2) b' b(2)]
  show "nStatus b AND BLOCK_VALID_MASK \<le> nStatus b'' AND BLOCK_VALID_MASK" using k order_trans by blast
  show "failed b \<Longrightarrow> failed b''" "has_data b'' = has_data b" "nStatus b AND BLOCK_FAILED_VALID \<noteq> 0 \<Longrightarrow> nStatus b'' AND BLOCK_FAILED_VALID \<noteq> 0"
    using k by blast+
qed

lemma marked_grown: "marked st st' \<Longrightarrow> grown st st'"
  unfolding marked_def grown_def by (metis (no_types, lifting))

lemma kept_grown: "kept st st' \<Longrightarrow> grown st st'"
  by (intro marked_grown kept_marked)

lemma grown_checked:
  assumes "grown st st'" "st p = Some b" "checked e b"
  shows "\<exists>b'. st' p = Some b' \<and> checked e b'"
proof -
  obtain b' where b': "st' p = Some b'" "b' = b\<lparr>nStatus := nStatus b', nUndoPos := nUndoPos b'\<rparr>"
    using same_shape_entry[OF grown_shape[OF assms(1)] assms(2)] by blast
  have "phashBlock b' = phashBlock b" by (subst b'(2)) simp
  then show ?thesis using grownD[OF assms(1,2) b'(1)] assms(3) b'(1) by (auto simp: checked_def scripts_valid_def intro: order_trans)
qed

lemma grown_checked_path: "grown st st' \<Longrightarrow> checked_path e st p \<Longrightarrow> checked_path e st' p"
  using grown_checked same_shape_anc[OF grown_shape] unfolding checked_path_def by metis

lemma grown_usable:
  assumes "grown st st'" "usable st' p"
  shows "usable st p"
  unfolding usable_def
proof (intro allI impI)
  note s = grown_shape[OF assms(1)]
  fix n q assume "anc st p n = Some q"
  then obtain b' where b': "st' q = Some b'" "has_data b'" "\<not> failed b'"
    using assms(2) by (auto simp: usable_def same_shape_anc[OF s])
  then obtain b where b: "st q = Some b" using same_shape_entry[OF same_shape_sym[OF s]] by blast
  then show "\<exists>b. st q = Some b \<and> has_data b \<and> \<not> failed b" using grownD[OF assms(1) b b'(1)] b' by blast
qed

lemma consistent_before:
  assumes "grown st st'" "consistent e st'"
  shows "consistent e st"
  unfolding consistent_def
proof (intro allI impI)
  fix p b assume b: "st p = Some b" "checked e b"
  then obtain b' where b': "st' p = Some b'" "checked e b'" using grown_checked[OF assms(1)] by blast
  then show "nStatus b AND BLOCK_FAILED_VALID = 0" using grownD[OF assms(1) b(1) b'(1)] assms(2) by (auto simp: consistent_def)
qed

lemma checked_path_anc: "checked_path e st p \<Longrightarrow> anc st p n = Some q \<Longrightarrow> checked_path e st q"
  unfolding checked_path_def using anc_shift by metis

lemma checked_path_step:
  assumes "st p = Some b" "checked e b" "\<And>q. pprev b = Some q \<Longrightarrow> checked_path e st q"
  shows "checked_path e st p"
  unfolding checked_path_def
proof (intro allI impI)
  fix n q assume a: "anc st p n = Some q"
  show "\<exists>b. st q = Some b \<and> checked e b"
  proof (cases n)
    case 0
    then show ?thesis using a assms(1,2) by simp
  next
    case (Suc m)
    then obtain r where "pprev b = Some r" "anc st r m = Some q"
      using a anc_add[of st p 1 m] assms(1) by (auto split: Option.bind_splits)
    then show ?thesis using assms(3) unfolding checked_path_def by blast
  qed
qed

text \<open>Changes without effect on the candidates.\<close>

lemma chain_inv_marked:
  assumes K: "chain_inv e i" and m: "marked (tree i) (tree i')" and same: "chainActive i' = chainActive i" "setBlockIndexCandidates i' = setBlockIndexCandidates i"
    and bi: "best_invalid_ok i'"
  shows "chain_inv e i'"
proof -
  note g = marked_grown[OF m]
  have flt: "setBlockIndexCandidates i' = filter (\<lambda>x. x \<notin> {}) (setBlockIndexCandidates i)" using same(2) by simp
  have "index_wf i" using K by (simp add: chain_inv_def)
  then have "index_wf i'" by (rule index_wf_removed[OF _ m same(1) flt])
  moreover have "\<And>X. threshold i X \<Longrightarrow> threshold i' X" by (rule threshold_removed[OF _ m same(1) flt]) simp_all
  ultimately show ?thesis using K bi same(1) grown_checked_path[OF g] unfolding chain_inv_def by metis
qed

lemma best_invalid_shape:
  assumes "same_shape (tree i) (tree i')" "best_invalid_ok i" "pindexBestInvalid i' = pindexBestInvalid i"
  shows "best_invalid_ok i'"
  unfolding best_invalid_ok_def
proof (intro allI impI)
  fix q assume "pindexBestInvalid i' = Some q"
  then obtain b where "tree i q = Some b" using assms(2,3) by (auto simp: best_invalid_ok_def)
  then show "tree i' q \<noteq> None" using same_shape_entry[OF assms(1)] by blast
qed

lemma chain_inv_touched:
  assumes "chain_inv e i" "touched i i'"
  shows "chain_inv e i'"
proof -
  note t = touched_same[OF assms(2)]
  have "same_shape (tree i) (tree i')" using t(5) by (simp add: kept_def)
  moreover have "best_invalid_ok i" using assms(1) by (simp add: chain_inv_def)
  ultimately have "best_invalid_ok i'" by (rule best_invalid_shape) (rule t(3))
  then show ?thesis by (intro chain_inv_marked[OF assms(1) kept_marked[OF t(5)] t(1,2)])
qed

lemma index_wf_tip:
  assumes "index_wf i" "Tip (chainActive i) = Some t"
  shows "usable (tree i) t" "\<exists>b. tree i t = Some b"
  using assms usable_entry[of "tree i" t] by (auto simp: index_wf_def)

text \<open>One block back.\<close>

lemma chain_inv_down:
  assumes K: "chain_inv e i" and t: "Tip (chainActive i) = Some t" "tree i t = Some b" and m: "moved (pprev b) i i'"
  shows "chain_inv e i'" "kept (tree i) (tree i')" "Tip (chainActive i') = pprev b"
proof -
  obtain j v where j: "touched i j" "SetTip (tree j) (pprev b) (chainActive j) = Some v" "i' = j\<lparr>chainActive := v\<rparr>"
    using m by (auto simp: moved_def)
  have Kj: "chain_inv e j" by (rule chain_inv_touched[OF K j(1)])
  then have wf: "index_wf j" by (simp add: chain_inv_def)
  note tj = touched_same[OF j(1)]
  show "kept (tree i) (tree i')" using tj(5) j(3) by simp
  have shape: "same_shape (tree i) (tree j)" using tj(5) by (simp add: kept_def)
  obtain b' where b': "tree j t = Some b'" "b' = b\<lparr>nStatus := nStatus b', nUndoPos := nUndoPos b'\<rparr>" using same_shape_entry[OF shape t(2)] by blast
  have pp: "pprev b' = pprev b" by (subst b'(2)) simp
  have ok: "tree_wf (tree j)" "tree_ok (tree j)" "chain_wf (tree j) (chainActive j)" using wf by (auto simp: index_wf_def tree_wf_def)
  have tip: "Tip v = pprev b \<and> chain_wf (tree j) v"
  proof (cases "pprev b")
    case None
    then have "v = []" using j(2) by (simp add: SetTip_def)
    then show ?thesis using None by (simp add: Tip_def chain_wf_def slots_ok_def)
  next
    case (Some q)
    then obtain bq where "tree j q = Some bq" using tree_okD(3)[OF ok(2) b'(1)] pp by auto
    from SetTip_result[OF ok(2,3) this] show ?thesis using j(2) Some by auto
  qed
  then show "Tip (chainActive i') = pprev b" using j(3) by simp
  have below: "anc (tree j) t 1 = Some q" if "pprev b = Some q" for q using b'(1) pp that by simp
  have tt: "Tip (chainActive j) = Some t" using t(1) tj(1) by simp
  obtain X where X: "threshold j X" "checked_path e (tree j) X" using Kj by (auto simp: chain_inv_def)
  have "threshold i' X"
    unfolding threshold_def
  proof (intro conjI allI impI)
    fix q assume "Tip (chainActive i') = Some q"
    then have q: "pprev b = Some q" using j(3) tip by simp
    have e: "t \<in> entries (tree j)" "X \<in> entries (tree j)" "q \<in> entries (tree j)"
      using usable_carrier[OF wf] index_wf_tip[OF wf tt] X(1) usable_anc[OF _ below[OF q]] by (auto simp: threshold_def)
    have "worse (tree j) q t" using e anc_work[OF ok(1) below[OF q]] by (simp add: worse_iff)
    moreover have "\<not> worse (tree j) X t" using X(1) tt by (simp add: threshold_def)
    ultimately show "\<not> worse (tree i') X q" using candidates.trans[OF e(2,3,1)] j(3) by auto
  qed (use X(1) j(3) in \<open>auto simp: threshold_def\<close>)
  moreover have "usable (tree j) q" if "pprev b = Some q" for q
    using usable_anc[OF index_wf_tip(1)[OF wf tt] below[OF that]] .
  then have "index_wf i'" using wf tip j(3) by (auto simp: index_wf_def)
  moreover have "best_invalid_ok i'" using Kj j(3) by (simp add: chain_inv_def best_invalid_ok_def)
  moreover have "checked_path e (tree i') q" if "Tip (chainActive i') = Some q" for q
  proof -
    have a: "anc (tree j) t 1 = Some q" using that j(3) tip below by simp
    have "checked_path e (tree j) t" using Kj tt by (simp add: chain_inv_def)
    then show ?thesis using checked_path_anc[OF _ a] j(3) by simp
  qed
  ultimately show "chain_inv e i'" using X(2) j(3) by (auto simp: chain_inv_def)
qed

text \<open>One block up, and the candidates that are now worse than the tip are dropped.\<close>

lemma PruneBlockIndexCandidates_result:
  assumes wf: "index_wf i" and t: "Tip (chainActive i) = Some t" and p: "PruneBlockIndexCandidates i = Some i'"
  shows "i' = i\<lparr>setBlockIndexCandidates := setBlockIndexCandidates i'\<rparr>" "sorted_wrt (worse (tree i)) (setBlockIndexCandidates i')"
    "set (setBlockIndexCandidates i') = {x \<in> set (setBlockIndexCandidates i). \<not> worse (tree i) x t}"
proof -
  have i': "i' = i\<lparr>setBlockIndexCandidates := dropWhile (\<lambda>p. worse (tree i) p t) (setBlockIndexCandidates i)\<rparr>"
    using p t by (auto simp: PruneBlockIndexCandidates_def Let_def split: if_split_asm)
  have "t \<in> entries (tree i)" using usable_carrier[OF wf] index_wf_tip[OF wf t] by blast
  moreover have "sorted_wrt (worse (tree i)) (setBlockIndexCandidates i)" using wf by (simp add: index_wf_def)
  ultimately show "i' = i\<lparr>setBlockIndexCandidates := setBlockIndexCandidates i'\<rparr>" "sorted_wrt (worse (tree i)) (setBlockIndexCandidates i')"
    "set (setBlockIndexCandidates i') = {x \<in> set (setBlockIndexCandidates i). \<not> worse (tree i) x t}"
    using candidates.drop_below[OF _ index_wf_carrier[OF wf]] i' by auto
qed

lemma chain_inv_up:
  assumes K: "chain_inv e i" and b: "tree i p = Some b" "pprev b = Tip (chainActive i)" and u: "usable (tree i) p"
    and m: "moved (Some p) i i'" and c: "\<exists>b. tree i' p = Some b \<and> (failed b \<or> checked e b)" and prune: "PruneBlockIndexCandidates i' = Some i''"
  shows "chain_inv e i''" "kept (tree i) (tree i'')" "Tip (chainActive i'') = Some p"
proof -
  obtain j v where j: "touched i j" "SetTip (tree j) (Some p) (chainActive j) = Some v" "i' = j\<lparr>chainActive := v\<rparr>"
    using m by (auto simp: moved_def)
  have Kj: "chain_inv e j" by (rule chain_inv_touched[OF K j(1)])
  then have wf: "index_wf j" by (simp add: chain_inv_def)
  note tj = touched_same[OF j(1)]
  have ok: "tree_wf (tree j)" "tree_ok (tree j)" "chain_wf (tree j) (chainActive j)" using wf by (auto simp: index_wf_def tree_wf_def)
  have up: "usable (tree j) p" using u marked_usable[OF kept_marked[OF tj(5)]] by simp
  obtain b' where b': "tree j p = Some b'" "\<not> failed b'" using usable_entry[OF up] by blast
  have cb: "checked e b'" using c b' j(3) by auto
  have shape: "same_shape (tree i) (tree j)" using tj(5) by (simp add: kept_def)
  have "map_option pprev (tree j p) = map_option pprev (tree i p)" by (rule same_shape_field[OF shape]) simp
  then have pp: "pprev b' = Tip (chainActive j)" using b' b tj(1) by simp
  have tip: "Tip v = Some p" "chain_wf (tree j) v" using SetTip_result[OF ok(2,3) b'(1)] j(2) by auto
  have cp: "checked_path e (tree j) p"
    by (rule checked_path_step[of "tree j" p b' e, OF b'(1) cb]) (use Kj pp in \<open>auto simp: chain_inv_def\<close>)
  have wf': "index_wf i'" using wf tip up j(3) by (auto simp: index_wf_def)
  have tip': "Tip (chainActive i') = Some p" using tip(1) j(3) by simp
  note pr = PruneBlockIndexCandidates_result[OF wf' tip' prune]
  have i'': "tree i'' = tree j" "chainActive i'' = v" "pindexBestInvalid i'' = pindexBestInvalid j"
    using j(3) by (subst pr(1), simp)+
  show "kept (tree i) (tree i'')" using tj(5) i''(1) by simp
  show tip'': "Tip (chainActive i'') = Some p" using tip(1) i''(2) by simp
  have set'': "set (setBlockIndexCandidates i'') = {x \<in> set (setBlockIndexCandidates j). \<not> worse (tree j) x p}" using pr(3) j(3) by simp
  have wf'': "index_wf i''" using wf' pr(2) set'' i'' j(3) wf by (auto simp: index_wf_def)
  have bi: "best_invalid_ok i''" using Kj i'' by (simp add: chain_inv_def best_invalid_ok_def)
  obtain X where X: "threshold j X" "checked_path e (tree j) X" using Kj by (auto simp: chain_inv_def)
  have e: "p \<in> entries (tree j)" "X \<in> entries (tree j)" using usable_carrier[OF wf] up X(1) by (auto simp: threshold_def)
  have "\<exists>X. threshold i'' X \<and> checked_path e (tree i'') X"
  proof (cases "worse (tree j) X p")
    case True
    then have pX: "\<not> worse (tree j) p X" using candidates.asym[OF e(2,1)] by blast
    have cand: "q \<in> set (setBlockIndexCandidates j)" if "usable (tree j) q" "\<not> worse (tree j) q p" for q
    proof -
      have "\<not> worse (tree j) q X" using candidates.not_less_trans[OF _ e that(2) pX] usable_carrier[OF wf that(1)] by blast
      then show ?thesis using X(1) that(1) by (simp add: threshold_def)
    qed
    have "threshold i'' p" using cand up set'' i'' tip'' candidates.irrefl by (auto simp: threshold_def)
    then show ?thesis using cp i''(1) by auto
  next
    case False
    have "threshold i'' X" unfolding threshold_def
    proof (intro conjI allI impI)
      show "X \<in> set (setBlockIndexCandidates i'')" "usable (tree i'') X" using X(1) False set'' i''(1) by (auto simp: threshold_def)
      show "\<not> worse (tree i'') X t" if "Tip (chainActive i'') = Some t" for t using that tip'' False i''(1) by simp
      fix q assume q: "usable (tree i'') q" "\<not> worse (tree i'') q X"
      then have "q \<in> set (setBlockIndexCandidates j)" using X(1) i''(1) by (simp add: threshold_def)
      moreover have "\<not> worse (tree j) q p" using candidates.not_less_trans[OF _ e(2,1) _ False] q i''(1) usable_carrier[OF wf] by auto
      ultimately show "q \<in> set (setBlockIndexCandidates i'')" using set'' by simp
    qed
    then show ?thesis using X(2) i''(1) by auto
  qed
  then show "chain_inv e i''" using wf'' bi tip'' cp i''(1) by (auto simp: chain_inv_def)
qed

text \<open>A block on top of the tip is found invalid.\<close>

lemma InvalidBlockFound_result:
  assumes "InvalidBlockFound p st i = Some i'" "\<not> corruptionPossible st"
  shows "\<exists>b. tree i p = Some b \<and> tree i' = (tree i)(p \<mapsto> b\<lparr>nStatus := nStatus b OR BLOCK_FAILED_VALID\<rparr>) \<and> chainActive i' = chainActive i \<and>
    setBlockIndexCandidates i' = filter (\<lambda>x. x \<noteq> p) (setBlockIndexCandidates i) \<and> (pindexBestInvalid i' = pindexBestInvalid i \<or> pindexBestInvalid i' = Some p)"
  using assms by (auto simp: InvalidBlockFound_def InvalidChainFound_def add_status_def set_block_def set_dirty_def erase_candidate_def
      split: Option.bind_splits if_split_asm)

lemma failed_valid_nonzero: "BLOCK_FAILED_VALID \<noteq> 0"
  by (simp add: BLOCK_FAILED_VALID_def)

lemma failed_valid_grown: "st p = Some b \<Longrightarrow> grown st (st(p \<mapsto> b\<lparr>nStatus := nStatus b OR BLOCK_FAILED_VALID\<rparr>))"
  by (simp add: grown_def same_shape_update status_or failed_valid_nonzero)

lemma chain_inv_invalid:
  assumes K: "chain_inv e i" and b: "tree i p = Some b" "pprev b = Tip (chainActive i)" and inv: "InvalidBlockFound p st i = Some i'" "\<not> corruptionPossible st"
  shows "grown (tree i) (tree i')" "consistent e (tree i') \<Longrightarrow> chain_inv e i'"
proof -
  let ?b = "b\<lparr>nStatus := nStatus b OR BLOCK_FAILED_VALID\<rparr>"
  have i': "tree i' = (tree i)(p \<mapsto> ?b)" "chainActive i' = chainActive i" "setBlockIndexCandidates i' = filter (\<lambda>x. x \<noteq> p) (setBlockIndexCandidates i)"
    "pindexBestInvalid i' = pindexBestInvalid i \<or> pindexBestInvalid i' = Some p"
    using InvalidBlockFound_result[OF inv] b(1) by auto
  show g: "grown (tree i) (tree i')" using failed_valid_grown[of "tree i" p b] b(1) i'(1) by simp
  note shape = grown_shape[OF g]
  assume cons: "consistent e (tree i')"
  have wf: "index_wf i" and bi: "best_invalid_ok i" using K by (auto simp: chain_inv_def)
  have ok: "tree_wf (tree i)" using wf by (simp add: index_wf_def)
  have stay: "usable (tree i') q" if q: "usable (tree i) q" "\<forall>n. anc (tree i) q n \<noteq> Some p" for q
    unfolding usable_def
  proof (intro allI impI)
    fix n r assume "anc (tree i') q n = Some r"
    then have a: "anc (tree i) q n = Some r" by (simp add: same_shape_anc[OF shape])
    then have "r \<noteq> p" using q(2) by auto
    then show "\<exists>b. tree i' r = Some b \<and> has_data b \<and> \<not> failed b" using q(1) a i'(1) by (auto simp: usable_def)
  qed
  have "\<not> checked e b"
  proof
    assume "checked e b"
    then have "checked e ?b" using grown_checked[OF g b(1)] i'(1) by auto
    then have "nStatus ?b AND BLOCK_FAILED_VALID = 0" using cons[unfolded consistent_def, rule_format, of p ?b] i'(1) by simp
    then show False using failed_valid_nonzero by simp
  qed
  then have not_anc: "anc (tree i) q n \<noteq> Some p" if "checked_path e (tree i) q" for q n
    using that b(1) unfolding checked_path_def by fastforce
  obtain X where X: "threshold i X" "checked_path e (tree i) X" using K by (auto simp: chain_inv_def)
  have tip: "usable (tree i') t" if "Tip (chainActive i) = Some t" for t
    using that stay index_wf_tip(1)[OF wf that] not_anc K by (simp add: chain_inv_def)
  have wf': "index_wf i'" unfolding index_wf_def
    using wf same_shape_tree_wf[OF shape] same_shape_chain_wf[OF shape] tip i'(2,3) sorted_wrt_filter
    by (auto simp: index_wf_def same_shape_worse[OF shape] same_shape_linked[OF shape])
  have "threshold i' X"
    unfolding threshold_def
  proof (intro conjI allI impI)
    have Xp: "X \<noteq> p" using not_anc[OF X(2), of 0] by auto
    show "X \<in> set (setBlockIndexCandidates i')" using X(1) Xp i'(3) by (simp add: threshold_def)
    show "usable (tree i') X" using stay not_anc[OF X(2)] X(1) by (simp add: threshold_def)
    show "\<not> worse (tree i') X t" if "Tip (chainActive i') = Some t" for t
      using that X(1) i'(2) by (simp add: threshold_def same_shape_worse[OF shape])
    fix q assume q: "usable (tree i') q" "\<not> worse (tree i') q X"
    have "usable (tree i) q" by (rule grown_usable[OF g q(1)])
    moreover have "q \<noteq> p" using usable_entry[OF q(1)] i'(1) status_or(4)[of b] by auto
    ultimately show "q \<in> set (setBlockIndexCandidates i')" using X(1) q(2) i'(3) by (simp add: threshold_def same_shape_worse[OF shape])
  qed
  moreover have "best_invalid_ok i'"
    using i'(4)
  proof
    assume "pindexBestInvalid i' = pindexBestInvalid i"
    then show ?thesis by (rule best_invalid_shape[OF shape bi])
  qed (use i'(1) in \<open>simp add: best_invalid_ok_def\<close>)
  ultimately show "chain_inv e i'"
    using wf' grown_checked_path[OF g] X(2) K i'(2) unfolding chain_inv_def by metis
qed

section \<open>Nothing is forgotten\<close>

text \<open>Whatever happens, flags are only added.\<close>

lemma child_grown: "st p = Some b \<Longrightarrow> grown st (st(p \<mapsto> b\<lparr>nStatus := nStatus b OR BLOCK_FAILED_CHILD\<rparr>))"
  by (simp add: grown_def same_shape_update status_or)

lemma remove_chain_grown:
  assumes "remove_chain t f p s = Some s'"
  shows "grown (tree s) (tree s')"
  using assms
proof (induction t f p s s' rule: remove_chain.raw_induct[rotated, consumes 1, case_names 1])
  case (1 rec t f p s s')
  show ?case
  proof (cases "t = p")
    case True
    then show ?thesis using "1.hyps" by simp
  next
    case False
    then obtain b q where b: "tree s p = Some b"
      and r: "rec t f q (erase_candidate p (if f then set_block p (b\<lparr>nStatus := nStatus b OR BLOCK_FAILED_CHILD\<rparr>) s
                                             else s\<lparr>mapBlocksUnlinked := mapBlocksUnlinked s @ [(pprev b, p)]\<rparr>)) = Some s'"
      using "1.hyps" by (auto simp: Let_def split: Option.bind_splits)
    have "tree (erase_candidate p (if f then set_block p (b\<lparr>nStatus := nStatus b OR BLOCK_FAILED_CHILD\<rparr>) s
             else s\<lparr>mapBlocksUnlinked := mapBlocksUnlinked s @ [(pprev b, p)]\<rparr>)) =
        (if f then (tree s)(p \<mapsto> b\<lparr>nStatus := nStatus b OR BLOCK_FAILED_CHILD\<rparr>) else tree s)"
      by (simp add: erase_candidate_def set_block_def)
    then show ?thesis using "1.IH"[OF r] grown_trans[OF child_grown[of "tree s" p b, OF b]] by (metis (no_types, lifting))
  qed
qed

lemma FindMostWorkChain_grown:
  assumes "FindMostWorkChain s = Some r"
  shows "grown (tree s) (tree (snd r))"
  using assms
proof (induction s r rule: FindMostWorkChain.raw_induct[rotated, consumes 1, case_names 1])
  case (1 rec s r)
  show ?case
  proof (cases "setBlockIndexCandidates s = []")
    case True
    then show ?thesis using "1.hyps" by auto
  next
    case False
    then obtain fault where f: "find_fault (tree s) (chainActive s) (Some (last (setBlockIndexCandidates s))) = Some fault"
      using "1.hyps" by (auto simp: Let_def split: Option.bind_splits)
    show ?thesis
    proof (cases fault)
      case None
      then show ?thesis using "1.hyps" False f by auto
    next
      case (Some tf)
      then obtain t ff w s1 where "remove_chain t ff (last (setBlockIndexCandidates s)) (if w then s\<lparr>pindexBestInvalid := Some (last (setBlockIndexCandidates s))\<rparr> else s) = Some s1"
        and r: "rec (erase_candidate t s1) = Some r"
        using "1.hyps" False f by (cases tf) (auto simp: Let_def split: Option.bind_splits)
      from remove_chain_grown[OF this(1)] "1.IH"[OF r] show ?thesis
        by (auto simp: erase_candidate_def split: if_split_asm intro: grown_trans)
    qed
  qed
qed

lemma touched_grown: "touched i i' \<Longrightarrow> grown (tree i) (tree i')"
  using touched_same(5) kept_grown by blast

lemma moved_grown: "moved p i i' \<Longrightarrow> grown (tree i) (tree i')"
  using touched_grown by (auto simp: moved_def)

lemma InvalidBlockFound_grown:
  assumes "InvalidBlockFound p st i = Some i'"
  shows "grown (tree i) (tree i')"
proof (cases "corruptionPossible st")
  case True
  then show ?thesis using assms by (simp add: InvalidBlockFound_def)
next
  case False
  then show ?thesis using InvalidBlockFound_result[OF assms] failed_valid_grown by metis
qed

text \<open>This includes a request to shut down.\<close>

definition later :: "chain_state \<Rightarrow> chain_state \<Rightarrow> bool" where
  "later s s' \<longleftrightarrow> grown (tree (ix s)) (tree (ix s')) \<and> (fRequestShutdown s \<longrightarrow> fRequestShutdown s')"

lemma later_refl [simp]: "later s s"
  by (simp add: later_def)

lemma later_trans: "later s s' \<Longrightarrow> later s' s'' \<Longrightarrow> later s s''"
  unfolding later_def using grown_trans by blast

lemma later_shape: "later s s' \<Longrightarrow> same_shape (tree (ix s)) (tree (ix s'))"
  by (simp add: later_def grown_shape)

lemma DisconnectTip_grown: "DisconnectTip w e st s = Some (ok, st', s') \<Longrightarrow> later s s'"
  using DisconnectTip_result[of w e st s ok st' s'] moved_grown touched_grown by (cases ok) (auto simp: later_def)

lemma ConnectTip_grown:
  assumes "ConnectTip w e st p pblock s = Some (ok, st', s')" "\<And>block. pblock = Some block \<Longrightarrow> GetBlockHash (tree (ix s)) p = Some (header_GetHash (env_Hash e) block)"
  shows "later s s'"
  using ConnectTip_result[OF assms] moved_grown touched_grown InvalidBlockFound_grown by (auto simp: later_def split: if_split_asm)

lemma disconnect_to_grown:
  assumes "disconnect_to w e f st s = Some r"
  shows "later s (snd (snd r))"
  using assms
proof (induction w e f st s r rule: disconnect_to.raw_induct[rotated, consumes 1, case_names 1])
  case (1 rec w e f st s r)
  show ?case
  proof (cases "Tip (chainActive (ix s)) \<noteq> None \<and> Tip (chainActive (ix s)) \<noteq> f")
    case False
    then have "r = (True, st, s)" using "1.hyps" by (auto split: if_split_asm)
    then show ?thesis by simp
  next
    case True
    then obtain ok st1 s1 where d: "DisconnectTip w e st s = Some (ok, st1, s1)"
      and r: "(if ok then rec w e f st1 s1 else Some (False, st1, s1)) = Some r"
      using "1.hyps" by (auto split: Option.bind_splits)
    show ?thesis using DisconnectTip_grown[OF d] r "1.IH" later_trans by (cases ok) auto
  qed
qed

lemma with_ix_grown:
  assumes "with_ix f s = Some s'" "\<And>i i'. f i = Some i' \<Longrightarrow> tree i' = tree i"
  shows "tree (ix s') = tree (ix s) \<and> fRequestShutdown s' = fRequestShutdown s"
  using assms by (auto simp: with_ix_def split: Option.bind_splits)

lemma Prune_tree: "PruneBlockIndexCandidates i = Some i' \<Longrightarrow> tree i' = tree i"
  by (auto simp: PruneBlockIndexCandidates_def Let_def split: Option.bind_splits if_split_asm)

lemma InvalidChainFound_tree: "InvalidChainFound p i = Some i' \<Longrightarrow> tree i' = tree i"
  by (auto simp: InvalidChainFound_def split: Option.bind_splits if_split_asm)

definition pblock_is :: "connect_env \<Rightarrow> block_store \<Rightarrow> nat \<Rightarrow> CBlock option \<Rightarrow> bool" where
  "pblock_is e st m pblock \<longleftrightarrow> (\<forall>block. pblock = Some block \<longrightarrow> GetBlockHash st m = Some (header_GetHash (env_Hash e) block))"

lemma same_shape_hash: "same_shape st st' \<Longrightarrow> GetBlockHash st' p = GetBlockHash st p"
proof -
  assume s: "same_shape st st'"
  have "map_option phashBlock (st' p) = map_option phashBlock (st p)" by (rule same_shape_field[OF s]) simp
  then show ?thesis by (cases "st p"; cases "st' p") (auto simp: GetBlockHash_def)
qed

lemma pblock_is_shape: "same_shape st st' \<Longrightarrow> pblock_is e st m pblock \<Longrightarrow> pblock_is e st' m pblock"
  by (simp add: pblock_is_def same_shape_hash)

lemma pblock_is_for: "GetBlockHash st p = Some h \<Longrightarrow> pblock_is e st p (pblock_for e pblock h)"
  by (auto simp: pblock_is_def pblock_for_def split: option.split_asm if_split_asm)

lemma pblock_is_at: "pblock_is e st m pblock \<Longrightarrow> (if p = m then pblock else None) = Some block \<Longrightarrow> GetBlockHash st p = Some (header_GetHash (env_Hash e) block)"
  by (auto simp: pblock_is_def split: if_split_asm)

lemma connect_list_grown:
  "connect_list w e old m pblock low ps st s = Some (r, st', s') \<Longrightarrow> pblock_is e (tree (ix s)) m pblock \<Longrightarrow> later s s'"
proof (induction ps arbitrary: st s)
  case (Cons p ps)
  obtain ok st1 s1 where c: "ConnectTip w e st p (if p = m then pblock else None) s = Some (ok, st1, s1)"
    using Cons.prems(1) by (auto split: Option.bind_splits)
  have g: "later s s1" by (rule ConnectTip_grown[OF c pblock_is_at[OF Cons.prems(2)]])
  show ?case
  proof (cases ok)
    case False
    then have "tree (ix s') = tree (ix s1) \<and> fRequestShutdown s' = fRequestShutdown s1"
      using Cons.prems(1) c with_ix_grown[of "InvalidChainFound low" s1 s', OF _ InvalidChainFound_tree] by (auto split: Option.bind_splits if_split_asm)
    then show ?thesis using g by (simp add: later_def)
  next
    case True
    obtain s2 better where s2: "with_ix PruneBlockIndexCandidates s1 = Some s2"
      "(if better then Some (Better_tip, st1, s2) else connect_list w e old m pblock low ps st1 s2) = Some (r, st', s')"
      using Cons.prems(1) c True by (auto split: Option.bind_splits)
    have "tree (ix s2) = tree (ix s1) \<and> fRequestShutdown s2 = fRequestShutdown s1" by (rule with_ix_grown[OF s2(1) Prune_tree])
    then have g2: "later s s2" using g by (simp add: later_def)
    show ?thesis using s2(2) g2 Cons.IH[OF _ pblock_is_shape[OF later_shape[OF g2] Cons.prems(2)]] later_trans[OF g2] by (auto split: if_split_asm)
  qed
qed simp

lemma connect_runs_grown:
  assumes "connect_runs w e old m pblock h st s = Some r" "pblock_is e (tree (ix s)) m pblock"
  shows "later s (snd (snd r))"
  using assms
proof (induction w e old m pblock h st s r rule: connect_runs.raw_induct[rotated, consumes 1, case_names 1])
  case (1 rec w e old m pblock h st s r)
  obtain b where b: "tree (ix s) m = Some b" using "1.hyps" by (auto split: Option.bind_splits)
  show ?case
  proof (cases "h = nHeight b")
    case True
    then show ?thesis using "1.hyps" b by auto
  next
    case False
    then obtain ps r1 st1 s1 where c: "connect_list w e old m pblock (last ps) (rev ps) st s = Some (r1, st1, s1)"
      and r: "(case r1 of All_connected \<Rightarrow> rec w e old m pblock (min (h + 32) (nHeight b)) st1 s1 | System_error \<Rightarrow> Some (False, st1, s1)
          | _ \<Rightarrow> Some (True, st1, s1)) = Some r"
      using "1.hyps" b by (auto simp: Let_def split: Option.bind_splits)
    have g: "later s s1" by (rule connect_list_grown[OF c "1.prems"])
    note pb = pblock_is_shape[OF later_shape[OF g] "1.prems"]
    show ?thesis using r g "1.IH"[OF _ pb] later_trans[OF g] by (cases r1) auto
  qed
qed

lemma ActivateBestChainStep_grown:
  assumes "ActivateBestChainStep w e m pblock st s = Some (ok, st', s')" "pblock_is e (tree (ix s)) m pblock"
  shows "later s s'"
proof -
  obtain f ok1 st1 s1 where d: "disconnect_to w e f st s = Some (ok1, st1, s1)"
    and rest: "(if \<not> ok1 then Some (False, st1, s1)
       else do { nHeight0 \<leftarrow> (case f of None \<Rightarrow> Some (-1) | Some f \<Rightarrow> map_option nHeight (tree (ix s1) f));
                 connect_runs w e (Tip (chainActive (ix s))) m pblock nHeight0 st1 s1 }) = Some (ok, st', s')"
    using assms(1) by (auto simp: ActivateBestChainStep_def Let_def split: Option.bind_splits)
  have g: "later s s1" using disconnect_to_grown[OF d] by simp
  note pb = pblock_is_shape[OF later_shape[OF g] assms(2)]
  show ?thesis using rest g connect_runs_grown[OF _ pb] later_trans[OF g] by (auto split: if_split_asm Option.bind_splits)
qed

section \<open>The loops\<close>

lemma disconnect_to_result:
  assumes "disconnect_to w e f st s = Some r" "chain_inv e (ix s)"
  shows "(case r of (ok, st', s') \<Rightarrow> chain_inv e (ix s') \<and> kept (tree (ix s)) (tree (ix s')) \<and> (fRequestShutdown s \<longrightarrow> fRequestShutdown s'))"
  using assms
proof (induction w e f st s r rule: disconnect_to.raw_induct[rotated, consumes 1, case_names 1])
  case (1 rec w e f st s r)
  show ?case
  proof (cases "Tip (chainActive (ix s)) \<noteq> None \<and> Tip (chainActive (ix s)) \<noteq> f")
    case False
    then have "r = (True, st, s)" using "1.hyps" by (auto split: if_split_asm)
    then show ?thesis using "1.prems" by simp
  next
    case True
    then obtain ok st1 s1 where d: "DisconnectTip w e st s = Some (ok, st1, s1)"
      and r: "(if ok then rec w e f st1 s1 else Some (False, st1, s1)) = Some r"
      using "1.hyps" by (auto split: Option.bind_splits)
    note dr = DisconnectTip_result[OF d]
    show ?thesis
    proof (cases ok)
      case False
      then have "touched (ix s) (ix s1)" "r = (False, st1, s1)" using dr r by auto
      then show ?thesis using chain_inv_touched[OF "1.prems"] touched_same(5) dr by auto
    next
      case ok: True
      then obtain t b where t: "Tip (chainActive (ix s)) = Some t" "tree (ix s) t = Some b" "moved (pprev b) (ix s) (ix s1)"
        using dr by auto
      note down = chain_inv_down[OF "1.prems" t]
      have "rec w e f st1 s1 = Some r" using r ok by simp
      from "1.IH"[OF this down(1)] show ?thesis using down(2) dr by (auto intro: kept_trans)
    qed
  qed
qed

lemma InvalidChainFound_result:
  assumes "InvalidChainFound p i = Some i'"
  shows "i' = i \<or> i' = i\<lparr>pindexBestInvalid := Some p\<rparr>"
  using assms by (auto simp: InvalidChainFound_def split: Option.bind_splits if_split_asm)

lemma chain_inv_best_invalid:
  assumes "InvalidChainFound p i = Some i'" "tree i p \<noteq> None" "chain_inv e i"
  shows "chain_inv e i'"
proof -
  have i': "i' = i \<or> i' = i\<lparr>pindexBestInvalid := Some p\<rparr>" by (rule InvalidChainFound_result[OF assms(1)])
  then have "tree i' = tree i" "chainActive i' = chainActive i" "setBlockIndexCandidates i' = setBlockIndexCandidates i" by auto
  moreover have "best_invalid_ok i'" using i' assms(2,3) by (auto simp: chain_inv_def best_invalid_ok_def)
  ultimately show ?thesis using chain_inv_marked[OF assms(3), of i'] by simp
qed

text \<open>What is known about the end of a loop that connects.\<close>

definition progressed :: "connect_env \<Rightarrow> chain_state \<Rightarrow> chain_state \<Rightarrow> bool" where
  "progressed e s s' \<longleftrightarrow> later s s' \<and> (consistent e (tree (ix s')) \<longrightarrow> chain_inv e (ix s'))"

lemma progressed_trans:
  assumes "grown (tree (ix s)) (tree (ix s1))" "fRequestShutdown s \<longrightarrow> fRequestShutdown s1" "progressed e s1 s'"
  shows "progressed e s s'"
  using assms grown_trans unfolding progressed_def later_def by blast

lemma connect_list_result:
  "connect_list w e old m pblock low ps st s = Some (r, st', s') \<Longrightarrow> chain_inv e (ix s) \<Longrightarrow> usable (tree (ix s)) m \<Longrightarrow>
     \<forall>p\<in>set ps. \<exists>n. anc (tree (ix s)) m n = Some p \<Longrightarrow> tree (ix s) low \<noteq> None \<or> ps = [] \<Longrightarrow> pblock_is e (tree (ix s)) m pblock \<Longrightarrow>
     progressed e s s' \<and> (r = All_connected \<longrightarrow> kept (tree (ix s)) (tree (ix s')) \<and> chain_inv e (ix s'))"
proof (induction ps arbitrary: st s)
  case Nil
  then show ?case by (simp add: progressed_def later_def)
next
  case (Cons p ps)
  note K = Cons.prems(2)
  obtain n where n: "anc (tree (ix s)) m n = Some p" using Cons.prems(4) by auto
  have up: "usable (tree (ix s)) p" by (rule usable_anc[OF Cons.prems(3) n])
  obtain ok st1 s1 where c: "ConnectTip w e st p (if p = m then pblock else None) s = Some (ok, st1, s1)"
    using Cons.prems(1) by (auto split: Option.bind_splits)
  note cr = ConnectTip_result[OF c pblock_is_at[OF Cons.prems(6)]]
  obtain b where b: "tree (ix s) p = Some b" "pprev b = Tip (chainActive (ix s))" using cr by blast
  show ?case
  proof (cases ok)
    case False
    show ?thesis
    proof (cases "state_IsInvalid st1")
      case True
      then have inv: "InvalidBlockFound p st1 (ix s) = Some (ix s1)" using cr False by simp
      obtain s2 where s2: "(if \<not> corruptionPossible st1 then with_ix (InvalidChainFound low) s1 else Some s1) = Some s2"
        and r: "r = Invalid_found" "s' = s2"
        using Cons.prems(1) c False True by (auto split: Option.bind_splits)
      show ?thesis
      proof (cases "corruptionPossible st1")
        case True
        then have "ix s1 = ix s" "s2 = s1" using inv s2 by (auto simp: InvalidBlockFound_def)
        then show ?thesis using K cr r by (simp add: progressed_def later_def)
      next
        case nc: False
        note ir = chain_inv_invalid[OF K b inv nc]
        obtain i2 where i2: "InvalidChainFound low (ix s1) = Some i2" "s2 = s1\<lparr>ix := i2\<rparr>"
          using s2 nc by (auto simp: with_ix_def split: Option.bind_splits)
        have t2: "tree i2 = tree (ix s1)" using InvalidChainFound_result[OF i2(1)] by auto
        have "tree (ix s1) low \<noteq> None" using Cons.prems(5) same_shape_entry[OF grown_shape[OF ir(1)]] by fastforce
        then have "consistent e (tree (ix s1)) \<Longrightarrow> chain_inv e i2" using ir(2) chain_inv_best_invalid[OF i2(1)] by blast
        then show ?thesis using r i2(2) t2 ir(1) cr by (auto simp: progressed_def later_def)
      qed
    next
      case ni: False
      then have "touched (ix s) (ix s1)" "s' = s1" "r = System_error" using cr False Cons.prems(1) c by auto
      then show ?thesis using chain_inv_touched[OF K] touched_same(5) kept_grown cr by (auto simp: progressed_def later_def)
    qed
  next
    case True
    obtain s2 where s2: "with_ix PruneBlockIndexCandidates s1 = Some s2" using Cons.prems(1) c True by (auto split: Option.bind_splits)
    obtain i2 where i2: "PruneBlockIndexCandidates (ix s1) = Some i2" "s2 = s1\<lparr>ix := i2\<rparr>"
      using s2 by (auto simp: with_ix_def split: Option.bind_splits)
    have mv: "moved (Some p) (ix s) (ix s1)" "\<exists>b. tree (ix s1) p = Some b \<and> (failed b \<or> checked e b)" using cr True by auto
    note up' = chain_inv_up[OF K b up mv i2(1)]
    have rs: "fRequestShutdown s \<longrightarrow> fRequestShutdown s2" using cr i2(2) by simp
    have k2: "kept (tree (ix s)) (tree (ix s2))" "chain_inv e (ix s2)" using up' i2(2) by auto
    have shape: "same_shape (tree (ix s)) (tree (ix s2))" using k2(1) by (simp add: kept_def)
    obtain better where better: "(if better then Some (Better_tip, st1, s2) else connect_list w e old m pblock low ps st1 s2) = Some (r, st', s')"
      using Cons.prems(1) c True s2 by (auto split: Option.bind_splits)
    show ?thesis
    proof (cases better)
      case True
      then show ?thesis using better k2 rs kept_grown by (auto simp: progressed_def later_def)
    next
      case False
      then have rest: "connect_list w e old m pblock low ps st1 s2 = Some (r, st', s')" using better by simp
      have "tree (ix s2) low \<noteq> None \<or> ps = []" using Cons.prems(5) same_shape_entry[OF shape] by fastforce
      moreover have "usable (tree (ix s2)) m" using Cons.prems(3) by (simp add: marked_usable[OF kept_marked[OF k2(1)]])
      moreover have "\<forall>p\<in>set ps. \<exists>n. anc (tree (ix s2)) m n = Some p" using Cons.prems(4) by (simp add: same_shape_anc[OF shape])
      moreover have "pblock_is e (tree (ix s2)) m pblock" by (rule pblock_is_shape[OF shape Cons.prems(6)])
      ultimately have "progressed e s2 s' \<and> (r = All_connected \<longrightarrow> kept (tree (ix s2)) (tree (ix s')) \<and> chain_inv e (ix s'))"
        using Cons.IH[OF rest k2(2)] by blast
      then show ?thesis using progressed_trans[OF kept_grown[OF k2(1)] rs] kept_trans[OF k2(1)] by blast
    qed
  qed
qed

lemma blocks_above_anc:
  assumes "blocks_above st h q = Some ps" "(\<exists>n. q = anc st m n) \<or> q = None"
  shows "\<forall>p\<in>set ps. (\<exists>n. anc st m n = Some p) \<and> st p \<noteq> None"
  using assms
proof (induction st h q ps rule: blocks_above.raw_induct[rotated, consumes 1, case_names 1])
  case (1 rec st h q ps)
  show ?case
  proof (cases q)
    case None
    then show ?thesis using "1.hyps" by simp
  next
    case (Some p)
    then obtain b where b: "st p = Some b" using "1.hyps" by (auto split: Option.bind_splits)
    obtain n where n: "anc st m n = Some p" using "1.prems" Some by auto
    show ?thesis
    proof (cases "nHeight b = h")
      case True
      then show ?thesis using "1.hyps" Some b by simp
    next
      case False
      then obtain ps' where ps': "rec st h (pprev b) = Some ps'" "ps = p # ps'"
        using "1.hyps" Some b by (auto split: Option.bind_splits)
      have "\<exists>k. pprev b = anc st m k" using n b by (intro exI[of _ "Suc n"]) simp
      then have "\<forall>p\<in>set ps'. (\<exists>n. anc st m n = Some p) \<and> st p \<noteq> None" using "1.IH"[OF ps'(1)] by blast
      then show ?thesis using ps'(2) n b by auto
    qed
  qed
qed

lemma connect_runs_result:
  assumes "connect_runs w e old m pblock h st s = Some r" "chain_inv e (ix s)" "usable (tree (ix s)) m" "pblock_is e (tree (ix s)) m pblock"
  shows "(case r of (ok, st', s') \<Rightarrow> progressed e s s')"
  using assms
proof (induction w e old m pblock h st s r rule: connect_runs.raw_induct[rotated, consumes 1, case_names 1])
  case (1 rec w e old m pblock h st s r)
  obtain b where b: "tree (ix s) m = Some b" using "1.hyps" by (auto split: Option.bind_splits)
  show ?case
  proof (cases "h = nHeight b")
    case True
    then have "r = (True, st, s)" using "1.hyps" b by simp
    then show ?thesis using "1.prems"(1) by (simp add: progressed_def later_def)
  next
    case False
    let ?h = "min (h + 32) (nHeight b)"
    obtain a ps r1 st1 s1 where a: "GetAncestor (tree (ix s)) m ?h = Some a" and ps: "blocks_above (tree (ix s)) h a = Some ps"
      and c: "connect_list w e old m pblock (last ps) (rev ps) st s = Some (r1, st1, s1)"
      and r: "(case r1 of All_connected \<Rightarrow> rec w e old m pblock ?h st1 s1 | System_error \<Rightarrow> Some (False, st1, s1) | _ \<Rightarrow> Some (True, st1, s1)) = Some r"
      using "1.hyps" b False by (auto simp: Let_def split: Option.bind_splits)
    have ok: "tree_ok (tree (ix s))" using "1.prems"(1) by (simp add: chain_inv_def index_wf_def tree_wf_def)
    have "(\<exists>n. a = anc (tree (ix s)) m n) \<or> a = None"
    proof (cases "0 \<le> ?h")
      case True
      then show ?thesis using GetAncestor_anc[OF ok b True] a by auto
    next
      case False
      then have "?h < 0" by (simp only: not_le)
      then show ?thesis using a b by (simp add: GetAncestor_def)
    qed
    note ba = blocks_above_anc[OF ps this]
    have low: "tree (ix s) (last ps) \<noteq> None \<or> rev ps = []" using ba by (cases "ps = []") auto
    have "\<forall>p\<in>set (rev ps). \<exists>n. anc (tree (ix s)) m n = Some p" using ba by simp
    note cl = connect_list_result[OF c "1.prems"(1,2) this low "1.prems"(3)]
    show ?thesis
    proof (cases "r1 = All_connected")
      case True
      then have rest: "rec w e old m pblock ?h st1 s1 = Some r" using r by simp
      have k: "kept (tree (ix s)) (tree (ix s1))" "chain_inv e (ix s1)" using cl True by auto
      have shape: "same_shape (tree (ix s)) (tree (ix s1))" using k(1) by (simp add: kept_def)
      have "usable (tree (ix s1)) m" using "1.prems"(2) by (simp add: marked_usable[OF kept_marked[OF k(1)]])
      moreover have "pblock_is e (tree (ix s1)) m pblock" by (rule pblock_is_shape[OF shape "1.prems"(3)])
      ultimately have "case r of (ok, st', s') \<Rightarrow> progressed e s1 s'" by (rule "1.IH"[OF rest k(2)])
      then show ?thesis using progressed_trans[OF kept_grown[OF k(1)]] cl by (auto simp: progressed_def later_def)
    next
      case False
      then show ?thesis using r cl by (auto split: connect_result.split_asm)
    qed
  qed
qed

lemma ActivateBestChainStep_result:
  assumes "ActivateBestChainStep w e m pblock st s = Some (ok, st', s')" "chain_inv e (ix s)" "usable (tree (ix s)) m" "pblock_is e (tree (ix s)) m pblock"
  shows "progressed e s s'"
proof -
  obtain f ok1 st1 s1 where d: "disconnect_to w e f st s = Some (ok1, st1, s1)"
    and rest: "(if \<not> ok1 then Some (False, st1, s1)
       else do { nHeight0 \<leftarrow> (case f of None \<Rightarrow> Some (-1) | Some f \<Rightarrow> map_option nHeight (tree (ix s1) f));
                 connect_runs w e (Tip (chainActive (ix s))) m pblock nHeight0 st1 s1 }) = Some (ok, st', s')"
    using assms(1) by (auto simp: ActivateBestChainStep_def Let_def split: Option.bind_splits)
  have dr: "chain_inv e (ix s1)" "kept (tree (ix s)) (tree (ix s1))" "fRequestShutdown s \<longrightarrow> fRequestShutdown s1"
    using disconnect_to_result[OF d assms(2)] by auto
  show ?thesis
  proof (cases ok1)
    case False
    then show ?thesis using rest dr kept_grown by (auto simp: progressed_def later_def)
  next
    case True
    then obtain h where c: "connect_runs w e (Tip (chainActive (ix s))) m pblock h st1 s1 = Some (ok, st', s')"
      using rest by (auto split: Option.bind_splits)
    have shape: "same_shape (tree (ix s)) (tree (ix s1))" using dr(2) by (simp add: kept_def)
    have "usable (tree (ix s1)) m" using assms(3) by (simp add: marked_usable[OF kept_marked[OF dr(2)]])
    moreover have "pblock_is e (tree (ix s1)) m pblock" by (rule pblock_is_shape[OF shape assms(4)])
    ultimately have "progressed e s1 s'" using connect_runs_result[OF c dr(1)] by simp
    then show ?thesis by (rule progressed_trans[OF kept_grown[OF dr(2)] dr(3)])
  qed
qed

section \<open>The loop of \<^verbatim>\<open>ActivateBestChain\<close>\<close>

definition best_tip :: "index_state \<Rightarrow> bool" where
  "best_tip i \<longleftrightarrow> (\<exists>t. Tip (chainActive i) = Some t \<and> best_usable (tree i) t)"

lemma best_usable_grown:
  assumes "best_usable st p" "grown st st'" "usable st' p"
  shows "best_usable st' p"
  using assms grown_usable[OF assms(2)] same_shape_worse[OF grown_shape[OF assms(2)]] by (auto simp: best_usable_def)

lemma FlushStateToDisk_inv:
  assumes "FlushStateToDisk w fm st s = Some (ok, st', s')" "chain_inv e (ix s)"
  shows "chain_inv e (ix s')" "kept (tree (ix s)) (tree (ix s'))" "best_tip (ix s) \<Longrightarrow> best_tip (ix s')"
proof -
  have t: "touched (ix s) (ix s')" using FlushStateToDisk_ix[OF assms(1)] by blast
  show "chain_inv e (ix s')" "kept (tree (ix s)) (tree (ix s'))" using chain_inv_touched[OF assms(2) t] touched_same(5)[OF t] by auto
  then show "best_tip (ix s')" if "best_tip (ix s)"
    using that touched_same(1)[OF t] marked_usable[OF kept_marked] same_shape_worse[of "tree (ix s)" "tree (ix s')"]
    by (auto simp: best_tip_def best_usable_def kept_def)
qed

lemma FindMostWorkChain_inv:
  assumes K: "chain_inv e i" and F: "FindMostWorkChain i = Some (mw, i')"
  shows "\<exists>p. mw = Some p \<and> chain_inv e i' \<and> best_usable (tree i') p"
proof -
  obtain X where X: "threshold i X" "checked_path e (tree i) X" and wf: "index_wf i" and bi: "best_invalid_ok i"
    using K by (auto simp: chain_inv_def)
  obtain p bad where p: "mw = Some p" and m: "marked (tree i) (tree i')" and wi: "index_wf i'" and Xi: "threshold i' X" and bi': "best_invalid_ok i'"
    and fr: "i' = i\<lparr>tree := tree i', setBlockIndexCandidates := filter (\<lambda>x. x \<notin> bad) (setBlockIndexCandidates i),
        mapBlocksUnlinked := mapBlocksUnlinked i', pindexBestInvalid := pindexBestInvalid i'\<rparr>"
    and l: "p = last (setBlockIndexCandidates i')" "usable (tree i') p"
    using FindMostWorkChain_result[OF wf X(1) bi] F by auto
  have chain: "chainActive i' = chainActive i" by (subst fr) simp
  have "chain_inv e i'"
    using grown_checked_path[OF marked_grown[OF m]] X(2) Xi wi bi' K chain unfolding chain_inv_def by metis
  then show ?thesis using p last_candidate_best[OF wi Xi] l by simp
qed

lemma activate_pass_then:
  "do { r \<leftarrow> activate_pass w e pblock st s; case r of Inl x \<Rightarrow> Some x | Inr (st, s) \<Rightarrow> rec w e pblock st s } =
     (if ShutdownRequested w s then FlushStateToDisk w FLUSH_STATE_PERIODIC st (tick s)
      else do { (mw, i) \<leftarrow> FindMostWorkChain (ix s);
                let s = tick (s\<lparr>ix := i\<rparr>) in
                case mw of
                  None \<Rightarrow> Some (True, st, s)
                | Some p \<Rightarrow> if Tip (chainActive (ix s)) = Some p then Some (True, st, s)
                    else do { h \<leftarrow> GetBlockHash (tree (ix s)) p;
                              (ok, state, s) \<leftarrow> ActivateBestChainStep w e p (pblock_for e pblock h) st s;
                              if \<not> ok then Some (False, state, s)
                              else if Tip (chainActive (ix s)) = Some p then FlushStateToDisk w FLUSH_STATE_PERIODIC state s
                              else rec w e pblock state s } })"
  by (auto simp: activate_pass_def Let_def bind_eq_Some_conv split: Option.bind_splits option.splits if_splits)

lemma ActivateBestChain_result:
  assumes "ActivateBestChain w e pblock st s = Some r" "\<forall>n. \<not> w_shutdown w n"
  shows "case r of (ok, st', s') \<Rightarrow> grown (tree (ix s)) (tree (ix s')) \<and> (fRequestShutdown s \<longrightarrow> fRequestShutdown s') \<and>
    (chain_inv e (ix s) \<longrightarrow> ok \<longrightarrow> \<not> fRequestShutdown s' \<longrightarrow> consistent e (tree (ix s')) \<longrightarrow> chain_inv e (ix s') \<and> best_tip (ix s'))"
  using assms
proof (induction w e pblock st s r rule: ActivateBestChain.raw_induct[rotated, consumes 1, case_names 1])
  case (1 rec w e pblock st s r)
  obtain ok st' s' where r: "r = (ok, st', s')" by (cases r)
  note hyp = "1.hyps"[unfolded activate_pass_then]
  have flush: "touched (ix s1) (ix s') \<and> grown (tree (ix s1)) (tree (ix s')) \<and> (fRequestShutdown s1 \<longrightarrow> fRequestShutdown s')"
    if "FlushStateToDisk w fm st1 s1 = Some (ok, st', s')" for fm st1 s1
    using FlushStateToDisk_ix[OF that] touched_grown by blast
  show ?case
  proof (cases "ShutdownRequested w s")
    case True
    then have "FlushStateToDisk w FLUSH_STATE_PERIODIC st (tick s) = Some (ok, st', s')" using hyp r by simp
    moreover have "fRequestShutdown s" using True "1.prems" by (simp add: ShutdownRequested_def)
    ultimately show ?thesis using flush[of FLUSH_STATE_PERIODIC st "tick s"] r by (simp add: tick_def)
  next
    case False
    then obtain mw i where F: "FindMostWorkChain (ix s) = Some (mw, i)" using hyp by (auto split: Option.bind_splits)
    have g1: "grown (tree (ix s)) (tree i)" using FindMostWorkChain_grown[OF F] by simp
    define s1 where "s1 = tick (s\<lparr>ix := i\<rparr>)"
    have s1: "ix s1 = i" "fRequestShutdown s1 = fRequestShutdown s" by (simp_all add: s1_def tick_def)
    have K1: "\<exists>p. mw = Some p \<and> chain_inv e i \<and> best_usable (tree i) p" if "chain_inv e (ix s)"
      by (rule FindMostWorkChain_inv[OF that F])
    have body: "(case mw of None \<Rightarrow> Some (True, st, s1)
        | Some p \<Rightarrow> if Tip (chainActive (ix s1)) = Some p then Some (True, st, s1)
            else do { h \<leftarrow> GetBlockHash (tree (ix s1)) p;
                      (ok, state, s) \<leftarrow> ActivateBestChainStep w e p (pblock_for e pblock h) st s1;
                      if \<not> ok then Some (False, state, s)
                      else if Tip (chainActive (ix s)) = Some p then FlushStateToDisk w FLUSH_STATE_PERIODIC state s
                      else rec w e pblock state s }) = Some r"
      unfolding s1_def using hyp False F by (simp add: Let_def)
    consider "mw = None" | p where "mw = Some p" "Tip (chainActive (ix s1)) = Some p" | p where "mw = Some p" "Tip (chainActive (ix s1)) \<noteq> Some p"
      by (cases mw) auto
    then show ?thesis
    proof cases
      case 1
      then show ?thesis using body g1 s1 K1 r by auto
    next
      case (2 p)
      then have "r = (True, st, s1)" using body by simp
      then show ?thesis using g1 s1 K1 2 by (auto simp: best_tip_def)
    next
      case (3 p)
      then obtain h ok2 st2 s2 where h: "GetBlockHash (tree (ix s1)) p = Some h"
        and stp: "ActivateBestChainStep w e p (pblock_for e pblock h) st s1 = Some (ok2, st2, s2)"
        and rest: "(if \<not> ok2 then Some (False, st2, s2)
           else if Tip (chainActive (ix s2)) = Some p then FlushStateToDisk w FLUSH_STATE_PERIODIC st2 s2
           else rec w e pblock st2 s2) = Some r"
        using body by (auto split: Option.bind_splits)
      have g2: "grown (tree i) (tree (ix s2))" and sh: "fRequestShutdown s1 \<longrightarrow> fRequestShutdown s2"
        using ActivateBestChainStep_grown[OF stp pblock_is_for[OF h]] s1 by (auto simp: later_def)
      have pr: "progressed e s1 s2" if "chain_inv e (ix s)"
        using ActivateBestChainStep_result[OF stp _ _ pblock_is_for[OF h]] K1[OF that] 3(1) s1 by (auto simp: best_usable_def)
      note g12 = grown_trans[OF g1 g2]
      consider "\<not> ok2" | "ok2" "Tip (chainActive (ix s2)) = Some p" | "ok2" "Tip (chainActive (ix s2)) \<noteq> Some p" by blast
      then show ?thesis
      proof cases
        case 1
        then show ?thesis using rest g12 sh s1 by auto
      next
        case 2
        then have f: "FlushStateToDisk w FLUSH_STATE_PERIODIC st2 s2 = Some (ok, st', s')" using rest r by simp
        note fl = flush[OF f]
        have "chain_inv e (ix s') \<and> best_tip (ix s')" if K: "chain_inv e (ix s)" and c: "consistent e (tree (ix s'))"
        proof -
          have K2: "chain_inv e (ix s2)" using pr[OF K] consistent_before[OF _ c] fl by (simp add: progressed_def)
          then have "usable (tree (ix s2)) p" using index_wf_tip(1)[OF _ 2(2)] by (simp add: chain_inv_def)
          then have "best_tip (ix s2)" using best_usable_grown[OF _ g2] K1[OF K] 3(1) 2(2) by (auto simp: best_tip_def)
          then show ?thesis using FlushStateToDisk_inv(1,3)[OF f K2] by blast
        qed
        then show ?thesis using r grown_trans[OF g12] fl sh s1 by simp
      next
        case 3
        then have "rec w e pblock st2 s2 = Some r" using rest by simp
        from "1.IH"[OF this "1.prems"] have IH: "grown (tree (ix s2)) (tree (ix s'))" "fRequestShutdown s2 \<longrightarrow> fRequestShutdown s'"
          "chain_inv e (ix s2) \<longrightarrow> ok \<longrightarrow> \<not> fRequestShutdown s' \<longrightarrow> consistent e (tree (ix s')) \<longrightarrow> chain_inv e (ix s') \<and> best_tip (ix s')"
          using r by auto
        have "chain_inv e (ix s2)" if "chain_inv e (ix s)" "consistent e (tree (ix s'))"
          using pr[OF that(1)] consistent_before[OF IH(1) that(2)] by (simp add: progressed_def)
        then show ?thesis using r grown_trans[OF g12 IH(1)] IH(2,3) sh s1 by simp
      qed
    qed
  qed
qed

text \<open>C1: when \<^verbatim>\<open>ActivateBestChain\<close> succeeds, no usable block of the tree is better than the tip, which is usable itself: among the blocks whose
  data is there and that have no block below them that is known to be invalid, the active chain ends in the best one. The candidates are right again,
  so the next call can rely on them. No shutdown may be requested, and no block that was verified before is found invalid now.\<close>

theorem ActivateBestChain_best:
  assumes "chain_inv e (ix s)" "ActivateBestChain w e pblock state s = Some (True, state', s')" "\<forall>n. \<not> w_shutdown w n" "\<not> fRequestShutdown s'"
    and "consistent e (tree (ix s'))"
  shows "chain_inv e (ix s') \<and> (\<exists>t. Tip (chainActive (ix s')) = Some t \<and> usable (tree (ix s')) t \<and>
    (\<forall>q. usable (tree (ix s')) q \<longrightarrow> \<not> worse (tree (ix s')) t q))"
  using ActivateBestChain_result[OF assms(2,3)] assms(1,4,5) by (simp add: best_tip_def best_usable_def)

text \<open>The first start of a node: the genesis block is stored, but not connected yet.\<close>

definition first_entry :: CBlockIndex where
  "first_entry = CBlockIndex_SetNull\<lparr>phashBlock := Some (hashGenesisBlock CMainParams), nChainWork := [1, 0, 0, 0, 0, 0, 0, 0], nTx := 1, nChainTx := 1,
     nStatus := BLOCK_VALID_TRANSACTIONS OR BLOCK_HAVE_DATA\<rparr>"

definition first_env :: connect_env where
  "first_env = \<lparr>env_Hash = \<lambda>_. hashGenesisBlock CMainParams, env_crypto = demo_crypto, env_params = CMainParams, env_time = 0, env_tree = Map.empty,
     env_index = Map.empty, fCheckpointsEnabled = True, mapCheckpoints = [], nScriptCheckThreads = 0\<rparr>"

definition first_world :: world where
  "first_world = \<lparr>w_free = \<lambda>_. 10 ^ 9, w_now = \<lambda>_. 1, w_file = \<lambda>_. True, w_batch = \<lambda>_. True, w_large = \<lambda>_. False, w_critical = \<lambda>_. False,
     w_entries = \<lambda>_. 0, w_error = \<lambda>_. [], w_shutdown = \<lambda>_. False, w_valid = \<lambda>_. True, w_point = \<lambda>_. None\<rparr>"

definition first_state :: chain_state where
  "first_state = \<lparr>ix = \<lparr>tree = [0 \<mapsto> first_entry], mapBlockIndex = [(hashGenesisBlock CMainParams, 0)], chainActive = [], setBlockIndexCandidates = [0],
       mapBlocksUnlinked = [], pindexBestInvalid = None, pindexBestHeader = Some 0, nBlockSequenceId = 1, setDirtyBlockIndex = []\<rparr>,
     pcoinsTip = CCoinsViewCache_new, pcoinsdbview = \<lparr>db_coins = Map.empty, db_best = None\<rparr>, versionbitscache = VersionBitsCache_Clear,
     vinfoBlockFile = [], nLastBlockFile = 0, setDirtyFileInfo = [], blk_files = Map.empty, rev_files = Map.empty, db_block_files = Map.empty,
     db_last_block = None, db_block_index = Map.empty, nLastWrite = 0, nLastFlush = 0, nLastSetChain = 0, fRequestShutdown = False, ticks = 0\<rparr>"

lemma first_entry_sel [simp]:
  "pprev first_entry = None" "nHeight first_entry = 0" "nChainWork first_entry = [1, 0, 0, 0, 0, 0, 0, 0]" "pskip first_entry = None"
  "phashBlock first_entry = Some (hashGenesisBlock CMainParams)" "nChainTx first_entry = 1" "nStatus first_entry = BLOCK_VALID_TRANSACTIONS OR BLOCK_HAVE_DATA"
  by (simp_all add: first_entry_def CBlockIndex_SetNull_def)

lemma first_flags: "has_data first_entry" "\<not> failed first_entry" "nStatus first_entry AND BLOCK_FAILED_VALID = 0"
  by (simp_all add: has_data_def failed_def block_status)

lemma first_inv: "chain_inv first_env (ix first_state)"
proof -
  let ?st = "[0 \<mapsto> first_entry] :: block_store"
  have ok: "tree_wf ?st"
    unfolding tree_wf_def tree_ok_def by (auto split: if_split_asm)
  have u: "usable ?st 0" by (rule usable_step[of _ _ first_entry]) (simp_all add: first_flags)
  have l: "linked ?st 0" by (rule linked_step[of _ _ first_entry]) simp_all
  have c: "checked_path first_env ?st 0"
    by (rule checked_path_step[of ?st 0 first_entry]) (simp_all add: checked_def first_env_def)
  have only: "p = 0" if "usable ?st p" for p using usable_entry[OF that] by (auto split: if_split_asm)
  have t: "threshold (ix first_state) 0"
    using u only by (auto simp: threshold_def first_state_def Tip_def CBlockIndexWorkComparator_def CompareTo_def)
  show ?thesis
    unfolding chain_inv_def index_wf_def
    using ok u l c t by (auto simp: first_state_def Tip_def chain_wf_def slots_ok_def best_invalid_ok_def)
qed

lemma first_world_sel [simp]:
  "w_now first_world n = 1" "\<not> w_large first_world n" "\<not> w_critical first_world n" "\<not> w_shutdown first_world n"
  by (simp_all add: first_world_def)

lemma first_flush:
  assumes "m \<noteq> FLUSH_STATE_ALWAYS" "nLastWrite s \<in> {0, 1}" "nLastFlush s \<in> {0, 1}" "nLastSetChain s \<in> {0, 1}"
  shows "FlushStateToDisk first_world m st s = Some (True, st, tick (s\<lparr>nLastWrite := 1, nLastFlush := 1, nLastSetChain := 1\<rparr>))"
proof -
  have t: "(if nLastWrite s = 0 then 1 else nLastWrite s) = 1" "(if nLastFlush s = 0 then 1 else nLastFlush s) = 1"
    "(if nLastSetChain s = 0 then 1 else nLastSetChain s) = 1"
    using assms(2-4) by (simp_all split del: if_split) auto
  show ?thesis
    unfolding FlushStateToDisk_def Let_def first_world_sel t flush_locator_def
    using assms(1) by (simp add: DATABASE_WRITE_INTERVAL_def DATABASE_FLUSH_INTERVAL_def tick_def)
qed

definition first_block :: CBlock where
  "first_block = CBlock_SetNull\<lparr>fChecked := True\<rparr>"

definition first_index :: index_state where
  "first_index = ix first_state"

lemma first_index_sel [simp]:
  "tree first_index = [0 \<mapsto> first_entry]" "chainActive first_index = []" "setBlockIndexCandidates first_index = [0]"
  by (simp_all add: first_index_def first_state_def)

lemma first_connect_block:
  assumes "ix s = first_index" "tip_best s = blob_null 32"
  shows "\<exists>view. ConnectBlock_disk first_world first_env first_block st 0 s = Some (Some view, st, s)"
proof -
  have h: "header_GetHash (env_Hash first_env) first_block = hashGenesisBlock (env_params first_env)" "fChecked first_block"
    by (simp_all add: header_GetHash_def first_env_def first_block_def)
  have c: "CheckBlock H params t first_block st' x y = Inr first_block" for H params t st' x y
    by (simp add: CheckBlock_def h)
  obtain view where v: "cache_GetBestBlock (blob_null 32) CCoinsViewCache_new = (view, blob_null 32)"
    by (simp add: cache_GetBestBlock_def CCoinsViewCache_new_def)
  have "ConnectBlock (first_env\<lparr>env_tree := tree first_index, env_index := f\<rparr>) base (blob_null 32) first_block st 0 caches CCoinsViewCache_new False
      = Inr (SetBestBlock view (hashGenesisBlock CMainParams), [], caches)" for f base caches
    unfolding ConnectBlock_def c v Let_def using h by (simp add: andThen_def need_def GetBlockHash_def)
  then show ?thesis unfolding ConnectBlock_disk_def assms Let_def using h by simp
qed

lemma first_connect:
  assumes "ix s = first_index" "tip_best s = blob_null 32" "nLastWrite s \<in> {0, 1}" "nLastFlush s \<in> {0, 1}" "nLastSetChain s \<in> {0, 1}"
  shows "\<exists>s'. ConnectTip first_world first_env st 0 (Some first_block) s = Some (True, st, s') \<and>
     ix s' = first_index\<lparr>chainActive := [Some 0]\<rparr> \<and> fRequestShutdown s' = fRequestShutdown s \<and>
     nLastWrite s' = 1 \<and> nLastFlush s' = 1 \<and> nLastSetChain s' = 1"
proof -
  obtain view where c: "ConnectBlock_disk first_world first_env first_block st 0 s = Some (Some view, st, s)"
    using first_connect_block[OF assms(1,2)] by blast
  have f: "FlushStateToDisk first_world FLUSH_STATE_IF_NEEDED st (flush_view view s) =
      Some (True, st, tick ((flush_view view s)\<lparr>nLastWrite := 1, nLastFlush := 1, nLastSetChain := 1\<rparr>))"
    by (rule first_flush) (use assms(3-5) in \<open>simp_all add: flush_view_def\<close>)
  have t: "SetTip [0 \<mapsto> first_entry] (Some 0) [] = Some [Some 0]"
    by (simp add: SetTip_def SetTip_loop.simps resize_def)
  show ?thesis
    unfolding ConnectTip_def
    using assms(1) c f t by (simp add: Tip_def UpdateTip_def with_ix_def tick_def flush_view_def)
qed

lemma first_search: "FindMostWorkChain first_index = Some (Some 0, first_index)"
proof -
  have "find_fault [0 \<mapsto> first_entry] [] (Some 0) = Some None"
    by (simp add: find_fault.simps Contains_def chain_at_def first_flags)
  then show ?thesis by (subst FindMostWorkChain.simps) simp
qed

lemma first_step:
  assumes "ix s = first_index" "tip_best s = blob_null 32" "nLastWrite s \<in> {0, 1}" "nLastFlush s \<in> {0, 1}" "nLastSetChain s \<in> {0, 1}"
  shows "\<exists>s'. ActivateBestChainStep first_world first_env 0 (Some first_block) st s = Some (True, st, s') \<and>
     ix s' = first_index\<lparr>chainActive := [Some 0]\<rparr> \<and> fRequestShutdown s' = fRequestShutdown s \<and>
     nLastWrite s' = 1 \<and> nLastFlush s' = 1 \<and> nLastSetChain s' = 1"
proof -
  obtain s1 where s1: "ConnectTip first_world first_env st 0 (Some first_block) s = Some (True, st, s1)"
    "ix s1 = first_index\<lparr>chainActive := [Some 0]\<rparr>" "fRequestShutdown s1 = fRequestShutdown s" "nLastWrite s1 = 1" "nLastFlush s1 = 1" "nLastSetChain s1 = 1"
    using first_connect[OF assms] by blast
  have p: "PruneBlockIndexCandidates (first_index\<lparr>chainActive := [Some 0]\<rparr>) = Some (first_index\<lparr>chainActive := [Some 0]\<rparr>)"
    by (simp add: PruneBlockIndexCandidates_def Tip_def CBlockIndexWorkComparator_def CompareTo_def)
  have l: "connect_list first_world first_env None 0 (Some first_block) low [0] st s = Some (Better_tip, st, s1)" for low
    using s1 p by (simp add: with_ix_def Tip_def more_work_def)
  have f: "FindFork [0 \<mapsto> first_entry] [] (Some 0) = Some None"
    by (simp add: FindFork_def Height_def GetAncestor_def FindFork_loop.simps)
  have a: "GetAncestor [0 \<mapsto> first_entry] 0 0 = Some (Some 0)"
    by (simp add: GetAncestor_def GetAncestor_walk.simps)
  have ps: "blocks_above [0 \<mapsto> first_entry] (-1) (Some 0) = Some [0]"
    by (simp add: blocks_above.simps)
  have r: "connect_runs first_world first_env None 0 (Some first_block) (-1) st s = Some (True, st, s1)"
    by (subst connect_runs.simps) (use assms(1) l a ps in \<open>simp add: Let_def\<close>)
  have d: "disconnect_to first_world first_env None st s = Some (True, st, s)"
    by (subst disconnect_to.simps) (simp add: assms(1) Tip_def)
  have "ActivateBestChainStep first_world first_env 0 (Some first_block) st s = Some (True, st, s1)"
    unfolding ActivateBestChainStep_def using assms(1) f d r by (simp add: Tip_def Let_def)
  then show ?thesis using s1 by blast
qed

lemma first_activate:
  "\<exists>s'. ActivateBestChain first_world first_env (Some first_block) st first_state = Some (True, st, s') \<and>
     ix s' = first_index\<lparr>chainActive := [Some 0]\<rparr> \<and> \<not> fRequestShutdown s'"
proof -
  define s1 where "s1 = tick (first_state\<lparr>ix := first_index\<rparr>)"
  have s1: "ix s1 = first_index" "tip_best s1 = blob_null 32" "nLastWrite s1 \<in> {0, 1}" "nLastFlush s1 \<in> {0, 1}" "nLastSetChain s1 \<in> {0, 1}"
    "\<not> fRequestShutdown s1"
    by (simp_all add: s1_def tick_def tip_best_def first_state_def cache_GetBestBlock_def CCoinsViewCache_new_def db_GetBestBlock_def)
  obtain s2 where s2: "ActivateBestChainStep first_world first_env 0 (Some first_block) st s1 = Some (True, st, s2)"
    "ix s2 = first_index\<lparr>chainActive := [Some 0]\<rparr>" "\<not> fRequestShutdown s2" "nLastWrite s2 = 1" "nLastFlush s2 = 1" "nLastSetChain s2 = 1"
    using first_step[OF s1(1-5)] s1(6) by auto
  have sd: "\<not> ShutdownRequested first_world first_state" by (simp add: ShutdownRequested_def first_state_def)
  have h: "GetBlockHash [0 \<mapsto> first_entry] 0 = Some (hashGenesisBlock CMainParams)" by (simp add: GetBlockHash_def)
  have pb: "pblock_for first_env (Some first_block) (hashGenesisBlock CMainParams) = Some first_block"
    by (simp add: pblock_for_def header_GetHash_def first_env_def)
  have fl: "FlushStateToDisk first_world FLUSH_STATE_PERIODIC st s2 = Some (True, st, tick (s2\<lparr>nLastWrite := 1, nLastFlush := 1, nLastSetChain := 1\<rparr>))"
    by (rule first_flush) (use s2 in simp_all)
  have "ActivateBestChain first_world first_env (Some first_block) st first_state
      = Some (True, st, tick (s2\<lparr>nLastWrite := 1, nLastFlush := 1, nLastSetChain := 1\<rparr>))"
    by (subst ActivateBestChain.simps, subst activate_pass_then)
       (simp add: sd first_index_def[symmetric] first_search s1_def[symmetric] s1(1) h pb s2(1,2) fl Tip_def)
  then show ?thesis using s2 by (simp add: tick_def)
qed

theorem ActivateBestChain_best_witness:
  "\<exists>s'. ActivateBestChain first_world first_env (Some first_block) CValidationState_new first_state = Some (True, CValidationState_new, s') \<and>
     chain_inv first_env (ix s') \<and> (\<exists>t. Tip (chainActive (ix s')) = Some t \<and> usable (tree (ix s')) t \<and>
     (\<forall>q. usable (tree (ix s')) q \<longrightarrow> \<not> worse (tree (ix s')) t q))"
proof -
  obtain s' where s': "ActivateBestChain first_world first_env (Some first_block) CValidationState_new first_state = Some (True, CValidationState_new, s')"
    "ix s' = first_index\<lparr>chainActive := [Some 0]\<rparr>" "\<not> fRequestShutdown s'"
    using first_activate by blast
  have c: "consistent first_env (tree (ix s'))"
    using first_flags(3) by (auto simp: consistent_def s'(2) split: if_split_asm)
  show ?thesis using ActivateBestChain_best[OF first_inv s'(1) _ s'(3) c] s'(1) by simp
qed

section \<open>A block that is damaged on the disk\<close>

text \<open>The block in the file has the right header, but its transactions are not those that the header commits to.\<close>

definition damaged :: "connect_env \<Rightarrow> CBlockIndex \<Rightarrow> chain_state \<Rightarrow> bool" where
  "damaged e b s \<longleftrightarrow>
     (\<exists>block root mutated. blk_files s (GetBlockPos b) = Some block \<and> \<not> CDiskBlockPos_IsNull (GetBlockPos b) \<and>
        phashBlock b = Some (header_GetHash (env_Hash e) block) \<and> CheckBlockHeader (env_Hash e) (env_params e) (env_time e) block CValidationState_new True = Inr () \<and>
        BlockMerkleRoot (env_Hash e) (vtx block) = Some (root, mutated) \<and> (root \<noteq> hashMerkleRoot block \<or> mutated))"

lemma damaged_connect:
  assumes d: "damaged e b s" and b: "tree (ix s) p = Some b" "pprev b = Tip (chainActive (ix s))" and f: "w_file w (ticks s)"
  shows "\<exists>st'. ConnectTip w e CValidationState_new p None s = Some (False, st', tick s) \<and> state_IsInvalid st' \<and> corruptionPossible st'"
proof -
  let ?n = CValidationState_new
  obtain block root mutated where block: "blk_files s (GetBlockPos b) = Some block" "\<not> CDiskBlockPos_IsNull (GetBlockPos b)"
    "phashBlock b = Some (header_GetHash (env_Hash e) block)" "CheckBlockHeader (env_Hash e) (env_params e) (env_time e) block ?n True = Inr ()"
    "BlockMerkleRoot (env_Hash e) (vtx block) = Some (root, mutated)" "root \<noteq> hashMerkleRoot block \<or> mutated"
    using d unfolding damaged_def by blast
  let ?block = "block\<lparr>fChecked := False\<rparr>"
  have pow: "CheckProofOfWork (header_GetHash (env_Hash e) block) (nBits block) (env_params e)"
    using block(4) by (simp add: CheckBlockHeader_def split: if_split_asm)
  have read: "ReadBlockFromDisk w e p s = Some (Some ?block, tick s)"
    unfolding ReadBlockFromDisk_def using b(1) block(1-3) pow f by (simp add: Let_def)
  obtain st' where m: "check_merkle (env_Hash e) ?block ?n = Inl (Rejected st')" "state_IsInvalid st'" "corruptionPossible st'"
    using block(5,6) by (cases "root = hashMerkleRoot block")
      (auto simp: check_merkle_def need_def state_DoS_def state_IsInvalid_def CValidationState_new_def Let_def eq_commute)
  have "CheckBlockHeader (env_Hash e) (env_params e) (env_time e) ?block ?n True = Inr ()"
    using block(4) unfolding CheckBlockHeader_def header_GetHash_def Serialize_CBlockHeader_def by (simp split: if_split_asm)
  then have "CheckBlock (env_Hash e) (env_params e) (env_time e) ?block ?n True True = Inl (Rejected st')"
    by (simp add: CheckBlock_def m(1))
  then have "ConnectBlock_disk w e ?block ?n p (tick s) = Some (None, st', tick s)"
    by (simp add: ConnectBlock_disk_def ConnectBlock_def Let_def)
  moreover have "with_ix (InvalidBlockFound p st') (tick s) = Some (tick s)"
    by (simp add: with_ix_def InvalidBlockFound_def m(3))
  ultimately have "ConnectTip w e ?n p None s = Some (False, st', tick s)"
    unfolding ConnectTip_def using b read m(2) by simp
  then show ?thesis using m by blast
qed

lemma tip_height:
  assumes "chain_wf st v" "Tip v = Some t" "st t = Some b"
  shows "nHeight b = Height v" "v \<noteq> []" "Contains st v t = Some True"
proof -
  show n: "v \<noteq> []" using assms(2) by (auto simp: Tip_def)
  then have s: "slots_ok st v (length v)" "length v - 1 < length v" "v ! (length v - 1) = Some t" using assms by (auto simp: chain_wf_def Tip_def)
  show h: "nHeight b = Height v" using slots_okD[OF s] assms(3) n by (auto simp: Height_def Suc_le_eq)
  show "Contains st v t = Some True" using s(3) n assms(3) h by (simp add: Contains_def chain_at_def Height_def Suc_le_eq nat_diff_distrib')
qed

lemma damaged_step:
  assumes wf: "tree_ok (tree (ix s))" "chain_wf (tree (ix s)) (chainActive (ix s))"
    and b: "tree (ix s) p = Some b" "pprev b = Some t" "Tip (chainActive (ix s)) = Some t" and d: "damaged e b s" and f: "w_file w (ticks s)"
  shows "ActivateBestChainStep w e p None CValidationState_new s = Some (True, CValidationState_new, tick s)"
proof -
  let ?st = "tree (ix s)" and ?v = "chainActive (ix s)" and ?n = CValidationState_new
  obtain bt where bt: "?st t = Some bt" "nHeight b = nHeight bt + 1" using tree_okD(3)[OF wf(1) b(1,2)] by auto
  note tip = tip_height[OF wf(2) b(3) bt(1)]
  have nn: "0 \<le> nHeight bt" using tree_okD(1)[OF wf(1) bt(1)] .
  have a: "GetAncestor ?st p (nHeight bt) = Some (Some t)" "GetAncestor ?st p (nHeight b) = Some (Some p)"
    using GetAncestor_anc[OF wf(1) b(1), of "nHeight bt"] GetAncestor_anc[OF wf(1) b(1), of "nHeight b"] nn bt(2) b(1,2) by simp_all
  have fork: "FindFork ?st ?v (Some p) = Some (Some t)"
    using b(1) bt tip a by (simp add: FindFork_def FindFork_loop.simps)
  have dis: "disconnect_to w e (Some t) ?n s = Some (True, ?n, s)"
    by (subst disconnect_to.simps) (simp add: b(3))
  have ps: "blocks_above ?st (nHeight bt) (Some p) = Some [p]"
    using b bt by (simp add: blocks_above.simps[of _ _ "Some p"] blocks_above.simps[of _ _ "Some t"])
  obtain st' where c: "ConnectTip w e ?n p None s = Some (False, st', tick s)" "state_IsInvalid st'" "corruptionPossible st'"
    using damaged_connect[OF d b(1) _ f] b(2,3) by auto
  have list: "connect_list w e (Some t) p None low [p] ?n s = Some (Invalid_found, ?n, tick s)" for low
    using c by simp
  have "connect_runs w e (Some t) p None (nHeight bt) ?n s = Some (True, ?n, tick s)"
    using b(1) bt(2) a(2) ps list by (subst connect_runs.simps) (simp add: Let_def)
  then show ?thesis unfolding ActivateBestChainStep_def using fork dis b(3) bt(1) by (simp add: Let_def)
qed

lemma damaged_search:
  assumes wf: "index_wf i" and c: "setBlockIndexCandidates i \<noteq> []" "usable (tree i) (last (setBlockIndexCandidates i))"
  shows "FindMostWorkChain i = Some (Some (last (setBlockIndexCandidates i)), i)"
proof -
  let ?p = "last (setBlockIndexCandidates i)"
  have tr: "tree_ok (tree i)" "chain_wf (tree i) (chainActive i)" "\<forall>t. Tip (chainActive i) = Some t \<longrightarrow> usable (tree i) t" "linked (tree i) ?p"
    using wf c(1) by (auto simp: index_wf_def tree_wf_def)
  have "find_fault (tree i) (chainActive i) (Some ?p) = Some None"
    using find_fault_result[OF tr] c(2) unfolding usable_def by (metis option.inject)
  then show ?thesis using c(1) by (subst FindMostWorkChain.simps) simp
qed

lemma damaged_pass:
  assumes wf: "index_wf (ix s)" and c: "setBlockIndexCandidates (ix s) \<noteq> []" "p = last (setBlockIndexCandidates (ix s))" "usable (tree (ix s)) p"
    and b: "tree (ix s) p = Some b" "pprev b = Some t" "Tip (chainActive (ix s)) = Some t" and d: "damaged e b s"
    and w: "\<forall>n. w_file w n" "\<forall>n. \<not> w_shutdown w n" "\<not> fRequestShutdown s"
  shows "activate_pass w e None CValidationState_new s = Some (Inr (CValidationState_new, s\<lparr>ticks := ticks s + 2\<rparr>))"
proof -
  let ?n = CValidationState_new
  have sd: "\<not> ShutdownRequested w s" using w(2,3) by (simp add: ShutdownRequested_def)
  have ixs: "ix (tick s) = ix s" "s\<lparr>ix := ix s\<rparr> = s" "tick (tick s) = s\<lparr>ticks := ticks s + 2\<rparr>" by (simp_all add: tick_def)
  have tr: "tree_ok (tree (ix (tick s)))" "chain_wf (tree (ix (tick s))) (chainActive (ix (tick s)))"
    using wf by (simp_all add: index_wf_def tree_wf_def ixs)
  have dd: "damaged e b (tick s)" using d by (simp add: damaged_def tick_def)
  have stp: "ActivateBestChainStep w e p None ?n (tick s) = Some (True, ?n, s\<lparr>ticks := ticks s + 2\<rparr>)"
    unfolding ixs(3)[symmetric] by (rule damaged_step[OF tr _ b(2) _ dd]) (use b w(1) ixs in simp_all)
  obtain h where h: "GetBlockHash (tree (ix s)) p = Some h" using d b(1) by (auto simp: damaged_def GetBlockHash_def)
  obtain bt where bt: "tree (ix s) t = Some bt" "nHeight b = nHeight bt + 1" using tree_okD(3)[of "tree (ix s)", OF _ b(1,2)] wf by (auto simp: index_wf_def tree_wf_def)
  have ne: "t \<noteq> p" using bt b(1) by auto
  have "FindMostWorkChain (ix s) = Some (Some p, ix s)" using damaged_search[OF wf c(1)] c(2,3) by simp
  then show ?thesis using sd stp h ne b(3) by (simp add: activate_pass_def ixs(1,2) pblock_for_def)
qed

lemma damaged_passes:
  assumes "index_wf (ix s)" "setBlockIndexCandidates (ix s) \<noteq> []" "p = last (setBlockIndexCandidates (ix s))" "usable (tree (ix s)) p"
    and "tree (ix s) p = Some b" "pprev b = Some t" "Tip (chainActive (ix s)) = Some t" "damaged e b s"
    and "\<forall>n. w_file w n" "\<forall>n. \<not> w_shutdown w n" "\<not> fRequestShutdown s"
  shows "activate_passes n w e None CValidationState_new s = Some (Inr (CValidationState_new, s\<lparr>ticks := ticks s + 2 * n\<rparr>))"
  using assms
proof (induction n arbitrary: s)
  case 0
  then show ?case by simp
next
  case (Suc n)
  let ?s = "s\<lparr>ticks := ticks s + 2\<rparr>"
  have "damaged e b ?s" using Suc.prems(8) by (simp add: damaged_def)
  then have "activate_passes n w e None CValidationState_new ?s = Some (Inr (CValidationState_new, ?s\<lparr>ticks := ticks ?s + 2 * n\<rparr>))"
    by (rule Suc.IH[rotated 7]) (use Suc.prems in simp_all)
  then show ?case using damaged_pass[OF Suc.prems] by simp
qed

text \<open>C3: a block that was damaged in its file makes \<^verbatim>\<open>ActivateBestChain\<close> run forever. Let the best candidate be a usable block on top of the tip
  whose data on the disk has the right header, but transactions that do not match the merkle root. \<^verbatim>\<open>ConnectBlock\<close> rejects it as possibly corrupted, so
  it is not marked as invalid and stays the best candidate; \<^verbatim>\<open>ActivateBestChainStep\<close> resets the state and reports success, and the loop tries the same
  block again. However many passes of the loop are made, each of them ends without a failed assertion or an error and goes on with the next one, and nothing
  has changed after them except for the questions that were asked to the machine, two in each pass. So no number of passes makes the function return.\<close>

theorem damaged_block_endless:
  assumes "index_wf (ix s)" "setBlockIndexCandidates (ix s) \<noteq> []" "p = last (setBlockIndexCandidates (ix s))" "usable (tree (ix s)) p"
    and "tree (ix s) p = Some b" "pprev b = Some t" "Tip (chainActive (ix s)) = Some t" "damaged e b s"
    and "\<forall>n. w_file w n" "\<forall>n. \<not> w_shutdown w n" "\<not> fRequestShutdown s"
  shows "(\<forall>n. activate_passes n w e None CValidationState_new s = Some (Inr (CValidationState_new, s\<lparr>ticks := ticks s + 2 * n\<rparr>))) \<and>
    ActivateBestChain w e None CValidationState_new s = None"
proof -
  note passes = damaged_passes[OF assms]
  have "ActivateBestChain w e None CValidationState_new s \<noteq> Some r" for r by (simp add: ActivateBestChain_passes passes)
  then have "ActivateBestChain w e None CValidationState_new s = None" by (cases "ActivateBestChain w e None CValidationState_new s") blast+
  then show ?thesis using passes by blast
qed

text \<open>The block on the disk has lost its transactions.\<close>

definition damaged_entry :: CBlockIndex where
  "damaged_entry = (fork_entry (Some 0) 1 2 BLOCK_HAVE_DATA)\<lparr>phashBlock := Some (1 # replicate 31 0), nDataPos := 8\<rparr>"

definition damaged_env :: connect_env where
  "damaged_env = first_env\<lparr>env_Hash := demo_block_hash\<rparr>"

definition damaged_state :: chain_state where
  "damaged_state = first_state\<lparr>ix := (ix first_state)\<lparr>tree := [0 \<mapsto> first_entry, Suc 0 \<mapsto> damaged_entry], chainActive := [Some 0],
     setBlockIndexCandidates := [Suc 0]\<rparr>, blk_files := [\<lparr>pos_nFile = 0, pos_nPos = 8\<rparr> \<mapsto> demo_block []]\<rparr>"

lemma damaged_entry_sel [simp]:
  "pprev damaged_entry = Some 0" "nHeight damaged_entry = 1" "nChainWork damaged_entry = [2, 0, 0, 0, 0, 0, 0, 0]" "pskip damaged_entry = None"
  "phashBlock damaged_entry = Some (1 # replicate 31 0)" "nChainTx damaged_entry = 1" "nStatus damaged_entry = BLOCK_HAVE_DATA"
  "GetBlockPos damaged_entry = \<lparr>pos_nFile = 0, pos_nPos = 8\<rparr>"
  by (simp_all add: damaged_entry_def GetBlockPos_def block_status) (simp_all add: fork_entry_def CBlockIndex_SetNull_def)

lemma damaged_state_sel [simp]:
  "tree (ix damaged_state) = [0 \<mapsto> first_entry, Suc 0 \<mapsto> damaged_entry]" "chainActive (ix damaged_state) = [Some 0]"
  "setBlockIndexCandidates (ix damaged_state) = [Suc 0]" "blk_files damaged_state = [\<lparr>pos_nFile = 0, pos_nPos = 8\<rparr> \<mapsto> demo_block []]"
  "\<not> fRequestShutdown damaged_state"
  by (simp_all add: damaged_state_def first_state_def)

lemma damaged_witness_facts:
  "index_wf (ix damaged_state)" "usable (tree (ix damaged_state)) (Suc 0)" "damaged damaged_env damaged_entry damaged_state"
proof -
  let ?st = "[0 \<mapsto> first_entry, Suc 0 \<mapsto> damaged_entry]"
  have w: "work ?st 0 = 1" "work ?st (Suc 0) = 2" by (simp_all add: work_def)
  have ok: "tree_wf ?st"
    unfolding tree_wf_def tree_ok_def using w by (auto split: if_split_asm)
  have u0: "usable ?st 0" by (rule usable_step[of _ _ first_entry]) (simp_all add: first_flags)
  have u1: "usable ?st (Suc 0)" by (rule usable_step[of _ _ damaged_entry]) (simp_all add: u0[simplified] has_data_def failed_def block_status)
  have l0: "linked ?st 0" by (rule linked_step[of _ _ first_entry]) simp_all
  have l1: "linked ?st (Suc 0)" by (rule linked_step[of _ _ damaged_entry]) (simp_all add: l0[simplified])
  show "index_wf (ix damaged_state)"
    using ok u0 l1 by (simp add: index_wf_def chain_wf_def slots_ok_def Tip_def)
  show "usable (tree (ix damaged_state)) (Suc 0)" using u1 by simp
  have "BlockMerkleRoot demo_block_hash [] = Some (blob_null 32, False)"
    by (simp add: BlockMerkleRoot_def ComputeMerkleRoot_def MerkleComputation_def)
  moreover have "blob_null 32 \<noteq> 1 # replicate 31 0" by (simp add: blob_null_def numeral_eq_Suc)
  ultimately show "damaged damaged_env damaged_entry damaged_state"
    using demo_header[of "[]"] by (simp add: damaged_def damaged_env_def first_env_def header_GetHash_def demo_block_hash_def CDiskBlockPos_IsNull_def)
      blast
qed

theorem damaged_block_endless_witness:
  "activate_passes 1000 first_world damaged_env None CValidationState_new damaged_state
      = Some (Inr (CValidationState_new, damaged_state\<lparr>ticks := ticks damaged_state + 2000\<rparr>)) \<and>
   ActivateBestChain first_world damaged_env None CValidationState_new damaged_state = None"
proof -
  have "(\<forall>n. activate_passes n first_world damaged_env None CValidationState_new damaged_state
      = Some (Inr (CValidationState_new, damaged_state\<lparr>ticks := ticks damaged_state + 2 * n\<rparr>))) \<and>
    ActivateBestChain first_world damaged_env None CValidationState_new damaged_state = None"
    by (rule damaged_block_endless[of _ "Suc 0" damaged_entry 0])
       (use damaged_witness_facts in \<open>simp_all add: Tip_def first_world_def\<close>)
  moreover have "2 * 1000 = (2000 :: nat)" by simp
  ultimately show ?thesis by metis
qed

end
