(* ===== verification/FlushState.thy ===== *)
theory FlushState
  imports Activate
begin

text \<open>
  What \<^verbatim>\<open>FlushStateToDisk\<close> leaves on the disk and in the cache, when a batch fails and when none does.
\<close>

section \<open>The writes of a call\<close>

definition enough_disk :: "world \<Rightarrow> bool" where
  "enough_disk w \<longleftrightarrow> (\<forall>n. nMinDiskSpace + 512 * w_entries w n \<le> w_free w n)"

lemma enough_disk_check: "enough_disk w \<Longrightarrow> CheckDiskSpace w 0 s = (True, tick s)" "enough_disk w \<Longrightarrow> CheckDiskSpace w (128 * 2 * 2 * w_entries w (ticks s)) s = (True, tick s)"
  by (auto simp: enough_disk_def CheckDiskSpace_def not_less intro: order_trans[OF le_add1])

lemma write_block_index_coins:
  "write_block_index w s = Some (ok, s') \<Longrightarrow>
     (ok \<longleftrightarrow> w_batch w (ticks s)) \<and> ticks s' = ticks s + 1 \<and> pcoinsTip s' = pcoinsTip s \<and> pcoinsdbview s' = pcoinsdbview s \<and> fRequestShutdown s' = fRequestShutdown s"
  by (auto simp: write_block_index_def tick_def Let_def split: if_split_asm Option.bind_splits)

lemma flush_locator_coins:
  "flush_locator m f n st s = Some (ok, st', s') \<Longrightarrow>
     ok \<and> ticks s' = ticks s \<and> pcoinsTip s' = pcoinsTip s \<and> pcoinsdbview s' = pcoinsdbview s \<and> fRequestShutdown s' = fRequestShutdown s"
  by (auto simp: flush_locator_def split: if_split_asm Option.bind_splits)

definition coins_flushed :: "world \<Rightarrow> bool \<Rightarrow> chain_state \<Rightarrow> chain_state \<Rightarrow> bool" where
  "coins_flushed w ok s s' \<longleftrightarrow>
     pcoinsTip s' = (pcoinsTip s)\<lparr>cacheCoins := Map.empty\<rparr> \<and> (fRequestShutdown s' \<longleftrightarrow> fRequestShutdown s \<or> \<not> ok) \<and>
     pcoinsdbview s' = (if ok then db_BatchWrite (w_valid w) (pcoinsdbview s) (cacheCoins (pcoinsTip s)) (hashBlock (pcoinsTip s)) else pcoinsdbview s)"

lemma flush_coins_coins:
  "flush_coins w s = (ok, s') \<Longrightarrow> (ok \<longleftrightarrow> w_batch w (ticks s)) \<and> ticks s' = ticks s + 1 \<and> fRequestShutdown s' = fRequestShutdown s \<and>
     pcoinsTip s' = (pcoinsTip s)\<lparr>cacheCoins := Map.empty\<rparr> \<and>
     pcoinsdbview s' = (if ok then db_BatchWrite (w_valid w) (pcoinsdbview s) (cacheCoins (pcoinsTip s)) (hashBlock (pcoinsTip s)) else pcoinsdbview s)"
  by (auto simp: flush_coins_def Flush_def tick_def split: if_split_asm prod.splits)

lemma flush_chainstate_coins:
  assumes f: "flush_chainstate w m n st s = Some (ok, st', s')" and w: "enough_disk w"
  shows "ticks s' = ticks s + 2 \<and> (ok \<longleftrightarrow> w_batch w (ticks s + 1)) \<and> coins_flushed w ok s s'"
proof -
  obtain ok1 s1 where c: "flush_coins w (tick s) = (ok1, s1)" by fastforce
  have rest: "(if \<not> ok1 then AbortNode st (''System error while flushing: '' @ w_error w (ticks s1)) s1 else flush_locator m True n st (s1\<lparr>nLastFlush := n\<rparr>)) = Some (ok, st', s')"
    using f unfolding flush_chainstate_def enough_disk_check(2)[OF w] prod.case c by (simp only: not_True_eq_False if_False)
  note c1 = flush_coins_coins[OF c]
  show ?thesis
  proof (cases ok1)
    case True
    then show ?thesis using rest c1 flush_locator_coins[of m True n st "s1\<lparr>nLastFlush := n\<rparr>" ok st' s'] by (simp add: coins_flushed_def tick_def)
  next
    case False
    then have "ok = False" "s' = s1\<lparr>fRequestShutdown := True\<rparr>" using rest by (auto simp: AbortNode_def)
    then show ?thesis using False c1 by (simp add: coins_flushed_def tick_def)
  qed
qed

text \<open>What a call with \<open>FLUSH_STATE_ALWAYS\<close> does with the unspent outputs, by whether the second batch is written.\<close>

lemma FlushStateToDisk_coins:
  assumes f: "FlushStateToDisk w FLUSH_STATE_ALWAYS st s = Some (ok, st', s')" and w: "enough_disk w" "w_batch w (ticks s + 2)"
  shows "ticks s' = ticks s + 5 \<and> (ok \<longleftrightarrow> w_batch w (ticks s + 4)) \<and> coins_flushed w ok s s'"
proof -
  let ?n = "w_now w (ticks s)"
  obtain a b c where fw: "flush_write w FLUSH_STATE_ALWAYS True ?n st (tick (s\<lparr>nLastWrite := a, nLastFlush := b, nLastSetChain := c\<rparr>)) = Some (ok, st', s')"
    using f by (simp add: FlushStateToDisk_def Let_def)
  define s1 where "s1 = tick (tick (s\<lparr>nLastWrite := a, nLastFlush := b, nLastSetChain := c\<rparr>))"
  have s1: "ticks s1 = ticks s + 2" "pcoinsTip s1 = pcoinsTip s" "pcoinsdbview s1 = pcoinsdbview s" "fRequestShutdown s1 = fRequestShutdown s"
    by (simp_all add: s1_def tick_def)
  obtain ok2 s2 where i: "write_block_index w s1 = Some (ok2, s2)"
    and rest: "(if \<not> ok2 then AbortNode st (''System error while flushing: '' @ w_error w (ticks s2)) s2
        else flush_chainstate w FLUSH_STATE_ALWAYS ?n st (s2\<lparr>nLastWrite := ?n\<rparr>)) = Some (ok, st', s')"
    using fw unfolding flush_write_def if_True by (auto simp: enough_disk_check(1)[OF w(1)] s1_def split: Option.bind_splits)
  note i1 = write_block_index_coins[OF i]
  then have "flush_chainstate w FLUSH_STATE_ALWAYS ?n st (s2\<lparr>nLastWrite := ?n\<rparr>) = Some (ok, st', s')" using rest w(2) s1 by simp
  from flush_chainstate_coins[OF this w(1)] show ?thesis using i1 s1 by (simp add: coins_flushed_def numeral_eq_Suc)
qed

text \<open>C9: when the batch of the unspent outputs cannot be written, the call fails and asks for a shutdown, but the cache is empty already: 
  \<^verbatim>\<open>CCoinsViewDB::BatchWrite\<close> erases the entries before it writes. The call that \<^verbatim>\<open>Shutdown\<close> then makes, if it can write, succeeds and
  records the new best block over the old unspent outputs: after a restart the database claims a block whose changes are lost.\<close>

theorem failed_flush_loses_coins:
  assumes "FlushStateToDisk w FLUSH_STATE_ALWAYS state s = Some (ok, state', s')" "FlushStateToDisk w FLUSH_STATE_ALWAYS state2 s' = Some (ok2, state2', s2)"
    and "enough_disk w" "\<forall>n. w_batch w n \<longleftrightarrow> n \<noteq> ticks s + 4" "\<not> blob_IsNull (hashBlock (pcoinsTip s))"
  shows "\<not> ok \<and> fRequestShutdown s' \<and> ok2 \<and> db_coins (pcoinsdbview s2) = db_coins (pcoinsdbview s) \<and>
    db_GetBestBlock (pcoinsdbview s2) = hashBlock (pcoinsTip s) \<and> cacheCoins (pcoinsTip s2) = Map.empty"
proof -
  have b: "w_batch w (ticks s + 2)" "\<not> w_batch w (ticks s + 4)" using assms(4) by simp_all
  have r: "ticks s' = ticks s + 5" "\<not> ok" "coins_flushed w ok s s'" using FlushStateToDisk_coins[OF assms(1,3) b(1)] b(2) by blast+
  have "w_batch w (ticks s' + 2)" "w_batch w (ticks s' + 4)" using assms(4) r(1) by simp_all
  then have "ok2" "coins_flushed w ok2 s' s2" using FlushStateToDisk_coins[OF assms(2,3)] by blast+
  then show ?thesis using r(2,3) assms(5) by (auto simp: coins_flushed_def db_BatchWrite_def db_GetBestBlock_def)
qed

text \<open>The cache spends the output of the database; the second batch of the first call fails.\<close>

definition lost_world :: world where
  "lost_world = first_world\<lparr>w_batch := \<lambda>n. n \<noteq> 4\<rparr>"

definition lost_state :: chain_state where
  "lost_state = first_state\<lparr>pcoinsTip := demo_spent, pcoinsdbview := demo_db\<rparr>"

definition nothing_dirty :: "chain_state \<Rightarrow> bool" where
  "nothing_dirty s \<longleftrightarrow> setDirtyBlockIndex (ix s) = [] \<and> setDirtyFileInfo s = [] \<and> chainActive (ix s) = []"

lemma lost_locator: "nothing_dirty s \<Longrightarrow> \<exists>s'. flush_locator m f n st s = Some (True, st, s') \<and> nothing_dirty s'"
  by (auto simp: flush_locator_def nothing_dirty_def GetLocator_def GetLocator_loop.simps Tip_def)

lemma lost_chainstate:
  assumes "nothing_dirty s" "enough_disk w"
  shows "\<exists>ok st' s'. flush_chainstate w m n st s = Some (ok, st', s') \<and> nothing_dirty s'"
proof -
  obtain ok s1 where c: "flush_coins w (tick s) = (ok, s1)" by fastforce
  have "nothing_dirty s1" using c assms(1) by (auto simp: flush_coins_def tick_def nothing_dirty_def split: if_split_asm prod.splits)
  then have "nothing_dirty (s1\<lparr>nLastFlush := n\<rparr>)" "nothing_dirty (s1\<lparr>fRequestShutdown := True\<rparr>)" by (simp_all add: nothing_dirty_def)
  then show ?thesis
    unfolding flush_chainstate_def enough_disk_check(2)[OF assms(2)] prod.case c AbortNode_def
    using lost_locator[of "s1\<lparr>nLastFlush := n\<rparr>" m True n st] by (cases ok) (simp_all, blast+)
qed

lemma lost_flush:
  assumes "nothing_dirty s" "enough_disk w" "w_batch w (ticks s + 2)"
  shows "\<exists>ok st' s'. FlushStateToDisk w FLUSH_STATE_ALWAYS st s = Some (ok, st', s') \<and> nothing_dirty s'"
proof -
  let ?n = "w_now w (ticks s)"
  obtain a b c where f: "FlushStateToDisk w FLUSH_STATE_ALWAYS st s =
      flush_write w FLUSH_STATE_ALWAYS True ?n st (tick (s\<lparr>nLastWrite := a, nLastFlush := b, nLastSetChain := c\<rparr>))"
    by (simp add: FlushStateToDisk_def Let_def)
  define s1 where "s1 = tick (tick (s\<lparr>nLastWrite := a, nLastFlush := b, nLastSetChain := c\<rparr>))"
  have s1: "nothing_dirty s1" "w_batch w (ticks s1)" using assms(1,3) by (simp_all add: s1_def tick_def nothing_dirty_def)
  then obtain s2 where i: "write_block_index w s1 = Some (True, s2)" "nothing_dirty s2"
    by (auto simp: write_block_index_def nothing_dirty_def tick_def)
  have "nothing_dirty (s2\<lparr>nLastWrite := ?n\<rparr>)" using i(2) by (simp add: nothing_dirty_def)
  from lost_chainstate[OF this assms(2)] show ?thesis
    unfolding f flush_write_def if_True enough_disk_check(1)[OF assms(2)] prod.case by (simp add: s1_def[symmetric] i(1))
qed

theorem failed_flush_loses_coins_witness:
  "\<exists>state' s' state2' s2. FlushStateToDisk lost_world FLUSH_STATE_ALWAYS CValidationState_new lost_state = Some (False, state', s') \<and>
     FlushStateToDisk lost_world FLUSH_STATE_ALWAYS CValidationState_new s' = Some (True, state2', s2) \<and>
     db_GetCoins example_point (pcoinsdbview s2) [1] = Some demo_coin \<and> db_GetBestBlock (pcoinsdbview s2) = [2]"
proof -
  have w: "enough_disk lost_world" "w_batch lost_world n \<longleftrightarrow> n \<noteq> 4" for n
    by (simp_all add: enough_disk_def lost_world_def first_world_def nMinDiskSpace_def)
  have t: "ticks lost_state = 0" "nothing_dirty lost_state" "pcoinsTip lost_state = demo_spent" "pcoinsdbview lost_state = demo_db"
    by (simp_all add: lost_state_def first_state_def nothing_dirty_def)
  obtain ok st1 s1 where f1: "FlushStateToDisk lost_world FLUSH_STATE_ALWAYS CValidationState_new lost_state = Some (ok, st1, s1)" "nothing_dirty s1"
    using lost_flush[OF t(2) w(1), of CValidationState_new] by (auto simp: t(1) w(2))
  have "ticks s1 = 5" using FlushStateToDisk_coins[OF f1(1) w(1)] by (simp add: t(1) w(2))
  then obtain ok2 st2 s2 where f2: "FlushStateToDisk lost_world FLUSH_STATE_ALWAYS CValidationState_new s1 = Some (ok2, st2, s2)"
    using lost_flush[OF f1(2) w(1), of CValidationState_new] by (auto simp: w(2))
  have "\<not> ok \<and> ok2 \<and> db_coins (pcoinsdbview s2) = db_coins demo_db \<and> db_GetBestBlock (pcoinsdbview s2) = hashBlock demo_spent"
    using failed_flush_loses_coins[OF f1(1) f2 w(1)] by (simp add: t w(2) demo_spent_def blob_IsNull_def)
  then show ?thesis using f1(1) f2 demo_record(3) by (simp add: demo_spent_def db_GetCoins_def)
qed

end
