(* ===== verification/Spec2Isabelle.thy ===== *)
theory Spec2Isabelle
  imports Supply Standard PartialMerkle FlushState
begin

text \<open>
  A verification library for the consensus code of LONG Network Core, a node of a Bitcoin-like currency (the C++ under \<^verbatim>\<open>src/src\<close>).

  \<^bold>\<open>The program.\<close> A node keeps a tree of block headers (\<^verbatim>\<open>chain.h\<close>, \<^verbatim>\<open>chain.cpp\<close>) and the set of unspent outputs of the best chain
  (\<^verbatim>\<open>coins.h\<close>, \<^verbatim>\<open>coins.cpp\<close>, over the database of \<^verbatim>\<open>txdb.cpp\<close>). A block that arrives is checked by itself (\<^verbatim>\<open>CheckBlock\<close>: proof of
  work, merkle root, transactions), then against the headers below it (\<^verbatim>\<open>ContextualCheckBlockHeader\<close>, \<^verbatim>\<open>ContextualCheckBlock\<close>:
  difficulty, median time, lock times, versions), then against the unspent outputs when it joins the best chain (\<^verbatim>\<open>ConnectBlock\<close>:
  inputs exist and carry enough value, scripts accept, the coinbase claims no more than fees and subsidy). The scripts of a block
  run on several threads through \<^verbatim>\<open>CCheckQueue\<close>. \<^verbatim>\<open>DisconnectBlock\<close> undoes a block with the undo data written when it was connected.

  \<^bold>\<open>Theories\<close>, from the bottom up; each models one part of the source and holds its lemmas.

    \<^item> \<open>Prelude\<close>: machine words, rule collections, the error sum \<open>andThen\<close>/\<open>foldE\<close> in which every early return is a value, little-endian
      accessors of \<^verbatim>\<open>crypto/common.h\<close>. \<open>Uint256\<close>: blobs of \<^verbatim>\<open>uint256.h\<close> and their hexadecimal form. \<open>Params\<close>: \<^verbatim>\<open>consensus/params.h\<close>,
      \<^verbatim>\<open>consensus/consensus.h\<close> and the three networks of \<^verbatim>\<open>chainparams.cpp\<close>. \<open>Amount\<close>: fees (\<^verbatim>\<open>amount.cpp\<close>) and \<^verbatim>\<open>GetBlockSubsidy\<close>.
    \<^item> \<open>ArithUint256\<close>, \<open>CompactTarget\<close>: \<^verbatim>\<open>base_uint\<close> on its eight 32-bit limbs, refined to arithmetic modulo \<open>2 ^ 256\<close> through the locale
      \<open>big_uint\<close>; division; \<^verbatim>\<open>SetCompact\<close> and \<^verbatim>\<open>GetCompact\<close>.
    \<^item> \<open>Chain\<close>: \<^verbatim>\<open>CBlockIndex\<close> and \<^verbatim>\<open>CChain\<close>. Pointers are keys of a store, an invariant says when the store is a tree, and the walks along
      the skip list, the locator and the fork search are compared with walks along \<^verbatim>\<open>pprev\<close>. \<open>Pow\<close>: \<^verbatim>\<open>pow.cpp\<close>. \<open>VersionBits\<close>: the
      deployment state machine of \<^verbatim>\<open>versionbits.cpp\<close> with its cache, against its recursive definition.
    \<^item> \<open>Opcodes\<close>, \<open>Script\<close>: \<^verbatim>\<open>script/script.h\<close> and \<^verbatim>\<open>script.cpp\<close>. \<open>Interpreter\<close>: \<^verbatim>\<open>EvalScript\<close> with every opcode, and \<^verbatim>\<open>VerifyScript\<close>, over a
      record of the checker's operations. \<open>ScriptRules\<close>: flags of \<^verbatim>\<open>policy/policy.h\<close>, templates of \<^verbatim>\<open>script/standard.cpp\<close>, and the
      properties of the interpreter; the locale \<open>soft_fork\<close> compares two sets of flags.
    \<^item> \<open>Serialize\<close>: \<^verbatim>\<open>serialize.h\<close>. The locales \<open>codec\<close> (what is written is read back) and \<open>strict_codec\<close> (and nothing else is read) are the
      contract of a serializable type, interpreted for every type that the model writes. \<open>Transaction\<close>: \<^verbatim>\<open>primitives/transaction.h\<close>.
      \<open>SigHash\<close>: \<^verbatim>\<open>SignatureHash\<close> and \<^verbatim>\<open>TransactionSignatureChecker\<close>. \<open>LockTime\<close>: \<^verbatim>\<open>IsFinalTx\<close> and sequence locks of \<^verbatim>\<open>main.cpp\<close>.
    \<^item> \<open>Coins\<close>: \<^verbatim>\<open>CCoins\<close>, the write-back cache; the locale \<open>coins_view\<close> is the contract of \<^verbatim>\<open>CCoinsView\<close>, with the form in which a view keeps
      the coins. \<open>Ledger\<close>: \<^verbatim>\<open>UpdateCoins\<close>, undo data, \<^verbatim>\<open>DisconnectBlock\<close>. \<open>Compressor\<close>: how coins and
      undo data are stored (\<^verbatim>\<open>compressor.cpp\<close>, \<^verbatim>\<open>coins.h\<close>, \<^verbatim>\<open>undo.h\<close>); every encoding is a \<open>codec\<close>, given that decompressing a key inverts
      dropping its second coordinate; of a negative version seven bits are stored. \<open>CoinsDB\<close>: the database of \<^verbatim>\<open>txdb.cpp\<close>, whose records are these
      bytes; it interprets \<open>coins_view\<close> for the database and for the cache above it.
    \<^item> \<open>Validation\<close>: \<^verbatim>\<open>CValidationState\<close>, \<^verbatim>\<open>CheckTransaction\<close>, \<^verbatim>\<open>CheckTxInputs\<close>, \<^verbatim>\<open>CheckInputs\<close>. \<open>Merkle\<close>: \<^verbatim>\<open>consensus/merkle.cpp\<close>.
      \<open>Block\<close>: \<^verbatim>\<open>CheckBlock\<close> and the checks against the headers. \<open>CheckQueue\<close>: \<^verbatim>\<open>checkqueue.h\<close> as a step relation of any number of
      threads. \<open>Connect\<close>: \<^verbatim>\<open>ConnectBlock\<close> and \<^verbatim>\<open>checkpoints.cpp\<close>. \<open>Supply\<close>: what chains of blocks do to the amount of money.

    \<^item> \<open>LongData\<close>: the messages in outputs that are particular to LONG, their readers in \<^verbatim>\<open>script/standard.cpp\<close> and their writers in
      \<^verbatim>\<open>rpcrawtransaction.cpp\<close>; an access beyond the end of a vector is a value of its own. \<open>Standard\<close>: \<^verbatim>\<open>Solver\<close>, destinations, and the relay
      policy of \<^verbatim>\<open>policy/policy.cpp\<close>.
    \<^item> \<open>Bloom\<close>: the filters of light clients and the rolling filter of \<^verbatim>\<open>bloom.cpp\<close>. \<open>PartialMerkle\<close>: the proofs of \<^verbatim>\<open>merkleblock.cpp\<close> that transactions
      are in a block, built, written, read and checked.

    \<^item> \<open>BlockIndex\<close>: the global state of \<^verbatim>\<open>main.cpp\<close> on the known blocks, with the set of candidates for the best chain. \<open>BestChain\<close>: the files, the
      connection of tips, \<^verbatim>\<open>ActivateBestChain\<close>, \<^verbatim>\<open>FlushStateToDisk\<close> and what calls them, over a record of answers of the machine. \<open>Candidates\<close>: the
      set of candidates as an ordered set (the locale \<open>ordered_set\<close>) and its invariant. \<open>Activate\<close>: the invariant along every step to the best
      chain. \<open>FlushState\<close>: what is written, and what is lost when a write fails.

  \<^bold>\<open>Conventions.\<close> \<^verbatim>\<open>intN_t\<close> that cannot wrap in the range the code admits is \<^typ>\<open>int\<close> with the range as an invariant or hypothesis; counters that
  wrap by design, and everything unsigned whose wrap-around matters, is a word. A null or dangling pointer, an index out of range or a
  failing \<^verbatim>\<open>assert\<close> is \<open>None\<close> or the failure \<open>Aborted\<close>, so that a theorem that a function returns also says that none of these happens.
  A reference parameter is an argument and a component of the result. Hash functions and elliptic curve operations, the network-adjusted
  time and other state from outside are arguments of the definitions; assumptions on them (collision freedom on the values at hand, 32-byte
  results) are hypotheses of the properties that need them.

  \<^bold>\<open>Loops, bounds, fuel.\<close> Loops are structural recursions over the data they traverse or have a measure; loops over pointers that a broken
  tree could make endless are \<open>partial_function (option)\<close>, and the theorems on them state that they return. \<^verbatim>\<open>ActivateBestChain\<close> does not always
  return, as a property shows for its passes (\<open>activate_pass\<close>), each of which does; it returns exactly if some number of passes ends it
  (\<open>ActivateBestChain_passes\<close>), and the property on its result speaks of the calls that do. The merkle computation has 32
  levels, as the array of the code, and a partial tree a height below 32; a block has fewer than \<open>2 ^ 31\<close> transactions because of its size limit.

  \<^bold>\<open>Properties.\<close> The theorems labelled \<open>C\<close> and a number, the important ones first: the active chain ends in the best usable block,
  and when it does not; the supply of money stays within its limit and blocks
  create no value beyond their subsidy; the parallel check answers as the sequential one and always returns; disconnecting undoes
  connecting, and caches agree with the database up to the encoding of a negative version; rejected blocks never poison a good one, and merkle roots bind their transactions;
  proofs for light clients are complete and show nothing false; exactly which transactions and inputs are accepted; messages are read back as they were written, and which of them are read
  beyond their end; soft-fork compatibility, limits and spending conditions of scripts; what signatures
  commit to; difficulty retargeting and proof of work; the block tree; big-integer arithmetic; encodings.

  \<^bold>\<open>Not modelled.\<close> The signature cache (a cache of positive answers in \<^verbatim>\<open>script/sigcache.cpp\<close>), logging, and the optional indexes by address,
  timestamp and spent output, since they do not influence validity; pruning, the memory pool with the mining of blocks from it, and the loading of the block index at start-up; floating-point
  numbers (priorities, progress estimates, difficulty for display); printing. Networking, RPC, wallet and graphical interface are outside
  the consensus code.
\<close>

end
